(* ===== verification/Prelude.thy ===== *)
theory Prelude
  imports
    Main
    Complex_Main
    "HOL-Library.AList"
    "HOL-Library.Multiset"
    "HOL-Library.Product_Lexorder"
    "HOL-Library.List_Lexorder"
    "HOL-Library.Char_ord"
begin

text \<open>
  What every component theory shares: the result type of code that raises, its bind and its
  loop over a list, decimal numerals as the code prints them, and generic facts on lists,
  association lists (a Python dict in insertion order) and sums.

  A function of the source that raises is a function into \<open>'e + 'a\<close>: \<open>Inl e\<close> is the
  exception \<open>e\<close>, \<open>Inr x\<close> the returned value. \<open>bindR\<close> runs the next statement,
  \<open>guardR\<close> is an \<open>if ...: raise\<close>, \<open>traverseR\<close> a list comprehension whose element
  may raise. The collection \<open>result_simps\<close> unfolds them.
\<close>

named_theorems result_simps "facts that open a chain of raising statements"

type_synonym ('e, 'a) result = "'e + 'a"

definition bindR :: "('e, 'a) result \<Rightarrow> ('a \<Rightarrow> ('e, 'b) result) \<Rightarrow> ('e, 'b) result" where
  "bindR m f = (case m of Inl e \<Rightarrow> Inl e | Inr x \<Rightarrow> f x)"

definition guardR :: "bool \<Rightarrow> 'e \<Rightarrow> ('e, unit) result" where
  "guardR ok e = (if ok then Inr () else Inl e)"

fun traverseR :: "('a \<Rightarrow> ('e, 'b) result) \<Rightarrow> 'a list \<Rightarrow> ('e, 'b list) result" where
  "traverseR f [] = Inr []"
| "traverseR f (x # xs) = bindR (f x) (\<lambda>y. bindR (traverseR f xs) (\<lambda>ys. Inr (y # ys)))"

fun foldR :: "('s \<Rightarrow> 'a \<Rightarrow> ('e, 's) result) \<Rightarrow> 's \<Rightarrow> 'a list \<Rightarrow> ('e, 's) result" where
  "foldR f s [] = Inr s"
| "foldR f s (x # xs) = bindR (f s x) (\<lambda>s'. foldR f s' xs)"

lemma bindR_simps [simp]: "bindR (Inl e) f = Inl e" "bindR (Inr x) f = f x"
  by (simp_all add: bindR_def)

lemma bindR_Inr_iff [result_simps]: "bindR m f = Inr y \<longleftrightarrow> (\<exists>x. m = Inr x \<and> f x = Inr y)"
  by (cases m) (auto simp: bindR_def)

lemma bindR_Inl_iff [result_simps]:
  "bindR m f = Inl e \<longleftrightarrow> m = Inl e \<or> (\<exists>x. m = Inr x \<and> f x = Inl e)"
  by (cases m) (auto simp: bindR_def)

lemma guardR_Inr_iff [result_simps]: "guardR ok e = Inr u \<longleftrightarrow> ok"
  by (simp add: guardR_def)

lemma guardR_Inl_iff [result_simps]: "guardR ok e = Inl e' \<longleftrightarrow> \<not> ok \<and> e' = e"
  by (auto simp: guardR_def)

lemma guardR_simps [simp]: "guardR True e = Inr ()" "guardR False e = Inl e"
  by (simp_all add: guardR_def)

lemma traverseR_length: "traverseR f xs = Inr ys \<Longrightarrow> length ys = length xs"
  by (induction xs arbitrary: ys) (auto simp: result_simps)

lemma traverseR_total: "(\<And>x. x \<in> set xs \<Longrightarrow> f x = Inr (g x)) \<Longrightarrow> traverseR f xs = Inr (map g xs)"
  by (induction xs) auto

lemma traverseR_same: "(\<And>x. x \<in> set xs \<Longrightarrow> f x = Inr x) \<Longrightarrow> traverseR f xs = Inr xs"
  by (induction xs) auto

lemma traverseR_conv:
  "traverseR f xs = Inr ys \<longleftrightarrow> list_all2 (\<lambda>x y. f x = Inr y) xs ys"
  by (induction xs arbitrary: ys) (auto simp: result_simps list_all2_Cons1)

lemma foldR_append:
  "foldR f s (xs @ ys) = bindR (foldR f s xs) (\<lambda>s'. foldR f s' ys)"
  by (induction xs arbitrary: s) (auto simp: bindR_def split: sum.splits)

text \<open>An invariant kept by every step that does not raise is kept by the loop.\<close>

lemma foldR_invariant:
  assumes "foldR f s xs = Inr s'" "I s"
    and step: "\<And>s x s'. x \<in> set xs \<Longrightarrow> I s \<Longrightarrow> f s x = Inr s' \<Longrightarrow> I s'"
  shows "I s'"
  using assms(1,2) step
proof (induction xs arbitrary: s)
  case (Cons x xs)
  then obtain s1 where "f s x = Inr s1" "foldR f s1 xs = Inr s'"
    by (auto simp: result_simps)
  moreover from this have "I s1" using Cons.prems(2) Cons.prems(3)[of x] by simp
  ultimately show ?case using Cons.IH Cons.prems(3) by (metis list.set_intros(2))
qed simp

lemma foldR_map: "foldR f s (map g xs) = foldR (\<lambda>s x. f s (g x)) s xs"
  by (induction xs arbitrary: s) simp_all

lemma foldR_total:
  "(\<And>s x. x \<in> set xs \<Longrightarrow> \<exists>s'. f s x = Inr s') \<Longrightarrow> \<exists>s'. foldR f s xs = Inr s'"
proof (induction xs arbitrary: s)
  case (Cons x xs)
  then obtain s1 where "f s x = Inr s1" by (metis list.set_intros(1))
  with Cons show ?case by simp
qed simp

subsection \<open>Whole numbers as decimal text\<close>

definition digit_char :: "nat \<Rightarrow> char" where
  "digit_char d = ''0123456789'' ! d"

fun show_nat :: "nat \<Rightarrow> string" where
  "show_nat n = (if n < 10 then [digit_char n] else show_nat (n div 10) @ [digit_char (n mod 10)])"

declare show_nat.simps [simp del]

definition digit_value :: "char \<Rightarrow> nat" where
  "digit_value c = of_char c - 48"

definition is_digit :: "char \<Rightarrow> bool" where
  "is_digit c \<longleftrightarrow> 48 \<le> (of_char c :: nat) \<and> (of_char c :: nat) \<le> 57"

text \<open>\<open>int(text)\<close> for a text of ASCII digits.\<close>

definition read_nat :: "string \<Rightarrow> nat" where
  "read_nat s = foldl (\<lambda>acc c. 10 * acc + digit_value c) 0 s"

text \<open>\<open>f"{n:0wd}"\<close>: decimal text padded on the left with zeros to width \<open>w\<close>.\<close>

definition pad_nat :: "nat \<Rightarrow> nat \<Rightarrow> string" where
  "pad_nat w n = replicate (w - length (show_nat n)) (CHR ''0'') @ show_nat n"

lemma less_ten: "d < 10 \<longleftrightarrow> d \<in> {0, 1, 2, 3, 4, 5, 6, 7, 8, 9 :: nat}"
  by auto

lemma of_digit_char: "d < 10 \<Longrightarrow> (of_char (digit_char d) :: nat) = 48 + d"
  unfolding less_ten by (auto simp: digit_char_def)

lemma digit_value_char [simp]: "d < 10 \<Longrightarrow> digit_value (digit_char d) = d"
  using of_digit_char [of d] by (simp add: digit_value_def)

lemma is_digit_char [simp]: "d < 10 \<Longrightarrow> is_digit (digit_char d)"
  using of_digit_char [of d] by (simp add: is_digit_def)


lemma read_nat_snoc: "read_nat (s @ [c]) = 10 * read_nat s + digit_value c"
  by (simp add: read_nat_def)

lemma read_show_nat [simp]: "read_nat (show_nat n) = n"
proof (induction n rule: show_nat.induct)
  case (1 n)
  show ?case
  proof (cases "n < 10")
    case True
    then show ?thesis by (simp add: show_nat.simps [of n] read_nat_def)
  next
    case False
    then have "read_nat (show_nat (n div 10)) = n div 10" by (rule 1)
    with False show ?thesis by (simp add: show_nat.simps [of n] read_nat_snoc)
  qed
qed

lemma show_nat_digits: "c \<in> set (show_nat n) \<Longrightarrow> is_digit c"
proof (induction n rule: show_nat.induct)
  case (1 n)
  then show ?case by (cases "n < 10") (auto simp: show_nat.simps [of n])
qed

lemma show_nat_not_Nil [simp]: "show_nat n \<noteq> []"
  by (simp add: show_nat.simps [of n])

lemma length_show_nat: "n < 10 ^ k \<Longrightarrow> 0 < k \<Longrightarrow> length (show_nat n) \<le> k"
proof (induction k arbitrary: n)
  case (Suc k)
  show ?case
  proof (cases "n < 10")
    case True
    then show ?thesis by (simp add: show_nat.simps [of n])
  next
    case False
    with Suc.prems have "n div 10 < 10 ^ k" "0 < k"
      by (auto simp: div_less_iff_less_mult mult.commute intro!: gr0I)
    then have "length (show_nat (n div 10)) \<le> k" by (rule Suc.IH)
    with False show ?thesis by (simp add: show_nat.simps [of n])
  qed
qed simp

lemma read_nat_zeros: "read_nat (replicate k (CHR ''0'') @ s) = read_nat s"
  by (induction k) (simp_all add: read_nat_def digit_value_def)

lemma read_pad_nat [simp]: "read_nat (pad_nat w n) = n"
  by (simp add: pad_nat_def read_nat_zeros)

lemma length_pad_nat: "n < 10 ^ w \<Longrightarrow> 0 < w \<Longrightarrow> length (pad_nat w n) = w"
  using length_show_nat [of n w] by (simp add: pad_nat_def)

lemma pad_nat_digits: "c \<in> set (pad_nat w n) \<Longrightarrow> is_digit c"
  by (auto simp: pad_nat_def is_digit_def dest: show_nat_digits)

text \<open>Text of a known width reads back to itself when it is all digits.\<close>

lemma read_nat_bound: "list_all is_digit s \<Longrightarrow> read_nat s < 10 ^ length s"
proof (induction s rule: rev_induct)
  case (snoc c s)
  then have "digit_value c \<le> 9" "read_nat s < 10 ^ length s"
    by (auto simp: is_digit_def digit_value_def)
  then show ?case by (simp add: read_nat_snoc)
qed (simp add: read_nat_def)

subsection \<open>Lists, sums and association lists\<close>

lemma sum_list_map_if_zero: "(\<And>x. x \<in> set xs \<Longrightarrow> f x = 0) \<Longrightarrow> sum_list (map f xs) = (0 :: 'a :: comm_monoid_add)"
  by (induction xs) auto

lemma sum_list_nonneg_map: "(\<And>x. x \<in> set xs \<Longrightarrow> 0 \<le> f x) \<Longrightarrow> 0 \<le> (\<Sum>x\<leftarrow>xs. f x :: 'a :: ordered_comm_monoid_add)"
  by (induction xs) auto

lemma sum_list_map_sort_key: "(\<Sum>x\<leftarrow>sort_key k xs. f x) = (\<Sum>x\<leftarrow>xs. f x :: 'a :: comm_monoid_add)"
  by (metis mset_map mset_sort sum_mset_sum_list)

lemma sum_list_filter_mset:
  assumes "mset xs = mset ys"
  shows "(\<Sum>x\<leftarrow>filter P xs. f x) = (\<Sum>x\<leftarrow>filter P ys. f x :: 'a :: comm_monoid_add)"
proof -
  have "mset (map f (filter P xs)) = mset (map f (filter P ys))" using assms by simp
  then have "sum_mset (mset (map f (filter P xs))) = sum_mset (mset (map f (filter P ys)))" by (rule arg_cong)
  then show ?thesis by (simp only: sum_mset_sum_list)
qed

lemma list_all2_right: "list_all2 P xs ys \<Longrightarrow> y \<in> set ys \<Longrightarrow> \<exists>x\<in>set xs. P x y"
  by (induction rule: list_all2_induct) auto

lemma list_all2_left: "list_all2 P xs ys \<Longrightarrow> x \<in> set xs \<Longrightarrow> \<exists>y\<in>set ys. P x y"
  by (induction rule: list_all2_induct) auto

lemma map_of_update: "map_of (AList.update k v ps) = (map_of ps)(k \<mapsto> v)"
  by (simp add: update_conv')

lemma Min_list_le: "x \<in> set xs \<Longrightarrow> Min (set xs) \<le> (x :: 'a :: linorder)"
  by simp

lemma le_div_int_iff: "0 < r \<Longrightarrow> n \<le> a div r \<longleftrightarrow> n * r \<le> (a :: int)"
proof
  assume r: "0 < r" and "n \<le> a div r"
  then have "n * r \<le> (a div r) * r" by (intro mult_right_mono) auto
  also have "\<dots> \<le> a" using pos_mod_sign [OF r, of a] div_mult_mod_eq [of a r] by linarith
  finally show "n * r \<le> a" .
next
  assume r: "0 < r" and "n * r \<le> a"
  then have "(n * r) div r \<le> a div r" by (intro zdiv_mono1)
  with r show "n \<le> a div r" by simp
qed

text \<open>
  \<open>group_by\<close>: a \<open>defaultdict(list)\<close> filled in one pass, in insertion order of its keys. It lists
  each key once with the elements that have it, in their own order.
\<close>

fun group_add :: "'k \<Rightarrow> 'v \<Rightarrow> ('k \<times> 'v list) list \<Rightarrow> ('k \<times> 'v list) list" where
  "group_add k v [] = [(k, [v])]"
| "group_add k v ((k', vs) # gs) = (if k' = k then (k', vs @ [v]) # gs else (k', vs) # group_add k v gs)"

definition group_by :: "('v \<Rightarrow> 'k) \<Rightarrow> 'v list \<Rightarrow> ('k \<times> 'v list) list" where
  "group_by key vs = fold (\<lambda>v. group_add (key v) v) vs []"

definition firsts :: "'a list \<Rightarrow> 'a list" where
  "firsts xs = rev (remdups (rev xs))"

lemma firsts_snoc: "firsts (xs @ [x]) = (if x \<in> set xs then firsts xs else firsts xs @ [x])"
  by (simp add: firsts_def)

lemma set_firsts [simp]: "set (firsts xs) = set xs"
  by (simp add: firsts_def)

lemma distinct_firsts [simp]: "distinct (firsts xs)"
  by (simp add: firsts_def)

lemma group_add_map:
  "distinct ks \<Longrightarrow> k \<in> set ks \<Longrightarrow>
     group_add k v (map (\<lambda>k. (k, g k)) ks) = map (\<lambda>k'. (k', if k' = k then g k' @ [v] else g k')) ks"
  by (induction ks) auto

lemma group_add_new:
  "k \<notin> set ks \<Longrightarrow> group_add k v (map (\<lambda>k. (k, g k)) ks) = map (\<lambda>k. (k, g k)) ks @ [(k, [v])]"
  by (induction ks) auto

lemma group_by_eq: "group_by key vs = map (\<lambda>k. (k, filter (\<lambda>v. key v = k) vs)) (firsts (map key vs))"
proof (induction vs rule: rev_induct)
  case (snoc v vs)
  let ?g = "\<lambda>k. filter (\<lambda>w. key w = k) vs"
  have step: "group_by key (vs @ [v]) = group_add (key v) v (map (\<lambda>k. (k, ?g k)) (firsts (map key vs)))"
    using snoc by (simp add: group_by_def)
  show ?case
  proof (cases "key v \<in> key ` set vs")
    case True
    then show ?thesis unfolding step by (subst group_add_map) (auto simp: firsts_snoc)
  next
    case False
    then have none: "?g (key v) = []" by (auto simp: filter_empty_conv image_iff)
    have "map (\<lambda>k. (k, ?g k)) (firsts (map key vs)) = map (\<lambda>k. (k, filter (\<lambda>w. key w = k) (vs @ [v]))) (firsts (map key vs))"
      by (rule map_cong) (use False in auto)
    with False none show ?thesis unfolding step by (subst group_add_new) (auto simp: firsts_snoc)
  qed
qed (simp add: group_by_def firsts_def)

lemma sum_list_distinct_map: "distinct ks \<Longrightarrow> (\<Sum>k\<leftarrow>ks. f k) = (\<Sum>k\<in>set ks. f k :: 'a :: comm_monoid_add)"
  by (simp add: sum_list_distinct_conv_sum_set)

text \<open>A \<open>defaultdict(int)\<close> of running sums, an association list in insertion order.\<close>

definition dict_get :: "('k \<times> int) list \<Rightarrow> 'k \<Rightarrow> int" where
  "dict_get d k = (case map_of d k of None \<Rightarrow> 0 | Some n \<Rightarrow> n)"

definition tally_on :: "('k \<times> int) list \<Rightarrow> ('a \<Rightarrow> 'k) \<Rightarrow> ('a \<Rightarrow> int) \<Rightarrow> 'a list \<Rightarrow> ('k \<times> int) list" where
  "tally_on d key val xs = fold (\<lambda>x d. AList.update (key x) (dict_get d (key x) + val x) d) xs d"

definition sum_at :: "('a \<Rightarrow> 'k) \<Rightarrow> ('a \<Rightarrow> int) \<Rightarrow> 'k \<Rightarrow> 'a list \<Rightarrow> int" where
  "sum_at key val k xs = (\<Sum>x\<leftarrow>filter (\<lambda>x. key x = k) xs. val x)"

lemma sum_at_simps [simp]: "sum_at key val k [] = 0"
  "sum_at key val k (x # xs) = (if key x = k then val x else 0) + sum_at key val k xs"
  "sum_at key val k (xs @ ys) = sum_at key val k xs + sum_at key val k ys"
  by (simp_all add: sum_at_def)

lemma dict_get_update: "dict_get (AList.update k v d) k' = (if k' = k then v else dict_get d k')"
  by (simp add: dict_get_def map_of_update)

lemma dict_get_tally: "dict_get (tally_on d key val xs) k = dict_get d k + sum_at key val k xs"
  by (induction xs arbitrary: d) (auto simp: tally_on_def dict_get_update)

lemma keys_tally: "fst ` set (tally_on d key val xs) = fst ` set d \<union> key ` set xs"
  by (induction xs arbitrary: d) (auto simp: tally_on_def dom_update)

lemma distinct_tally: "distinct (map fst d) \<Longrightarrow> distinct (map fst (tally_on d key val xs))"
  by (induction xs arbitrary: d) (auto simp: tally_on_def distinct_update)

lemma tally_entry:
  assumes "(k, n) \<in> set (tally_on [] key val xs)"
  shows "n = sum_at key val k xs"
proof -
  have "map_of (tally_on [] key val xs) k = Some n"
    using assms distinct_tally [of "[]" key val xs] by simp
  then have "dict_get (tally_on [] key val xs) k = n" by (simp add: dict_get_def)
  then show ?thesis by (simp add: dict_get_tally) (simp add: dict_get_def)
qed

lemma tally_total:
  fixes g :: "'k \<Rightarrow> bool"
  shows "(\<Sum>(k, n)\<leftarrow>tally_on d key val xs. if g k then n else 0)
     = (\<Sum>(k, n)\<leftarrow>d. if g k then n else 0) + (\<Sum>x\<leftarrow>xs. if g (key x) then val x else 0)"
proof (induction xs arbitrary: d)
  case (Cons x xs)
  have "(\<Sum>(k, n)\<leftarrow>AList.update (key x) (dict_get d (key x) + val x) d. if g k then n else 0)
      = (\<Sum>(k, n)\<leftarrow>d. if g k then n else 0) + (if g (key x) then val x else 0)"
  proof (induction d)
    case (Cons p d)
    then show ?case by (cases p) (auto simp: dict_get_def)
  qed (simp add: dict_get_def)
  then show ?case using Cons.IH [of "AList.update (key x) (dict_get d (key x) + val x) d"] by (simp add: tally_on_def)
qed (simp add: tally_on_def)

end
