(* ===== verification/Decimal.thy ===== *)
theory Decimal
  imports Prelude
begin

text \<open>
  The part of Python's \<open>decimal.Decimal\<close> that the money code and the option code use. A finite
  decimal is its signed coefficient and its exponent, as \<open>Decimal.as_tuple\<close> gives them; its
  value is \<open>coefficient * 10 ^ exponent\<close>. Signed zeros are not told apart and neither are the
  two infinities: no code modelled here asks.

  \<open>digits\<close> is \<open>len(as_tuple().digits)\<close>, \<open>adjusted\<close> is \<open>Decimal.adjusted\<close>,
  \<open>trail\<close> the number of trailing zero digits, \<open>strip\<close> the value of \<open>Decimal.normalize\<close>
  where no rounding happens. \<open>half_even_div\<close> is \<open>ROUND_HALF_EVEN\<close> on a quotient.
\<close>

datatype decimal = Finite (coefficient: int) (exponent: int) | Infinite | Not_A_Number

text \<open>
  A Python value where a number is expected. A float is carried as the decimal its \<open>str\<close> spells, a
  text as the decimal it spells (\<open>None\<close>: \<open>Decimal\<close> raises \<open>InvalidOperation\<close> on it). Reading
  the text is Python's, everything after it is modelled.
\<close>

datatype py_value =
    PyBool bool
  | PyInt int
  | PyFloat decimal
  | PyStr "decimal option"
  | PyDecimal decimal
  | PyOther

definition is_finite :: "decimal \<Rightarrow> bool" where
  "is_finite d \<longleftrightarrow> (case d of Finite _ _ \<Rightarrow> True | _ \<Rightarrow> False)"

fun dval :: "decimal \<Rightarrow> rat" where
  "dval (Finite c e) = of_int c * 10 powi e"
| "dval _ = 0"

definition digits :: "int \<Rightarrow> nat" where
  "digits c = length (show_nat (nat \<bar>c\<bar>))"

definition adjusted :: "int \<Rightarrow> int \<Rightarrow> int" where
  "adjusted c e = e + int (digits c) - 1"

fun trail :: "nat \<Rightarrow> nat" where
  "trail n = (if n = 0 \<or> n mod 10 \<noteq> 0 then 0 else Suc (trail (n div 10)))"

declare trail.simps [simp del]

definition strip :: "int \<Rightarrow> int \<Rightarrow> decimal" where
  "strip c e =
     (if c = 0 then Finite 0 0
      else let t = trail (nat \<bar>c\<bar>) in Finite (c div 10 ^ t) (e + int t))"

definition half_even_div :: "int \<Rightarrow> int \<Rightarrow> int" where
  "half_even_div a b =
     (let q = a div b; r = a mod b
      in if 2 * r < b then q else if b < 2 * r then q + 1 else if even q then q else q + 1)"

subsection \<open>Trailing zeros\<close>

lemma trail_dvd: "10 ^ trail n dvd n"
proof (induction n rule: trail.induct)
  case (1 n)
  show ?case
  proof (cases "n = 0 \<or> n mod 10 \<noteq> 0")
    case True
    then show ?thesis by (simp add: trail.simps [of n])
  next
    case False
    then have "10 ^ trail (n div 10) dvd n div 10" by (rule 1)
    then have "10 * 10 ^ trail (n div 10) dvd 10 * (n div 10)" by (rule mult_dvd_mono [OF dvd_refl])
    with False show ?thesis by (simp add: trail.simps [of n] mod_0_imp_dvd)
  qed
qed

lemma trail_not_dvd: "0 < n \<Longrightarrow> \<not> 10 dvd n div 10 ^ trail n"
proof (induction n rule: trail.induct)
  case (1 n)
  show ?case
  proof (cases "n mod 10 = 0")
    case True
    with "1.prems" have "0 < n div 10" by presburger
    with 1 True have "\<not> 10 dvd n div 10 div 10 ^ trail (n div 10)" by simp
    with True "1.prems" show ?thesis
      by (simp add: trail.simps [of n] div_mult2_eq)
  next
    case False
    then show ?thesis by (simp add: trail.simps [of n] dvd_eq_mod_eq_0)
  qed
qed

lemma trail_dvd_int: "(10 :: int) ^ trail (nat \<bar>c\<bar>) dvd c"
proof -
  have "int (10 ^ trail (nat \<bar>c\<bar>)) dvd int (nat \<bar>c\<bar>)"
    using trail_dvd [of "nat \<bar>c\<bar>"] by (simp only: of_nat_dvd_iff)
  then show ?thesis by simp
qed

lemma trail_not_dvd_int:
  assumes "c \<noteq> 0"
  shows "\<not> (10 :: int) dvd c div 10 ^ trail (nat \<bar>c\<bar>)"
proof
  let ?t = "trail (nat \<bar>c\<bar>)"
  assume "10 dvd c div 10 ^ ?t"
  then have "10 ^ ?t * 10 dvd c" using trail_dvd_int [of c] by (simp add: dvd_div_iff_mult mult.commute)
  then have "int (10 ^ ?t * 10) dvd int (nat \<bar>c\<bar>)" by simp
  then have "10 ^ ?t * 10 dvd nat \<bar>c\<bar>" by (simp only: of_nat_dvd_iff)
  then have "10 dvd nat \<bar>c\<bar> div 10 ^ ?t"
    using trail_dvd [of "nat \<bar>c\<bar>"] by (metis dvd_mult_imp_div mult.commute)
  with trail_not_dvd [of "nat \<bar>c\<bar>"] assms show False by simp
qed

lemma dval_strip [simp]: "dval (strip c e) = dval (Finite c e)"
proof (cases "c = 0")
  case False
  let ?t = "trail (nat \<bar>c\<bar>)"
  have "(of_int c :: rat) = of_int (c div 10 ^ ?t) * 10 ^ ?t"
    using trail_dvd_int [of c] by (metis dvd_div_mult_self of_int_mult of_int_numeral of_int_power)
  with False show ?thesis
    by (simp add: strip_def Let_def power_int_add algebra_simps)
qed (simp add: strip_def)

text \<open>Stripped decimals are canonical: equal values are equal decimals.\<close>

lemma strip_cases:
  obtains "c = 0" "strip c e = Finite 0 0"
  | c' e' where "c \<noteq> 0" "strip c e = Finite c' e'" "c' \<noteq> 0" "\<not> 10 dvd c'"
proof (cases "c = 0")
  case False
  let ?t = "trail (nat \<bar>c\<bar>)"
  have "strip c e = Finite (c div 10 ^ ?t) (e + int ?t)" using False by (simp add: strip_def Let_def)
  moreover have "\<not> 10 dvd c div 10 ^ ?t" using False by (rule trail_not_dvd_int)
  ultimately show thesis using False by (intro that(2)) auto
qed (simp add: strip_def that(1))

lemma same_value_same_exponent:
  assumes "(of_int a :: rat) * 10 powi e = of_int b * 10 powi f" "\<not> 10 dvd a"
  shows "f \<le> e \<or> a = 0"
proof (rule ccontr)
  assume "\<not> (f \<le> e \<or> a = 0)"
  then have ef: "e < f" by simp
  then have "(10::rat) powi f = 10 powi e * 10 powi (f - e)"
    by (simp flip: power_int_add)
  with assms(1) have "(of_int a :: rat) = of_int b * 10 powi (f - e)" by (simp add: mult.assoc)
  also have "\<dots> = of_int (b * 10 ^ nat (f - e))" using ef by (simp add: power_int_def)
  finally have "a = b * 10 ^ nat (f - e)" by (simp only: of_int_eq_iff)
  moreover have "(10 :: int) dvd 10 ^ nat (f - e)" using ef by (intro dvd_power) auto
  ultimately show False using assms(2) by simp
qed

lemma stripped_unique:
  assumes "(of_int a :: rat) * 10 powi e = of_int b * 10 powi f" "\<not> 10 dvd a" "\<not> 10 dvd b"
  shows "a = b \<and> e = f"
proof -
  have "a \<noteq> 0" "b \<noteq> 0" using assms by auto
  with assms same_value_same_exponent [of a e b f] same_value_same_exponent [of b f a e]
  have "e = f" by simp
  with assms(1) show ?thesis by simp
qed

lemma strip_canonical:
  assumes "dval (Finite c e) = dval (Finite c' e')"
  shows "strip c e = strip c' e'"
proof -
  have eq: "dval (strip c e) = dval (strip c' e')" using assms by simp
  show ?thesis
    by (rule strip_cases [of c e]; rule strip_cases [of c' e'])
      (use eq in \<open>auto dest: stripped_unique\<close>)
qed

subsection \<open>Counting digits\<close>

lemma digits_le: "\<bar>c\<bar> < 10 ^ k \<Longrightarrow> 0 < k \<Longrightarrow> digits c \<le> k"
  unfolding digits_def by (rule length_show_nat) (auto simp: nat_less_iff)

lemma less_digits: "\<bar>c\<bar> < 10 ^ digits c"
proof -
  have "read_nat (show_nat (nat \<bar>c\<bar>)) < 10 ^ digits c"
    unfolding digits_def by (rule read_nat_bound) (auto simp: list_all_iff dest: show_nat_digits)
  then show ?thesis by (simp add: nat_less_iff)
qed

lemma digits_pos: "0 < digits c"
  by (simp add: digits_def)

subsection \<open>Rounding a quotient half to even\<close>

lemma half_even_div_bounds:
  assumes "0 < b"
  shows "2 * \<bar>half_even_div a b * b - a\<bar> \<le> b"
proof -
  define q r where "q = a div b" and "r = a mod b"
  have a: "a = q * b + r" and r: "0 \<le> r" "r < b" using assms by (auto simp: q_def r_def)
  have cases: "half_even_div a b = q \<and> 2 * r \<le> b \<or> half_even_div a b = q + 1 \<and> b \<le> 2 * r"
    by (auto simp: half_even_div_def Let_def q_def r_def)
  then show ?thesis
  proof
    assume "half_even_div a b = q \<and> 2 * r \<le> b"
    with a r show ?thesis by simp
  next
    assume h: "half_even_div a b = q + 1 \<and> b \<le> 2 * r"
    then have "half_even_div a b * b - a = b - r" using a by (simp add: algebra_simps)
    with h r show ?thesis by simp
  qed
qed

lemma half_even_div_between: "a div b \<le> half_even_div a b \<and> half_even_div a b \<le> a div b + 1"
  by (simp add: half_even_div_def Let_def)

lemma half_even_div_exact: "0 < b \<Longrightarrow> half_even_div (a * b) b = a"
  by (simp add: half_even_div_def Let_def)

end
