(* ===== verification/Exact.thy ===== *)
theory Exact
  imports Decimal
begin

text \<open>
  \<open>app/options/exact.py\<close>: decimals converted to whole units, or refused, and exact sums.

  Arguments are typed \<open>decimal\<close>, so the \<open>isinstance\<close> test of \<open>require_everyday\<close> has
  no counterpart; the words \<open>what\<close> and \<open>unit\<close> of a refusal are left out. \<open>ctx_exact\<close>
  is arithmetic in a decimal context that traps \<open>Inexact\<close>: a result whose significant digits
  exceed the precision raises. \<open>exact_sum_total\<close> shows that the precision the code computes
  is always enough, so the sum never raises and is the exact value.
\<close>

datatype value_error =
    Not_Finite_Number
  | Not_Everyday
  | Not_Whole_Units
  | Inexact_Raised
  | Bad_Value string

definition max_digits_above_the_point :: int where "max_digits_above_the_point = 12"
definition max_decimals :: int where "max_decimals = 40"
definition everyday_digits :: nat where
  "everyday_digits = nat (max_digits_above_the_point + 1 + max_decimals)"

definition require_everyday :: "decimal \<Rightarrow> (value_error, decimal) result" where
  "require_everyday amount =
     (case amount of
        Finite c e \<Rightarrow>
          if adjusted c e > max_digits_above_the_point \<or> e < - max_decimals
          then Inl Not_Everyday else Inr amount
      | _ \<Rightarrow> Inl Not_Finite_Number)"

text \<open>\<open>Decimal.as_integer_ratio\<close> of a finite decimal: numerator and denominator in lowest terms.\<close>

definition as_integer_ratio :: "int \<Rightarrow> int \<Rightarrow> int \<times> int" where
  "as_integer_ratio c e =
     (if 0 \<le> e then (c * 10 ^ nat e, 1)
      else let d = 10 ^ nat (- e); g = gcd c d in (c div g, d div g))"

definition whole_units :: "decimal \<Rightarrow> int \<Rightarrow> (value_error, int) result" where
  "whole_units amount units_per_one =
     bindR (require_everyday amount) (\<lambda>a.
       let (numerator, denominator) = as_integer_ratio (coefficient a) (exponent a);
           units = numerator * units_per_one div denominator;
           remainder = numerator * units_per_one mod denominator
       in if remainder \<noteq> 0 then Inl Not_Whole_Units else Inr units)"

text \<open>Exact decimal arithmetic, and the context that traps what it cannot hold.\<close>

definition ctx_exact :: "nat \<Rightarrow> decimal \<Rightarrow> (value_error, decimal) result" where
  "ctx_exact prec d =
     (case d of
        Finite c e \<Rightarrow>
          (case strip c e of Finite s _ \<Rightarrow> if digits s \<le> prec then Inr d else Inl Inexact_Raised
           | _ \<Rightarrow> Inl Inexact_Raised)
      | _ \<Rightarrow> Inr d)"

fun dmul :: "decimal \<Rightarrow> decimal \<Rightarrow> decimal" where
  "dmul (Finite a e) (Finite b f) = Finite (a * b) (e + f)"
| "dmul _ _ = Not_A_Number"

fun dadd :: "decimal \<Rightarrow> decimal \<Rightarrow> decimal" where
  "dadd (Finite a e) (Finite b f) =
     (let m = min e f in Finite (a * 10 ^ nat (e - m) + b * 10 ^ nat (f - m)) m)"
| "dadd _ _ = Not_A_Number"

fun bit_length :: "nat \<Rightarrow> nat" where
  "bit_length n = (if n = 0 then 0 else Suc (bit_length (n div 2)))"

declare bit_length.simps [simp del]

definition sum_precision :: "(int \<times> decimal) list \<Rightarrow> nat" where
  "sum_precision counted =
     everyday_digits
     + fold max (map (\<lambda>(m, _). bit_length (nat \<bar>m\<bar>) div 3 + 1) counted) 0
     + length counted"

definition exact_sum :: "(int \<times> decimal) list \<Rightarrow> (value_error, decimal) result" where
  "exact_sum terms =
     bindR (traverseR (\<lambda>(m, a). bindR (require_everyday a) (\<lambda>a'. Inr (m, a'))) terms) (\<lambda>counted.
       foldR (\<lambda>acc (m, a).
           bindR (ctx_exact (sum_precision counted) (dmul (Finite m 0) a)) (\<lambda>t.
             ctx_exact (sum_precision counted) (dadd acc t)))
         (Finite 0 0) counted)"

subsection \<open>Values\<close>

definition everyday :: "decimal \<Rightarrow> bool" where
  "everyday d \<longleftrightarrow> (\<exists>c e. d = Finite c e \<and> adjusted c e \<le> 12 \<and> - 40 \<le> e)"

lemma require_everyday_Inr: "require_everyday d = Inr d' \<longleftrightarrow> d' = d \<and> everyday d"
  by (cases d) (auto simp: require_everyday_def everyday_def max_digits_above_the_point_def max_decimals_def)

lemma everydayI: "everyday d \<Longrightarrow> require_everyday d = Inr d"
  by (simp add: require_everyday_Inr)

lemma powi_neg: "e < 0 \<Longrightarrow> (10::rat) powi e = 1 / 10 ^ nat (- e)"
  by (simp add: power_int_def inverse_eq_divide power_one_over)

lemma powi_nonneg: "0 \<le> e \<Longrightarrow> (10::rat) powi e = 10 ^ nat e"
  by (simp add: power_int_def)

lemma as_integer_ratio_value:
  assumes "as_integer_ratio c e = (n, d)"
  shows "0 < d \<and> dval (Finite c e) = of_int n / of_int d"
proof (cases "0 \<le> e")
  case True
  with assms show ?thesis by (auto simp: as_integer_ratio_def powi_nonneg)
next
  case False
  define p where "p = (10 :: int) ^ nat (- e)"
  define g where "g = gcd c p"
  have p: "0 < p" by (simp add: p_def)
  then have g: "0 < g" "g dvd c" "g dvd p" by (auto simp: g_def)
  from False assms have nd: "n = c div g" "d = p div g"
    by (auto simp: as_integer_ratio_def Let_def p_def g_def)
  have c: "c = n * g" and p': "p = d * g" using g nd by auto
  have "0 < d" using p p' g by (simp add: zero_less_mult_iff)
  moreover have "dval (Finite c e) = of_int c / of_int p"
    using False by (simp add: powi_neg p_def)
  ultimately show ?thesis using c p' g by simp
qed

lemma whole_units_Inr:
  "whole_units d u = Inr k \<longleftrightarrow> everyday d \<and> of_int k = dval d * of_int u"
proof (cases "everyday d")
  case True
  then obtain c e where d: "d = Finite c e" by (auto simp: everyday_def)
  obtain n m where nm: "as_integer_ratio c e = (n, m)" by fastforce
  have m: "0 < m" and v: "dval d = of_int n / of_int m"
    using as_integer_ratio_value [OF nm] d by auto
  have "whole_units d u = Inr k \<longleftrightarrow> n * u mod m = 0 \<and> k = n * u div m"
    using True d nm by (auto simp: whole_units_def everydayI)
  also have "\<dots> \<longleftrightarrow> k * m = n * u"
    using m by (metis dvd_div_mult_self dvd_eq_mod_eq_0 dvd_triv_right less_irrefl nonzero_mult_div_cancel_right)
  also have "\<dots> \<longleftrightarrow> (of_int (k * m) :: rat) = of_int (n * u)" by (simp only: of_int_eq_iff)
  also have "\<dots> \<longleftrightarrow> of_int k = dval d * of_int u"
  proof -
    have "(of_int (k * m) :: rat) = of_int (n * u) \<longleftrightarrow> of_int k * of_int m = dval d * of_int u * of_int m"
      using m v by simp
    also have "\<dots> \<longleftrightarrow> of_int k = dval d * of_int u" using m by simp
    finally show ?thesis .
  qed
  finally show ?thesis using True by simp
next
  case False
  then show ?thesis by (auto simp: whole_units_def result_simps require_everyday_Inr)
qed

lemma dval_dmul: "is_finite a \<Longrightarrow> is_finite b \<Longrightarrow> dval (dmul a b) = dval a * dval b"
  by (cases a; cases b) (auto simp: is_finite_def power_int_add)

lemma dval_dadd: "is_finite a \<Longrightarrow> is_finite b \<Longrightarrow> dval (dadd a b) = dval a + dval b"
proof -
  have *: "(10::rat) ^ nat (e - m) * 10 powi m = 10 powi e" if "m \<le> e" for e m :: int
    using that by (simp flip: power_int_of_nat add: power_int_add [symmetric])
  assume "is_finite a" "is_finite b"
  then show ?thesis
    by (cases a; cases b) (auto simp: is_finite_def Let_def distrib_right mult.assoc *)
qed

subsection \<open>The precision of an exact sum is enough\<close>

lemma less_bit_length: "n < 2 ^ bit_length n"
proof (induction n rule: bit_length.induct)
  case (1 n)
  then show ?case by (cases "n = 0") (auto simp: bit_length.simps [of n])
qed

lemma digits_of_multiple: "\<bar>m\<bar> < 10 ^ (bit_length (nat \<bar>m\<bar>) div 3 + 1)"
proof -
  let ?b = "bit_length (nat \<bar>m\<bar>)"
  have "(2 :: nat) ^ ?b = 2 ^ (?b mod 3 + 3 * (?b div 3))" by simp
  also have "\<dots> = 2 ^ (?b mod 3) * 8 ^ (?b div 3)" by (simp only: power_add power_mult) simp
  also have "\<dots> \<le> 10 * 10 ^ (?b div 3)"
  proof (rule mult_le_mono)
    have "(2 :: nat) ^ (?b mod 3) \<le> 2 ^ 2" by (rule power_increasing) auto
    then show "(2 :: nat) ^ (?b mod 3) \<le> 10" by simp
    show "(8 :: nat) ^ (?b div 3) \<le> 10 ^ (?b div 3)" by (rule power_mono) auto
  qed
  finally have "(2 :: nat) ^ ?b \<le> 10 ^ (?b div 3 + 1)" by simp
  with less_bit_length [of "nat \<bar>m\<bar>"] have "nat \<bar>m\<bar> < 10 ^ (?b div 3 + 1)"
    by (rule less_le_trans)
  then have "int (nat \<bar>m\<bar>) < int (10 ^ (?b div 3 + 1))" by (simp only: of_nat_less_iff)
  then show ?thesis by simp
qed

lemma everyday_scaled:
  assumes "everyday (Finite c e)"
  shows "\<bar>c\<bar> * 10 ^ nat (e + 40) < 10 ^ 53" "- 40 \<le> e"
proof -
  have e: "e + int (digits c) \<le> 13" "- 40 \<le> e"
    using assms by (auto simp: everyday_def adjusted_def)
  have "\<bar>c\<bar> * 10 ^ nat (e + 40) < 10 ^ digits c * 10 ^ nat (e + 40)"
    using less_digits [of c] by simp
  also have "\<dots> = 10 ^ (digits c + nat (e + 40))" by (simp add: power_add)
  also have "\<dots> \<le> (10 :: int) ^ 53" using e by (intro power_increasing) auto
  finally show "\<bar>c\<bar> * 10 ^ nat (e + 40) < 10 ^ 53" .
qed (use assms in \<open>auto simp: everyday_def\<close>)

lemma digits_div_le: "k dvd c \<Longrightarrow> \<bar>c\<bar> < 10 ^ p \<Longrightarrow> 0 < p \<Longrightarrow> digits (c div k) \<le> p"
proof -
  assume k: "k dvd c" and c: "\<bar>c\<bar> < 10 ^ p" and p: "0 < p"
  have "\<bar>c div k\<bar> \<le> \<bar>c\<bar>"
  proof (cases "k = 0")
    case False
    from k obtain j where j: "c = k * j" ..
    have "1 * \<bar>j\<bar> \<le> \<bar>k\<bar> * \<bar>j\<bar>" using False by (intro mult_right_mono) auto
    with j False show ?thesis by (simp add: abs_mult)
  qed simp
  with c p show ?thesis by (intro digits_le) auto
qed

lemma ctx_exact_ok:
  assumes "\<bar>c\<bar> < 10 ^ p" "0 < p"
  shows "ctx_exact p (Finite c e) = Inr (Finite c e)"
proof (cases "c = 0")
  case True
  with assms(2) show ?thesis
    by (simp add: ctx_exact_def strip_def digits_def show_nat.simps)
next
  case False
  have "digits (c div 10 ^ trail (nat \<bar>c\<bar>)) \<le> p"
    using assms by (intro digits_div_le trail_dvd_int) auto
  with False show ?thesis by (simp add: ctx_exact_def strip_def Let_def)
qed

text \<open>A figure of few digits is held as it is, without counting its digits.\<close>

lemma ctx_exact_small [code]:
  "ctx_exact prec d = (case d of
     Finite c e \<Rightarrow>
       if 0 < prec \<and> \<bar>c\<bar> < 10 ^ prec then Inr d
       else (case strip c e of Finite s _ \<Rightarrow> if digits s \<le> prec then Inr d else Inl Inexact_Raised
             | _ \<Rightarrow> Inl Inexact_Raised)
   | _ \<Rightarrow> Inr d)"
proof (cases "\<exists>c e. d = Finite c e \<and> 0 < prec \<and> \<bar>c\<bar> < 10 ^ prec")
  case True
  then show ?thesis by (auto simp: ctx_exact_ok)
next
  case False
  then show ?thesis by (auto simp: ctx_exact_def split: decimal.split)
qed

text \<open>
  The partial sum after \<open>k\<close> terms: exponent from -40 to 0, and, counted in units of \<open>10 ^ -40\<close>,
  at most \<open>k * 10 ^ (53 + D)\<close>, \<open>D\<close> the digits of the largest multiple.
\<close>

definition partial_sum_ok :: "nat \<Rightarrow> nat \<Rightarrow> decimal \<Rightarrow> bool" where
  "partial_sum_ok D k acc \<longleftrightarrow>
     (\<exists>c e. acc = Finite c e \<and> - 40 \<le> e \<and> e \<le> 0 \<and> \<bar>c\<bar> * 10 ^ nat (e + 40) \<le> int k * 10 ^ (53 + D))"

lemma partial_sum_step:
  assumes acc: "partial_sum_ok D k (Finite c e)" and a: "everyday (Finite b f)"
    and m: "\<bar>m\<bar> \<le> 10 ^ D"
  shows "partial_sum_ok D (Suc k) (dadd (Finite c e) (dmul (Finite m 0) (Finite b f)))"
proof -
  let ?g = "min e f"
  let ?s = "c * 10 ^ nat (e - ?g) + m * b * 10 ^ nat (f - ?g)"
  have e: "- 40 \<le> e" "e \<le> 0" "\<bar>c\<bar> * 10 ^ nat (e + 40) \<le> int k * 10 ^ (53 + D)"
    using acc by (auto simp: partial_sum_ok_def)
  note b = everyday_scaled [OF a]
  have shift: "(10 :: int) ^ nat (x - ?g) * 10 ^ nat (?g + 40) = 10 ^ nat (x + 40)"
    if "?g \<le> x" "- 40 \<le> ?g" for x
  proof -
    have "nat (x - ?g) + nat (?g + 40) = nat (x + 40)" using that by linarith
    then show ?thesis by (simp only: power_add [symmetric])
  qed
  have g: "- 40 \<le> ?g" "?g \<le> 0" using e b by auto
  have "\<bar>?s\<bar> * 10 ^ nat (?g + 40)
      \<le> (\<bar>c\<bar> * 10 ^ nat (e - ?g) + \<bar>m\<bar> * \<bar>b\<bar> * 10 ^ nat (f - ?g)) * 10 ^ nat (?g + 40)"
    by (intro mult_right_mono order_trans [OF abs_triangle_ineq]) (auto simp: abs_mult)
  also have "\<dots> = \<bar>c\<bar> * 10 ^ nat (e + 40) + \<bar>m\<bar> * (\<bar>b\<bar> * 10 ^ nat (f + 40))"
    using shift [of e] shift [of f] g by (simp add: distrib_right mult.assoc)
  also have "\<dots> \<le> int k * 10 ^ (53 + D) + 10 ^ D * 10 ^ 53"
  proof (rule add_mono)
    show "\<bar>m\<bar> * (\<bar>b\<bar> * 10 ^ nat (f + 40)) \<le> 10 ^ D * 10 ^ 53"
      using b(1) m by (intro mult_mono) auto
  qed (rule e(3))
  also have "\<dots> = int (Suc k) * 10 ^ (53 + D)" by (simp add: power_add algebra_simps)
  finally show ?thesis using g by (simp add: partial_sum_ok_def Let_def)
qed

lemma nat_less_power10: "int n < 10 ^ n"
  using less_exp [of n] power_mono [of "2::int" 10 n] by (metis of_nat_less_iff of_nat_power of_nat_numeral
      less_le_trans zero_le_numeral numeral_le_iff semiring_norm(68) semiring_norm(71))

lemma partial_sum_fits:
  assumes "partial_sum_ok D k (Finite c e)" "k \<le> n"
  shows "\<bar>c\<bar> < 10 ^ (53 + D + n)"
proof -
  have e: "- 40 \<le> e" "\<bar>c\<bar> * 10 ^ nat (e + 40) \<le> int k * 10 ^ (53 + D)"
    using assms by (auto simp: partial_sum_ok_def)
  have "\<bar>c\<bar> * 1 \<le> \<bar>c\<bar> * 10 ^ nat (e + 40)" by (intro mult_left_mono) auto
  also have "\<dots> \<le> int n * 10 ^ (53 + D)"
    using e assms(2) by (intro order_trans [OF e(2)] mult_right_mono) auto
  also have "\<dots> < 10 ^ n * 10 ^ (53 + D)"
    by (intro mult_strict_right_mono nat_less_power10) auto
  finally show ?thesis by (simp add: power_add mult.commute)
qed

lemma fold_max_ge: "x \<in> set xs \<Longrightarrow> x \<le> fold max xs (a :: nat)"
  and fold_max_start: "a \<le> fold max xs (a :: nat)"
  by (induction xs arbitrary: a) (auto intro: le_trans [OF max.cobounded1] le_trans [OF max.cobounded2])

lemma exact_sum_fold:
  assumes "\<And>m a. (m, a) \<in> set xs \<Longrightarrow> everyday a \<and> \<bar>m\<bar> \<le> 10 ^ D"
    and "k + length xs \<le> n" "partial_sum_ok D k acc"
  shows "\<exists>d. foldR (\<lambda>acc (m, a).
             bindR (ctx_exact (53 + D + n) (dmul (Finite m 0) a)) (\<lambda>t.
               ctx_exact (53 + D + n) (dadd acc t))) acc xs = Inr d
           \<and> is_finite d \<and> dval d = dval acc + (\<Sum>(m, a)\<leftarrow>xs. of_int m * dval a)"
  using assms
proof (induction xs arbitrary: k acc)
  case Nil
  then show ?case by (auto simp: partial_sum_ok_def is_finite_def)
next
  case (Cons x xs)
  obtain m a where x: "x = (m, a)" by fastforce
  with Cons.prems(1) have a: "everyday a" and m: "\<bar>m\<bar> \<le> 10 ^ D" by auto
  obtain b f where ab: "a = Finite b f" using a by (auto simp: everyday_def)
  obtain c e where acc: "acc = Finite c e" using Cons.prems(3) by (auto simp: partial_sum_ok_def)
  define t where "t = dmul (Finite m 0) a"
  have t: "t = Finite (m * b) f" by (simp add: t_def ab)
  note b53 = everyday_scaled [OF a [unfolded ab]]
  have "\<bar>b\<bar> * 1 \<le> \<bar>b\<bar> * 10 ^ nat (f + 40)" by (intro mult_left_mono) auto
  with b53 have b: "\<bar>b\<bar> < 10 ^ 53" by linarith
  have "\<bar>m * b\<bar> \<le> 10 ^ D * \<bar>b\<bar>" using m by (simp add: abs_mult mult_right_mono)
  also have "\<dots> < 10 ^ D * 10 ^ 53" using b by simp
  also have "\<dots> \<le> 10 ^ (53 + D + n)"
    unfolding power_add [symmetric] by (rule power_increasing) auto
  finally have mb: "\<bar>m * b\<bar> < 10 ^ (53 + D + n)" .
  have s1: "partial_sum_ok D (Suc k) (dadd acc t)"
    using partial_sum_step [OF Cons.prems(3) [unfolded acc] a [unfolded ab] m] acc t_def ab by simp
  obtain c' e' where s: "dadd acc t = Finite c' e'" using s1 by (auto simp: partial_sum_ok_def)
  have "\<bar>c'\<bar> < 10 ^ (53 + D + n)"
    using partial_sum_fits [OF s1 [unfolded s], of n] Cons.prems(2) by simp
  then have step: "ctx_exact (53 + D + n) (dadd acc t) = Inr (dadd acc t)"
    unfolding s by (intro ctx_exact_ok) auto
  have first: "ctx_exact (53 + D + n) t = Inr t" unfolding t using mb by (intro ctx_exact_ok) auto
  have val: "dval (dadd acc t) = dval acc + of_int m * dval a"
    by (simp add: dval_dadd is_finite_def acc t ab distrib_right mult.assoc del: dadd.simps)
  show ?case
    using Cons.IH [of "Suc k" "dadd acc t"] Cons.prems(1,2) s1 step first
    by (auto simp: x t_def [symmetric] val add.assoc)
qed

lemma exact_sum_value:
  assumes "list_all (\<lambda>(m, a). everyday a) terms"
  shows "\<exists>d. exact_sum terms = Inr d \<and> is_finite d \<and> dval d = (\<Sum>(m, a)\<leftarrow>terms. of_int m * dval a)"
proof -
  define D where "D = fold max (map (\<lambda>(m, _). bit_length (nat \<bar>m\<bar>) div 3 + 1) terms) 0"
  have counted: "traverseR (\<lambda>(m, a). bindR (require_everyday a) (\<lambda>a'. Inr (m, a'))) terms = Inr terms"
    by (rule traverseR_same) (use assms in \<open>auto simp: list_all_iff everydayI\<close>)
  have prec: "sum_precision terms = 53 + D + length terms"
    by (simp add: sum_precision_def everyday_digits_def max_digits_above_the_point_def max_decimals_def D_def)
  have each: "everyday a \<and> \<bar>m\<bar> \<le> 10 ^ D" if "(m, a) \<in> set terms" for m a
  proof
    show "everyday a" using assms that by (auto simp: list_all_iff)
    have "bit_length (nat \<bar>m\<bar>) div 3 + 1 \<le> D"
      unfolding D_def by (rule fold_max_ge) (use that in force)
    then have "(10 :: int) ^ (bit_length (nat \<bar>m\<bar>) div 3 + 1) \<le> 10 ^ D" by (intro power_increasing) auto
    with digits_of_multiple [of m] show "\<bar>m\<bar> \<le> 10 ^ D" by linarith
  qed
  have "partial_sum_ok D 0 (Finite 0 0)" by (simp add: partial_sum_ok_def)
  from exact_sum_fold [where xs = terms and n = "length terms", OF each _ this]
  show ?thesis
    unfolding exact_sum_def counted bindR_simps prec by simp
qed

text \<open>
  C30: the exact sum of whole multiples of everyday decimals never raises: the working precision the
  code computes from the terms holds every product and every partial sum, and the result is the
  exact sum, however large a multiple is.
\<close>

theorem exact_sum_total:
  assumes "list_all (\<lambda>(m, a). everyday a) terms"
  shows "\<exists>d. exact_sum terms = Inr d \<and> is_finite d \<and> dval d = (\<Sum>(m, a)\<leftarrow>terms. of_int m * dval a)"
  using assms by (rule exact_sum_value)

theorem exact_sum_total_witness:
  "\<exists>d. exact_sum [(3, Finite 125 (-2)), (-1, Finite 5 (-1))] = Inr d \<and> is_finite d \<and> dval d = 325 / 100"
proof -
  have "list_all (\<lambda>(m, a). everyday a) [(3 :: int, Finite 125 (-2)), (-1, Finite 5 (-1))]"
    by (simp add: everyday_def adjusted_def digits_def show_nat.simps)
  from exact_sum_total [OF this] show ?thesis by simp
qed

end
