(* ===== verification/Money.thy ===== *)
theory Money
  imports Exact
begin

text \<open>
  \<open>app/broker/alpaca/clerk/money.py\<close>: the one boundary where recorded values become exact money.

  \<open>normalize_money\<close> takes any Python value (\<open>py_value\<close>). The money
  context is 1400 digits and traps \<open>Inexact\<close> (\<open>money_ctx\<close>); \<open>ctx_round\<close> is the same context
  with that trap off, as \<open>display_cents\<close> uses it. \<open>apportion_units\<close> takes the weights as an
  association list with distinct keys, a Python mapping.

  Shown: normalisation keeps the value, is canonical and bounds the digits; a product of two
  normalised amounts never traps; the three roundings to cents and how they compare; consent is
  never rounded; apportionment loses no unit and stays within one unit of each quota.
\<close>

datatype money_error =
    Not_A_Finite_Decimal_Kind
  | Not_A_Decimal_Number
  | Not_Finite
  | Exceeds_Supported_Magnitude_Or_Scale
  | Multiplier_Not_Whole
  | Choose_Positive_Whole_Cents
  | Exceeds_Supported_Cents
  | Inexact_Trapped
  | Not_An_Integer
  | Type_Error
  | Apportion_Units_Negative
  | Apportion_Weight_Bad
  | Apportion_No_Weight

definition money_precision :: nat where "money_precision = 1400"

definition money_ctx :: "decimal \<Rightarrow> (money_error, decimal) result" where
  "money_ctx d = (case ctx_exact money_precision d of Inl _ \<Rightarrow> Inl Inexact_Trapped | Inr d' \<Rightarrow> Inr d')"

definition ctx_round :: "decimal \<Rightarrow> decimal" where
  "ctx_round d =
     (case d of
        Finite c e \<Rightarrow>
          (let n = digits c
           in if n \<le> money_precision then d
              else Finite (half_even_div c (10 ^ (n - money_precision))) (e + int (n - money_precision)))
      | _ \<Rightarrow> d)"

fun read_decimal :: "py_value \<Rightarrow> (money_error, decimal) result" where
  "read_decimal (PyBool b) = Inl Not_A_Finite_Decimal_Kind"
| "read_decimal PyOther = Inl Not_A_Finite_Decimal_Kind"
| "read_decimal (PyInt i) = Inr (Finite i 0)"
| "read_decimal (PyFloat d) = Inr d"
| "read_decimal (PyDecimal d) = Inr d"
| "read_decimal (PyStr None) = Inl Not_A_Decimal_Number"
| "read_decimal (PyStr (Some d)) = Inr d"

definition normalize_money :: "py_value \<Rightarrow> (money_error, decimal) result" where
  "normalize_money value =
     bindR (read_decimal value) (\<lambda>amount.
       case amount of
         Finite c e \<Rightarrow>
           if c = 0 then Inr (Finite 0 0)
           else let scale = e + int (trail (nat \<bar>c\<bar>))
                in if adjusted c e \<ge> 309 \<or> scale < - 324
                   then Inl Exceeds_Supported_Magnitude_Or_Scale
                   else money_ctx (strip c e)
       | _ \<Rightarrow> Inl Not_Finite)"

definition contract_multiplier :: "py_value \<Rightarrow> (money_error, int) result" where
  "contract_multiplier value =
     (case value of PyInt i \<Rightarrow> if i < 1 then Inl Multiplier_Not_Whole else Inr i
      | _ \<Rightarrow> Inl Multiplier_Not_Whole)"

definition notional :: "py_value \<Rightarrow> py_value \<Rightarrow> py_value option \<Rightarrow> (money_error, decimal) result" where
  "notional quantity price multiplier =
     bindR (normalize_money quantity) (\<lambda>q.
     bindR (normalize_money price) (\<lambda>p.
     bindR (money_ctx (dmul q p)) (\<lambda>amount.
       case multiplier of
         None \<Rightarrow> Inr amount
       | Some m \<Rightarrow> bindR (contract_multiplier m) (\<lambda>k. money_ctx (dmul amount (Finite k 0))))))"

text \<open>\<open>int(amount.to_integral_value(rounding))\<close> for the three roundings.\<close>

definition integral_floor :: "decimal \<Rightarrow> (money_error, int) result" where
  "integral_floor d =
     (case d of Finite c e \<Rightarrow> Inr (if 0 \<le> e then c * 10 ^ nat e else c div 10 ^ nat (- e))
      | _ \<Rightarrow> Inl Not_An_Integer)"

definition integral_ceiling :: "decimal \<Rightarrow> (money_error, int) result" where
  "integral_ceiling d =
     (case d of Finite c e \<Rightarrow> Inr (if 0 \<le> e then c * 10 ^ nat e else - ((- c) div 10 ^ nat (- e)))
      | _ \<Rightarrow> Inl Not_An_Integer)"

definition integral_half_even :: "decimal \<Rightarrow> (money_error, int) result" where
  "integral_half_even d =
     (case d of Finite c e \<Rightarrow> Inr (if 0 \<le> e then c * 10 ^ nat e else half_even_div c (10 ^ nat (- e)))
      | _ \<Rightarrow> Inl Not_An_Integer)"

definition cents_required :: "decimal \<Rightarrow> (money_error, int) result" where
  "cents_required amount = bindR (money_ctx (dmul amount (Finite 100 0))) integral_ceiling"

definition cents_spendable :: "decimal \<Rightarrow> (money_error, int) result" where
  "cents_spendable amount = bindR (money_ctx (dmul amount (Finite 100 0))) integral_floor"

definition display_cents :: "py_value \<Rightarrow> (money_error, int) result" where
  "display_cents amount =
     (case amount of
        PyDecimal d \<Rightarrow> integral_half_even (ctx_round (dmul d (Finite 100 0)))
      | _ \<Rightarrow> Inl Type_Error)"

definition consent_cents :: "py_value \<Rightarrow> (money_error, int) result" where
  "consent_cents value =
     bindR (normalize_money value) (\<lambda>amount.
     bindR (money_ctx (dmul amount (Finite 100 0))) (\<lambda>scaled.
     bindR (integral_half_even scaled) (\<lambda>cents.
       if dval amount \<le> 0 \<or> dval scaled \<noteq> of_int cents then Inl Choose_Positive_Whole_Cents
       else if cents > 2 ^ 63 - 1 then Inl Exceeds_Supported_Cents
       else Inr cents)))"

definition dollars :: "int \<Rightarrow> string" where
  "dollars cents =
     (let sign = (if cents < 0 then ''-'' else ''''); v = nat \<bar>cents\<bar>
      in sign @ show_nat (v div 100) @ ''.'' @ pad_nat 2 (v mod 100))"

definition display_dollars :: "decimal \<Rightarrow> (money_error, string) result" where
  "display_dollars amount = bindR (display_cents (PyDecimal amount)) (\<lambda>c. Inr (dollars c))"

definition recorded_dollars :: "py_value \<Rightarrow> (money_error, string) result" where
  "recorded_dollars value =
     bindR (normalize_money value) (\<lambda>d. bindR (display_cents (PyDecimal d)) (\<lambda>c. Inr (dollars c)))"

text \<open>Hamilton apportionment. \<open>quota\<close> is \<open>units * Fraction(weight) / total\<close>.\<close>

definition quota :: "int \<Rightarrow> rat \<Rightarrow> rat \<Rightarrow> rat" where
  "quota units whole w = of_int units * w / whole"

definition apportion_units ::
  "int \<Rightarrow> ('k::linorder \<times> decimal) list \<Rightarrow> (money_error, ('k \<times> int) list) result" where
  "apportion_units units weights =
     (if units < 0 then Inl Apportion_Units_Negative
      else if list_ex (\<lambda>(k, w). \<not> is_finite w \<or> dval w < 0) weights then Inl Apportion_Weight_Bad
      else
        let whole = (\<Sum>(k, w)\<leftarrow>weights. dval w) in
        if whole = 0 then
          (if units \<noteq> 0 then Inl Apportion_No_Weight else Inr (map (\<lambda>k. (k, 0)) (sort (map fst weights))))
        else
          let quotas = map (\<lambda>(k, w). (k, quota units whole (dval w))) weights;
              floors = map (\<lambda>(k, q). (k, \<lfloor>q\<rfloor>)) quotas;
              ranked = sort_key (\<lambda>(k, q). (of_int \<lfloor>q\<rfloor> - q, k)) quotas;
              left = nat (units - (\<Sum>(k, f)\<leftarrow>floors. f));
              extra = map fst (take left ranked)
          in Inr (sort_key fst (map (\<lambda>(k, f). (k, if k \<in> set extra then f + 1 else f)) floors)))"

subsection \<open>Normalisation\<close>

text \<open>The digits of a normalised amount: 309 above the point and 324 below it. Kept folded in proofs.\<close>

definition money_digits :: nat where "money_digits = 633"

lemma money_digits_fit:
  "0 < money_precision" "money_digits \<le> money_precision" "money_digits + 2 \<le> money_precision"
  "money_digits + money_digits \<le> money_precision" "money_digits + money_digits + 100 \<le> money_precision"
  by (simp_all add: money_digits_def money_precision_def)

lemma strip_bounds:
  assumes "c \<noteq> 0" "adjusted c e < 309" "- 324 \<le> e + int (trail (nat \<bar>c\<bar>))"
  shows "\<exists>c' e'. strip c e = Finite c' e' \<and> \<bar>c'\<bar> < 10 ^ money_digits \<and> \<bar>c'\<bar> * 10 ^ nat (e' + 324) < 10 ^ money_digits \<and> - 324 \<le> e'"
proof -
  define t where "t = trail (nat \<bar>c\<bar>)"
  define c' where "c' = c div 10 ^ t"
  have c: "c = c' * 10 ^ t" using trail_dvd_int [of c] by (simp add: c'_def t_def)
  have "c' \<noteq> 0" using c assms(1) by auto
  have "\<bar>c'\<bar> * 10 ^ t < 10 ^ digits c" using less_digits [of c] c by (simp add: abs_mult)
  moreover have "e + int (digits c) \<le> 309" using assms(2) by (simp add: adjusted_def)
  moreover have "- 324 \<le> e + int t" using assms(3) by (simp add: t_def)
  moreover have "int money_digits = 633" by (simp add: money_digits_def)
  ultimately have h: "\<bar>c'\<bar> * 10 ^ t * 10 ^ nat (e + int t + 324) < 10 ^ digits c * 10 ^ nat (e + int t + 324)"
    "int (digits c) + (e + int t + 324) \<le> int money_digits + int t"
    by auto
  have "(10::int) ^ digits c * 10 ^ nat (e + int t + 324) = 10 ^ (digits c + nat (e + int t + 324))"
    by (simp add: power_add)
  also have "\<dots> \<le> 10 ^ (money_digits + t)"
    using h(2) \<open>- 324 \<le> e + int t\<close> by (intro power_increasing) linarith+
  also have "\<dots> = 10 ^ money_digits * 10 ^ t" by (simp only: power_add)
  finally have "(\<bar>c'\<bar> * 10 ^ nat (e + int t + 324)) * 10 ^ t < 10 ^ money_digits * 10 ^ t"
    using h(1) by (simp only: mult.assoc mult.commute mult.left_commute)
  then have scaled: "\<bar>c'\<bar> * 10 ^ nat (e + int t + 324) < 10 ^ money_digits"
    by (simp only: mult_less_cancel_right_pos zero_less_power zero_less_numeral)
  have "\<bar>c'\<bar> * 1 \<le> \<bar>c'\<bar> * 10 ^ nat (e + int t + 324)" by (intro mult_left_mono) auto
  with scaled have "\<bar>c'\<bar> < 10 ^ money_digits" by linarith
  with scaled \<open>- 324 \<le> e + int t\<close> assms(1) show ?thesis
    by (intro exI [of _ c'] exI [of _ "e + int t"]) (simp add: strip_def Let_def c'_def t_def)
qed

lemma money_ctx_ok: "\<bar>c\<bar> < 10 ^ money_precision \<Longrightarrow> money_ctx (Finite c e) = Inr (Finite c e)"
  by (simp add: money_ctx_def ctx_exact_ok money_digits_fit)

lemma power10_less: "\<bar>c :: int\<bar> < 10 ^ m \<Longrightarrow> m \<le> n \<Longrightarrow> \<bar>c\<bar> < 10 ^ n"
  by (erule less_le_trans) (rule power_increasing, auto)

definition normal :: "decimal \<Rightarrow> bool" where
  "normal d \<longleftrightarrow> (\<exists>c e. d = Finite c e \<and> d = strip c e \<and> \<bar>c\<bar> < 10 ^ money_digits \<and> - 324 \<le> e)"

lemma strip_strip: "strip c e = Finite c' e' \<Longrightarrow> strip c' e' = Finite c' e'"
  by (metis dval_strip strip_canonical)

lemma normalize_money_Inr:
  assumes "normalize_money v = Inr d"
  shows "normal d" "\<exists>a. read_decimal v = Inr a \<and> is_finite a \<and> dval d = dval a"
proof -
  obtain a where a: "read_decimal v = Inr a" using assms by (auto simp: normalize_money_def result_simps)
  then obtain c e where ce: "a = Finite c e"
    using assms by (cases a) (auto simp: normalize_money_def)
  show "\<exists>a. read_decimal v = Inr a \<and> is_finite a \<and> dval d = dval a" and "normal d"
  proof (atomize (full), cases "c = 0")
    case True
    then have "d = Finite 0 0" using assms a ce by (simp add: normalize_money_def)
    then show "(\<exists>a. read_decimal v = Inr a \<and> is_finite a \<and> dval d = dval a) \<and> normal d"
      using a ce True by (simp add: is_finite_def normal_def strip_def)
  next
    case False
    then have b: "adjusted c e < 309" "- 324 \<le> e + int (trail (nat \<bar>c\<bar>))" and d: "money_ctx (strip c e) = Inr d"
      using assms a ce by (auto simp: normalize_money_def Let_def split: if_splits)
    obtain c' e' where s: "strip c e = Finite c' e'" "\<bar>c'\<bar> < 10 ^ money_digits" "- 324 \<le> e'"
      using strip_bounds [OF False b] by blast
    have "\<bar>c'\<bar> < 10 ^ money_precision" by (rule power10_less [OF s(2) money_digits_fit(2)])
    with d s(1) have "d = Finite c' e'" by (simp only: money_ctx_ok sum.inject)
    with s strip_strip [OF s(1)] dval_strip [of c e] a ce
    show "(\<exists>a. read_decimal v = Inr a \<and> is_finite a \<and> dval d = dval a) \<and> normal d"
      unfolding normal_def by (auto simp: is_finite_def)
  qed
qed

lemma normal_unique: "normal d \<Longrightarrow> normal d' \<Longrightarrow> dval d = dval d' \<Longrightarrow> d = d'"
  unfolding normal_def by (metis strip_canonical)

text \<open>
  Normalising a recorded amount never changes its value, and the result is canonical: two
  records of one amount, however each was written, normalise to the same decimal.
\<close>

theorem normalize_money_canonical:
  assumes "normalize_money v = Inr d" "normalize_money v' = Inr d'"
  shows "(\<exists>a. read_decimal v = Inr a \<and> dval d = dval a) \<and> (d = d' \<longleftrightarrow> dval d = dval d')"
  using normalize_money_Inr [OF assms(1)] normalize_money_Inr [OF assms(2)] normal_unique by blast

theorem normalize_money_canonical_witness:
  "normalize_money (PyFloat (Finite 125 (-1))) = Inr (Finite 125 (-1)) \<and>
   (Finite 125 (-1) = Finite 125 (-1) \<longleftrightarrow> dval (Finite 125 (-1)) = dval (Finite 125 (-1)))"
proof -
  have a: "normalize_money (PyFloat (Finite 125 (-1))) = Inr (Finite 125 (-1))"
    and b: "normalize_money (PyStr (Some (Finite 12500 (-3)))) = Inr (Finite 125 (-1))"
    by (simp_all add: normalize_money_def adjusted_def digits_def show_nat.simps trail.simps strip_def
        money_ctx_def ctx_exact_def money_precision_def Let_def)
  show ?thesis using normalize_money_canonical [OF a b] a by simp
qed

subsection \<open>Products and cents\<close>

lemma normal_Finite: "normal d \<Longrightarrow> \<exists>c e. d = Finite c e \<and> \<bar>c\<bar> < 10 ^ money_digits"
  by (auto simp: normal_def)

lemma normal_mult:
  assumes "normal a" "normal b"
  shows "\<exists>c e. dmul a b = Finite c e \<and> \<bar>c\<bar> < 10 ^ (money_digits + money_digits) \<and> dval (Finite c e) = dval a * dval b"
proof -
  obtain c e f g where ab: "a = Finite c e" "\<bar>c\<bar> < 10 ^ money_digits" "b = Finite f g" "\<bar>f\<bar> < 10 ^ money_digits"
    using assms by (metis normal_Finite)
  then have "\<bar>c * f\<bar> < 10 ^ money_digits * 10 ^ money_digits"
    unfolding abs_mult by (intro mult_strict_mono') auto
  then have "\<bar>c * f\<bar> < 10 ^ (money_digits + money_digits)" by (simp only: power_add)
  then show ?thesis using ab dval_dmul [of a b] by (auto simp: is_finite_def)
qed

text \<open>
  The money context holds every product the code takes of two normalised inputs, by a contract
  multiplier below ten to the hundredth if there is one: \<open>notional\<close> never traps there and is the exact product.
\<close>

theorem notional_exact:
  assumes "normalize_money quantity = Inr q" "normalize_money price = Inr p"
    and "\<And>m. multiplier = Some m \<Longrightarrow> \<exists>k. m = PyInt k \<and> 1 \<le> k \<and> k < 10 ^ 100"
  shows "\<exists>d. notional quantity price multiplier = Inr d \<and>
           dval d = dval q * dval p * (case multiplier of Some (PyInt k) \<Rightarrow> of_int k | _ \<Rightarrow> 1)"
proof -
  obtain c e where qp: "dmul q p = Finite c e" "\<bar>c\<bar> < 10 ^ (money_digits + money_digits)" "dval (Finite c e) = dval q * dval p"
    using normal_mult normalize_money_Inr(1) assms(1,2) by blast
  have "\<bar>c\<bar> < 10 ^ money_precision" by (rule power10_less [OF qp(2) money_digits_fit(4)])
  then have ctx: "money_ctx (dmul q p) = Inr (Finite c e)" unfolding qp(1) by (rule money_ctx_ok)
  show ?thesis
  proof (cases multiplier)
    case None
    then show ?thesis using assms(1,2) ctx qp(3) by (simp add: notional_def)
  next
    case (Some m)
    then obtain k where k: "m = PyInt k" "1 \<le> k" "k < 10 ^ 100" using assms(3) by blast
    have "\<bar>c * k\<bar> < 10 ^ (money_digits + money_digits) * 10 ^ 100"
      unfolding abs_mult using qp(2) k by (intro mult_strict_mono') auto
    also have "\<dots> = 10 ^ (money_digits + money_digits + 100)" by (simp only: power_add)
    finally have "\<bar>c * k\<bar> < 10 ^ money_precision" by (rule power10_less) (rule money_digits_fit(5))
    then have "money_ctx (dmul (Finite c e) (Finite k 0)) = Inr (Finite (c * k) e)"
      by (simp add: money_ctx_ok)
    moreover have "dval (Finite (c * k) e) = dval q * dval p * of_int k"
      using qp(3) by (simp add: mult.commute mult.left_commute)
    moreover have "notional quantity price multiplier = money_ctx (dmul (Finite c e) (Finite k 0))"
      using assms(1,2) ctx k(1,2) Some by (simp add: notional_def contract_multiplier_def)
    ultimately show ?thesis using Some k(1) by simp
  qed
qed

theorem notional_exact_witness:
  "\<exists>d. notional (PyInt 2) (PyFloat (Finite 125 (-2))) (Some (PyInt 100)) = Inr d \<and> dval d = 250"
proof -
  have q: "normalize_money (PyInt 2) = Inr (Finite 2 0)"
    and p: "normalize_money (PyFloat (Finite 125 (-2))) = Inr (Finite 125 (-2))"
    by (simp_all add: normalize_money_def adjusted_def digits_def show_nat.simps trail.simps strip_def
        money_ctx_def ctx_exact_def money_precision_def Let_def)
  show ?thesis using notional_exact [OF q p, of "Some (PyInt 100)"] by simp
qed

lemma dval_quotient: "e < 0 \<Longrightarrow> dval (Finite c e) = of_int c / of_int (10 ^ nat (- e))"
  by (simp add: powi_neg)

lemma dval_whole: "0 \<le> e \<Longrightarrow> dval (Finite c e) = of_int (c * 10 ^ nat e)"
  by (simp add: powi_nonneg)

lemma integral_floor_value: "integral_floor (Finite c e) = Inr \<lfloor>dval (Finite c e)\<rfloor>"
proof (cases "0 \<le> e")
  case True
  then show ?thesis by (simp only: integral_floor_def dval_whole floor_of_int decimal.case if_True)
next
  case False
  then have "dval (Finite c e) = of_int c / of_int (10 ^ nat (- e))" by (simp only: dval_quotient not_le)
  with False show ?thesis by (simp only: integral_floor_def floor_divide_of_int_eq decimal.case if_False)
qed

lemma integral_ceiling_value: "integral_ceiling (Finite c e) = Inr \<lceil>dval (Finite c e)\<rceil>"
  using integral_floor_value [of "- c" e]
  by (auto simp: integral_floor_def integral_ceiling_def ceiling_def split: if_splits)

lemma near_less: "2 * \<bar>a - x\<bar> \<le> 1 \<Longrightarrow> a - 1 < (x :: rat)"
  by (simp add: abs_if split: if_splits)

lemma integral_half_even_value:
  "\<exists>r. integral_half_even (Finite c e) = Inr r \<and> \<lfloor>dval (Finite c e)\<rfloor> \<le> r \<and> r \<le> \<lceil>dval (Finite c e)\<rceil>
       \<and> 2 * \<bar>of_int r - dval (Finite c e)\<bar> \<le> 1"
proof (cases "0 \<le> e")
  case True
  then have "integral_half_even (Finite c e) = Inr (c * 10 ^ nat e)" by (simp add: integral_half_even_def)
  with True show ?thesis by (simp only: dval_whole floor_of_int ceiling_of_int) simp
next
  case False
  define b where "b = (10 :: int) ^ nat (- e)"
  define r where "r = half_even_div c b"
  have b: "0 < b" by (simp add: b_def)
  have v: "dval (Finite c e) = of_int c / of_int b" using False by (simp only: dval_quotient b_def not_le)
  have i: "integral_half_even (Finite c e) = Inr r" using False by (simp add: integral_half_even_def r_def b_def)
  have fl: "\<lfloor>dval (Finite c e)\<rfloor> = c div b" unfolding v by (rule floor_divide_of_int_eq)
  have "2 * \<bar>r * b - c\<bar> \<le> b" unfolding r_def using b by (rule half_even_div_bounds)
  then have "(of_int (2 * \<bar>r * b - c\<bar>) :: rat) \<le> of_int b" by (simp only: of_int_le_iff)
  moreover have "of_int r - dval (Finite c e) = of_int (r * b - c) / of_int b"
    unfolding v using b by (simp add: diff_divide_distrib)
  ultimately have near: "2 * \<bar>of_int r - dval (Finite c e)\<bar> \<le> 1"
    using b by (simp add: abs_divide divide_le_eq)
  then have "of_int r - 1 < dval (Finite c e)" by (rule near_less)
  then have "r \<le> \<lceil>dval (Finite c e)\<rceil>" by (simp add: le_ceiling_iff)
  moreover have "\<lfloor>dval (Finite c e)\<rfloor> \<le> r" unfolding fl r_def using half_even_div_between by blast
  ultimately show ?thesis using i near by blast
qed

lemma hundredfold:
  assumes "\<bar>c :: int\<bar> < 10 ^ money_digits"
  shows "\<bar>c * 100\<bar> < 10 ^ money_precision"
proof -
  have "\<bar>c * 100\<bar> < 10 ^ money_digits * 10 ^ 2" using assms by (simp add: abs_mult)
  then have "\<bar>c * 100\<bar> < 10 ^ (money_digits + 2)" by (simp only: power_add)
  then show ?thesis by (rule power10_less) (rule money_digits_fit(3))
qed

lemma hundredfold_ctx:
  assumes "\<bar>c\<bar> < 10 ^ money_digits"
  shows "money_ctx (dmul (Finite c e) (Finite 100 0)) = Inr (Finite (c * 100) e)"
    "ctx_round (Finite (c * 100) e) = Finite (c * 100) e"
  using hundredfold [OF assms] digits_le [OF hundredfold [OF assms]]
  by (simp_all add: money_ctx_ok ctx_round_def money_digits_fit)

lemma dval_hundredfold: "dval (Finite (c * 100) e) = 100 * dval (Finite c e)"
  by simp

text \<open>
  At the cents boundary a requirement is rounded up, spendable cash down, and a displayed figure to the
  nearest cent between the two: the three agree exactly on an amount of whole cents.
\<close>

theorem cents_boundaries:
  assumes "normalize_money v = Inr d"
  shows "\<exists>r. cents_required d = Inr \<lceil>100 * dval d\<rceil> \<and> cents_spendable d = Inr \<lfloor>100 * dval d\<rfloor>
     \<and> display_cents (PyDecimal d) = Inr r
     \<and> \<lfloor>100 * dval d\<rfloor> \<le> r \<and> r \<le> \<lceil>100 * dval d\<rceil> \<and> 2 * \<bar>of_int r - 100 * dval d\<bar> \<le> 1"
proof -
  obtain c e where d: "d = Finite c e" "\<bar>c\<bar> < 10 ^ money_digits"
    using normal_Finite [OF normalize_money_Inr(1) [OF assms]] by blast
  note h = hundredfold_ctx [OF d(2), of e]
  have disp: "display_cents (PyDecimal d) = integral_half_even (Finite (c * 100) e)"
    unfolding display_cents_def using h(2) d(1) by simp
  show ?thesis
    using integral_half_even_value [of "c * 100" e]
    unfolding cents_required_def cents_spendable_def disp
    unfolding d(1) h(1) bindR_simps integral_floor_value integral_ceiling_value dval_hundredfold by blast
qed

theorem cents_boundaries_witness:
  "cents_required (Finite 1005 (-3)) = Inr \<lceil>100 * dval (Finite 1005 (-3))\<rceil> \<and>
   cents_spendable (Finite 1005 (-3)) = Inr \<lfloor>100 * dval (Finite 1005 (-3))\<rfloor>"
proof -
  have "normalize_money (PyFloat (Finite 1005 (-3))) = Inr (Finite 1005 (-3))"
    by (simp add: normalize_money_def adjusted_def digits_def show_nat.simps trail.simps strip_def
        money_ctx_def ctx_exact_def money_precision_def Let_def)
  from cents_boundaries [OF this] show ?thesis by blast
qed

text \<open>
  C29: consent is never rounded: \<open>consent_cents\<close> accepts a value exactly when it is a positive whole
  number of cents that fits SQLite's signed 64-bit integer, and then returns exactly that number.
\<close>

theorem consent_cents_exact:
  "consent_cents v = Inr k \<longleftrightarrow>
     (\<exists>d. normalize_money v = Inr d \<and> of_int k = 100 * dval d \<and> 0 < k \<and> k \<le> 2 ^ 63 - 1)"
proof (cases "normalize_money v")
  case (Inl x)
  then show ?thesis by (simp add: consent_cents_def)
next
  case (Inr d)
  obtain c e where d: "d = Finite c e" "\<bar>c\<bar> < 10 ^ money_digits"
    using normal_Finite [OF normalize_money_Inr(1) [OF Inr]] by blast
  obtain r where r: "integral_half_even (Finite (c * 100) e) = Inr r"
      "\<lfloor>100 * dval d\<rfloor> \<le> r" "r \<le> \<lceil>100 * dval d\<rceil>"
    using integral_half_even_value [of "c * 100" e] unfolding dval_hundredfold d(1) by blast
  have cc: "consent_cents v =
      (if dval d \<le> 0 \<or> 100 * dval d \<noteq> of_int r then Inl Choose_Positive_Whole_Cents
       else if r > 2 ^ 63 - 1 then Inl Exceeds_Supported_Cents else Inr r)"
    unfolding consent_cents_def Inr bindR_simps
    unfolding d(1) hundredfold_ctx(1) [OF d(2)] bindR_simps r(1) dval_hundredfold ..
  have same: "r = k" if "of_int k = 100 * dval d"
    using r(2,3) unfolding that [symmetric] floor_of_int ceiling_of_int by (rule order_antisym [rotated])
  have sign: "0 < dval d \<longleftrightarrow> 0 < k" if "of_int k = 100 * dval d"
  proof -
    have "0 < dval d \<longleftrightarrow> (0 :: rat) < of_int k" using that by simp
    then show ?thesis by (simp only: of_int_0_less_iff)
  qed
  have "consent_cents v = Inr k \<longleftrightarrow> 0 < dval d \<and> 100 * dval d = of_int r \<and> r \<le> 2 ^ 63 - 1 \<and> r = k"
    unfolding cc by (simp add: not_le not_less)
  also have "\<dots> \<longleftrightarrow> of_int k = 100 * dval d \<and> 0 < k \<and> k \<le> 2 ^ 63 - 1"
    using same sign by metis
  finally show ?thesis using Inr by simp
qed

text \<open>Dollars: the text says which whole number of cents it shows.\<close>

lemma dollars_split:
  "\<exists>s. dollars c = s @ pad_nat 2 (nat \<bar>c\<bar> mod 100) \<and> length (pad_nat 2 (nat \<bar>c\<bar> mod 100)) = 2"
proof -
  have "length (pad_nat 2 (nat \<bar>c\<bar> mod 100)) = 2" by (rule length_pad_nat) auto
  then show ?thesis
    unfolding dollars_def Let_def by (metis append.assoc)
qed

lemma dollars_tail:
  assumes eq: "dollars c = dollars c'"
  shows "(if c < 0 then ''-'' else '''') @ show_nat (nat \<bar>c\<bar> div 100)
       = (if c' < 0 then ''-'' else '''') @ show_nat (nat \<bar>c'\<bar> div 100)
     \<and> nat \<bar>c\<bar> mod 100 = nat \<bar>c'\<bar> mod 100"
proof -
  have len: "length (pad_nat 2 (nat \<bar>x\<bar> mod 100)) = 2" for x :: int by (rule length_pad_nat) auto
  let ?h = "\<lambda>x. (if x < 0 then ''-'' else '''') @ show_nat (nat \<bar>x\<bar> div 100)"
  have "(?h c @ ''.'') @ pad_nat 2 (nat \<bar>c\<bar> mod 100) = (?h c' @ ''.'') @ pad_nat 2 (nat \<bar>c'\<bar> mod 100)"
    using eq by (simp only: dollars_def Let_def append_assoc)
  then have "?h c @ ''.'' = ?h c' @ ''.''" "pad_nat 2 (nat \<bar>c\<bar> mod 100) = pad_nat 2 (nat \<bar>c'\<bar> mod 100)"
    using len by (metis append_eq_append_conv)+
  then show ?thesis by (metis append_same_eq read_pad_nat)
qed

lemma minus_show_nat: "CHR ''-'' # x \<noteq> show_nat n"
proof
  assume "CHR ''-'' # x = show_nat n"
  then have "CHR ''-'' \<in> set (show_nat n)" by (metis list.set_intros(1))
  then have "is_digit (CHR ''-'')" by (rule show_nat_digits)
  then show False by (simp add: is_digit_def)
qed

text \<open>Two different whole-cent amounts are never shown to the owner as the same dollars.\<close>

theorem dollars_injective: "dollars c = dollars c' \<longleftrightarrow> c = c'"
proof
  assume "dollars c = dollars c'"
  note t = dollars_tail [OF this]
  have sign: "(c < 0) = (c' < 0)"
    using t minus_show_nat minus_show_nat [symmetric] by (auto split: if_splits)
  have "show_nat (nat \<bar>c\<bar> div 100) = show_nat (nat \<bar>c'\<bar> div 100)" using t sign by (auto split: if_splits)
  then have "nat \<bar>c\<bar> div 100 = nat \<bar>c'\<bar> div 100" by (metis read_show_nat)
  with t have "nat \<bar>c\<bar> = nat \<bar>c'\<bar>" by (metis mult_div_mod_eq)
  with sign show "c = c'" by (auto split: if_splits)
qed simp

subsection \<open>Apportionment\<close>

lemma map_sort_key_self: "map f (sort_key f xs) = sort (map f xs)"
  by (rule properties_for_sort [symmetric]) (auto simp: sorted_sort_key)

definition fraction :: "rat \<Rightarrow> rat" where "fraction q = q - of_int \<lfloor>q\<rfloor>"

lemma fraction_bounds: "0 \<le> fraction q" "fraction q < 1"
  unfolding fraction_def by linarith+

lemma sum_list_fraction_le: "(\<Sum>x\<leftarrow>xs. fraction (f x)) \<le> of_nat (length xs)"
proof (induction xs)
  case (Cons x xs)
  then show ?case using fraction_bounds(2) [of "f x"] by simp
qed simp

lemma sum_list_floor_fraction:
  "(\<Sum>x\<leftarrow>xs. f x) = of_int (\<Sum>x\<leftarrow>xs. \<lfloor>f x\<rfloor>) + (\<Sum>x\<leftarrow>xs. fraction (f x))"
  by (induction xs) (simp_all add: fraction_def)

text \<open>One unit each to the keys of a set, on top of their floors.\<close>

lemma sum_list_extra:
  assumes "distinct (map fst xs)"
  shows "(\<Sum>(k, f)\<leftarrow>xs. if k \<in> S then f + 1 else f :: int) = (\<Sum>(k, f)\<leftarrow>xs. f) + int (card (S \<inter> fst ` set xs))"
  using assms
proof (induction xs)
  case (Cons x xs)
  obtain k f where x: "x = (k, f)" by fastforce
  have "card (S \<inter> insert k (fst ` set xs)) = card (S \<inter> fst ` set xs) + (if k \<in> S then 1 else 0)"
    using Cons.prems by (auto simp: x Int_insert_right)
  with Cons show ?case by (simp add: x)
qed simp

text \<open>The ranking: every entry given a unit has a fraction.\<close>

lemma ranked_taken_positive:
  fixes R :: "('k::linorder \<times> rat) list"
  assumes sorted: "sorted (map (\<lambda>(k, q). (of_int \<lfloor>q\<rfloor> - q, k)) R)"
    and whole: "of_nat n = (\<Sum>x\<leftarrow>R. fraction (snd x))" and i: "i < n" "i < length R"
  shows "0 < fraction (snd (R ! i))"
proof (rule ccontr)
  assume "\<not> ?thesis"
  then have zero: "fraction (snd (R ! i)) = 0" using fraction_bounds(1) by (simp add: order_antisym)
  have "fraction (snd x) = 0" if "x \<in> set (drop i R)" for x
  proof -
    from that have "\<exists>j < length (drop i R). drop i R ! j = x" by (simp only: in_set_conv_nth)
    then obtain j where j: "j < length R - i" "R ! (i + j) = x" using i(2) by auto
    have "map (\<lambda>(k, q). (of_int \<lfloor>q\<rfloor> - q, k)) R ! i \<le> map (\<lambda>(k, q). (of_int \<lfloor>q\<rfloor> - q, k)) R ! (i + j)"
      using sorted i j by (intro sorted_nth_mono) auto
    then have "- fraction (snd (R ! i)) \<le> - fraction (snd x)"
      using i j by (cases "R ! i"; cases x) (auto simp: fraction_def)
    with zero fraction_bounds(1) [of "snd x"] show ?thesis by simp
  qed
  then have "(\<Sum>x\<leftarrow>drop i R. fraction (snd x)) = 0" by (rule sum_list_map_if_zero)
  moreover have "(\<Sum>x\<leftarrow>R. fraction (snd x))
      = (\<Sum>x\<leftarrow>take i R. fraction (snd x)) + (\<Sum>x\<leftarrow>drop i R. fraction (snd x))"
    by (metis append_take_drop_id map_append sum_list_append)
  moreover have "(\<Sum>x\<leftarrow>take i R. fraction (snd x)) \<le> of_nat i"
    using sum_list_fraction_le [of snd "take i R"] i by simp
  ultimately have "(of_nat n :: rat) \<le> of_nat i" using whole by simp
  with i show False by simp
qed

lemma distinct_map_sort_key: "distinct (map f (sort_key g xs)) \<longleftrightarrow> distinct (map f xs)"
  by (metis mset_map mset_sort mset_eq_imp_distinct_iff)

definition apportion_rank :: "('k \<times> rat) list \<Rightarrow> ('k::linorder \<times> rat) list" where
  "apportion_rank = sort_key (\<lambda>(k, q). (of_int \<lfloor>q\<rfloor> - q, k))"

text \<open>What the ranking and the leftover count give, for any list of quotas that sum to whole units.\<close>

lemma apportion_core:
  fixes qs :: "('k::linorder \<times> rat) list"
  assumes dist: "distinct (map fst qs)" and whole: "(\<Sum>(k, q)\<leftarrow>qs. q) = of_int units"
  defines "floors \<equiv> map (\<lambda>(k, q). (k, \<lfloor>q\<rfloor>)) qs"
    and "left \<equiv> nat (units - (\<Sum>(k, q)\<leftarrow>qs. \<lfloor>q\<rfloor>))"
  defines "extra \<equiv> map fst (take left (apportion_rank qs))"
  shows "(\<Sum>(k, f)\<leftarrow>floors. if k \<in> set extra then f + 1 else f) = units"
    and "(k, q) \<in> set qs \<Longrightarrow> k \<in> set extra \<Longrightarrow> 0 < fraction q"
proof -
  let ?R = "apportion_rank qs"
  have R: "mset ?R = mset qs" "set ?R = set qs" "length ?R = length qs" "distinct (map fst ?R)"
    using dist by (simp_all add: apportion_rank_def distinct_map_sort_key)
  have split: "(\<Sum>x\<leftarrow>qs. snd x) = of_int (\<Sum>x\<leftarrow>qs. \<lfloor>snd x\<rfloor>) + (\<Sum>x\<leftarrow>qs. fraction (snd x))"
    by (rule sum_list_floor_fraction)
  have "0 \<le> (\<Sum>x\<leftarrow>qs. fraction (snd x))" by (intro sum_list_nonneg_map fraction_bounds)
  with split whole have "(\<Sum>x\<leftarrow>qs. \<lfloor>snd x\<rfloor>) \<le> units"
    by (simp add: case_prod_beta')
  then have left: "int left = units - (\<Sum>x\<leftarrow>qs. \<lfloor>snd x\<rfloor>)" by (simp add: left_def case_prod_beta')
  then have "(of_int (int left) :: rat) = of_int units - of_int (\<Sum>x\<leftarrow>qs. \<lfloor>snd x\<rfloor>)" by (simp only: of_int_diff)
  with split whole have sum: "of_nat left = (\<Sum>x\<leftarrow>qs. fraction (snd x))" by (simp add: case_prod_beta')
  also have "\<dots> \<le> of_nat (length qs)" by (rule sum_list_fraction_le)
  finally have le: "left \<le> length qs" by simp
  have sumR: "of_nat left = (\<Sum>x\<leftarrow>?R. fraction (snd x))"
    unfolding sum apportion_rank_def by (rule sum_list_map_sort_key [symmetric])
  have dx: "distinct extra" using R(4) by (simp add: extra_def take_map [symmetric])
  have "set extra \<subseteq> fst ` set qs" using R(2) set_take_subset [of left ?R] by (auto simp: extra_def)
  moreover have "fst ` set floors = fst ` set qs" by (force simp: floors_def)
  ultimately have "card (set extra \<inter> fst ` set floors) = left"
    using dx le R(3) by (simp add: Int_absorb2 distinct_card) (simp add: extra_def)
  moreover have "distinct (map fst floors)" using dist by (simp add: floors_def case_prod_beta' comp_def)
  moreover have "(\<Sum>(k, f)\<leftarrow>floors. f) = (\<Sum>x\<leftarrow>qs. \<lfloor>snd x\<rfloor>)"
    by (simp add: floors_def case_prod_beta' comp_def)
  ultimately show "(\<Sum>(k, f)\<leftarrow>floors. if k \<in> set extra then f + 1 else f) = units"
    using left by (simp add: sum_list_extra)
  show "0 < fraction q" if kq: "(k, q) \<in> set qs" and k: "k \<in> set extra"
  proof -
    obtain i where i: "i < left" "i < length ?R" "fst (?R ! i) = k"
      using k by (auto simp: extra_def in_set_conv_nth)
    then have "?R ! i \<in> set qs" using R(2) nth_mem by metis
    then have "?R ! i = (k, q)" using i(3) kq dist by (metis eq_key_imp_eq_value prod.collapse)
    moreover have "sorted (map (\<lambda>(k, q). (of_int \<lfloor>q\<rfloor> - q, k)) ?R)"
      by (simp add: apportion_rank_def sorted_sort_key)
    ultimately show ?thesis using ranked_taken_positive [OF _ sumR i(1,2)] by simp
  qed
qed

lemma sum_list_quota:
  assumes "whole = (\<Sum>(k, w)\<leftarrow>weights. dval w)" "whole \<noteq> 0"
  shows "(\<Sum>(k, w)\<leftarrow>weights. quota units whole (dval w)) = of_int units"
proof -
  have "(\<Sum>(k, w)\<leftarrow>weights. quota units x (dval w)) = of_int units * (\<Sum>(k, w)\<leftarrow>weights. dval w) / x" for x
    by (induction weights) (auto simp: quota_def add_divide_distrib distrib_left)
  with assms show ?thesis by simp
qed

text \<open>
  C26: apportionment loses no unit and gives none away: the shares sum to exactly the units, every key
  gets a share, and each share is its exact quota rounded down or up, so a key of weight zero gets none.
\<close>

theorem apportion_units_exact:
  fixes weights :: "('k::linorder \<times> decimal) list"
  assumes res: "apportion_units units weights = Inr shares" and dist: "distinct (map fst weights)"
  defines "Q \<equiv> \<lambda>w. quota units (\<Sum>(k, w)\<leftarrow>weights. dval w) (dval w)"
  shows "(\<Sum>(k, u)\<leftarrow>shares. u) = units \<and> map fst shares = sort (map fst weights)
     \<and> (\<forall>(k, w) \<in> set weights. \<exists>u. (k, u) \<in> set shares \<and> \<lfloor>Q w\<rfloor> \<le> u \<and> u \<le> \<lceil>Q w\<rceil>)"
proof (cases "(\<Sum>(k, w)\<leftarrow>weights. dval w) = 0")
  case True
  then have "shares = map (\<lambda>k. (k, 0)) (sort (map fst weights))" "units = 0"
    using res by (auto simp: apportion_units_def Let_def split: if_splits)
  with True show ?thesis
    by (auto simp: comp_def case_prod_beta' Q_def quota_def image_iff intro!: sum_list_map_if_zero)
next
  case False
  define whole where "whole = (\<Sum>(k, w)\<leftarrow>weights. dval w)"
  define qs where "qs = map (\<lambda>(k, w). (k, quota units whole (dval w))) weights"
  define extra where
    "extra = map fst (take (nat (units - (\<Sum>(k, q)\<leftarrow>qs. \<lfloor>q\<rfloor>))) (apportion_rank qs))"
  define give where "give = (\<lambda>k f. if k \<in> set extra then f + 1 else f :: int)"
  have floors: "(\<Sum>(k, f)\<leftarrow>map (\<lambda>(k, q). (k, \<lfloor>q\<rfloor>)) qs. f) = (\<Sum>(k, q)\<leftarrow>qs. \<lfloor>q\<rfloor>)"
    by (simp add: comp_def case_prod_beta')
  have shares: "shares = sort_key fst (map (\<lambda>(k, f). (k, give k f)) (map (\<lambda>(k, q). (k, \<lfloor>q\<rfloor>)) qs))"
    using res False unfolding apportion_units_def Let_def whole_def [symmetric] qs_def [symmetric]
      apportion_rank_def [symmetric] floors extra_def [symmetric] give_def
    by (simp split: if_splits)
  have qsk: "map fst qs = map fst weights" by (simp add: qs_def comp_def case_prod_beta')
  then have qd: "distinct (map fst qs)" using dist by simp
  have qsum: "(\<Sum>(k, q)\<leftarrow>qs. q) = of_int units"
    using sum_list_quota [OF whole_def] False by (simp add: qs_def whole_def comp_def case_prod_beta')
  note core = apportion_core [OF qd qsum, folded extra_def]
  have "(\<Sum>(k, u)\<leftarrow>shares. u) = (\<Sum>(k, f)\<leftarrow>map (\<lambda>(k, q). (k, \<lfloor>q\<rfloor>)) qs. give k f)"
    unfolding shares by (subst sum_list_map_sort_key) (simp add: comp_def case_prod_beta')
  with core(1) have total: "(\<Sum>(k, u)\<leftarrow>shares. u) = units" by (simp add: give_def)
  have keys: "map fst shares = sort (map fst weights)"
    unfolding shares map_sort_key_self qsk [symmetric] by (simp add: comp_def case_prod_beta')
  have "\<exists>u. (k, u) \<in> set shares \<and> \<lfloor>Q w\<rfloor> \<le> u \<and> u \<le> \<lceil>Q w\<rceil>" if kw: "(k, w) \<in> set weights" for k w
  proof (intro exI conjI)
    have in_qs: "(k, Q w) \<in> set qs" using kw by (force simp: qs_def Q_def whole_def)
    then show "(k, give k \<lfloor>Q w\<rfloor>) \<in> set shares" unfolding shares by force
    show "\<lfloor>Q w\<rfloor> \<le> give k \<lfloor>Q w\<rfloor>" by (simp add: give_def)
    show "give k \<lfloor>Q w\<rfloor> \<le> \<lceil>Q w\<rceil>"
      using core(2) [OF in_qs] unfolding give_def fraction_def
      by (auto simp: ceiling_altdef)
  qed
  with total keys show ?thesis by auto
qed

theorem apportion_units_exact_witness:
  "\<exists>shares. apportion_units 10 [(''b'', Finite 1 0), (''a'', Finite 2 0)] = Inr shares
     \<and> (\<Sum>(k, u)\<leftarrow>shares. u) = 10 \<and> map fst shares = [''a'', ''b'']"
proof -
  have s: "\<exists>shares. apportion_units 10 [(''b'', Finite 1 0), (''a'', Finite 2 0)] = Inr shares"
    by (simp add: apportion_units_def is_finite_def Let_def)
  then obtain shares where
    a: "apportion_units 10 [(''b'', Finite 1 0), (''a'', Finite 2 0)] = Inr shares" ..
  have d: "distinct (map fst [(''b'', Finite 1 0), (''a'', Finite 2 0)])" by simp
  have "sort [''b'', ''a''] = [''a'', ''b'']" by code_simp
  with apportion_units_exact [OF a d] a show ?thesis by auto
qed

end
