(* ===== verification/Option_Contract.thy ===== *)
theory Option_Contract
  imports Exact
begin

text \<open>
  \<open>app/options/contract.py\<close>, \<open>app/options/expiry.py\<close> (the anchor), \<open>app/options/structure.py\<close>:
  option contracts, the OCC symbols that name them, and resolved structures.

  The New York time zone is data outside the repository: \<open>anchor\<close> is \<open>option_expiry_anchor_ms\<close>
  (16:00 New York time on a date, as UTC milliseconds) and \<open>et_date\<close> is \<open>et_date_at_ms\<close>, both
  parameters. \<open>ny_calendar\<close> is what is relied on: an anchor falls on its own New York date, in the
  admitted range of instants. A date is a triple; \<open>valid_date\<close> is what \<open>datetime.date\<close> accepts.

  A structure's validator compares OCC symbols; by \<open>occ_symbol_roundtrip\<close> two valid contracts share
  a symbol exactly when they are the same contract, and \<open>structure_valid\<close> compares contracts.
\<close>

datatype option_right = Call | Put

type_synonym date = "nat \<times> nat \<times> nat"

definition leap_year :: "nat \<Rightarrow> bool" where
  "leap_year y \<longleftrightarrow> y mod 4 = 0 \<and> (y mod 100 \<noteq> 0 \<or> y mod 400 = 0)"

definition days_in_month :: "nat \<Rightarrow> nat \<Rightarrow> nat" where
  "days_in_month y m =
     (if m \<in> {4, 6, 9, 11} then 30 else if m = 2 then (if leap_year y then 29 else 28) else 31)"

fun valid_date :: "date \<Rightarrow> bool" where
  "valid_date (y, m, d) \<longleftrightarrow> 1 \<le> m \<and> m \<le> 12 \<and> 1 \<le> d \<and> d \<le> days_in_month y m"

definition max_timestamp_ms :: int where "max_timestamp_ms = 253402300799999"

definition is_instant_ms :: "int \<Rightarrow> bool" where
  "is_instant_ms v \<longleftrightarrow> 0 \<le> v \<and> v \<le> max_timestamp_ms"

definition max_strike_thousandths :: int where "max_strike_thousandths = 99999999"

record option_contract =
  oc_root :: string
  oc_expiry_ms :: int
  oc_right :: option_right
  oc_strike :: int

datatype contract_error =
    Not_An_Expiry
  | Year_Not_Written
  | Not_A_Symbol
  | Not_A_Date
  | Field_Refused
  | Strike_Not_A_Number
  | Strike_Refused value_error

definition upper_letter :: "char \<Rightarrow> bool" where
  "upper_letter c \<longleftrightarrow> 65 \<le> (of_char c :: nat) \<and> (of_char c :: nat) \<le> 90"

text \<open>\<open>option_expiry_date\<close>: the date an anchor instant names.\<close>

definition option_expiry_date ::
  "(date \<Rightarrow> int) \<Rightarrow> (int \<Rightarrow> date) \<Rightarrow> int \<Rightarrow> (contract_error, date) result" where
  "option_expiry_date anchor et_date expiry_ms =
     (if \<not> is_instant_ms expiry_ms then Inl Not_An_Expiry
      else let d = et_date expiry_ms
           in if anchor d \<noteq> expiry_ms then Inl Not_An_Expiry else Inr d)"

definition require_symbol_expiry ::
  "(date \<Rightarrow> int) \<Rightarrow> (int \<Rightarrow> date) \<Rightarrow> int \<Rightarrow> (contract_error, int) result" where
  "require_symbol_expiry anchor et_date expiry_ms =
     bindR (option_expiry_date anchor et_date expiry_ms) (\<lambda>(y, m, d).
       if 2000 \<le> y \<and> y \<le> 2099 then Inr expiry_ms else Inl Year_Not_Written)"

text \<open>The model's construction: every field constraint and the expiry validator.\<close>

definition make_contract ::
  "(date \<Rightarrow> int) \<Rightarrow> (int \<Rightarrow> date) \<Rightarrow> string \<Rightarrow> int \<Rightarrow> option_right \<Rightarrow> int
   \<Rightarrow> (contract_error, option_contract) result" where
  "make_contract anchor et_date rt expiry_ms right strike =
     bindR (guardR (1 \<le> length rt \<and> length rt \<le> 6 \<and> list_all upper_letter rt) Field_Refused) (\<lambda>_.
     bindR (guardR (0 < expiry_ms) Field_Refused) (\<lambda>_.
     bindR (require_symbol_expiry anchor et_date expiry_ms) (\<lambda>_.
     bindR (guardR (0 < strike \<and> strike \<le> max_strike_thousandths) Field_Refused) (\<lambda>_.
       Inr \<lparr>oc_root = rt, oc_expiry_ms = expiry_ms, oc_right = right, oc_strike = strike\<rparr>))))"

fun strike_decimal :: "py_value \<Rightarrow> (contract_error, decimal) result" where
  "strike_decimal (PyInt i) = Inr (Finite i 0)"
| "strike_decimal (PyFloat d) = Inr d"
| "strike_decimal (PyDecimal d) = Inr d"
| "strike_decimal (PyStr (Some d)) = Inr d"
| "strike_decimal _ = Inl Strike_Not_A_Number"

definition strike_thousandths :: "py_value \<Rightarrow> (contract_error, int) result" where
  "strike_thousandths strike =
     bindR (strike_decimal strike) (\<lambda>dollars.
       case whole_units dollars 1000 of Inl e \<Rightarrow> Inl (Strike_Refused e) | Inr k \<Rightarrow> Inr k)"

definition contract_of ::
  "(date \<Rightarrow> int) \<Rightarrow> (int \<Rightarrow> date) \<Rightarrow> string \<Rightarrow> date \<Rightarrow> option_right \<Rightarrow> py_value
   \<Rightarrow> (contract_error, option_contract) result" where
  "contract_of anchor et_date rt expiry_date right strike =
     bindR (strike_thousandths strike) (\<lambda>k.
       make_contract anchor et_date rt (anchor expiry_date) right k)"

definition symbol_expiry_range_ms :: "(date \<Rightarrow> int) \<Rightarrow> int \<times> int" where
  "symbol_expiry_range_ms anchor = (anchor (2000, 1, 1), anchor (2099, 12, 31))"

definition right_letter :: "option_right \<Rightarrow> char" where
  "right_letter r = (case r of Call \<Rightarrow> CHR ''C'' | Put \<Rightarrow> CHR ''P'')"

definition right_of_letter :: "char \<Rightarrow> option_right option" where
  "right_of_letter c = (if c = CHR ''C'' then Some Call else if c = CHR ''P'' then Some Put else None)"

fun yymmdd :: "date \<Rightarrow> string" where
  "yymmdd (y, m, d) = pad_nat 2 (y mod 100) @ pad_nat 2 m @ pad_nat 2 d"

definition occ_symbol :: "(int \<Rightarrow> date) \<Rightarrow> option_contract \<Rightarrow> string" where
  "occ_symbol et_date c =
     oc_root c @ yymmdd (et_date (oc_expiry_ms c)) @ [right_letter (oc_right c)]
     @ pad_nat 8 (nat (oc_strike c))"

text \<open>
  \<open>_OCC_SYMBOL.fullmatch\<close>: one to six capital letters, six digits, C or P, eight digits. The last
  fifteen characters are of fixed width, so the groups are read off from the right.
\<close>

definition match_occ :: "string \<Rightarrow> (string \<times> string \<times> option_right \<times> string) option" where
  "match_occ s =
     (let n = length s - 15; rt = take n s; date = take 6 (drop n s);
          strike = drop (n + 7) s
      in if 16 \<le> length s \<and> length s \<le> 21 \<and> list_all upper_letter rt
            \<and> list_all is_digit date \<and> list_all is_digit strike
         then (case right_of_letter (s ! (n + 6)) of None \<Rightarrow> None | Some r \<Rightarrow> Some (rt, date, r, strike))
         else None)"

definition from_occ_symbol ::
  "(date \<Rightarrow> int) \<Rightarrow> (int \<Rightarrow> date) \<Rightarrow> string \<Rightarrow> (contract_error, option_contract) result" where
  "from_occ_symbol anchor et_date symbol =
     (case match_occ symbol of
        None \<Rightarrow> Inl Not_A_Symbol
      | Some (rt, text, right, strike) \<Rightarrow>
          let expiry_date = (2000 + read_nat (take 2 text), read_nat (take 2 (drop 2 text)),
                             read_nat (drop 4 text))
          in if \<not> valid_date expiry_date then Inl Not_A_Date
             else make_contract anchor et_date rt (anchor expiry_date) right (int (read_nat strike)))"

subsection \<open>Resolved structures\<close>

datatype leg_position = Long | Short

record resolved_leg =
  rl_id :: string
  rl_contract :: option_contract
  rl_position :: leg_position
  rl_ratio :: int

type_synonym resolved_structure = "resolved_leg list"

definition max_option_legs :: nat where "max_option_legs = 4"

definition structure_valid :: "resolved_structure \<Rightarrow> bool" where
  "structure_valid legs \<longleftrightarrow>
     1 \<le> length legs \<and> length legs \<le> max_option_legs
     \<and> list_all (\<lambda>l. rl_id l \<noteq> [] \<and> 1 \<le> rl_ratio l) legs
     \<and> distinct (map rl_id legs)
     \<and> distinct (map rl_contract legs)
     \<and> length (remdups (map (\<lambda>l. oc_root (rl_contract l)) legs)) = 1"

definition has_one_expiry :: "resolved_structure \<Rightarrow> bool" where
  "has_one_expiry legs \<longleftrightarrow> length (remdups (map (\<lambda>l. oc_expiry_ms (rl_contract l)) legs)) = 1"

definition has_sold_leg :: "resolved_structure \<Rightarrow> bool" where
  "has_sold_leg legs \<longleftrightarrow> list_ex (\<lambda>l. rl_position l = Short) legs"

subsection \<open>The symbol names exactly one contract\<close>

definition ny_calendar :: "(date \<Rightarrow> int) \<Rightarrow> (int \<Rightarrow> date) \<Rightarrow> bool" where
  "ny_calendar anchor et_date \<longleftrightarrow>
     (\<forall>y m d. valid_date (y, m, d) \<and> 2000 \<le> y \<and> y \<le> 2099 \<longrightarrow>
        et_date (anchor (y, m, d)) = (y, m, d) \<and> 0 < anchor (y, m, d) \<and> anchor (y, m, d) \<le> max_timestamp_ms)
     \<and> (\<forall>t. is_instant_ms t \<longrightarrow> valid_date (et_date t))"

lemma make_contract_Inr:
  "make_contract anchor et_date rt e right k = Inr c \<longleftrightarrow>
     1 \<le> length rt \<and> length rt \<le> 6 \<and> list_all upper_letter rt \<and> 0 < e \<and> e \<le> max_timestamp_ms
     \<and> anchor (et_date e) = e \<and> 2000 \<le> fst (et_date e) \<and> fst (et_date e) \<le> 2099
     \<and> 0 < k \<and> k \<le> max_strike_thousandths
     \<and> c = \<lparr>oc_root = rt, oc_expiry_ms = e, oc_right = right, oc_strike = k\<rparr>"
  by (cases "et_date e")
    (auto simp: make_contract_def require_symbol_expiry_def option_expiry_date_def is_instant_ms_def
      result_simps Let_def split: if_splits)

definition contract_valid :: "(date \<Rightarrow> int) \<Rightarrow> (int \<Rightarrow> date) \<Rightarrow> option_contract \<Rightarrow> bool" where
  "contract_valid anchor et_date c \<longleftrightarrow>
     make_contract anchor et_date (oc_root c) (oc_expiry_ms c) (oc_right c) (oc_strike c) = Inr c"

lemma right_of_letter_right [simp]: "right_of_letter (right_letter r) = Some r"
  by (cases r) (simp_all add: right_of_letter_def right_letter_def)

lemma right_of_letter_Some: "right_of_letter ch = Some r \<Longrightarrow> right_letter r = ch"
  by (auto simp: right_of_letter_def right_letter_def split: if_splits)

lemma match_occ_append:
  assumes "1 \<le> length rt" "length rt \<le> 6" "list_all upper_letter rt"
    "length date = 6" "list_all is_digit date" "length strike = 8" "list_all is_digit strike"
  shows "match_occ (rt @ date @ [right_letter r] @ strike) = Some (rt, date, r, strike)"
  using assms by (simp add: match_occ_def Let_def nth_append)

lemma match_occ_Some:
  assumes "match_occ s = Some (rt, date, r, strike)"
  shows "s = rt @ date @ [right_letter r] @ strike \<and> 1 \<le> length rt \<and> length rt \<le> 6
     \<and> list_all upper_letter rt \<and> length date = 6 \<and> list_all is_digit date
     \<and> length strike = 8 \<and> list_all is_digit strike"
proof -
  let ?n = "length s - 15"
  have len: "16 \<le> length s" "length s \<le> 21" and parts: "rt = take ?n s" "date = take 6 (drop ?n s)"
      "strike = drop (?n + 7) s" "right_of_letter (s ! (?n + 6)) = Some r"
      "list_all upper_letter rt" "list_all is_digit date" "list_all is_digit strike"
    using assms by (auto simp: match_occ_def Let_def split: if_splits option.splits)
  have "s = take ?n s @ take 6 (drop ?n s) @ drop (?n + 6) s"
    by (metis add.commute append_take_drop_id drop_drop)
  also have "drop (?n + 6) s = s ! (?n + 6) # drop (?n + 7) s"
    using len by (subst Cons_nth_drop_Suc [symmetric]) (auto simp: numeral_eq_Suc)
  finally show ?thesis using len parts right_of_letter_Some [OF parts(4)] by auto
qed

lemma pad_two: "n < 100 \<Longrightarrow> length (pad_nat 2 n) = 2"
  by (rule length_pad_nat) auto

lemma pad_all_digits: "list_all is_digit (pad_nat w n)"
  by (auto simp: list_all_iff dest: pad_nat_digits)

lemma valid_date_small: "valid_date (y, m, d) \<Longrightarrow> m < 100 \<and> d < 100"
  by (auto simp: days_in_month_def split: if_splits)

lemma yymmdd_parts:
  assumes "valid_date (y, m, d)"
  shows "length (yymmdd (y, m, d)) = 6" "list_all is_digit (yymmdd (y, m, d))"
    "read_nat (take 2 (yymmdd (y, m, d))) = y mod 100"
    "read_nat (take 2 (drop 2 (yymmdd (y, m, d)))) = m" "read_nat (drop 4 (yymmdd (y, m, d))) = d"
proof -
  have l: "length (pad_nat 2 (y mod 100)) = 2" "length (pad_nat 2 m) = 2" "length (pad_nat 2 d) = 2"
    using valid_date_small [OF assms] by (simp_all add: pad_two)
  then show "length (yymmdd (y, m, d)) = 6" "list_all is_digit (yymmdd (y, m, d))"
    "read_nat (take 2 (yymmdd (y, m, d))) = y mod 100"
    "read_nat (take 2 (drop 2 (yymmdd (y, m, d)))) = m" "read_nat (drop 4 (yymmdd (y, m, d))) = d"
    by (simp_all add: pad_all_digits)
qed

text \<open>A two-digit text is the padded number it reads to.\<close>

lemma digit_char_value: "is_digit c \<Longrightarrow> digit_char (digit_value c) = c"
proof -
  assume "is_digit c"
  then have "digit_value c < 10" "of_char c = 48 + digit_value c"
    by (auto simp: is_digit_def digit_value_def)
  then have "(of_char (digit_char (digit_value c)) :: nat) = of_char c" by (simp add: of_digit_char)
  then show ?thesis by simp
qed

lemma show_read_nat:
  assumes "list_all is_digit s" "s \<noteq> []" "hd s \<noteq> CHR ''0'' \<or> length s = 1"
  shows "show_nat (read_nat s) = s"
  using assms
proof (induction s rule: rev_induct)
  case (snoc c s)
  have c: "is_digit c" "digit_value c < 10" using snoc.prems(1) by (auto simp: is_digit_def digit_value_def)
  show ?case
  proof (cases "s = []")
    case True
    with c digit_char_value [OF c(1)] show ?thesis by (simp add: read_nat_def show_nat.simps [of "digit_value c"])
  next
    case False
    then have hd: "hd s \<noteq> CHR ''0''" using snoc.prems(3) by simp
    then have IH: "show_nat (read_nat s) = s" using snoc False by simp
    have "0 < read_nat s"
    proof (rule ccontr)
      assume "\<not> 0 < read_nat s"
      then have "s = [digit_char 0]" using IH by (simp add: show_nat.simps)
      with hd show False by (simp add: digit_char_def)
    qed
    then show ?thesis
      using IH c digit_char_value [OF c(1)]
      by (simp add: read_nat_snoc show_nat.simps [of "10 * read_nat s + digit_value c"])
  qed
qed simp

lemma digits_as_padding:
  "list_all is_digit s \<Longrightarrow> s \<noteq> [] \<Longrightarrow> \<exists>k t. s = replicate k (CHR ''0'') @ t \<and> t \<noteq> []
     \<and> list_all is_digit t \<and> (hd t \<noteq> CHR ''0'' \<or> length t = 1)"
proof (induction s)
  case (Cons c s)
  show ?case
  proof (cases "c = CHR ''0'' \<and> s \<noteq> []")
    case True
    then obtain k t where "s = replicate k (CHR ''0'') @ t" "t \<noteq> []" "list_all is_digit t"
        "hd t \<noteq> CHR ''0'' \<or> length t = 1"
      using Cons by auto
    with True have "c # s = replicate (Suc k) (CHR ''0'') @ t" by simp
    then show ?thesis using \<open>t \<noteq> []\<close> \<open>list_all is_digit t\<close> \<open>hd t \<noteq> CHR ''0'' \<or> length t = 1\<close> by blast
  next
    case False
    with Cons.prems show ?thesis by (intro exI [of _ 0] exI [of _ "c # s"]) auto
  qed
qed simp

lemma pad_read_nat:
  assumes "list_all is_digit s" "s \<noteq> []"
  shows "pad_nat (length s) (read_nat s) = s"
proof -
  obtain k t where s: "s = replicate k (CHR ''0'') @ t" and t: "t \<noteq> []" "list_all is_digit t"
      "hd t \<noteq> CHR ''0'' \<or> length t = 1"
    using digits_as_padding [OF assms] by blast
  have "show_nat (read_nat s) = t" unfolding s read_nat_zeros using t by (intro show_read_nat) auto
  then show ?thesis by (simp add: pad_nat_def s)
qed

lemma read_nat_less: "list_all is_digit s \<Longrightarrow> length s = k \<Longrightarrow> read_nat s < 10 ^ k"
  using read_nat_bound by blast

lemma century: "r < 100 \<Longrightarrow> (2000 + r) mod 100 = (r :: nat)"
proof -
  assume "r < 100"
  moreover have "2000 + r = r + 20 * 100" by simp
  ultimately show ?thesis by (simp only: mod_mult_self1 mod_less)
qed

lemma century_year: "2000 \<le> y \<Longrightarrow> y \<le> 2099 \<Longrightarrow> 2000 + y mod 100 = (y :: nat)"
  using century [of "y - 2000"] by simp

lemma yymmdd_of_text:
  assumes "length t = 6" "list_all is_digit t"
    and "(y, m, d) = (2000 + read_nat (take 2 t), read_nat (take 2 (drop 2 t)), read_nat (drop 4 t))"
  shows "yymmdd (y, m, d) = t" "2000 \<le> y" "y \<le> 2099"
proof -
  have dig: "list_all is_digit (take 2 t)" "list_all is_digit (take 2 (drop 2 t))" "list_all is_digit (drop 4 t)"
    using assms(2) by (auto simp: list_all_iff dest: in_set_takeD in_set_dropD)
  have len: "length (take 2 t) = 2" "length (take 2 (drop 2 t)) = 2" "length (drop 4 t) = 2"
    using assms(1) by simp_all
  have yy: "read_nat (take 2 t) < 100" using read_nat_less [OF dig(1) len(1)] by simp
  with assms(3) show "2000 \<le> y" "y \<le> 2099" by simp_all
  have "y = 2000 + read_nat (take 2 t)" using assms(3) by simp
  then have ymod: "y mod 100 = read_nat (take 2 t)" using century [OF yy] by (simp only:)
  have "pad_nat 2 (read_nat u) = u" if "list_all is_digit u" "length u = 2" for u
    using pad_read_nat [OF that(1)] that(2) by force
  then have "yymmdd (y, m, d) = take 2 t @ take 2 (drop 2 t) @ drop 4 t"
    using dig len assms(3) ymod by simp
  also have "\<dots> = t" by (metis add_2_eq_Suc append_take_drop_id drop_drop numeral_Bit0 add_numeral_left)
  finally show "yymmdd (y, m, d) = t" .
qed

lemma from_occ_parts:
  assumes "from_occ_symbol anchor et_date s = Inr c"
  obtains rt t r k y m d where "match_occ s = Some (rt, t, r, k)"
    "(y, m, d) = (2000 + read_nat (take 2 t), read_nat (take 2 (drop 2 t)), read_nat (drop 4 t))"
    "valid_date (y, m, d)"
    "make_contract anchor et_date rt (anchor (y, m, d)) r (int (read_nat k)) = Inr c"
proof (cases "match_occ s")
  case None
  with assms show ?thesis by (simp add: from_occ_symbol_def)
next
  case (Some p)
  obtain rt t r k where p: "p = (rt, t, r, k)" by (cases p)
  define e where "e = (2000 + read_nat (take 2 t), read_nat (take 2 (drop 2 t)), read_nat (drop 4 t))"
  have a: "(if \<not> valid_date e then Inl Not_A_Date
      else make_contract anchor et_date rt (anchor e) r (int (read_nat k))) = Inr c"
    using assms unfolding from_occ_symbol_def Some p e_def by (simp only: option.case prod.case Let_def)
  then have "valid_date e" by (metis Inl_Inr_False)
  with a have "make_contract anchor et_date rt (anchor e) r (int (read_nat k)) = Inr c" by simp
  with that [OF Some [unfolded p]] e_def \<open>valid_date e\<close> show ?thesis by (metis prod_cases3)
qed

text \<open>
  C33: OCC symbols and contracts are in one-to-one correspondence: a text is read as a contract exactly when that
  contract passes every field check and the text is the contract's own symbol.
\<close>

theorem occ_symbol_roundtrip:
  assumes cal: "ny_calendar anchor et_date"
  shows "from_occ_symbol anchor et_date s = Inr c
     \<longleftrightarrow> contract_valid anchor et_date c \<and> occ_symbol et_date c = s"
proof
  assume "contract_valid anchor et_date c \<and> occ_symbol et_date c = s"
  then have v: "contract_valid anchor et_date c" and s: "s = occ_symbol et_date c" by auto
  obtain y m d where e: "et_date (oc_expiry_ms c) = (y, m, d)" by (cases "et_date (oc_expiry_ms c)")
  have mk: "make_contract anchor et_date (oc_root c) (oc_expiry_ms c) (oc_right c) (oc_strike c) = Inr c"
    using v by (simp add: contract_valid_def)
  note f = mk [unfolded make_contract_Inr e, simplified]
  have vd: "valid_date (y, m, d)"
  proof -
    have "is_instant_ms (oc_expiry_ms c)" using f by (simp add: is_instant_ms_def)
    with cal have "valid_date (et_date (oc_expiry_ms c))" unfolding ny_calendar_def by blast
    then show ?thesis unfolding e .
  qed
  note parts = yymmdd_parts [OF vd]
  have "oc_strike c < 10 ^ 8" using f by (simp add: max_strike_thousandths_def)
  then have "nat (oc_strike c) < 10 ^ 8" by (simp add: nat_less_iff)
  then have k: "length (pad_nat 8 (nat (oc_strike c))) = 8" by (rule length_pad_nat) simp
  have mo: "match_occ s = Some (oc_root c, yymmdd (y, m, d), oc_right c, pad_nat 8 (nat (oc_strike c)))"
    unfolding s occ_symbol_def e using f parts(1,2) k pad_all_digits by (intro match_occ_append) auto
  have yr: "2000 + y mod 100 = y" using f by (intro century_year) auto
  have strike: "int (nat (oc_strike c)) = oc_strike c" using f by simp
  have "from_occ_symbol anchor et_date s
      = make_contract anchor et_date (oc_root c) (anchor (y, m, d)) (oc_right c) (oc_strike c)"
    unfolding from_occ_symbol_def mo option.case prod.case Let_def parts yr read_pad_nat strike
    by (simp only: vd not_True_eq_False if_False)
  also have "anchor (y, m, d) = oc_expiry_ms c" using f by blast
  also note mk
  finally show "from_occ_symbol anchor et_date s = Inr c" .
next
  assume "from_occ_symbol anchor et_date s = Inr c"
  then obtain rt t r k y m d where mo: "match_occ s = Some (rt, t, r, k)"
      and ymd: "(y, m, d) = (2000 + read_nat (take 2 t), read_nat (take 2 (drop 2 t)), read_nat (drop 4 t))"
      and vd: "valid_date (y, m, d)"
      and mk: "make_contract anchor et_date rt (anchor (y, m, d)) r (int (read_nat k)) = Inr c"
    by (rule from_occ_parts)
  note ms = match_occ_Some [OF mo]
  have six: "length t = 6" and digits: "list_all is_digit t" using ms by blast+
  note yt = yymmdd_of_text [OF six digits ymd]
  have ret: "et_date (anchor (y, m, d)) = (y, m, d)"
    using cal vd yt(2,3) unfolding ny_calendar_def by blast
  have c: "c = \<lparr>oc_root = rt, oc_expiry_ms = anchor (y, m, d), oc_right = r, oc_strike = int (read_nat k)\<rparr>"
    using mk by (simp add: make_contract_Inr)
  have "list_all is_digit k" "length k = 8" "k \<noteq> []" using ms by auto
  then have "pad_nat 8 (read_nat k) = k" using pad_read_nat [of k] by simp
  then have "occ_symbol et_date c = s"
    unfolding occ_symbol_def c option_contract.simps ret yt(1) nat_int using ms by simp
  with mk c show "contract_valid anchor et_date c \<and> occ_symbol et_date c = s"
    by (simp add: contract_valid_def)
qed

text \<open>A calendar that meets the hypothesis: thirty-one-day months of numbered days.\<close>

definition plain_anchor :: "date \<Rightarrow> int" where
  "plain_anchor = (\<lambda>(y, m, d). int ((y * 12 + (m - 1)) * 31 + (d - 1)) + 1)"

definition plain_date :: "int \<Rightarrow> date" where
  "plain_date t =
     (let n = nat (t - 1); d = (n div 31 div 12, n div 31 mod 12 + 1, n mod 31 + 1)
      in if valid_date d then d else (2000, 1, 1))"

lemma plain_date_anchor: "valid_date (y, m, d) \<Longrightarrow> plain_date (plain_anchor (y, m, d)) = (y, m, d)"
proof -
  assume v: "valid_date (y, m, d)"
  then have b: "1 \<le> m" "m - 1 < 12" "1 \<le> d" "d - 1 < 31" by (auto simp: days_in_month_def split: if_splits)
  have "nat (plain_anchor (y, m, d) - 1) = (y * 12 + (m - 1)) * 31 + (d - 1)" by (simp add: plain_anchor_def)
  moreover have "((y * 12 + (m - 1)) * 31 + (d - 1)) div 31 = y * 12 + (m - 1)"
    "((y * 12 + (m - 1)) * 31 + (d - 1)) mod 31 = d - 1" "(y * 12 + (m - 1)) div 12 = y"
    "(y * 12 + (m - 1)) mod 12 = m - 1"
    using b by (simp_all only: div_mult_self3 mod_mult_self3 div_less mod_less add_0_right div_by_0
      numeral_neq_zero not_False_eq_True)
  ultimately show ?thesis using v b by (simp add: plain_date_def Let_def del: valid_date.simps)
qed

lemma plain_calendar: "ny_calendar plain_anchor plain_date"
  unfolding ny_calendar_def
proof (intro conjI allI impI)
  fix y m d assume h: "valid_date (y, m, d) \<and> 2000 \<le> y \<and> y \<le> 2099"
  then show "plain_date (plain_anchor (y, m, d)) = (y, m, d)" by (simp only: plain_date_anchor)
  have "m \<le> 12" "d \<le> 31" using h by (auto simp: days_in_month_def split: if_splits)
  with h show "0 < plain_anchor (y, m, d)" "plain_anchor (y, m, d) \<le> max_timestamp_ms"
    by (simp_all add: plain_anchor_def max_timestamp_ms_def)
next
  fix t show "valid_date (plain_date t)" by (simp add: plain_date_def Let_def days_in_month_def)
qed

theorem occ_symbol_roundtrip_witness:
  "from_occ_symbol plain_anchor plain_date ''AAPL240119C00100000'' = Inr
     \<lparr>oc_root = ''AAPL'', oc_expiry_ms = plain_anchor (2024, 1, 19), oc_right = Call, oc_strike = 100000\<rparr>"
proof -
  have d: "plain_date (plain_anchor (2024, 1, 19)) = (2024, 1, 19)"
    by (rule plain_date_anchor) (simp add: days_in_month_def)
  have two: "replicate 2 x = [x, x]" for x :: char by (simp add: numeral_eq_Suc)
  have pads: "pad_nat 2 24 = ''24''" "pad_nat 2 1 = ''01''" "pad_nat 2 19 = ''19''"
    "pad_nat 8 100000 = ''00100000''"
    by (simp_all add: pad_nat_def show_nat.simps digit_char_def two)
  have ymd: "yymmdd (2024, 1, 19) = ''240119''" using pads by simp
  have a: "plain_anchor (2024, 1, 19) = 752947" by (simp add: plain_anchor_def)
  let ?c = "\<lparr>oc_root = ''AAPL'', oc_expiry_ms = plain_anchor (2024, 1, 19), oc_right = Call, oc_strike = 100000\<rparr>"
  have v: "contract_valid plain_anchor plain_date ?c"
    unfolding contract_valid_def make_contract_Inr option_contract.simps d a
    using a d by (simp add: upper_letter_def max_timestamp_ms_def max_strike_thousandths_def)
  have s: "occ_symbol plain_date ?c = ''AAPL240119C00100000''"
    unfolding occ_symbol_def option_contract.simps d ymd using pads(4) by (simp add: right_letter_def)
  show ?thesis by (rule iffD2 [OF occ_symbol_roundtrip [OF plain_calendar]]) (intro conjI v s)
qed

end
