(* ===== verification/Whole_Units.thy ===== *)
theory Whole_Units
  imports Option_Contract
begin

text \<open>
  \<open>app/options/whole_units.py\<close>: how many whole structures a set of counted legs comes to, and how
  far each leg is beyond them. Counts are whole numbers by type, so the \<open>isinstance\<close> tests have no
  counterpart. \<open>structure_units\<close> is the module's \<open>whole_units\<close> (the name \<open>whole_units\<close> is
  the decimal conversion of \<open>exact.py\<close>).
\<close>

record leg_contracts =
  lc_leg_id :: string
  lc_ratio :: int
  lc_contracts :: int

record units_held =
  wu_units :: int
  wu_in_step :: bool
  wu_beyond :: "(string \<times> int) list"

datatype units_error = Ratio_Below_One | No_Legs | Leg_Counted_Twice

definition leg_contracts_ok :: "leg_contracts \<Rightarrow> bool" where
  "leg_contracts_ok l \<longleftrightarrow> 1 \<le> lc_ratio l"

definition structure_units :: "leg_contracts list \<Rightarrow> (units_error, units_held) result" where
  "structure_units legs =
     (if legs = [] then Inl No_Legs
      else if \<not> distinct (map lc_leg_id legs) then Inl Leg_Counted_Twice
      else let units = max 0 (Min (set (map (\<lambda>l. lc_contracts l div lc_ratio l) legs)));
               beyond = map (\<lambda>l. (lc_leg_id l, lc_contracts l - units * lc_ratio l)) legs
           in Inr \<lparr>wu_units = units, wu_in_step = \<not> list_ex (\<lambda>(_, b). b \<noteq> 0) beyond, wu_beyond = beyond\<rparr>)"

definition in_leg_direction :: "int \<Rightarrow> leg_position \<Rightarrow> int" where
  "in_leg_direction held position = (if position = Long then held else - held)"

lemma structure_units_Inr:
  assumes "structure_units legs = Inr u"
  shows "legs \<noteq> []" "wu_units u = max 0 (Min ((\<lambda>l. lc_contracts l div lc_ratio l) ` set legs))"
    "wu_beyond u = map (\<lambda>l. (lc_leg_id l, lc_contracts l - wu_units u * lc_ratio l)) legs"
    "wu_in_step u \<longleftrightarrow> (\<forall>l\<in>set legs. lc_contracts l = wu_units u * lc_ratio l)"
proof -
  define n where "n = max 0 (Min (set (map (\<lambda>l. lc_contracts l div lc_ratio l) legs)))"
  have ne: "legs \<noteq> []" and "distinct (map lc_leg_id legs)"
    using assms by (auto simp: structure_units_def split: if_splits)
  then have "Inr u = (Inr \<lparr>wu_units = n,
      wu_in_step = \<not> list_ex (\<lambda>(_, b). b \<noteq> 0) (map (\<lambda>l. (lc_leg_id l, lc_contracts l - n * lc_ratio l)) legs),
      wu_beyond = map (\<lambda>l. (lc_leg_id l, lc_contracts l - n * lc_ratio l)) legs\<rparr> :: (units_error, units_held) result)"
    using assms unfolding structure_units_def Let_def n_def by simp
  then have u: "u = \<lparr>wu_units = n,
      wu_in_step = \<not> list_ex (\<lambda>(_, b). b \<noteq> 0) (map (\<lambda>l. (lc_leg_id l, lc_contracts l - n * lc_ratio l)) legs),
      wu_beyond = map (\<lambda>l. (lc_leg_id l, lc_contracts l - n * lc_ratio l)) legs\<rparr>" by simp
  show "legs \<noteq> []" by (fact ne)
  show "wu_units u = max 0 (Min ((\<lambda>l. lc_contracts l div lc_ratio l) ` set legs))"
    by (simp add: u n_def)
  show "wu_beyond u = map (\<lambda>l. (lc_leg_id l, lc_contracts l - wu_units u * lc_ratio l)) legs" by (simp add: u)
  show "wu_in_step u \<longleftrightarrow> (\<forall>l\<in>set legs. lc_contracts l = wu_units u * lc_ratio l)"
    by (auto simp: u list_ex_iff)
qed

text \<open>A number of whole structures is one the counts can supply exactly when it is at most the units.\<close>

lemma units_largest:
  assumes u: "structure_units legs = Inr u" and ok: "list_all leg_contracts_ok legs" and n: "1 \<le> n"
  shows "n \<le> wu_units u \<longleftrightarrow> (\<forall>l\<in>set legs. n * lc_ratio l \<le> lc_contracts l)"
proof -
  have ne: "legs \<noteq> []" and units: "wu_units u = max 0 (Min ((\<lambda>l. lc_contracts l div lc_ratio l) ` set legs))"
    using structure_units_Inr [OF u] by auto
  have "n \<le> wu_units u \<longleftrightarrow> (\<forall>l\<in>set legs. n \<le> lc_contracts l div lc_ratio l)"
    using n ne unfolding units by (simp add: le_max_iff_disj)
  also have "\<dots> \<longleftrightarrow> (\<forall>l\<in>set legs. n * lc_ratio l \<le> lc_contracts l)"
  proof (rule ball_cong [OF refl])
    fix l assume "l \<in> set legs"
    then have "0 < lc_ratio l" using ok by (auto simp: list_all_iff leg_contracts_ok_def)
    then show "(n \<le> lc_contracts l div lc_ratio l) = (n * lc_ratio l \<le> lc_contracts l)"
      by (simp add: le_div_int_iff)
  qed
  finally show ?thesis .
qed

text \<open>
  The whole units of a set of legs are the largest number of structures all legs can supply (none when a leg is
  held the wrong way round), every leg is within its ratio times the units of being in step, and the legs are
  in step exactly when each counts its ratio times the units.
\<close>

theorem structure_units_spec:
  assumes "structure_units legs = Inr u" "list_all leg_contracts_ok legs"
  shows "0 \<le> wu_units u
     \<and> (\<forall>n\<ge>1. n \<le> wu_units u \<longleftrightarrow> (\<forall>l\<in>set legs. n * lc_ratio l \<le> lc_contracts l))
     \<and> (wu_in_step u \<longleftrightarrow> (\<forall>l\<in>set legs. lc_contracts l = wu_units u * lc_ratio l))
     \<and> wu_beyond u = map (\<lambda>l. (lc_leg_id l, lc_contracts l - wu_units u * lc_ratio l)) legs"
  using structure_units_Inr [OF assms(1)] units_largest [OF assms] by auto

definition uneven_legs :: "leg_contracts list" where
  "uneven_legs = [\<lparr>lc_leg_id = ''a'', lc_ratio = 1, lc_contracts = 2\<rparr>, \<lparr>lc_leg_id = ''b'', lc_ratio = 2, lc_contracts = 3\<rparr>]"

theorem structure_units_spec_witness:
  "\<exists>u. structure_units uneven_legs = Inr u \<and> wu_units u = 1 \<and> \<not> wu_in_step u \<and> wu_beyond u = [(''a'', 1), (''b'', 1)]
     \<and> (1 \<le> wu_units u \<longleftrightarrow> (\<forall>l\<in>set uneven_legs. 1 * lc_ratio l \<le> lc_contracts l))
     \<and> (2 \<le> wu_units u \<longleftrightarrow> (\<forall>l\<in>set uneven_legs. 2 * lc_ratio l \<le> lc_contracts l))"
proof -
  have units: "structure_units uneven_legs
      = Inr \<lparr>wu_units = 1, wu_in_step = False, wu_beyond = [(''a'', 1), (''b'', 1)]\<rparr>"
    by (simp add: structure_units_def uneven_legs_def)
  have "list_all leg_contracts_ok uneven_legs" by (simp add: uneven_legs_def leg_contracts_ok_def)
  note exact = structure_units_spec [OF units this]
  have "(\<forall>n\<ge>1. n \<le> (1 :: int) \<longleftrightarrow> (\<forall>l\<in>set uneven_legs. n * lc_ratio l \<le> lc_contracts l))" using exact by simp
  then have "(1 :: int) \<le> 1 \<longleftrightarrow> (\<forall>l\<in>set uneven_legs. 1 * lc_ratio l \<le> lc_contracts l)"
    "(2 :: int) \<le> 1 \<longleftrightarrow> (\<forall>l\<in>set uneven_legs. 2 * lc_ratio l \<le> lc_contracts l)" by (auto dest: spec [of _ 2])
  with units show ?thesis by simp
qed

end
