(* ===== verification/Requirement.thy ===== *)
theory Requirement
  imports Option_Contract
begin

text \<open>
  \<open>app/options/requirement.py\<close>: an option structure's exercise payoff, the broker's requirement,
  and what entering it means in cash. All amounts are whole cents or whole thousandths; nothing is
  rounded.

  A mapping by leg id is an association list with distinct keys; the holdings map of
  \<open>held_requirement_cents\<close> is one keyed by (OCC symbol, multiplier), and \<open>sorted(...items())\<close>
  sorts it by its (distinct) keys. \<open>isinstance\<close> tests are the types. A \<open>ValueError\<close> other than
  a typed refusal is \<open>Raised\<close>. Parameters \<open>anchor\<close> and \<open>et_date\<close> are the New York calendar.
\<close>

datatype money_refusal =
    Loss_Unbounded
  | Mixed_Expiry_With_Sold_Leg
  | Commitment_Not_Positive
  | Cost_Over_Limit
  | Leg_Gap_Over_Limit

datatype money_error = Refused money_refusal | Raised value_error | Bad_Symbol contract_error

record entry_size =
  es_multiplier :: int
  es_units :: int

record leg_quote =
  lq_bid :: decimal
  lq_ask :: decimal

record entry_money_figures =
  em_premium :: int
  em_requirement :: int
  em_commitment :: int
  em_loss_at_expiry :: "int option"

definition make_entry_size :: "int \<Rightarrow> int \<Rightarrow> (money_error, entry_size) result" where
  "make_entry_size multiplier units =
     (if multiplier < 1 then Inl (Raised (Bad_Value ''multiplier''))
      else if units < 1 then Inl (Raised (Bad_Value ''units''))
      else Inr \<lparr>es_multiplier = multiplier, es_units = units\<rparr>)"

definition leg_sign :: "resolved_leg \<Rightarrow> int" where
  "leg_sign l = (if rl_position l = Long then 1 else - 1)"

definition payoff_thousandths :: "resolved_leg list \<Rightarrow> int \<Rightarrow> int" where
  "payoff_thousandths legs price =
     (\<Sum>l\<leftarrow>legs. let strike = oc_strike (rl_contract l);
          exercise_value = (if oc_right (rl_contract l) = Call then price - strike else strike - price)
        in leg_sign l * rl_ratio l * max exercise_value 0)"

definition exercise_payoff_thousandths :: "resolved_structure \<Rightarrow> int \<Rightarrow> (money_error, int) result" where
  "exercise_payoff_thousandths legs price =
     (if price < 0 then Inl (Raised (Bad_Value ''underlying price'')) else Inr (payoff_thousandths legs price))"

definition call_slope :: "resolved_leg list \<Rightarrow> int" where
  "call_slope legs = (\<Sum>l\<leftarrow>filter (\<lambda>l. oc_right (rl_contract l) = Call) legs. leg_sign l * rl_ratio l)"

definition turning_points :: "resolved_leg list \<Rightarrow> int list" where
  "turning_points legs = remdups (0 # map (\<lambda>l. oc_strike (rl_contract l)) legs)"

definition lowest_legs_payoff_thousandths :: "resolved_leg list \<Rightarrow> (money_error, int) result" where
  "lowest_legs_payoff_thousandths legs =
     (if call_slope legs < 0 then Inl (Refused Loss_Unbounded)
      else Inr (Min (set (map (payoff_thousandths legs) (turning_points legs)))))"

definition lowest_payoff_thousandths :: "resolved_structure \<Rightarrow> (money_error, int) result" where
  "lowest_payoff_thousandths legs =
     bindR (lowest_legs_payoff_thousandths legs) (\<lambda>lowest.
       if has_sold_leg legs \<and> \<not> has_one_expiry legs then Inl (Refused Mixed_Expiry_With_Sold_Leg)
       else Inr lowest)"

definition payoff_cents :: "int \<Rightarrow> entry_size \<Rightarrow> (money_error, int) result" where
  "payoff_cents per_share sz =
     (let cents = per_share * es_multiplier sz div 10; remainder = per_share * es_multiplier sz mod 10
      in if remainder \<noteq> 0 then Inl (Raised Not_Whole_Units) else Inr (es_units sz * cents))"

definition contract_cents :: "decimal \<Rightarrow> entry_size \<Rightarrow> (money_error, int) result" where
  "contract_cents price sz =
     (case whole_units price (es_multiplier sz * 100) of Inl e \<Rightarrow> Inl (Raised e) | Inr c \<Rightarrow> Inr c)"

definition broker_requirement :: "resolved_structure \<Rightarrow> entry_size \<Rightarrow> (money_error, int) result" where
  "broker_requirement legs sz =
     bindR (lowest_payoff_thousandths legs) (\<lambda>lowest. payoff_cents (max 0 (- lowest)) sz)"

definition portfolio_key :: "resolved_leg \<Rightarrow> string \<times> int" where
  "portfolio_key l = (oc_root (rl_contract l), oc_expiry_ms (rl_contract l))"

definition portfolio_broker_requirement :: "resolved_leg list \<Rightarrow> entry_size \<Rightarrow> (money_error, int) result" where
  "portfolio_broker_requirement legs sz =
     bindR (foldR (\<lambda>by_underlying ((rt, _), held).
         bindR (lowest_legs_payoff_thousandths held) (\<lambda>lowest.
         bindR (payoff_cents (max 0 (- lowest)) sz) (\<lambda>cents.
           Inr (AList.update rt
             (max (case map_of by_underlying rt of None \<Rightarrow> 0 | Some c \<Rightarrow> c) cents) by_underlying))))
       [] (group_by portfolio_key legs)) (\<lambda>by_underlying.
     Inr (sum_list (map snd by_underlying)))"

text \<open>Holdings: signed whole contracts by (OCC symbol, multiplier).\<close>

type_synonym contract_at_multiplier = "string \<times> int"
type_synonym holdings = "(contract_at_multiplier \<times> int) list"

definition held_leg :: "string \<Rightarrow> option_contract \<Rightarrow> int \<Rightarrow> resolved_leg" where
  "held_leg symbol c held =
     \<lparr>rl_id = symbol, rl_contract = c, rl_position = (if 0 < held then Long else Short), rl_ratio = \<bar>held\<bar>\<rparr>"

definition held_requirement_cents ::
  "(date \<Rightarrow> int) \<Rightarrow> (int \<Rightarrow> date) \<Rightarrow> holdings \<Rightarrow> (money_error, int) result" where
  "held_requirement_cents anchor et_date signed_contracts =
     bindR (foldR (\<lambda>by_multiplier ((symbol, multiplier), held).
         case from_occ_symbol anchor et_date symbol of
           Inl e \<Rightarrow> Inl (Bad_Symbol e)
         | Inr c \<Rightarrow> Inr (if held = 0 then by_multiplier
                         else group_add multiplier (held_leg symbol c held) by_multiplier))
       [] (sort_key fst signed_contracts)) (\<lambda>by_multiplier.
     foldR (\<lambda>total (multiplier, legs).
         bindR (make_entry_size multiplier 1) (\<lambda>sz.
         bindR (portfolio_broker_requirement legs sz) (\<lambda>cents. Inr (total + cents))))
       0 by_multiplier)"

definition incremental_account_requirement ::
  "(date \<Rightarrow> int) \<Rightarrow> (int \<Rightarrow> date) \<Rightarrow> holdings \<Rightarrow> holdings \<Rightarrow> (money_error, int \<times> int) result" where
  "incremental_account_requirement anchor et_date held_before held_after =
     bindR (held_requirement_cents anchor et_date held_before) (\<lambda>before.
     bindR (held_requirement_cents anchor et_date held_after) (\<lambda>after. Inr (before, after)))"

definition with_contracts :: "holdings \<Rightarrow> holdings \<Rightarrow> holdings" where
  "with_contracts held added =
     fold (\<lambda>(key, count) after.
         AList.update key ((case map_of after key of None \<Rightarrow> 0 | Some n \<Rightarrow> n) + count) after)
       added held"

definition require_one_entry_per_leg :: "resolved_structure \<Rightarrow> (string \<times> 'a) list \<Rightarrow> (money_error, unit) result" where
  "require_one_entry_per_leg legs by_leg =
     guardR (set (map fst by_leg) = set (map rl_id legs)) (Raised (Bad_Value ''one entry per leg''))"

definition markets ::
  "resolved_structure \<Rightarrow> (string \<times> leg_quote) list \<Rightarrow> (money_error, (string \<times> leg_quote) list) result" where
  "markets legs quotes =
     bindR (require_one_entry_per_leg legs quotes) (\<lambda>_.
     bindR (traverseR (\<lambda>l.
         case map_of quotes (rl_id l) of
           None \<Rightarrow> Inl (Raised (Bad_Value ''KeyError''))
         | Some q \<Rightarrow>
             case require_everyday (lq_bid q) of Inl e \<Rightarrow> Inl (Raised e) | Inr bid \<Rightarrow>
             case require_everyday (lq_ask q) of Inl e \<Rightarrow> Inl (Raised e) | Inr ask \<Rightarrow>
               guardR (\<not> (dval bid < 0 \<or> dval ask \<le> 0 \<or> dval bid > dval ask)) (Raised (Bad_Value ''no market''))) legs)
       (\<lambda>_. Inr quotes))"

definition exact_total :: "(int \<times> decimal) list \<Rightarrow> (money_error, decimal) result" where
  "exact_total terms = (case exact_sum terms of Inl e \<Rightarrow> Inl (Raised e) | Inr d \<Rightarrow> Inr d)"

definition natural_net_price :: "resolved_structure \<Rightarrow> (string \<times> leg_quote) list \<Rightarrow> (money_error, decimal) result" where
  "natural_net_price legs quotes =
     bindR (markets legs quotes) (\<lambda>ms.
       exact_total (map (\<lambda>l. (leg_sign l * rl_ratio l,
           if rl_position l = Long then lq_ask (the (map_of ms (rl_id l))) else lq_bid (the (map_of ms (rl_id l))))) legs))"

definition round_trip_cost ::
  "resolved_structure \<Rightarrow> (string \<times> leg_quote) list \<Rightarrow> entry_size \<Rightarrow> (money_error, int) result" where
  "round_trip_cost legs quotes sz =
     bindR (markets legs quotes) (\<lambda>ms.
     bindR (exact_total (concat (map (\<lambda>l.
         [(rl_ratio l, lq_ask (the (map_of ms (rl_id l)))), (- rl_ratio l, lq_bid (the (map_of ms (rl_id l))))]) legs)))
       (\<lambda>gap. bindR (contract_cents gap sz) (\<lambda>cents. Inr (es_units sz * cents))))"

definition entry_money ::
  "resolved_structure \<Rightarrow> entry_size \<Rightarrow> decimal \<Rightarrow> int \<Rightarrow> (money_error, entry_money_figures) result" where
  "entry_money legs sz net_price fee_provision_cents =
     bindR (guardR (0 \<le> fee_provision_cents) (Raised (Bad_Value ''fee provision''))) (\<lambda>_.
     bindR (lowest_payoff_thousandths legs) (\<lambda>lowest_per_share.
     bindR (payoff_cents (max 0 (- lowest_per_share)) sz) (\<lambda>requirement.
     bindR (contract_cents net_price sz) (\<lambda>per_unit.
       let premium = es_units sz * per_unit; before_fees = requirement + premium
       in if before_fees \<le> 0 then Inl (Refused Commitment_Not_Positive)
          else bindR (if has_one_expiry legs
                      then bindR (payoff_cents lowest_per_share sz) (\<lambda>lowest. Inr (Some (max 0 (premium - lowest))))
                      else Inr None) (\<lambda>loss.
            Inr \<lparr>em_premium = premium, em_requirement = requirement,
                 em_commitment = before_fees + fee_provision_cents, em_loss_at_expiry = loss\<rparr>)))))"

definition round_trip_cost_is_over_limit :: "int \<Rightarrow> int \<Rightarrow> decimal \<Rightarrow> (money_error, bool) result" where
  "round_trip_cost_is_over_limit cost_cents commitment_cents limit_percent =
     bindR (guardR (0 \<le> cost_cents) (Raised (Bad_Value ''round-trip cost''))) (\<lambda>_.
     bindR (guardR (0 < commitment_cents) (Raised (Bad_Value ''entry commitment''))) (\<lambda>_.
       case whole_units limit_percent 1000000 of
         Inl e \<Rightarrow> Inl (Raised e)
       | Inr limit_millionths \<Rightarrow>
           if limit_millionths < 0 then Inl (Raised (Bad_Value ''structure cost limit''))
           else Inr (limit_millionths * commitment_cents < cost_cents * 100 * 1000000)))"

subsection \<open>The payoff between and beyond its turning points\<close>

text \<open>The payoff at any real price, not only at whole thousandths: the reference the code's figures bound.\<close>

definition leg_payoff_at :: "resolved_leg \<Rightarrow> rat \<Rightarrow> rat" where
  "leg_payoff_at l p =
     of_int (leg_sign l * rl_ratio l)
     * (case oc_right (rl_contract l) of
          Call \<Rightarrow> max (p - of_int (oc_strike (rl_contract l))) 0
        | Put \<Rightarrow> max (of_int (oc_strike (rl_contract l)) - p) 0)"

definition payoff_at :: "resolved_leg list \<Rightarrow> rat \<Rightarrow> rat" where
  "payoff_at legs p = (\<Sum>l\<leftarrow>legs. leg_payoff_at l p)"

lemma payoff_at_of_int: "payoff_at legs (of_int p) = of_int (payoff_thousandths legs p)"
  by (induction legs)
    (auto simp: payoff_at_def payoff_thousandths_def leg_payoff_at_def Let_def max_def split: option_right.split)

lemma leg_affine:
  assumes "a \<le> p" "p \<le> b" "of_int (oc_strike (rl_contract l)) \<le> a \<or> b \<le> of_int (oc_strike (rl_contract l))"
  shows "leg_payoff_at l p * (b - a) = leg_payoff_at l a * (b - p) + leg_payoff_at l b * (p - a)"
proof (cases "oc_right (rl_contract l)")
  case Call
  with assms show ?thesis by (auto simp: leg_payoff_at_def max_def algebra_simps)
next
  case Put
  with assms show ?thesis by (auto simp: leg_payoff_at_def max_def algebra_simps)
qed

lemma payoff_affine:
  assumes "a \<le> p" "p \<le> b"
    "\<forall>l\<in>set legs. of_int (oc_strike (rl_contract l)) \<le> a \<or> b \<le> of_int (oc_strike (rl_contract l))"
  shows "payoff_at legs p * (b - a) = payoff_at legs a * (b - p) + payoff_at legs b * (p - a)"
  using assms(3)
proof (induction legs)
  case (Cons l legs)
  then show ?case using leg_affine [OF assms(1,2), of l]
    by (simp add: payoff_at_def distrib_right)
qed (simp add: payoff_at_def)

lemma payoff_beyond:
  assumes "a \<le> p" "\<forall>l\<in>set legs. of_int (oc_strike (rl_contract l)) \<le> a"
  shows "payoff_at legs p = payoff_at legs a + of_int (call_slope legs) * (p - a)"
  using assms(2)
proof (induction legs)
  case (Cons l legs)
  then show ?case using assms(1)
    by (auto simp: payoff_at_def call_slope_def leg_payoff_at_def max_def algebra_simps split: option_right.split)
qed (simp add: payoff_at_def call_slope_def)

lemma affine_between_min:
  fixes a :: rat
  assumes "f * (b - a) = u * (b - p) + v * (p - a)" "a \<le> p" "p \<le> b" "a < b" "m \<le> u" "m \<le> v"
  shows "m \<le> f"
proof -
  have "m * (b - p) \<le> u * (b - p)" "m * (p - a) \<le> v * (p - a)"
    using assms by (auto intro: mult_right_mono)
  then have "m * (b - p) + m * (p - a) \<le> f * (b - a)" unfolding assms(1) by (rule add_mono)
  also have "m * (b - p) + m * (p - a) = m * (b - a)" by (simp add: algebra_simps)
  finally show ?thesis using assms(4) by (simp add: mult_le_cancel_right_pos)
qed

lemma neighbours:
  fixes p :: rat
  assumes "finite T" "0 \<in> T" "0 \<le> p"
  obtains a where "a \<in> T" "a \<le> p" "\<And>t. t \<in> T \<Longrightarrow> t \<le> a \<or> p < t"
proof -
  let ?L = "{t \<in> T. t \<le> p}"
  have "finite ?L" "?L \<noteq> {}" using assms by auto
  then have "Max ?L \<in> ?L" "\<And>t. t \<in> ?L \<Longrightarrow> t \<le> Max ?L" by (auto simp del: mem_Collect_eq)
  then show ?thesis by (intro that [of "Max ?L"]) force+
qed

lemma set_turning_points: "set (turning_points legs) = insert 0 ((\<lambda>l. oc_strike (rl_contract l)) ` set legs)"
  unfolding turning_points_def set_remdups by simp

lemma payoff_lower_bound:
  assumes slope: "0 \<le> call_slope legs" and p: "0 \<le> p"
    and m: "\<forall>t\<in>set (turning_points legs). m \<le> payoff_at legs (of_int t)"
  shows "m \<le> payoff_at legs p"
proof -
  define T where "T = (of_int :: int \<Rightarrow> rat) ` set (turning_points legs)"
  have T: "finite T" "0 \<in> T" by (auto simp: T_def turning_points_def)
  have strikes: "of_int (oc_strike (rl_contract l)) \<in> T" if "l \<in> set legs" for l
    using that by (auto simp: T_def turning_points_def)
  have mT: "m \<le> payoff_at legs t" if "t \<in> T" for t using m that by (auto simp: T_def)
  obtain a where a: "a \<in> T" "a \<le> p" "\<And>t. t \<in> T \<Longrightarrow> t \<le> a \<or> p < t"
    using neighbours [OF T p] by blast
  show ?thesis
  proof (cases "\<exists>t\<in>T. p < t")
    case False
    then have "\<forall>l\<in>set legs. of_int (oc_strike (rl_contract l)) \<le> a" using a(3) strikes by blast
    from payoff_beyond [OF a(2) this] have "payoff_at legs a \<le> payoff_at legs p"
      using slope a(2) by simp
    with mT [OF a(1)] show ?thesis by linarith
  next
    case True
    define b where "b = Min {t \<in> T. p < t}"
    have "b \<in> {t \<in> T. p < t}" unfolding b_def by (rule Min_in) (use T True in auto)
    then have b: "b \<in> T" "p < b" by auto
    have up: "b \<le> t" if "t \<in> T" "p < t" for t unfolding b_def by (rule Min_le) (use T that in auto)
    have "\<forall>l\<in>set legs. of_int (oc_strike (rl_contract l)) \<le> a \<or> b \<le> of_int (oc_strike (rl_contract l))"
      using a(3) up strikes by blast
    from payoff_affine [OF a(2) less_imp_le [OF b(2)] this] show ?thesis
      by (rule affine_between_min) (use a b mT in auto)
  qed
qed

lemma payoff_unbounded:
  assumes "call_slope legs < 0"
  shows "\<exists>p\<ge>0. payoff_at legs p < b"
proof -
  define a :: rat where "a = Max (insert 0 ((\<lambda>l. of_int (oc_strike (rl_contract l))) ` set legs))"
  have a: "0 \<le> a" "\<forall>l\<in>set legs. of_int (oc_strike (rl_contract l)) \<le> a" by (simp_all add: a_def)
  define d where "d = max 0 (payoff_at legs a - b) + 1"
  have d: "0 \<le> d" "payoff_at legs a - b < d" by (simp_all add: d_def)
  have "call_slope legs \<le> - 1" using assms by simp
  then have "(of_int (call_slope legs) :: rat) \<le> of_int (- 1)" by (simp only: of_int_le_iff)
  then have "of_int (call_slope legs) * d \<le> (- 1) * d" using d(1) by (intro mult_right_mono) auto
  moreover have "payoff_at legs (a + d) = payoff_at legs a + of_int (call_slope legs) * d"
    using payoff_beyond [OF _ a(2), of "a + d"] d(1) by simp
  ultimately have "payoff_at legs (a + d) < b" using d(2) by linarith
  with a(1) d(1) show ?thesis by (intro exI [of _ "a + d"]) auto
qed

definition strikes_ok :: "resolved_leg list \<Rightarrow> bool" where
  "strikes_ok legs \<longleftrightarrow> list_all (\<lambda>l. 0 \<le> oc_strike (rl_contract l)) legs"

lemma lowest_Inr_iff:
  assumes s: "strikes_ok legs"
  shows "lowest_legs_payoff_thousandths legs = Inr v \<longleftrightarrow>
     (\<forall>p\<ge>0. of_int v \<le> payoff_at legs p) \<and> (\<exists>p\<ge>0. payoff_at legs p = of_int v)"
proof (cases "call_slope legs < 0")
  case True
  then have "\<exists>p\<ge>0. payoff_at legs p < of_int v" by (rule payoff_unbounded)
  with True show ?thesis by (auto simp: lowest_legs_payoff_thousandths_def not_le [symmetric])
next
  case False
  define M where "M = Min (set (map (payoff_thousandths legs) (turning_points legs)))"
  have ne: "set (map (payoff_thousandths legs) (turning_points legs)) \<noteq> {}"
    by (simp add: set_turning_points del: set_empty)
  have "M \<in> set (map (payoff_thousandths legs) (turning_points legs))"
    unfolding M_def by (rule Min_in [OF _ ne]) simp
  then obtain t where t: "t \<in> set (turning_points legs)" "payoff_thousandths legs t = M" by auto
  have t0: "0 \<le> (of_int t :: rat)"
    using t(1) s by (auto simp: turning_points_def strikes_ok_def list_all_iff split: if_splits)
  have att: "payoff_at legs (of_int t) = of_int M" by (simp add: payoff_at_of_int t(2))
  have low: "of_int M \<le> payoff_at legs p" if "0 \<le> p" for p
  proof (rule payoff_lower_bound [OF _ that])
    show "0 \<le> call_slope legs" using False by simp
    show "\<forall>t\<in>set (turning_points legs). of_int M \<le> payoff_at legs (of_int t)"
      unfolding payoff_at_of_int M_def by simp
  qed
  have "lowest_legs_payoff_thousandths legs = Inr v \<longleftrightarrow> M = v"
    using False by (simp add: lowest_legs_payoff_thousandths_def M_def)
  moreover have "M = v" if "\<forall>p\<ge>0. of_int v \<le> payoff_at legs p" "\<exists>p\<ge>0. payoff_at legs p = of_int v"
  proof -
    from that(2) obtain p where p: "0 \<le> p" "payoff_at legs p = of_int v" by blast
    have "(of_int M :: rat) \<le> of_int v" using low [OF p(1)] p(2) by simp
    moreover have "(of_int v :: rat) \<le> of_int M" using that(1) t0 att by metis
    ultimately show ?thesis by (simp only: of_int_le_iff)
  qed
  moreover have "\<exists>p\<ge>0. payoff_at legs p = of_int M" using t0 att by blast
  ultimately show ?thesis using low by auto
qed

text \<open>
  C13: the figure read at zero and at the strikes is the lowest exercise payoff over every price an underlying
  can settle at, attained at some price; and the legs are refused exactly when their loss has no limit.
\<close>

theorem lowest_payoff_is_minimum:
  assumes "strikes_ok legs"
  shows "(lowest_legs_payoff_thousandths legs = Inr v \<longleftrightarrow>
       (\<forall>p\<ge>0. of_int v \<le> payoff_at legs p) \<and> (\<exists>p\<ge>0. payoff_at legs p = of_int v))
     \<and> (lowest_legs_payoff_thousandths legs = Inl (Refused Loss_Unbounded) \<longleftrightarrow>
       (\<forall>b. \<exists>p\<ge>0. payoff_at legs p < b))"
proof
  show "lowest_legs_payoff_thousandths legs = Inr v \<longleftrightarrow>
       (\<forall>p\<ge>0. of_int v \<le> payoff_at legs p) \<and> (\<exists>p\<ge>0. payoff_at legs p = of_int v)"
    by (rule lowest_Inr_iff [OF assms])
  show "lowest_legs_payoff_thousandths legs = Inl (Refused Loss_Unbounded) \<longleftrightarrow>
       (\<forall>b. \<exists>p\<ge>0. payoff_at legs p < b)"
  proof (cases "call_slope legs < 0")
    case True
    then show ?thesis using payoff_unbounded by (simp add: lowest_legs_payoff_thousandths_def)
  next
    case False
    then obtain w where w: "lowest_legs_payoff_thousandths legs = Inr w"
      by (auto simp: lowest_legs_payoff_thousandths_def)
    then have "\<not> (\<exists>p\<ge>0. payoff_at legs p < of_int w)"
      using lowest_Inr_iff [OF assms] by (auto simp: not_less)
    with w show ?thesis by auto
  qed
qed

text \<open>A five-dollar-wide put spread sold, used by the witnesses.\<close>

definition spread_contract :: "int \<Rightarrow> option_contract" where
  "spread_contract k = \<lparr>oc_root = ''AAPL'', oc_expiry_ms = 752947, oc_right = Put, oc_strike = k\<rparr>"

definition sold_spread :: resolved_structure where
  "sold_spread =
     [\<lparr>rl_id = ''a'', rl_contract = spread_contract 100000, rl_position = Short, rl_ratio = 1\<rparr>,
      \<lparr>rl_id = ''b'', rl_contract = spread_contract 95000, rl_position = Long, rl_ratio = 1\<rparr>]"

lemmas sold_spread_defs = sold_spread_def spread_contract_def leg_sign_def

lemma sold_spread_facts [simp]:
  "strikes_ok sold_spread" "lowest_legs_payoff_thousandths sold_spread = Inr (- 5000)"
  "has_one_expiry sold_spread" "has_sold_leg sold_spread"
  by (simp_all add: sold_spread_defs strikes_ok_def lowest_legs_payoff_thousandths_def call_slope_def
      turning_points_def payoff_thousandths_def has_one_expiry_def has_sold_leg_def)

theorem lowest_payoff_is_minimum_witness:
  "- 5000 \<le> payoff_at sold_spread 97500 \<and> (\<exists>p. 0 \<le> p \<and> payoff_at sold_spread p = - 5000)"
  using lowest_payoff_is_minimum [of sold_spread "- 5000"] by simp

subsection \<open>The portfolio requirement\<close>

lemma payoff_cents_Inr:
  "payoff_cents low sz = Inr c \<longleftrightarrow> (\<exists>k. low * es_multiplier sz = 10 * k \<and> c = es_units sz * k)"
proof
  assume "payoff_cents low sz = Inr c"
  then have "low * es_multiplier sz mod 10 = 0" "c = es_units sz * (low * es_multiplier sz div 10)"
    by (auto simp: payoff_cents_def Let_def split: if_splits)
  then show "\<exists>k. low * es_multiplier sz = 10 * k \<and> c = es_units sz * k"
    by (intro exI [of _ "low * es_multiplier sz div 10"]) auto
qed (auto simp: payoff_cents_def Let_def)

definition expiry_requirement ::
  "resolved_leg list \<Rightarrow> entry_size \<Rightarrow> string \<times> int \<Rightarrow> (money_error, int) result" where
  "expiry_requirement legs sz k =
     bindR (lowest_legs_payoff_thousandths (filter (\<lambda>l. portfolio_key l = k) legs)) (\<lambda>lowest.
       payoff_cents (max 0 (- lowest)) sz)"

text \<open>The loop over the expiries: the running maximum of each underlying.\<close>

definition underlying_max :: "('a \<times> 'b \<Rightarrow> ('e, int) result) \<Rightarrow> ('a \<times> 'b) set \<Rightarrow> 'a \<Rightarrow> int" where
  "underlying_max r ks rt = Max (insert 0 ((\<lambda>k. projr (r k)) ` {k \<in> ks. fst k = rt}))"

definition add_expiry ::
  "('a \<times> 'b \<Rightarrow> ('e, int) result) \<Rightarrow> ('a \<times> int) list \<Rightarrow> 'a \<times> 'b \<Rightarrow> ('e, ('a \<times> int) list) result" where
  "add_expiry r acc k = bindR (r k) (\<lambda>cents.
     Inr (AList.update (fst k) (max (case map_of acc (fst k) of None \<Rightarrow> 0 | Some c \<Rightarrow> c) cents) acc))"

lemma underlying_max_snoc:
  "finite ks \<Longrightarrow> underlying_max r (insert k ks) rt
     = (if fst k = rt then max (underlying_max r ks rt) (projr (r k)) else underlying_max r ks rt)"
proof -
  assume f: "finite ks"
  have "{k' \<in> insert k ks. fst k' = rt} = (if fst k = rt then insert k {k' \<in> ks. fst k' = rt} else {k' \<in> ks. fst k' = rt})"
    by auto
  moreover have "Max (insert 0 (insert x S)) = max (Max (insert 0 S)) x" if "finite S" for x :: int and S
    by (subst insert_commute) (simp add: that max.commute)
  ultimately show ?thesis using f by (simp add: underlying_max_def)
qed

lemma add_expiry_loop:
  assumes "foldR (add_expiry r) [] ks = Inr acc"
  shows "(\<forall>k\<in>set ks. \<exists>n. r k = Inr n) \<and> distinct (map fst acc) \<and> set (map fst acc) = fst ` set ks
     \<and> (\<forall>rt\<in>fst ` set ks. map_of acc rt = Some (underlying_max r (set ks) rt))"
  using assms
proof (induction ks arbitrary: acc rule: rev_induct)
  case (snoc k ks)
  then obtain acc0 c where acc0: "foldR (add_expiry r) [] ks = Inr acc0" and rk: "r k = Inr c"
      and acc: "acc = AList.update (fst k) (max (case map_of acc0 (fst k) of None \<Rightarrow> 0 | Some c \<Rightarrow> c) c) acc0"
  proof -
    have "bindR (foldR (add_expiry r) [] ks) (\<lambda>s. add_expiry r s k) = Inr acc"
      using snoc.prems by (simp add: foldR_append bindR_def split: sum.splits)
    then obtain s where s: "foldR (add_expiry r) [] ks = Inr s" "add_expiry r s k = Inr acc"
      by (auto simp only: bindR_Inr_iff)
    from s(2) obtain c where "r k = Inr c"
        "acc = AList.update (fst k) (max (case map_of s (fst k) of None \<Rightarrow> 0 | Some c \<Rightarrow> c) c) s"
      by (cases "r k") (auto simp: add_expiry_def)
    with s(1) show ?thesis by (rule that)
  qed
  note IH = snoc.IH [OF acc0]
  have keys: "set (map fst acc) = fst ` set (ks @ [k])"
    using IH by (simp add: acc dom_update image_insert)
  have d: "distinct (map fst acc)" using IH by (simp add: acc distinct_update)
  have "map_of acc0 (fst k) = (if fst k \<in> fst ` set ks then Some (underlying_max r (set ks) (fst k)) else None)"
  proof (cases "fst k \<in> fst ` set ks")
    case False
    then have "fst k \<notin> fst ` set acc0" using IH by simp
    with False show ?thesis by (simp add: map_of_eq_None_iff)
  next
    case True
    with IH have "map_of acc0 (fst k) = Some (underlying_max r (set ks) (fst k))" by blast
    with True show ?thesis by (simp only: if_True)
  qed
  moreover have "underlying_max r (set ks) (fst k) = 0" if "fst k \<notin> fst ` set ks"
  proof -
    have "{k' \<in> set ks. fst k' = fst k} = {}" using that by (force simp: image_iff)
    then show ?thesis unfolding underlying_max_def by (simp only: image_empty Max_singleton)
  qed
  ultimately have new: "map_of acc (fst k) = Some (max (underlying_max r (set ks) (fst k)) c)"
    by (simp add: acc map_of_update)
  have "map_of acc rt = Some (underlying_max r (set (ks @ [k])) rt)" if "rt \<in> fst ` set (ks @ [k])" for rt
    using new that IH rk by (cases "rt = fst k") (auto simp: underlying_max_snoc acc map_of_update)
  with keys d IH rk show ?case by simp
qed simp

lemma sum_alist:
  "distinct (map fst ps) \<Longrightarrow> (\<Sum>k\<in>set (map fst ps). the (map_of ps k)) = (sum_list (map snd ps) :: int)"
proof (induction ps)
  case (Cons p ps)
  obtain k v where p: "p = (k, v)" by fastforce
  have "(\<Sum>k'\<in>set (map fst ps). the (map_of (p # ps) k')) = (\<Sum>k'\<in>set (map fst ps). the (map_of ps k'))"
    by (rule sum.cong) (use Cons.prems p in auto)
  with Cons p show ?case by simp
qed simp

lemma portfolio_as_loop:
  "portfolio_broker_requirement legs sz =
     bindR (foldR (add_expiry (expiry_requirement legs sz)) [] (firsts (map portfolio_key legs)))
       (\<lambda>acc. Inr (sum_list (map snd acc)))"
proof -
  have loop: "(\<lambda>acc k. (\<lambda>by_underlying ((rt, _), held).
         bindR (lowest_legs_payoff_thousandths held) (\<lambda>lowest.
         bindR (payoff_cents (max 0 (- lowest)) sz) (\<lambda>cents.
           Inr (AList.update rt
             (max (case map_of by_underlying rt of None \<Rightarrow> 0 | Some c \<Rightarrow> c) cents) by_underlying))))
       acc (k, filter (\<lambda>v. portfolio_key v = k) legs)) = add_expiry (expiry_requirement legs sz)"
    by (intro ext) (simp add: add_expiry_def expiry_requirement_def bindR_def split: sum.splits prod.splits)
  show ?thesis unfolding portfolio_broker_requirement_def group_by_eq foldR_map loop ..
qed

lemma portfolio_Inr_iff:
  "portfolio_broker_requirement legs sz = Inr c \<longleftrightarrow>
     list_all (\<lambda>l. \<not> isl (expiry_requirement legs sz (portfolio_key l))) legs
     \<and> c = (\<Sum>rt\<in>fst ` portfolio_key ` set legs.
              underlying_max (expiry_requirement legs sz) (portfolio_key ` set legs) rt)"
proof -
  let ?r = "expiry_requirement legs sz" and ?ks = "firsts (map portfolio_key legs)"
  have ok: "list_all (\<lambda>l. \<not> isl (?r (portfolio_key l))) legs \<longleftrightarrow> (\<forall>k\<in>set ?ks. \<exists>n. ?r k = Inr n)"
    by (auto simp: list_all_iff isl_def) (metis sum.exhaust)
  have val: "c' = (\<Sum>rt\<in>fst ` portfolio_key ` set legs. underlying_max ?r (portfolio_key ` set legs) rt)"
    if "foldR (add_expiry ?r) [] ?ks = Inr acc" "c' = sum_list (map snd acc)" for acc c'
  proof -
    note L = add_expiry_loop [OF that(1)]
    have "sum_list (map snd acc) = (\<Sum>rt\<in>set (map fst acc). the (map_of acc rt))"
      using L by (intro sum_alist [symmetric]) blast
    also have "\<dots> = (\<Sum>rt\<in>fst ` portfolio_key ` set legs. underlying_max ?r (portfolio_key ` set legs) rt)"
      by (rule sum.cong) (use L in auto)
    finally show ?thesis using that(2) by simp
  qed
  have "\<exists>acc. foldR (add_expiry ?r) [] ?ks = Inr acc" if "\<forall>k\<in>set ?ks. \<exists>n. ?r k = Inr n"
    by (rule foldR_total) (use that in \<open>auto simp: add_expiry_def\<close>)
  note total = this
  show ?thesis
  proof
    assume "portfolio_broker_requirement legs sz = Inr c"
    then obtain acc where acc: "foldR (add_expiry ?r) [] ?ks = Inr acc" "c = sum_list (map snd acc)"
      by (auto simp: portfolio_as_loop bindR_Inr_iff)
    show "list_all (\<lambda>l. \<not> isl (?r (portfolio_key l))) legs
        \<and> c = (\<Sum>rt\<in>fst ` portfolio_key ` set legs. underlying_max ?r (portfolio_key ` set legs) rt)"
      unfolding ok by (intro conjI conjunct1 [OF add_expiry_loop [OF acc(1)]] val [OF acc])
  next
    assume right: "list_all (\<lambda>l. \<not> isl (?r (portfolio_key l))) legs
        \<and> c = (\<Sum>rt\<in>fst ` portfolio_key ` set legs. underlying_max ?r (portfolio_key ` set legs) rt)"
    then obtain acc where acc: "foldR (add_expiry ?r) [] ?ks = Inr acc" using total unfolding ok by blast
    from val [OF acc refl] right acc show "portfolio_broker_requirement legs sz = Inr c"
      by (simp add: portfolio_as_loop)
  qed
qed

lemma expiry_requirement_bounded:
  assumes "0 \<le> call_slope (filter (\<lambda>l. portfolio_key l = k) legs)" "10 dvd es_multiplier sz"
  shows "\<exists>n. expiry_requirement legs sz k = Inr n"
proof -
  obtain m where m: "es_multiplier sz = 10 * m" using assms(2) by (rule dvdE)
  have "payoff_cents x sz = Inr (es_units sz * (x * m))" for x
    unfolding payoff_cents_Inr by (intro exI [of _ "x * m"]) (simp add: m)
  then show ?thesis using assms(1) by (simp add: expiry_requirement_def lowest_legs_payoff_thousandths_def)
qed

lemma long_payoff_nonneg:
  "list_all (\<lambda>l. rl_position l = Long \<and> 0 \<le> rl_ratio l) legs \<Longrightarrow> 0 \<le> payoff_thousandths legs p"
  unfolding payoff_thousandths_def by (rule sum_list_nonneg_map) (auto simp: list_all_iff leg_sign_def Let_def)

lemma long_call_slope: "list_all (\<lambda>l. rl_position l = Long \<and> 0 \<le> rl_ratio l) legs \<Longrightarrow> 0 \<le> call_slope legs"
  unfolding call_slope_def by (rule sum_list_nonneg_map) (auto simp: list_all_iff leg_sign_def)

lemma expiry_requirement_long:
  assumes "list_all (\<lambda>l. rl_position l = Long \<and> 0 \<le> rl_ratio l) legs"
  shows "expiry_requirement legs sz k = Inr 0"
proof -
  let ?ls = "filter (\<lambda>l. portfolio_key l = k) legs"
  have ok: "list_all (\<lambda>l. rl_position l = Long \<and> 0 \<le> rl_ratio l) ?ls" using assms by (auto simp: list_all_iff)
  have "turning_points ?ls \<noteq> []" using set_turning_points [of ?ls] by force
  then have "0 \<le> Min (set (map (payoff_thousandths ?ls) (turning_points ?ls)))"
    using long_payoff_nonneg [OF ok] by simp
  then obtain v where v: "lowest_legs_payoff_thousandths ?ls = Inr v" "0 \<le> v"
    using long_call_slope [OF ok] by (simp add: lowest_legs_payoff_thousandths_def)
  then have "max 0 (- v) = 0" by simp
  with v show ?thesis by (simp add: expiry_requirement_def payoff_cents_def)
qed

lemma payoff_mset: "mset legs = mset legs' \<Longrightarrow> payoff_thousandths legs p = payoff_thousandths legs' p"
  using sum_list_filter_mset [where P = "\<lambda>l. True" and xs = legs and ys = legs'] by (simp add: payoff_thousandths_def)

lemma expiry_requirement_mset:
  assumes "mset legs = mset legs'"
  shows "expiry_requirement legs sz = expiry_requirement legs' sz"
proof
  fix k
  let ?ls = "filter (\<lambda>l. portfolio_key l = k) legs" and ?ls' = "filter (\<lambda>l. portfolio_key l = k) legs'"
  have m: "mset ?ls = mset ?ls'" using assms by simp
  have "call_slope ?ls = call_slope ?ls'" unfolding call_slope_def by (rule sum_list_filter_mset [OF m])
  moreover have "set (turning_points ?ls) = set (turning_points ?ls')"
    using mset_eq_setD [OF m] by (simp only: set_turning_points)
  ultimately have "lowest_legs_payoff_thousandths ?ls = lowest_legs_payoff_thousandths ?ls'"
    unfolding lowest_legs_payoff_thousandths_def set_map using payoff_mset [OF m] by simp
  then show "expiry_requirement legs sz k = expiry_requirement legs' sz k" by (simp only: expiry_requirement_def)
qed

lemma portfolio_mset:
  assumes "mset legs = mset legs'" "portfolio_broker_requirement legs sz = Inr c"
  shows "portfolio_broker_requirement legs' sz = Inr c"
  using assms(2) unfolding portfolio_Inr_iff expiry_requirement_mset [OF assms(1)] list_all_iff mset_eq_setD [OF assms(1)] .

text \<open>
  What the code that holds option positions relies on in the requirement: an answer for legs whose every expiry is
  bounded, no collateral where nothing is sold, and no regard for the order the legs come in.
\<close>

locale held_requirement =
  fixes req :: "resolved_leg list \<Rightarrow> entry_size \<Rightarrow> (money_error, int) result"
  assumes bounded: "10 dvd es_multiplier sz \<Longrightarrow> (\<And>k. 0 \<le> call_slope (filter (\<lambda>l. portfolio_key l = k) legs)) \<Longrightarrow>
      \<exists>c. req legs sz = Inr c \<and> 0 \<le> c"
    and nothing_sold: "list_all (\<lambda>l. rl_position l = Long \<and> 0 \<le> rl_ratio l) legs \<Longrightarrow> req legs sz = Inr 0"
    and any_order: "mset legs = mset legs' \<Longrightarrow> req legs sz = Inr c \<Longrightarrow> req legs' sz = Inr c"

interpretation portfolio: held_requirement portfolio_broker_requirement
proof
  fix legs legs' sz c
  show "portfolio_broker_requirement legs' sz = Inr c"
    if "mset legs = mset legs'" "portfolio_broker_requirement legs sz = Inr c" using that by (rule portfolio_mset)
  have nonneg: "0 \<le> underlying_max (expiry_requirement legs sz) (portfolio_key ` set legs) rt" for rt
    unfolding underlying_max_def by (rule Max_ge) auto
  show "\<exists>c. portfolio_broker_requirement legs sz = Inr c \<and> 0 \<le> c"
    if "10 dvd es_multiplier sz" "\<And>k. 0 \<le> call_slope (filter (\<lambda>l. portfolio_key l = k) legs)"
  proof -
    have "\<not> isl (expiry_requirement legs sz k)" for k
      using expiry_requirement_bounded [OF that(2) [of k] that(1)] by auto
    then show ?thesis unfolding portfolio_Inr_iff using nonneg by (auto simp: list_all_iff intro: sum_nonneg)
  qed
  show "portfolio_broker_requirement legs sz = Inr 0"
    if "list_all (\<lambda>l. rl_position l = Long \<and> 0 \<le> rl_ratio l) legs"
  proof -
    have e: "expiry_requirement legs sz k = Inr 0" for k by (rule expiry_requirement_long [OF that])
    have "(\<lambda>k. projr (expiry_requirement legs sz k)) ` K \<subseteq> {0}" for K by (auto simp: e)
    then have one: "insert 0 ((\<lambda>k. projr (expiry_requirement legs sz k)) ` K) = {0}" for K by auto
    have "underlying_max (expiry_requirement legs sz) K rt = 0" for K rt
      unfolding underlying_max_def one by simp
    then show ?thesis unfolding portfolio_Inr_iff by (simp add: e list_all_iff)
  qed
qed

text \<open>
  C32: the collateral of a set of held legs is, for each underlying, the largest requirement of any one of its
  expiries taken by itself, summed over the underlyings; it is refused exactly when some expiry's own
  legs are, so a leg of another expiry never hides an uncovered one.
\<close>

theorem portfolio_requirement_spec:
  "portfolio_broker_requirement legs sz = Inr c \<longleftrightarrow>
     list_all (\<lambda>l. \<not> isl (expiry_requirement legs sz (portfolio_key l))) legs
     \<and> c = (\<Sum>rt\<in>fst ` portfolio_key ` set legs.
              underlying_max (expiry_requirement legs sz) (portfolio_key ` set legs) rt)"
  by (rule portfolio_Inr_iff)

subsection \<open>What an entry means in cash\<close>

definition size_ok :: "entry_size \<Rightarrow> bool" where
  "size_ok sz \<longleftrightarrow> 1 \<le> es_multiplier sz \<and> 1 \<le> es_units sz"

lemma payoff_cents_value:
  "payoff_cents low sz = Inr c \<Longrightarrow>
     (of_int c :: rat) = of_int (es_units sz * es_multiplier sz) * of_int low / 10"
proof -
  assume "payoff_cents low sz = Inr c"
  then obtain k where k: "low * es_multiplier sz = 10 * k" and c: "c = es_units sz * k"
    unfolding payoff_cents_Inr by blast
  from k have "(of_int (low * es_multiplier sz) :: rat) = of_int (10 * k)" by (simp only:)
  with c show ?thesis by (simp add: mult.commute)
qed

lemma contract_cents_value:
  "contract_cents d sz = Inr c \<longleftrightarrow> everyday d \<and> of_int c = dval d * of_int (es_multiplier sz * 100)"
  unfolding whole_units_Inr [of d "es_multiplier sz * 100" c, symmetric]
  by (simp add: contract_cents_def split: sum.splits)

lemma entry_money_parts:
  assumes "entry_money legs sz net_price fee = Inr m"
  obtains lowest per_unit where "0 \<le> fee" "lowest_payoff_thousandths legs = Inr lowest"
    "payoff_cents (max 0 (- lowest)) sz = Inr (em_requirement m)" "contract_cents net_price sz = Inr per_unit"
    "em_premium m = es_units sz * per_unit" "0 < em_requirement m + em_premium m"
    "em_commitment m = em_requirement m + em_premium m + fee"
    "if has_one_expiry legs then (\<exists>c. payoff_cents lowest sz = Inr c \<and> em_loss_at_expiry m = Some (max 0 (em_premium m - c)))
     else em_loss_at_expiry m = None"
  using assms unfolding entry_money_def Let_def
  by (auto simp: result_simps not_le split: if_splits)

text \<open>
  C6: the money set aside for an entry covers the worst it can do at expiry. The commitment is requirement plus
  premium plus fee provision and more than the fees; the premium is exactly the price sent; and when the legs share
  an expiry the loss estimate is within the commitment, bounds the loss at every settlement price, and is reached at
  some price unless there is no loss.
\<close>

theorem entry_money_covers:
  assumes m: "entry_money legs sz net_price fee = Inr m"
    and ok: "size_ok sz" "strikes_ok legs" "has_one_expiry legs"
  shows "em_commitment m = em_requirement m + em_premium m + fee \<and> 0 \<le> fee \<and> fee < em_commitment m
     \<and> of_int (em_premium m) = of_int (es_units sz * es_multiplier sz * 100) * dval net_price
     \<and> (\<exists>loss. em_loss_at_expiry m = Some loss \<and> 0 \<le> loss \<and> loss + fee \<le> em_commitment m
       \<and> (\<forall>p\<ge>0. - of_int loss \<le> of_int (es_units sz * es_multiplier sz) * payoff_at legs p / 10 - of_int (em_premium m))
       \<and> (0 < loss \<longrightarrow> (\<exists>p\<ge>0. of_int (es_units sz * es_multiplier sz) * payoff_at legs p / 10
            - of_int (em_premium m) = - of_int loss)))"
proof -
  obtain lowest per_unit where parts: "0 \<le> fee" "lowest_payoff_thousandths legs = Inr lowest"
    "payoff_cents (max 0 (- lowest)) sz = Inr (em_requirement m)" "contract_cents net_price sz = Inr per_unit"
    "em_premium m = es_units sz * per_unit" "0 < em_requirement m + em_premium m"
    "em_commitment m = em_requirement m + em_premium m + fee"
    "if has_one_expiry legs then (\<exists>c. payoff_cents lowest sz = Inr c \<and> em_loss_at_expiry m = Some (max 0 (em_premium m - c)))
     else em_loss_at_expiry m = None"
    using m by (rule entry_money_parts)
  then obtain c where c: "payoff_cents lowest sz = Inr c"
      and loss: "em_loss_at_expiry m = Some (max 0 (em_premium m - c))" using ok(3) by auto
  define N where "N = (of_int (es_units sz * es_multiplier sz) :: rat)"
  have N: "0 \<le> N" using ok(1) by (simp add: N_def size_ok_def)
  have cv: "of_int c = N * of_int lowest / 10" using payoff_cents_value [OF c] by (simp add: N_def)
  have rv: "of_int (em_requirement m) = N * of_int (max 0 (- lowest)) / 10"
    using payoff_cents_value [OF parts(3)] by (simp add: N_def)
  have "lowest_legs_payoff_thousandths legs = Inr lowest"
    using parts(2) by (auto simp: lowest_payoff_thousandths_def result_simps split: if_splits)
  then have min: "\<And>p. 0 \<le> p \<Longrightarrow> of_int lowest \<le> payoff_at legs p" and "\<exists>p\<ge>0. payoff_at legs p = of_int lowest"
    using lowest_Inr_iff [OF ok(2)] by auto
  then obtain p0 where p0: "0 \<le> p0" "payoff_at legs p0 = of_int lowest" by blast
  have "(of_int (- lowest) :: rat) \<le> of_int (max 0 (- lowest))" by (simp only: of_int_le_iff max.cobounded2)
  from mult_left_mono [OF this N] have reqneg: "- of_int c \<le> (of_int (em_requirement m) :: rat)"
    unfolding cv rv by simp
  have req: "- c \<le> em_requirement m"
  proof -
    have "of_int (- c) \<le> (of_int (em_requirement m) :: rat)" using reqneg by simp
    then show ?thesis by (simp only: of_int_le_iff)
  qed
  have low: "of_int c \<le> N * payoff_at legs p / 10" if "0 \<le> p" for p
    unfolding cv using mult_left_mono [OF min [OF that] N] by simp
  have prem: "of_int (em_premium m) = of_int (es_units sz * es_multiplier sz * 100) * dval net_price"
    using parts(4,5) by (simp add: contract_cents_value mult.commute mult.left_commute)
  have att: "N * payoff_at legs p0 / 10 = of_int c" by (simp add: p0(2) cv)
  have bound: "- of_int (max 0 (em_premium m - c)) \<le> N * payoff_at legs p / 10 - of_int (em_premium m)" if "0 \<le> p" for p
    using low [OF that] by (simp add: max_def)
  have reach: "\<exists>p\<ge>0. N * payoff_at legs p / 10 - of_int (em_premium m) = - of_int (max 0 (em_premium m - c))"
    if "0 < max 0 (em_premium m - c)"
    using att that p0(1) by (intro exI [of _ p0]) (auto simp: max_def split: if_splits)
  have within: "max 0 (em_premium m - c) + fee \<le> em_commitment m" using req parts(6,7) by simp
  show ?thesis
    unfolding N_def [symmetric]
    using loss bound reach within prem parts(1,6,7) by (intro conjI exI [of _ "max 0 (em_premium m - c)"]) auto
qed

lemma sold_spread_entry:
  "entry_money sold_spread \<lparr>es_multiplier = 100, es_units = 1\<rparr> (Finite (- 307) (- 2)) 5
   = Inr \<lparr>em_premium = - 30700, em_requirement = 50000, em_commitment = 19305, em_loss_at_expiry = Some 19300\<rparr>"
proof -
  have "whole_units (Finite (- 307) (- 2)) 10000 = Inr (- 30700)"
    unfolding whole_units_Inr by (simp add: everyday_def adjusted_def digits_def show_nat.simps)
  then show ?thesis
    by (simp add: entry_money_def lowest_payoff_thousandths_def payoff_cents_def contract_cents_def Let_def)
qed

theorem entry_money_covers_witness:
  "- 19300 \<le> 100 * payoff_at sold_spread 97500 / 10 - (- 30700)"
  using entry_money_covers [OF sold_spread_entry] by (simp add: size_ok_def)

subsection \<open>Crossing the market\<close>

definition flip_leg :: "resolved_leg \<Rightarrow> resolved_leg" where
  "flip_leg l = l\<lparr>rl_position := (if rl_position l = Long then Short else Long)\<rparr>"

lemma flip_leg_simps [simp]: "rl_id (flip_leg l) = rl_id l" "rl_ratio (flip_leg l) = rl_ratio l"
  "rl_contract (flip_leg l) = rl_contract l" "leg_sign (flip_leg l) = - leg_sign l"
  by (auto simp: flip_leg_def leg_sign_def)

lemma markets_flip: "markets (map flip_leg legs) quotes = markets legs quotes"
proof -
  have "traverseR f (map flip_leg legs) = traverseR (f \<circ> flip_leg) legs" for f :: "resolved_leg \<Rightarrow> (money_error, unit) result"
    by (induction legs) simp_all
  then show ?thesis by (simp add: markets_def require_one_entry_per_leg_def comp_def)
qed

lemma markets_Inr:
  assumes "markets legs quotes = Inr ms"
  shows "ms = quotes"
    "\<And>l. l \<in> set legs \<Longrightarrow> \<exists>q. map_of quotes (rl_id l) = Some q \<and> everyday (lq_bid q) \<and> everyday (lq_ask q)
       \<and> 0 \<le> dval (lq_bid q) \<and> dval (lq_bid q) \<le> dval (lq_ask q) \<and> 0 < dval (lq_ask q)"
proof -
  have all: "traverseR f legs = Inr us \<Longrightarrow> l \<in> set legs \<Longrightarrow> \<exists>u. f l = Inr u"
    for f :: "resolved_leg \<Rightarrow> (money_error, unit) result" and us l
    by (induction legs arbitrary: us) (auto simp: result_simps)
  show "ms = quotes" using assms by (auto simp: markets_def result_simps)
  fix l assume "l \<in> set legs"
  with assms show "\<exists>q. map_of quotes (rl_id l) = Some q \<and> everyday (lq_bid q) \<and> everyday (lq_ask q)
       \<and> 0 \<le> dval (lq_bid q) \<and> dval (lq_bid q) \<le> dval (lq_ask q) \<and> 0 < dval (lq_ask q)"
    by (auto simp: markets_def result_simps require_everyday_Inr dest!: all split: option.splits sum.splits)
qed

lemma exact_total_value:
  assumes "list_all (\<lambda>(m, a). everyday a) terms"
  shows "\<exists>d. exact_total terms = Inr d \<and> dval d = (\<Sum>(m, a)\<leftarrow>terms. of_int m * dval a)"
  using exact_sum_value [OF assms] by (auto simp: exact_total_def)

definition cross_price :: "resolved_leg \<Rightarrow> leg_quote \<Rightarrow> rat" where
  "cross_price l q = of_int (leg_sign l * rl_ratio l) * (if rl_position l = Long then dval (lq_ask q) else dval (lq_bid q))"

lemma natural_net_price_value:
  assumes "markets legs quotes = Inr ms"
  shows "\<exists>d. natural_net_price legs quotes = Inr d
     \<and> dval d = (\<Sum>l\<leftarrow>legs. cross_price l (the (map_of quotes (rl_id l))))"
proof -
  note M = markets_Inr [OF assms]
  let ?terms = "map (\<lambda>l. (leg_sign l * rl_ratio l,
     if rl_position l = Long then lq_ask (the (map_of quotes (rl_id l))) else lq_bid (the (map_of quotes (rl_id l))))) legs"
  have "list_all (\<lambda>(m, a). everyday a) ?terms"
    unfolding list_all_iff using M(2) by fastforce
  from exact_total_value [OF this] obtain d where d: "exact_total ?terms = Inr d"
      "dval d = (\<Sum>(m, a)\<leftarrow>?terms. of_int m * dval a)" by blast
  have "(\<Sum>(m, a)\<leftarrow>?terms. of_int m * dval a) = (\<Sum>l\<leftarrow>legs. cross_price l (the (map_of quotes (rl_id l))))"
    by (simp add: comp_def cross_price_def if_distrib cong: if_cong)
  with d assms M(1) show ?thesis by (simp add: natural_net_price_def)
qed

lemma round_trip_gap:
  assumes "markets legs quotes = Inr ms"
  shows "\<exists>d. exact_total (concat (map (\<lambda>l.
         [(rl_ratio l, lq_ask (the (map_of quotes (rl_id l)))), (- rl_ratio l, lq_bid (the (map_of quotes (rl_id l))))]) legs)) = Inr d
     \<and> dval d = (\<Sum>l\<leftarrow>legs. of_int (rl_ratio l)
          * (dval (lq_ask (the (map_of quotes (rl_id l)))) - dval (lq_bid (the (map_of quotes (rl_id l))))))"
proof -
  note M = markets_Inr [OF assms]
  let ?t = "\<lambda>l. [(rl_ratio l, lq_ask (the (map_of quotes (rl_id l)))), (- rl_ratio l, lq_bid (the (map_of quotes (rl_id l))))]"
  have "list_all (\<lambda>(m, a). everyday a) (concat (map ?t legs))"
    unfolding list_all_iff using M(2) by fastforce
  from exact_total_value [OF this] obtain d where d: "exact_total (concat (map ?t legs)) = Inr d"
      "dval d = (\<Sum>(m, a)\<leftarrow>concat (map ?t legs). of_int m * dval a)" by blast
  have "(\<Sum>(m, a)\<leftarrow>concat (map ?t legs). of_int m * dval a) = (\<Sum>l\<leftarrow>legs. of_int (rl_ratio l)
          * (dval (lq_ask (the (map_of quotes (rl_id l)))) - dval (lq_bid (the (map_of quotes (rl_id l))))))"
    by (induction legs) (simp_all add: algebra_simps)
  with d show ?thesis by auto
qed

text \<open>
  The round-trip cost is what crossing the market to enter and at once crossing it the other way costs: the two
  natural net prices, of the structure and of its reverse, added up over the entry's shares; it is never negative.
\<close>

theorem round_trip_is_two_crossings:
  assumes "round_trip_cost legs quotes sz = Inr c" "size_ok sz" "list_all (\<lambda>l. 1 \<le> rl_ratio l) legs"
  shows "\<exists>enter leave. natural_net_price legs quotes = Inr enter
     \<and> natural_net_price (map flip_leg legs) quotes = Inr leave
     \<and> of_int c = of_int (es_units sz * es_multiplier sz * 100) * (dval enter + dval leave) \<and> 0 \<le> c"
proof -
  from assms(1) obtain ms where ms: "markets legs quotes = Inr ms" by (auto simp: round_trip_cost_def result_simps)
  note M = markets_Inr [OF ms]
  let ?q = "\<lambda>l. the (map_of quotes (rl_id l))"
  obtain e where e: "natural_net_price legs quotes = Inr e" "dval e = (\<Sum>l\<leftarrow>legs. cross_price l (?q l))"
    using natural_net_price_value [OF ms] by blast
  obtain f where f: "natural_net_price (map flip_leg legs) quotes = Inr f"
      "dval f = (\<Sum>l\<leftarrow>map flip_leg legs. cross_price l (?q l))"
    using natural_net_price_value [of "map flip_leg legs" quotes ms] ms by (auto simp: markets_flip)
  have two: "dval e + dval f = (\<Sum>l\<leftarrow>legs. of_int (rl_ratio l) * (dval (lq_ask (?q l)) - dval (lq_bid (?q l))))"
    unfolding e(2) f(2)
    by (induction legs) (auto simp: cross_price_def flip_leg_def leg_sign_def algebra_simps)
  obtain g per where g: "dval g = (\<Sum>l\<leftarrow>legs. of_int (rl_ratio l) * (dval (lq_ask (?q l)) - dval (lq_bid (?q l))))"
      and per: "contract_cents g sz = Inr per" "c = es_units sz * per"
    using assms(1) round_trip_gap [OF ms] ms M(1) by (auto simp: round_trip_cost_def result_simps)
  have c: "of_int c = of_int (es_units sz * es_multiplier sz * 100) * (dval e + dval f)"
    using per by (simp add: two g [symmetric] contract_cents_value mult.commute mult.left_commute)
  have "0 \<le> dval e + dval f"
    unfolding two by (rule sum_list_nonneg_map) (use M(2) assms(3) in \<open>fastforce simp: list_all_iff\<close>)
  then have "0 \<le> (of_int c :: rat)" unfolding c using assms(2) by (simp add: size_ok_def)
  then have "0 \<le> c" by (simp only: of_int_0_le_iff)
  with e(1) f(1) c show ?thesis by blast
qed

definition spread_quotes :: "(string \<times> leg_quote) list" where
  "spread_quotes = [(''a'', \<lparr>lq_bid = Finite 31 (- 1), lq_ask = Finite 33 (- 1)\<rparr>),
     (''b'', \<lparr>lq_bid = Finite 1 (- 1), lq_ask = Finite 3 (- 1)\<rparr>)]"

theorem round_trip_is_two_crossings_witness:
  "\<exists>enter leave. natural_net_price sold_spread spread_quotes = Inr enter
     \<and> natural_net_price (map flip_leg sold_spread) spread_quotes = Inr leave \<and> 4000 = 10000 * (dval enter + dval leave)"
proof -
  have "round_trip_cost sold_spread spread_quotes \<lparr>es_multiplier = 100, es_units = 1\<rparr> = Inr 4000"
    by code_simp
  from round_trip_is_two_crossings [OF this] show ?thesis
    by (simp add: size_ok_def sold_spread_defs)
qed

subsection \<open>Holdings put together\<close>

definition held_count :: "holdings \<Rightarrow> contract_at_multiplier \<Rightarrow> int" where
  "held_count h k = (case map_of h k of None \<Rightarrow> 0 | Some n \<Rightarrow> n)"

text \<open>
  Putting holdings together adds the signed counts contract by contract: no holding is replaced or lost, and a
  contract is keyed afterwards exactly when either side keyed it.
\<close>

theorem with_contracts_adds:
  "held_count (with_contracts held added) k
     = held_count held k + (\<Sum>(k', n)\<leftarrow>added. if k' = k then n else 0)
   \<and> fst ` set (with_contracts held added) = fst ` set held \<union> fst ` set added"
proof (induction added arbitrary: held)
  case (Cons x added)
  obtain k' n where x: "x = (k', n)" by fastforce
  let ?h = "AList.update k' ((case map_of held k' of None \<Rightarrow> 0 | Some m \<Rightarrow> m) + n) held"
  have "with_contracts held (x # added) = with_contracts ?h added" by (simp add: with_contracts_def x)
  moreover have "held_count ?h k = held_count held k + (if k' = k then n else 0)"
    by (simp add: held_count_def map_of_update)
  moreover have "fst ` set ?h = insert k' (fst ` set held)" by (simp add: dom_update)
  ultimately show ?case using Cons.IH [of ?h] by (auto simp: x)
qed (simp add: with_contracts_def)

lemma over_limit_Inr:
  "round_trip_cost_is_over_limit cost commitment limit = Inr b \<longleftrightarrow>
     0 \<le> cost \<and> 0 < commitment \<and> (\<exists>l\<ge>0. whole_units limit 1000000 = Inr l
       \<and> (b \<longleftrightarrow> of_int l / 1000000 / 100 * of_int commitment < (of_int cost :: rat)))"
proof -
  have "(l * commitment < cost * 100 * 1000000) = (of_int l / 1000000 / 100 * of_int commitment < (of_int cost :: rat))" for l
  proof -
    have "(l * commitment < cost * 100 * 1000000) = ((of_int (l * commitment) :: rat) < of_int (cost * 100 * 1000000))"
      by (simp only: of_int_less_iff)
    then show ?thesis by (simp add: field_simps)
  qed
  then show ?thesis
    by (auto simp: round_trip_cost_is_over_limit_def result_simps not_less split: sum.splits)
qed

end
