(* ===== verification/At_Expiry.thy ===== *)
theory At_Expiry
  imports Requirement
begin

text \<open>
  \<open>app/options/at_expiry.py\<close>: what a resolved structure comes to at expiry.

  Underlying prices are whole thousandths of a dollar (\<open>int\<close>) or, where the code uses \<open>Fraction\<close>,
  exact rationals. \<open>_dollars\<close> divides by 1000 in the default decimal context; every argument is far
  below its 28 digits, so the quotient is exact and is the rational here. A set that the code sorts
  is \<open>sort (remdups ...)\<close>.
\<close>

record price_range =
  pr_low :: rat
  pr_high :: "rat option"

record result_at =
  ra_price :: rat
  ra_result_cents :: int

record at_expiry_figures =
  ax_gain_cents :: "int option"
  ax_gain_holds :: "price_range list"
  ax_loss_holds :: "price_range list"
  ax_break_evens :: "rat list"
  ax_sketch :: "result_at list"

definition dollars_of :: "int \<Rightarrow> rat" where "dollars_of thousandths = of_int thousandths / 1000"

text \<open>The stretches found so far, the last one first; \<open>prev\<close> is the payoff at the point before.\<close>

fun stretches :: "int \<Rightarrow> int option \<Rightarrow> (int \<times> int option) list \<Rightarrow> (int \<times> int) list \<Rightarrow> (int \<times> int option) list" where
  "stretches extreme prev acc [] = acc"
| "stretches extreme prev acc ((point, payoff) # rest) =
     (if payoff \<noteq> extreme then stretches extreme (Some payoff) acc rest
      else if acc \<noteq> [] \<and> prev = Some extreme
      then stretches extreme (Some payoff) ((fst (hd acc), Some point) # tl acc) rest
      else stretches extreme (Some payoff) ((point, Some point) # acc) rest)"

definition holds :: "int list \<Rightarrow> int list \<Rightarrow> int \<Rightarrow> int \<Rightarrow> price_range list" where
  "holds points payoffs slope_above extreme =
     (let found = stretches extreme None [] (zip points payoffs);
          found' = (if found \<noteq> [] \<and> last payoffs = extreme \<and> slope_above = 0
                    then (fst (hd found), None) # tl found else found)
      in map (\<lambda>(low, high). \<lparr>pr_low = dollars_of low, pr_high = map_option dollars_of high\<rparr>) (rev found'))"

fun crossings :: "rat \<Rightarrow> int list \<Rightarrow> int list \<Rightarrow> rat list" where
  "crossings price_paid (low # high # points) (f # g # payoffs) =
     (let rise = g - f; crossing = of_int low + (price_paid - of_int f) * (of_int (high - low) / of_int rise)
      in (if rise \<noteq> 0 \<and> of_int low \<le> crossing \<and> crossing \<le> of_int high then [crossing] else [])
         @ crossings price_paid (high # points) (g # payoffs))"
| "crossings price_paid _ _ = []"

definition break_evens :: "int list \<Rightarrow> int list \<Rightarrow> int \<Rightarrow> decimal \<Rightarrow> rat list" where
  "break_evens points payoffs slope_above net_price =
     (let price_paid = dval net_price * 1000;
          beyond = of_int (last points) + (price_paid - of_int (last payoffs)) / of_int slope_above;
          found = crossings price_paid points payoffs
                  @ (if slope_above \<noteq> 0 \<and> of_int (last points) \<le> beyond then [beyond] else [])
      in map (\<lambda>c. c / 1000) (sort (remdups found)))"

definition result_cents ::
  "resolved_structure \<Rightarrow> entry_size \<Rightarrow> decimal \<Rightarrow> int \<Rightarrow> (money_error, int) result" where
  "result_cents legs sz net_price price =
     bindR (exercise_payoff_thousandths legs price) (\<lambda>payoff.
     bindR (exact_total [(payoff, Finite 1 (- 3)), (- 1, net_price)]) (\<lambda>per_share.
     bindR (contract_cents per_share sz) (\<lambda>cents. Inr (es_units sz * cents))))"

definition sketch_points :: "resolved_structure \<Rightarrow> rat list \<Rightarrow> int list" where
  "sketch_points legs evens_dollars =
     (let strikes = map (\<lambda>l. oc_strike (rl_contract l)) legs;
          around = map of_int strikes @ map (\<lambda>e. e * 1000) evens_dollars;
          lowest = Min (set around); highest = Max (set around);
          margin = max ((highest - lowest) / 4) (1000 :: rat);
          start = max 0 (\<lfloor>(lowest - margin) / 1000\<rfloor> * 1000);
          stop = \<lceil>(highest + margin) / 1000\<rceil> * 1000
      in sort (remdups (start # strikes @ [stop])))"

definition sketch ::
  "resolved_structure \<Rightarrow> entry_size \<Rightarrow> decimal \<Rightarrow> rat list \<Rightarrow> (money_error, result_at list) result" where
  "sketch legs sz net_price evens =
     traverseR (\<lambda>point. bindR (result_cents legs sz net_price point) (\<lambda>cents.
         Inr \<lparr>ra_price = dollars_of point, ra_result_cents = cents\<rparr>)) (sketch_points legs evens)"

definition at_expiry ::
  "resolved_structure \<Rightarrow> entry_size \<Rightarrow> decimal \<Rightarrow> (money_error, at_expiry_figures option) result" where
  "at_expiry legs sz net_price =
     (case require_everyday net_price of Inl e \<Rightarrow> Inl (Raised e) | Inr _ \<Rightarrow>
      if \<not> has_one_expiry legs then Inr None
      else let points = sort (turning_points legs) in
        bindR (traverseR (exercise_payoff_thousandths legs) points) (\<lambda>payoffs.
        bindR (exercise_payoff_thousandths legs (last points + 1)) (\<lambda>above.
          let slope_above = above - last payoffs in
          if slope_above < 0 then Inl (Refused Loss_Unbounded)
          else bindR (if slope_above = 0
                 then bindR (exact_total [(Max (set payoffs), Finite 1 (- 3)), (- 1, net_price)]) (\<lambda>per_share.
                      bindR (contract_cents per_share sz) (\<lambda>cents.
                        Inr (Some (max 0 (es_units sz * cents)), holds points payoffs slope_above (Max (set payoffs)))))
                 else Inr (None, [])) (\<lambda>(gain_cents, gain_holds).
               let evens = break_evens points payoffs slope_above net_price in
               bindR (sketch legs sz net_price evens) (\<lambda>drawn.
                 Inr (Some \<lparr>ax_gain_cents = gain_cents, ax_gain_holds = gain_holds,
                            ax_loss_holds = holds points payoffs slope_above (Min (set payoffs)),
                            ax_break_evens = evens, ax_sketch = drawn\<rparr>))))))"

subsection \<open>A function that is a straight line between its points\<close>

definition line_on :: "(rat \<Rightarrow> rat) \<Rightarrow> rat \<Rightarrow> rat \<Rightarrow> bool" where
  "line_on F a b \<longleftrightarrow> (\<forall>p. a \<le> p \<and> p \<le> b \<longrightarrow> F p * (b - a) = F a * (b - p) + F b * (p - a))"

fun piecewise :: "(rat \<Rightarrow> rat) \<Rightarrow> int list \<Rightarrow> bool" where
  "piecewise F (a # b # ps) \<longleftrightarrow> a < b \<and> line_on F (of_int a) (of_int b) \<and> piecewise F (b # ps)"
| "piecewise F _ \<longleftrightarrow> True"

lemma line_value:
  assumes "line_on F a b" "a \<le> p" "p \<le> b" "a < b"
  shows "F p = F a + (F b - F a) * (p - a) / (b - a)"
proof -
  have "F p * (b - a) = F a * (b - p) + F b * (p - a)" using assms by (simp add: line_on_def)
  also have "\<dots> = F a * (b - a) + (F b - F a) * (p - a)" by (simp add: algebra_simps)
  finally have "F p * (b - a) = F a * (b - a) + (F b - F a) * (p - a)" .
  then have "F p * (b - a) / (b - a) = (F a * (b - a) + (F b - F a) * (p - a)) / (b - a)" by simp
  with assms(4) show ?thesis by (simp add: add_divide_distrib)
qed

text \<open>A line that is nowhere beyond \<open>m\<close> is at \<open>m\<close> inside only when it is at both ends.\<close>

lemma line_touches_low:
  assumes l: "line_on F a b" "a < p" "p < b" "m \<le> F a" "m \<le> F b"
  shows "F p = m \<longleftrightarrow> F a = m \<and> F b = m"
proof
  have e: "F p * (b - a) = F a * (b - p) + F b * (p - a)" using l by (simp add: line_on_def)
  assume "F p = m"
  with e have z: "(F a - m) * (b - p) + (F b - m) * (p - a) = 0" by (simp add: algebra_simps)
  have "0 \<le> (F a - m) * (b - p)" "0 \<le> (F b - m) * (p - a)" using l by simp_all
  with z have "(F a - m) * (b - p) = 0" "(F b - m) * (p - a) = 0" by linarith+
  with l show "F a = m \<and> F b = m" by auto
next
  assume "F a = m \<and> F b = m"
  then show "F p = m" using line_value [OF l(1), of p] l by simp
qed

lemma line_on_uminus: "line_on (\<lambda>p. - F p) a b \<longleftrightarrow> line_on F a b"
proof -
  have "(- x * c = - y * d + - z * e) = (x * c = y * d + z * (e :: rat))" for x y z c d e by (simp add: algebra_simps) linarith
  then show ?thesis by (simp add: line_on_def)
qed

lemma line_touches_high:
  assumes "line_on F a b" "a < p" "p < b" "F a \<le> m" "F b \<le> m"
  shows "F p = m \<longleftrightarrow> F a = m \<and> F b = m"
  using line_touches_low [of "\<lambda>p. - F p" a b p "- m"] assms by (simp add: line_on_uminus)

definition extreme_of :: "(rat \<Rightarrow> rat) \<Rightarrow> int list \<Rightarrow> rat \<Rightarrow> bool" where
  "extreme_of F ps m \<longleftrightarrow> (\<forall>x\<in>set ps. m \<le> F (of_int x)) \<or> (\<forall>x\<in>set ps. F (of_int x) \<le> m)"

lemma line_touches:
  assumes "line_on F (of_int a) (of_int b)" "of_int a < p" "p < of_int b" "extreme_of F ps m" "a \<in> set ps" "b \<in> set ps"
  shows "F p = m \<longleftrightarrow> F (of_int a) = m \<and> F (of_int b) = m"
  using assms(4) line_touches_low [OF assms(1-3), of m] line_touches_high [OF assms(1-3), of m] assms(5,6)
  unfolding extreme_of_def by blast

subsection \<open>The stretches\<close>

definition covers_price :: "int \<times> int option \<Rightarrow> rat \<Rightarrow> bool" where
  "covers_price r p \<longleftrightarrow> of_int (fst r) \<le> p \<and> (case snd r of None \<Rightarrow> True | Some h \<Rightarrow> p \<le> of_int h)"

fun level :: "int \<Rightarrow> (int \<times> int) option \<Rightarrow> (int \<times> int) list \<Rightarrow> rat \<Rightarrow> bool" where
  "level m pr [] p \<longleftrightarrow> False"
| "level m pr ((x, f) # rest) p \<longleftrightarrow>
     f = m \<and> (p = of_int x \<or> (case pr of None \<Rightarrow> False | Some (x0, f0) \<Rightarrow> f0 = m \<and> of_int x0 \<le> p \<and> p \<le> of_int x))
     \<or> level m (Some (x, f)) rest p"

definition stretch_open :: "int \<Rightarrow> (int \<times> int) option \<Rightarrow> (int \<times> int option) list \<Rightarrow> bool" where
  "stretch_open m pr acc \<longleftrightarrow> (\<forall>x0. pr = Some (x0, m) \<longrightarrow> (\<exists>lo tl. acc = (lo, Some x0) # tl \<and> lo \<le> x0))"

lemma stretches_cover:
  "sorted (map fst xs) \<Longrightarrow> (\<forall>x0 f0. pr = Some (x0, f0) \<longrightarrow> (\<forall>x\<in>set (map fst xs). x0 \<le> x)) \<Longrightarrow> stretch_open m pr acc \<Longrightarrow>
     list_ex (\<lambda>r. covers_price r p) (stretches m (map_option snd pr) acc xs)
       \<longleftrightarrow> list_ex (\<lambda>r. covers_price r p) acc \<or> level m pr xs p"
proof (induction xs arbitrary: pr acc)
  case (Cons y xs)
  obtain x f where y: "y = (x, f)" by fastforce
  have later: "\<forall>x0 f0. Some (x, f) = Some (x0, f0) \<longrightarrow> (\<forall>z\<in>set (map fst xs). x0 \<le> z)" and s: "sorted (map fst xs)"
    using Cons.prems(1) by (auto simp: y)
  note IH = Cons.IH [OF s later]
  show ?case
  proof (cases "f = m")
    case False
    then show ?thesis using IH [of acc] by (simp add: y stretch_open_def)
  next
    case True
    show ?thesis
    proof (cases "acc \<noteq> [] \<and> map_option snd pr = Some m")
      case True
      then obtain x0 where pr: "pr = Some (x0, m)" by (cases pr) auto
      then obtain lo tl where acc: "acc = (lo, Some x0) # tl" "lo \<le> x0" using Cons.prems(3) by (auto simp: stretch_open_def)
      have x0: "x0 \<le> x" using Cons.prems(2) pr y by auto
      have op: "stretch_open m (Some (x, f)) ((lo, Some x) # tl)" using acc x0 \<open>f = m\<close> by (auto simp: stretch_open_def)
      have "covers_price (lo, Some x) p \<longleftrightarrow> covers_price (lo, Some x0) p \<or> of_int x0 \<le> p \<and> p \<le> of_int x"
        using acc(2) x0 by (auto simp: covers_price_def intro: order_trans [of "of_int lo" "of_int x0"] order_trans [of p "of_int x0"])
      then show ?thesis using IH [OF op] \<open>f = m\<close> pr acc x0 by (auto simp: y)
    next
      case False
      have op: "stretch_open m (Some (x, f)) ((x, Some x) # acc)" using \<open>f = m\<close> by (simp add: stretch_open_def)
      have "covers_price (x, Some x) p \<longleftrightarrow> p = of_int x" by (auto simp: covers_price_def)
      moreover have "\<not> (\<exists>x0. pr = Some (x0, m))" using False Cons.prems(3) by (auto simp: stretch_open_def)
      then have "(case pr of None \<Rightarrow> False | Some (x0, f0) \<Rightarrow> f0 = m \<and> of_int x0 \<le> p \<and> p \<le> of_int x) = False"
        by (auto split: option.splits)
      ultimately show ?thesis using IH [OF op] \<open>f = m\<close> False by (auto simp: y)
    qed
  qed
qed simp

lemma piecewise_sorted: "piecewise F ps \<Longrightarrow> sorted_wrt (<) ps"
proof (induction F ps rule: piecewise.induct)
  case (1 F a b ps)
  then show ?case by (auto intro: less_trans)
qed auto

lemma level_later:
  "sorted_wrt (<) (x # map fst xs) \<Longrightarrow> level m (Some (x, f)) xs p \<Longrightarrow> of_int x \<le> p"
proof (induction xs arbitrary: x f)
  case (Cons y xs)
  obtain z g where y: "y = (z, g)" by fastforce
  have "x < z" "sorted_wrt (<) (z # map fst xs)" using Cons.prems(1) by (auto simp: y)
  with Cons.prems(2) Cons.IH [of z g] show ?case by (fastforce simp: y)
qed simp

lemma level_iff:
  assumes pay: "\<And>x. F (of_int x) = of_int (pay x)"
  shows "piecewise F (x0 # xs) \<Longrightarrow> extreme_of F (x0 # xs) (of_int m) \<Longrightarrow> of_int x0 \<le> p \<Longrightarrow>
     (pay x0 = m \<and> p = of_int x0) \<or> level m (Some (x0, pay x0)) (map (\<lambda>x. (x, pay x)) xs) p
       \<longleftrightarrow> p \<le> of_int (last (x0 # xs)) \<and> F p = of_int m"
proof (induction xs arbitrary: x0)
  case Nil
  then show ?case using pay by force
next
  case (Cons x xs)
  have px: "piecewise F (x # xs)" "line_on F (of_int x0) (of_int x)" "x0 < x" using Cons.prems(1) by auto
  have ex: "extreme_of F (x # xs) (of_int m)" using Cons.prems(2) by (auto simp: extreme_of_def)
  have lastx: "x \<le> last (x # xs)" using piecewise_sorted [OF px(1)] by (cases xs) (auto simp: less_imp_le)
  show ?case
  proof (cases "of_int x \<le> p")
    case True
    then have "p \<noteq> of_int x0" "p \<le> of_int x \<longleftrightarrow> p = of_int x" using px(3) by auto
    then show ?thesis using Cons.IH [OF px(1) ex True] True by auto
  next
    case False
    then have "p < of_int x" by simp
    then have later: "\<not> level m (Some (x, pay x)) (map (\<lambda>x. (x, pay x)) xs) p"
      using level_later [of x "map (\<lambda>x. (x, pay x)) xs"] piecewise_sorted [OF px(1)] by (force simp: comp_def)
    have "p \<le> of_int (last (x # xs))" using \<open>p < of_int x\<close> lastx by (meson less_imp_le of_int_le_iff order_trans)
    moreover have "p = of_int x0 \<or> F p = of_int m \<longleftrightarrow> pay x0 = m \<and> pay x = m" if "of_int x0 < p"
      using line_touches [OF px(2) that \<open>p < of_int x\<close> Cons.prems(2)] that pay by auto
    ultimately show ?thesis
      using later Cons.prems(3) \<open>p < of_int x\<close> pay by (cases "p = of_int x0") (auto simp: order_le_less)
  qed
qed

lemma stretches_end:
  "sorted (map fst xs) \<Longrightarrow> (\<forall>x0 f0. pr = Some (x0, f0) \<longrightarrow> (\<forall>x\<in>set (map fst xs). x0 \<le> x)) \<Longrightarrow> stretch_open m pr acc \<Longrightarrow>
     stretch_open m (if xs = [] then pr else Some (last xs)) (stretches m (map_option snd pr) acc xs)"
proof (induction xs arbitrary: pr acc)
  case (Cons y xs)
  obtain x f where y: "y = (x, f)" by fastforce
  have later: "\<forall>x0 f0. Some (x, f) = Some (x0, f0) \<longrightarrow> (\<forall>z\<in>set (map fst xs). x0 \<le> z)" and s: "sorted (map fst xs)"
    using Cons.prems(1) by (auto simp: y)
  note IH = Cons.IH [OF s later]
  consider "f \<noteq> m" | x0 lo tl where "f = m" "pr = Some (x0, m)" "acc = (lo, Some x0) # tl" "lo \<le> x0"
    | "f = m" "\<not> (acc \<noteq> [] \<and> map_option snd pr = Some m)"
  proof (cases "f = m \<and> acc \<noteq> [] \<and> map_option snd pr = Some m")
    case True
    then obtain x0 where "pr = Some (x0, m)" by (cases pr) auto
    with True Cons.prems(3) that(2) show ?thesis by (auto simp: stretch_open_def)
  qed (use that in blast)
  then show ?case
  proof cases
    case 1
    then show ?thesis using IH [of acc] by (auto simp: y stretch_open_def split: if_splits)
  next
    case 2
    then have "stretch_open m (Some (x, f)) ((lo, Some x) # tl)"
      using Cons.prems(2) y by (force simp: stretch_open_def)
    from IH [OF this] 2 show ?thesis by (auto simp: y split: if_splits)
  next
    case 3
    have "stretch_open m (Some (x, f)) ((x, Some x) # acc)" by (simp add: stretch_open_def)
    from IH [OF this] 3 show ?thesis by (auto simp: y split: if_splits)
  qed
qed simp

definition in_range :: "price_range \<Rightarrow> rat \<Rightarrow> bool" where
  "in_range r q \<longleftrightarrow> pr_low r \<le> q \<and> (case pr_high r of None \<Rightarrow> True | Some h \<Rightarrow> q \<le> h)"

lemma in_range_covers:
  "in_range ((\<lambda>(low, high). \<lparr>pr_low = dollars_of low, pr_high = map_option dollars_of high\<rparr>) r) (p / 1000) \<longleftrightarrow> covers_price r p"
  by (cases r) (auto simp: in_range_def covers_price_def dollars_of_def divide_le_cancel split: option.splits)

lemma holds_iff:
  assumes pay: "\<And>x. F (of_int x) = of_int (pay x)" and pw: "piecewise F (x0 # xs)"
    and ex: "extreme_of F (x0 # xs) (of_int m)" and p: "of_int x0 \<le> p"
    and beyond: "\<And>p. of_int (last (x0 # xs)) \<le> p \<Longrightarrow> F p = F (of_int (last (x0 # xs))) + of_int slope * (p - of_int (last (x0 # xs)))"
    and slope: "slope = 0 \<or> 0 < slope \<and> of_int m \<le> F (of_int (last (x0 # xs)))"
  shows "list_ex (\<lambda>r. in_range r (p / 1000)) (holds (x0 # xs) (map pay (x0 # xs)) slope m) \<longleftrightarrow> F p = of_int m"
proof -
  let ?pts = "x0 # xs" and ?L = "last (x0 # xs)"
  let ?z = "zip ?pts (map pay ?pts)"
  define found where "found = stretches m None [] ?z"
  have zx: "zip xs (map pay xs) = map (\<lambda>x. (x, pay x)) xs" for xs by (simp add: zip_map2 zip_same_conv_map)
  then have z: "?z = map (\<lambda>x. (x, pay x)) ?pts" .
  have sorted: "sorted (map fst ?z)" using piecewise_sorted [OF pw] strict_sorted_imp_sorted by (auto simp: z comp_def less_imp_le)
  have op: "stretch_open m None []" by (simp add: stretch_open_def)
  have cov: "list_ex (\<lambda>r. covers_price r p) found \<longleftrightarrow> p \<le> of_int ?L \<and> F p = of_int m"
    using stretches_cover [OF sorted _ op] level_iff [OF pay pw ex p] by (simp add: found_def zx)
  have fin: "stretch_open m (Some (?L, pay ?L)) found"
    using stretches_end [OF sorted _ op] by (auto simp: found_def z last_map simp del: map_map list.map split: if_splits)
  have lastpay: "last (map pay ?pts) = pay ?L" by (simp add: last_map del: list.map)
  have F0: "of_int ?L \<le> p \<Longrightarrow> slope = 0 \<Longrightarrow> F p = of_int (pay ?L)" using beyond [of p] pay by simp
  have Fpos: "of_int ?L < p \<Longrightarrow> 0 < slope \<Longrightarrow> F p \<noteq> of_int m"
  proof -
    assume "of_int ?L < p" "0 < slope"
    then have "F (of_int ?L) < F p" using beyond [of p] by simp
    with slope \<open>0 < slope\<close> show "F p \<noteq> of_int m" by auto
  qed
  have H: "list_ex (\<lambda>r. in_range r (p / 1000)) (holds ?pts (map pay ?pts) slope m)
      \<longleftrightarrow> list_ex (\<lambda>r. covers_price r p) (if found \<noteq> [] \<and> pay ?L = m \<and> slope = 0 then (fst (hd found), None) # tl found else found)"
    unfolding holds_def Let_def found_def [symmetric] lastpay
    by (simp only: list_ex_iff set_map set_rev bex_simps in_range_covers)
  show ?thesis
  proof (cases "pay ?L = m \<and> slope = 0")
    case True
    then obtain lo tl where f: "found = (lo, Some ?L) # tl" "lo \<le> ?L" using fin by (auto simp: stretch_open_def)
    have "covers_price (lo, None) p \<longleftrightarrow> covers_price (lo, Some ?L) p \<or> of_int ?L \<le> p"
      using f(2) by (auto simp: covers_price_def intro: order_trans [of "of_int lo" "of_int ?L"])
    then have "list_ex (\<lambda>r. in_range r (p / 1000)) (holds ?pts (map pay ?pts) slope m)
        \<longleftrightarrow> (p \<le> of_int ?L \<and> F p = of_int m) \<or> of_int ?L \<le> p"
      using True f cov unfolding H by auto
    then show ?thesis using F0 True by (metis linear)
  next
    case False
    then have "list_ex (\<lambda>r. in_range r (p / 1000)) (holds ?pts (map pay ?pts) slope m) \<longleftrightarrow> p \<le> of_int ?L \<and> F p = of_int m"
      using cov unfolding H by auto
    moreover have "F p = of_int m \<Longrightarrow> p \<le> of_int ?L"
      using F0 Fpos False slope by (metis less_imp_le not_le of_int_eq_iff)
    ultimately show ?thesis by blast
  qed
qed

subsection \<open>The crossings\<close>

definition level_around :: "(rat \<Rightarrow> rat) \<Rightarrow> rat \<Rightarrow> rat \<Rightarrow> bool" where
  "level_around F v p \<longleftrightarrow> (\<exists>a b. a < b \<and> a \<le> p \<and> p \<le> b \<and> (\<forall>x. a \<le> x \<and> x \<le> b \<longrightarrow> F x = v))"

lemma level_aroundI:
  "a < b \<Longrightarrow> a \<le> p \<Longrightarrow> p \<le> b \<Longrightarrow> (\<And>x. a \<le> x \<Longrightarrow> x \<le> b \<Longrightarrow> F x = v) \<Longrightarrow> level_around F v p"
  by (auto simp: level_around_def)

lemma crossing_of_line:
  fixes a b fa fb c v :: rat
  assumes "a < b" "fa \<noteq> fb"
  shows "c = a + (v - fa) * ((b - a) / (fb - fa)) \<longleftrightarrow> fa + (fb - fa) * (c - a) / (b - a) = v"
proof -
  have nz: "b - a \<noteq> 0" "fb - fa \<noteq> 0" using assms by auto
  have "c = a + (v - fa) * ((b - a) / (fb - fa)) \<longleftrightarrow> (c - a) * (fb - fa) = (v - fa) * (b - a)"
    using nz by (auto simp: field_simps)
  also have "\<dots> \<longleftrightarrow> (fb - fa) * (c - a) / (b - a) = v - fa" using nz by (auto simp: field_simps)
  finally show ?thesis by auto
qed

lemma crossings_sound:
  assumes pay: "\<And>x. F (of_int x) = of_int (pay x)"
  shows "piecewise F ps \<Longrightarrow> c \<in> set (crossings v ps (map pay ps)) \<Longrightarrow> F c = v \<and> of_int (hd ps) \<le> c"
proof (induction ps rule: induct_list012)
  case (3 a b ps)
  have ab: "(of_int a :: rat) < of_int b" using "3.prems"(1) by simp
  consider "pay b - pay a \<noteq> 0" "of_int a \<le> c" "c \<le> of_int b"
      "c = of_int a + (v - of_int (pay a)) * (of_int (b - a) / of_int (pay b - pay a))"
    | "c \<in> set (crossings v (b # ps) (map pay (b # ps)))"
    using "3.prems"(2) by (auto simp: Let_def split: if_splits)
  then show ?case
  proof cases
    case 1
    then have "of_int (pay a) + (of_int (pay b) - of_int (pay a)) * (c - of_int a) / (of_int b - of_int a) = v"
      using crossing_of_line [OF ab, of "of_int (pay a)" "of_int (pay b)" c v] by simp
    moreover have "F c = of_int (pay a) + (of_int (pay b) - of_int (pay a)) * (c - of_int a) / (of_int b - of_int a)"
      unfolding pay [symmetric]
      by (rule line_value [of F "of_int a" "of_int b" c]) (use \<open>piecewise F (a # b # ps)\<close> 1 ab in simp_all)
    ultimately have "F c = v" by (simp only:)
    with 1 show ?thesis by simp
  next
    case 2
    then show ?thesis using "3.IH"(2) "3.prems"(1) ab by (auto intro: order_trans less_imp_le)
  qed
qed simp_all

lemma crossings_complete:
  assumes pay: "\<And>x. F (of_int x) = of_int (pay x)"
  shows "piecewise F (x0 # xs) \<Longrightarrow> of_int x0 \<le> p \<Longrightarrow> p < of_int (last (x0 # xs)) \<Longrightarrow> F p = v \<Longrightarrow>
     p \<in> set (crossings v (x0 # xs) (map pay (x0 # xs))) \<or> level_around F v p"
proof (induction xs arbitrary: x0)
  case (Cons x xs)
  have pw: "piecewise F (x # xs)" and l: "line_on F (of_int x0) (of_int x)" and lt: "(of_int x0 :: rat) < of_int x"
    using Cons.prems(1) by auto
  show ?case
  proof (cases "of_int x \<le> p")
    case True
    then show ?thesis using Cons.IH [OF pw True] Cons.prems(3,4) by (auto simp: Let_def)
  next
    case False
    then have px: "p \<le> of_int x" by simp
    have val: "F q = of_int (pay x0) + (of_int (pay x) - of_int (pay x0)) * (q - of_int x0) / (of_int x - of_int x0)"
      if "of_int x0 \<le> q" "q \<le> of_int x" for q
      using line_value [OF l that lt] pay by simp
    show ?thesis
    proof (cases "pay x = pay x0")
      case True
      then have "\<forall>q. of_int x0 \<le> q \<and> q \<le> of_int x \<longrightarrow> F q = v"
        using val Cons.prems(2,4) px by auto
      then have "level_around F v p" by (intro level_aroundI [OF lt Cons.prems(2) px]) blast
      then show ?thesis by (rule disjI2)
    next
      case False
      then have "p = of_int x0 + (v - of_int (pay x0)) * (of_int (x - x0) / of_int (pay x - pay x0))"
        using crossing_of_line [OF lt, of "of_int (pay x0)" "of_int (pay x)" p v] val [OF Cons.prems(2) px] Cons.prems(4) by simp
      with False Cons.prems(2) px show ?thesis by (auto simp: Let_def)
    qed
  qed
qed simp

lemma break_evens_iff:
  fixes d :: decimal
  assumes pay: "\<And>x. F (of_int x) = of_int (pay x)" and pw: "piecewise F (x0 # xs)" and p: "of_int x0 \<le> p"
    and beyond: "\<And>p. of_int (last (x0 # xs)) \<le> p \<Longrightarrow> F p = F (of_int (last (x0 # xs))) + of_int slope * (p - of_int (last (x0 # xs)))"
  defines "evens \<equiv> break_evens (x0 # xs) (map pay (x0 # xs)) slope d"
  shows "p / 1000 \<in> set evens \<Longrightarrow> F p = dval d * 1000"
    and "F p = dval d * 1000 \<Longrightarrow> p / 1000 \<in> set evens \<or> level_around F (dval d * 1000) p"
proof -
  let ?L = "last (x0 # xs)" and ?v = "dval d * 1000"
  define far where "far = of_int ?L + (?v - of_int (pay ?L)) / of_int slope"
  have lastpay: "last (map pay (x0 # xs)) = pay ?L" by (simp add: last_map del: list.map)
  have set: "p / 1000 \<in> set evens \<longleftrightarrow> p \<in> set (crossings ?v (x0 # xs) (map pay (x0 # xs)))
      \<or> slope \<noteq> 0 \<and> of_int ?L \<le> far \<and> p = far"
    unfolding evens_def break_evens_def Let_def lastpay far_def [symmetric] by (auto simp: image_iff)
  have at: "F q = of_int (pay ?L) + of_int slope * (q - of_int ?L)" if "of_int ?L \<le> q" for q
    using beyond [OF that] pay by simp
  have farv: "q = far \<longleftrightarrow> of_int (pay ?L) + of_int slope * (q - of_int ?L) = ?v" if "slope \<noteq> 0" for q
    unfolding far_def using that by (auto simp: field_simps)
  show "F p = ?v" if "p / 1000 \<in> set evens"
  proof (cases "p \<in> set (crossings ?v (x0 # xs) (map pay (x0 # xs)))")
    case True
    then show ?thesis using crossings_sound [OF pay pw] by blast
  next
    case False
    then have "slope \<noteq> 0" "of_int ?L \<le> p" "p = far" using that unfolding set by auto
    then show ?thesis using at farv [of p] by metis
  qed
  show "p / 1000 \<in> set evens \<or> level_around F ?v p" if v: "F p = ?v"
  proof (cases "p < of_int ?L")
    case True
    then show ?thesis using crossings_complete [OF pay pw p True v] set by blast
  next
    case False
    then have ge: "of_int ?L \<le> p" by simp
    show ?thesis
    proof (cases "slope = 0")
      case True
      then have "\<forall>x. p \<le> x \<and> x \<le> p + 1 \<longrightarrow> F x = ?v" using at ge v by auto
      then have "level_around F ?v p" unfolding level_around_def by (intro exI [of _ p] exI [of _ "p + 1"]) auto
      then show ?thesis ..
    next
      case False
      then show ?thesis using farv [OF False, of p] at [OF ge] v ge unfolding set by auto
    qed
  qed
qed

subsection \<open>The figures of a structure\<close>

lemma payoff_flip: "payoff_at (map flip_leg legs) p = - payoff_at legs p"
  by (induction legs) (auto simp: payoff_at_def leg_payoff_at_def split: option_right.split)

lemma call_slope_flip: "call_slope (map flip_leg legs) = - call_slope legs"
  by (induction legs) (auto simp: call_slope_def)

lemma payoff_upper_bound:
  assumes "call_slope legs \<le> 0" "0 \<le> p" "\<forall>t\<in>set (turning_points legs). payoff_at legs (of_int t) \<le> m"
  shows "payoff_at legs p \<le> m"
proof -
  have "set (turning_points (map flip_leg legs)) = set (turning_points legs)"
    by (simp add: set_turning_points image_image)
  then show ?thesis
    using payoff_lower_bound [of "map flip_leg legs" p "- m"] assms by (simp add: payoff_flip call_slope_flip)
qed

lemma payoff_piecewise:
  "sorted_wrt (<) ps \<Longrightarrow> (\<forall>l\<in>set legs. oc_strike (rl_contract l) \<le> hd ps \<or> oc_strike (rl_contract l) \<in> set ps) \<Longrightarrow>
     piecewise (payoff_at legs) ps"
proof (induction ps)
  case (Cons a ps)
  show ?case
  proof (cases ps)
    case (Cons b ps')
    have ab: "a < b" "\<forall>x\<in>set ps. b \<le> x" using Cons.prems(1) Cons by auto
    have side: "oc_strike (rl_contract l) \<le> a \<or> b \<le> oc_strike (rl_contract l)" if "l \<in> set legs" for l
      using Cons.prems(2) that ab Cons by fastforce
    have "line_on (payoff_at legs) (of_int a) (of_int b)"
      unfolding line_on_def by (intro allI impI payoff_affine) (use side in auto)
    moreover have "piecewise (payoff_at legs) ps"
    proof (rule Cons.IH)
      show "sorted_wrt (<) ps" using Cons.prems(1) by simp
      show "\<forall>l\<in>set legs. oc_strike (rl_contract l) \<le> hd ps \<or> oc_strike (rl_contract l) \<in> set ps"
        using Cons.prems(2) ab(1) Cons by fastforce
    qed
    ultimately show ?thesis using ab Cons by simp
  qed simp
qed simp

definition entry_result :: "resolved_structure \<Rightarrow> entry_size \<Rightarrow> decimal \<Rightarrow> rat \<Rightarrow> rat" where
  "entry_result legs sz net_price q =
     of_int (es_units sz * es_multiplier sz) * (payoff_at legs (1000 * q) / 10 - 100 * dval net_price)"

lemma exact_total_cents:
  assumes "exact_total [(k, Finite 1 (- 3)), (- 1, net)] = Inr per" "everyday net" "contract_cents per sz = Inr c"
  shows "of_int (es_units sz * c) = of_int (es_units sz * es_multiplier sz) * (of_int k / 10 - 100 * dval net)"
proof -
  have "everyday (Finite 1 (- 3))" by (simp add: everyday_def adjusted_def digits_def show_nat.simps)
  then have "dval per = of_int k * dval (Finite 1 (- 3)) - dval net"
    using exact_total_value [of "[(k, Finite 1 (- 3)), (- 1, net)]"] assms(1,2) by auto
  also have "dval (Finite 1 (- 3)) = 1 / 1000" by (simp add: powi_neg)
  finally have per: "dval per = of_int k / 1000 - dval net" by simp
  have "of_int c = dval per * of_int (es_multiplier sz * 100)" using assms(3) by (simp add: contract_cents_value)
  then have "of_int (es_units sz * c) = of_int (es_units sz) * ((of_int k / 1000 - dval net) * of_int (es_multiplier sz * 100))"
    unfolding of_int_mult by (simp only: per of_int_mult)
  then show ?thesis by (simp add: algebra_simps)
qed

lemma result_cents_value:
  assumes "result_cents legs sz net k = Inr c" "everyday net"
  shows "of_int c = entry_result legs sz net (dollars_of k)"
proof -
  obtain per c' where "exact_total [(payoff_thousandths legs k, Finite 1 (- 3)), (- 1, net)] = Inr per"
      "contract_cents per sz = Inr c'" "c = es_units sz * c'"
    using assms(1) by (auto simp: result_cents_def exercise_payoff_thousandths_def result_simps split: if_splits)
  then show ?thesis
    using exact_total_cents [of "payoff_thousandths legs k" net per sz c'] assms(2)
    by (simp add: entry_result_def dollars_of_def payoff_at_of_int)
qed

lemma sorted_le_last: "sorted ps \<Longrightarrow> y \<in> set ps \<Longrightarrow> y \<le> last ps"
  by (induction ps) auto

definition points_of :: "resolved_structure \<Rightarrow> int list" where "points_of legs = sort (turning_points legs)"

lemma points_of_facts:
  assumes "strikes_ok legs"
  obtains xs where "points_of legs = 0 # xs" "piecewise (payoff_at legs) (0 # xs)"
    "set (0 # xs) = set (turning_points legs)"
    "\<And>p. of_int (last (0 # xs)) \<le> p \<Longrightarrow>
       payoff_at legs p = payoff_at legs (of_int (last (0 # xs))) + of_int (call_slope legs) * (p - of_int (last (0 # xs)))"
    "payoff_thousandths legs (last (0 # xs) + 1) - payoff_thousandths legs (last (0 # xs)) = call_slope legs"
proof -
  have set: "set (points_of legs) = set (turning_points legs)" by (simp add: points_of_def)
  have nonneg: "\<forall>x\<in>set (points_of legs). 0 \<le> x" and zero: "0 \<in> set (points_of legs)"
    using assms by (auto simp: set set_turning_points strikes_ok_def list_all_iff)
  have sorted: "sorted (points_of legs)" "distinct (points_of legs)"
    by (simp_all add: points_of_def turning_points_def)
  then have sw: "sorted_wrt (<) (points_of legs)" by (simp add: strict_sorted_iff)
  obtain x xs where p: "points_of legs = x # xs" using zero by (cases "points_of legs") auto
  have "x = 0" using p zero nonneg sorted(1) by auto
  note p = p [unfolded this]
  have le: "y \<le> last (0 # xs)" if "y \<in> set (0 # xs)" for y
    using sorted(1) that unfolding p by (intro sorted_le_last) auto
  have pw: "piecewise (payoff_at legs) (0 # xs)"
    by (rule payoff_piecewise) (use sw p set in \<open>auto simp: set_turning_points\<close>)
  have strikes: "\<forall>l\<in>set legs. oc_strike (rl_contract l) \<le> last (0 # xs)"
  proof
    fix l assume "l \<in> set legs"
    then have "oc_strike (rl_contract l) \<in> set (0 # xs)" using set [unfolded p] set_turning_points by blast
    then show "oc_strike (rl_contract l) \<le> last (0 # xs)" by (rule le)
  qed
  have beyond: "payoff_at legs p = payoff_at legs (of_int (last (0 # xs))) + of_int (call_slope legs) * (p - of_int (last (0 # xs)))"
    if "of_int (last (0 # xs)) \<le> p" for p
    by (rule payoff_beyond [OF that]) (use strikes in auto)
  have "payoff_at legs (of_int (last (0 # xs) + 1)) = payoff_at legs (of_int (last (0 # xs))) + of_int (call_slope legs)"
    by (subst beyond) auto
  then have "(of_int (payoff_thousandths legs (last (0 # xs) + 1) - payoff_thousandths legs (last (0 # xs))) :: rat) = of_int (call_slope legs)"
    unfolding payoff_at_of_int by (simp only: of_int_diff)
  then have "payoff_thousandths legs (last (0 # xs) + 1) - payoff_thousandths legs (last (0 # xs)) = call_slope legs"
    by (simp only: of_int_eq_iff)
  from that [OF p pw set [unfolded p] beyond this] show ?thesis by blast
qed

lemma at_expiry_parts:
  assumes ax: "at_expiry legs sz net = Inr (Some ax)" and ok: "strikes_ok legs"
  obtains xs where "everyday net" "points_of legs = 0 # xs" "0 \<le> call_slope legs"
    "ax_loss_holds ax = holds (0 # xs) (map (payoff_thousandths legs) (0 # xs)) (call_slope legs)
        (Min (set (map (payoff_thousandths legs) (0 # xs))))"
    "ax_break_evens ax = break_evens (0 # xs) (map (payoff_thousandths legs) (0 # xs)) (call_slope legs) net"
    "sketch legs sz net (ax_break_evens ax) = Inr (ax_sketch ax)"
    "if call_slope legs = 0
     then \<exists>per c. exact_total [(Max (set (map (payoff_thousandths legs) (0 # xs))), Finite 1 (- 3)), (- 1, net)] = Inr per
        \<and> contract_cents per sz = Inr c \<and> ax_gain_cents ax = Some (max 0 (es_units sz * c))
        \<and> ax_gain_holds ax = holds (0 # xs) (map (payoff_thousandths legs) (0 # xs)) 0
            (Max (set (map (payoff_thousandths legs) (0 # xs))))
     else ax_gain_cents ax = None"
proof -
  obtain xs where p: "points_of legs = 0 # xs" and set: "set (0 # xs) = set (turning_points legs)"
      and slope: "payoff_thousandths legs (last (0 # xs) + 1) - payoff_thousandths legs (last (0 # xs)) = call_slope legs"
    using points_of_facts [OF ok] by metis
  let ?pays = "map (payoff_thousandths legs) (0 # xs)"
  have nn: "0 \<le> x" if "x \<in> set (0 # xs)" for x
    using that ok unfolding set by (auto simp: set_turning_points strikes_ok_def list_all_iff)
  have tr: "traverseR (exercise_payoff_thousandths legs) (0 # xs) = Inr ?pays"
    by (rule traverseR_total) (use nn in \<open>auto simp: exercise_payoff_thousandths_def not_less\<close>)
  have above: "exercise_payoff_thousandths legs (last (0 # xs) + 1) = Inr (payoff_thousandths legs (last (0 # xs) + 1))"
  proof -
    have "0 \<le> last (0 # xs)" by (rule nn, rule last_in_set) simp
    then show ?thesis by (simp add: exercise_payoff_thousandths_def not_less del: last.simps)
  qed
  have lastp: "last ?pays = payoff_thousandths legs (last (0 # xs))" by (simp add: last_map del: list.map last.simps)
  have net: "everyday net" and one: "has_one_expiry legs"
    using ax by (auto simp: at_expiry_def require_everyday_Inr split: sum.splits if_splits)
  define rest where "rest = (\<lambda>(gain_cents, gain_holds).
               let evens = break_evens (0 # xs) ?pays (call_slope legs) net in
               bindR (sketch legs sz net evens) (\<lambda>drawn.
                 Inr (Some \<lparr>ax_gain_cents = gain_cents, ax_gain_holds = gain_holds,
                            ax_loss_holds = holds (0 # xs) ?pays (call_slope legs) (Min (set ?pays)),
                            ax_break_evens = evens, ax_sketch = drawn\<rparr>)))"
  have body: "(if call_slope legs < 0 then Inl (Refused Loss_Unbounded)
       else bindR (if call_slope legs = 0
             then bindR (exact_total [(Max (set ?pays), Finite 1 (- 3)), (- 1, net)]) (\<lambda>per_share.
                  bindR (contract_cents per_share sz) (\<lambda>cents.
                    Inr (Some (max 0 (es_units sz * cents)), holds (0 # xs) ?pays (call_slope legs) (Max (set ?pays)))))
             else Inr (None, [])) rest) = Inr (Some ax)"
    using ax net one p unfolding at_expiry_def points_of_def everydayI [OF net] Let_def rest_def
    by (simp only: sum.case tr bindR_simps above lastp slope not_True_eq_False if_False Let_def)
  then have s0: "0 \<le> call_slope legs" by (auto split: if_splits)
  from body s0 obtain g gh where g: "(if call_slope legs = 0
             then bindR (exact_total [(Max (set ?pays), Finite 1 (- 3)), (- 1, net)]) (\<lambda>per_share.
                  bindR (contract_cents per_share sz) (\<lambda>cents.
                    Inr (Some (max 0 (es_units sz * cents)), holds (0 # xs) ?pays (call_slope legs) (Max (set ?pays)))))
             else Inr (None, [])) = Inr (g, gh)" and r: "rest (g, gh) = Inr (Some ax)"
    by (simp only: not_less [symmetric] if_False bindR_Inr_iff) auto
  from r obtain drawn where d: "sketch legs sz net (break_evens (0 # xs) ?pays (call_slope legs) net) = Inr drawn"
      "ax = \<lparr>ax_gain_cents = g, ax_gain_holds = gh, ax_loss_holds = holds (0 # xs) ?pays (call_slope legs) (Min (set ?pays)),
         ax_break_evens = break_evens (0 # xs) ?pays (call_slope legs) net, ax_sketch = drawn\<rparr>"
    unfolding rest_def by (auto simp only: prod.case Let_def bindR_Inr_iff sum.inject option.inject)
  show ?thesis
  proof (rule that [OF net p s0])
    show "if call_slope legs = 0
     then \<exists>per c. exact_total [(Max (set ?pays), Finite 1 (- 3)), (- 1, net)] = Inr per
        \<and> contract_cents per sz = Inr c \<and> ax_gain_cents ax = Some (max 0 (es_units sz * c))
        \<and> ax_gain_holds ax = holds (0 # xs) ?pays 0 (Max (set ?pays))
     else ax_gain_cents ax = None"
      using g d(2) by (cases "call_slope legs = 0") (auto simp: result_simps simp del: list.map set_simps)
  qed (use d in simp_all)
qed

lemma extremes:
  assumes ok: "strikes_ok legs" and s0: "0 \<le> call_slope legs" and p: "points_of legs = 0 # xs"
  defines "pays \<equiv> map (payoff_thousandths legs) (0 # xs)"
  shows "\<And>p. 0 \<le> p \<Longrightarrow> of_int (Min (set pays)) \<le> payoff_at legs p"
    and "\<exists>p\<ge>0. payoff_at legs p = of_int (Min (set pays))"
    and "\<And>p. call_slope legs = 0 \<Longrightarrow> 0 \<le> p \<Longrightarrow> payoff_at legs p \<le> of_int (Max (set pays))"
    and "\<exists>p\<ge>0. payoff_at legs p = of_int (Max (set pays))"
proof -
  have set: "set (0 # xs) = set (turning_points legs)" using p by (metis points_of_def set_sort)
  have in_pays: "payoff_thousandths legs t \<in> set pays" if "t \<in> set (turning_points legs)" for t
    using that unfolding pays_def set [symmetric] set_map by (rule imageI)
  have attained: "\<exists>p\<ge>0. payoff_at legs p = of_int v" if v: "v \<in> set pays" for v
  proof -
    obtain t where t: "t \<in> set (turning_points legs)" "payoff_thousandths legs t = v"
      using v unfolding pays_def set_map set by auto
    then have "0 \<le> (of_int t :: rat)" using ok by (auto simp: set_turning_points strikes_ok_def list_all_iff)
    with t(2) show ?thesis by (intro exI [of _ "of_int t"]) (simp add: payoff_at_of_int)
  qed
  have fin: "finite (set pays)" "set pays \<noteq> {}" by (simp_all add: pays_def)
  show "of_int (Min (set pays)) \<le> payoff_at legs p" if "0 \<le> p" for p
    by (rule payoff_lower_bound [OF s0 that]) (use in_pays fin in \<open>simp add: payoff_at_of_int\<close>)
  show "\<exists>p\<ge>0. payoff_at legs p = of_int (Min (set pays))" by (rule attained [OF Min_in [OF fin]])
  show "payoff_at legs p \<le> of_int (Max (set pays))" if "call_slope legs = 0" "0 \<le> p" for p
    by (rule payoff_upper_bound) (use that in_pays fin in \<open>simp_all add: payoff_at_of_int\<close>)
  show "\<exists>p\<ge>0. payoff_at legs p = of_int (Max (set pays))" by (rule attained [OF Max_in [OF fin]])
qed

lemma lowest_at:
  assumes "\<And>p. 0 \<le> p \<Longrightarrow> m \<le> (F p :: rat)" "\<exists>p\<ge>0. F p = m" "0 \<le> (q :: rat)"
  shows "F q = m \<longleftrightarrow> (\<forall>p\<ge>0. F q \<le> F p)"
  using assms by (metis order_antisym)

text \<open>
  C25: the figures at expiry are those of the whole line of results. The gain has no figure exactly when the payoff
  grows without limit; otherwise it bounds the result at every price and is reached when above zero. The ranges named
  are exactly the prices at which the result is lowest, and, for a limited gain, exactly those at which it is highest.
\<close>

theorem at_expiry_extremes:
  assumes ax: "at_expiry legs sz net = Inr (Some ax)" and ok: "strikes_ok legs" "size_ok sz"
  shows "(ax_gain_cents ax = None \<longleftrightarrow> (\<forall>b. \<exists>p\<ge>0. b < payoff_at legs p))
     \<and> (\<forall>g. ax_gain_cents ax = Some g \<longrightarrow> (\<forall>q\<ge>0. entry_result legs sz net q \<le> of_int g)
          \<and> (0 < g \<longrightarrow> (\<exists>q\<ge>0. entry_result legs sz net q = of_int g))
          \<and> (\<forall>q\<ge>0. list_ex (\<lambda>r. in_range r q) (ax_gain_holds ax) \<longleftrightarrow>
               (\<forall>p\<ge>0. payoff_at legs p \<le> payoff_at legs (1000 * q))))
     \<and> (\<forall>q\<ge>0. list_ex (\<lambda>r. in_range r q) (ax_loss_holds ax) \<longleftrightarrow>
          (\<forall>p\<ge>0. payoff_at legs (1000 * q) \<le> payoff_at legs p))"
proof -
  obtain xs where net: "everyday net" and p: "points_of legs = 0 # xs" and s0: "0 \<le> call_slope legs"
    and loss: "ax_loss_holds ax = holds (0 # xs) (map (payoff_thousandths legs) (0 # xs)) (call_slope legs)
        (Min (set (map (payoff_thousandths legs) (0 # xs))))"
    and gain: "if call_slope legs = 0
     then \<exists>per c. exact_total [(Max (set (map (payoff_thousandths legs) (0 # xs))), Finite 1 (- 3)), (- 1, net)] = Inr per
        \<and> contract_cents per sz = Inr c \<and> ax_gain_cents ax = Some (max 0 (es_units sz * c))
        \<and> ax_gain_holds ax = holds (0 # xs) (map (payoff_thousandths legs) (0 # xs)) 0
            (Max (set (map (payoff_thousandths legs) (0 # xs))))
     else ax_gain_cents ax = None"
    using at_expiry_parts [OF ax ok(1)] by metis
  obtain pw: "piecewise (payoff_at legs) (0 # xs)" and beyond: "\<And>p. of_int (last (0 # xs)) \<le> p \<Longrightarrow>
       payoff_at legs p = payoff_at legs (of_int (last (0 # xs))) + of_int (call_slope legs) * (p - of_int (last (0 # xs)))"
    using points_of_facts [OF ok(1)] p by (metis list.inject)
  let ?F = "payoff_at legs" and ?pays = "map (payoff_thousandths legs) (0 # xs)"
  note E = extremes [OF ok(1) s0 p]
  have mem: "payoff_thousandths legs x \<in> set ?pays" if "x \<in> set (0 # xs)" for x using that unfolding set_map by (rule imageI)
  have fin: "finite (set ?pays)" by simp
  have low: "list_ex (\<lambda>r. in_range r q) (ax_loss_holds ax) \<longleftrightarrow> (\<forall>p\<ge>0. ?F (1000 * q) \<le> ?F p)" if q: "0 \<le> q" for q
  proof -
    have "list_ex (\<lambda>r. in_range r (1000 * q / 1000)) (ax_loss_holds ax) \<longleftrightarrow> ?F (1000 * q) = of_int (Min (set ?pays))"
      unfolding loss
    proof (rule holds_iff [where F = ?F and pay = "payoff_thousandths legs", OF payoff_at_of_int pw _ _ beyond])
      show "extreme_of ?F (0 # xs) (of_int (Min (set ?pays)))"
        unfolding extreme_of_def payoff_at_of_int of_int_le_iff using Min_le [OF fin mem] by blast
      show "call_slope legs = 0 \<or> 0 < call_slope legs \<and> of_int (Min (set ?pays)) \<le> ?F (of_int (last (0 # xs)))"
        unfolding payoff_at_of_int of_int_le_iff using s0 Min_le [OF fin mem [OF last_in_set]] by auto
      show "of_int 0 \<le> 1000 * q" using q by simp
    qed
    also have "\<dots> \<longleftrightarrow> (\<forall>p\<ge>0. ?F (1000 * q) \<le> ?F p)" by (rule lowest_at [OF E(1,2)]) (use q in auto)
    finally show ?thesis by simp
  qed
  show ?thesis
  proof (cases "call_slope legs = 0")
    case False
    then have "call_slope (map flip_leg legs) < 0" using s0 by (simp add: call_slope_flip)
    then have "\<exists>p\<ge>0. b < ?F p" for b using payoff_unbounded [of "map flip_leg legs" "- b"] by (simp add: payoff_flip)
    then show ?thesis using gain False low by simp
  next
    case True
    then obtain per c where g: "exact_total [(Max (set ?pays), Finite 1 (- 3)), (- 1, net)] = Inr per"
        "contract_cents per sz = Inr c" "ax_gain_cents ax = Some (max 0 (es_units sz * c))"
        "ax_gain_holds ax = holds (0 # xs) ?pays 0 (Max (set ?pays))"
      using gain by auto
    define N where "N = (of_int (es_units sz * es_multiplier sz) :: rat)"
    have N: "0 \<le> N" using ok(2) by (simp add: N_def size_ok_def)
    have val: "of_int (es_units sz * c) = N * (of_int (Max (set ?pays)) / 10 - 100 * dval net)"
      unfolding N_def by (rule exact_total_cents [OF g(1) net g(2)])
    have bound: "entry_result legs sz net q \<le> of_int (max 0 (es_units sz * c))" if "0 \<le> q" for q
    proof -
      have "?F (1000 * q) \<le> of_int (Max (set ?pays))" using E(3) [OF True, of "1000 * q"] that by simp
      then have "entry_result legs sz net q \<le> of_int (es_units sz * c)"
        unfolding val entry_result_def N_def [symmetric] by (intro mult_left_mono N) simp
      also have "\<dots> \<le> of_int (max 0 (es_units sz * c))" by (simp only: of_int_le_iff max.cobounded2)
      finally show ?thesis .
    qed
    obtain p0 where p0: "0 \<le> p0" "?F p0 = of_int (Max (set ?pays))" using E(4) by blast
    then have reach: "entry_result legs sz net (p0 / 1000) = of_int (es_units sz * c)" "0 \<le> p0 / 1000"
      unfolding val entry_result_def N_def by simp_all
    have reached: "\<exists>q\<ge>0. entry_result legs sz net q = of_int (max 0 (es_units sz * c))" if "0 < max 0 (es_units sz * c)"
    proof -
      have "max 0 (es_units sz * c) = es_units sz * c" using that by (simp add: max_def split: if_splits)
      then show ?thesis using reach by metis
    qed
    have high: "list_ex (\<lambda>r. in_range r q) (ax_gain_holds ax) \<longleftrightarrow> (\<forall>p\<ge>0. ?F p \<le> ?F (1000 * q))" if q: "0 \<le> q" for q
    proof -
      have "list_ex (\<lambda>r. in_range r (1000 * q / 1000)) (ax_gain_holds ax) \<longleftrightarrow> ?F (1000 * q) = of_int (Max (set ?pays))"
        unfolding g(4)
      proof (rule holds_iff [where F = ?F and pay = "payoff_thousandths legs", OF payoff_at_of_int pw])
        show "extreme_of ?F (0 # xs) (of_int (Max (set ?pays)))"
          unfolding extreme_of_def payoff_at_of_int of_int_le_iff using Max_ge [OF fin mem] by blast
        show "of_int 0 \<le> 1000 * q" using q by simp
        show "?F p = ?F (of_int (last (0 # xs))) + of_int 0 * (p - of_int (last (0 # xs)))" if "of_int (last (0 # xs)) \<le> p" for p
          using beyond [OF that] unfolding True .
        show "(0 :: int) = 0 \<or> 0 < (0 :: int) \<and> of_int (Max (set ?pays)) \<le> ?F (of_int (last (0 # xs)))" by (rule disjI1) (rule refl)
      qed
      also have "\<dots> \<longleftrightarrow> (\<forall>p\<ge>0. ?F p \<le> ?F (1000 * q))"
        using E(3) [OF True] p0 q by (metis order_antisym mult_nonneg_nonneg zero_le_numeral)
      finally show ?thesis by simp
    qed
    have "\<not> (\<forall>b. \<exists>p\<ge>0. b < ?F p)" using E(3) [OF True] not_less by blast
    then show ?thesis using g(3) bound reached high low by simp
  qed
qed

definition spread_figures :: at_expiry_figures where
  "spread_figures = \<lparr>ax_gain_cents = Some 30700, ax_gain_holds = [\<lparr>pr_low = 100, pr_high = None\<rparr>],
     ax_loss_holds = [\<lparr>pr_low = 0, pr_high = Some 95\<rparr>], ax_break_evens = [9693 / 100],
     ax_sketch = [\<lparr>ra_price = 93, ra_result_cents = - 19300\<rparr>, \<lparr>ra_price = 95, ra_result_cents = - 19300\<rparr>,
       \<lparr>ra_price = 100, ra_result_cents = 30700\<rparr>, \<lparr>ra_price = 102, ra_result_cents = 30700\<rparr>]\<rparr>"

lemma sold_spread_at_expiry:
  "at_expiry sold_spread \<lparr>es_multiplier = 100, es_units = 1\<rparr> (Finite (- 307) (- 2)) = Inr (Some spread_figures)"
proof -
  let ?net = "Finite (- 307) (- 2)" and ?sz = "\<lparr>es_multiplier = 100, es_units = 1\<rparr>"
  have pts: "sort (turning_points sold_spread) = [0, 95000, 100000]" by code_simp
  have pays: "exercise_payoff_thousandths sold_spread 0 = Inr (- 5000)" "exercise_payoff_thousandths sold_spread 95000 = Inr (- 5000)"
    "exercise_payoff_thousandths sold_spread 100000 = Inr 0" "exercise_payoff_thousandths sold_spread 100001 = Inr 0"
    by code_simp+

  have holds: "holds [0, 95000, 100000] [- 5000, - 5000, 0] 0 0 = [\<lparr>pr_low = 100, pr_high = None\<rparr>]"
    "holds [0, 95000, 100000] [- 5000, - 5000, 0] 0 (- 5000) = [\<lparr>pr_low = 0, pr_high = Some 95\<rparr>]"
    by (simp_all add: holds_def dollars_of_def)
  have evens: "break_evens [0, 95000, 100000] [- 5000, - 5000, 0] 0 ?net = [9693 / 100]"
    by (simp add: break_evens_def powi_neg Let_def)
  have "\<lceil>405 / 4 :: rat\<rceil> = 102" "\<lfloor>375 / 4 :: rat\<rfloor> = 93" by (simp_all add: ceiling_eq_iff floor_eq_iff)
  then have points: "sketch_points sold_spread [9693 / 100] = [93000, 95000, 100000, 102000]"
    by (simp add: sketch_points_def sold_spread_defs Let_def)
  have gcds: "gcd 1930 1000 = (10 :: int)" "gcd 3070 1000 = (10 :: int)" by code_simp+
  note evals = result_cents_def exercise_payoff_thousandths_def payoff_thousandths_def sold_spread_defs
    exact_total_def exact_sum_def require_everyday_def adjusted_def digits_def show_nat.simps digit_char_def
    sum_precision_def everyday_digits_def max_digits_above_the_point_def max_decimals_def bit_length.simps
    ctx_exact_def strip_def trail.simps contract_cents_def whole_units_def as_integer_ratio_def Let_def gcds
  have loses: "result_cents sold_spread ?sz ?net 93000 = Inr (- 19300)" by (simp add: evals)
  have loses': "result_cents sold_spread ?sz ?net 95000 = Inr (- 19300)" by (simp add: evals)
  have gains: "result_cents sold_spread ?sz ?net 100000 = Inr 30700" by (simp add: evals)
  have gains': "result_cents sold_spread ?sz ?net 102000 = Inr 30700" by (simp add: evals)
  note results = loses loses' gains gains'
  have gain: "bindR (exact_total [(0, Finite 1 (- 3)), (- 1, ?net)]) (\<lambda>per. contract_cents per ?sz) = Inr 30700"
    by (simp add: evals)
  have "everyday ?net" by (simp add: everyday_def adjusted_def digits_def show_nat.simps)
  moreover obtain per where "exact_total [(0, Finite 1 (- 3)), (- 1, ?net)] = Inr per" "contract_cents per ?sz = Inr 30700"
    using gain by (auto simp: result_simps)
  ultimately show ?thesis
    by (simp add: at_expiry_def everydayI pts pays holds evens sketch_def points results
        spread_figures_def dollars_of_def Let_def)
qed

theorem at_expiry_extremes_witness:
  "entry_result sold_spread \<lparr>es_multiplier = 100, es_units = 1\<rparr> (Finite (- 307) (- 2)) 98 \<le> 30700"
  using at_expiry_extremes [OF sold_spread_at_expiry] by (simp add: size_ok_def spread_figures_def)

text \<open>
  C34: the break-evens are exactly the prices at which the payoff is the net price paid, but for whole level stretches
  at that price, which have none; and every result drawn is the exact result at its price.
\<close>

theorem break_evens_exact:
  assumes ax: "at_expiry legs sz net = Inr (Some ax)" and ok: "strikes_ok legs"
  shows "(\<forall>q\<ge>0. q \<in> set (ax_break_evens ax) \<longrightarrow> payoff_at legs (1000 * q) = 1000 * dval net)
     \<and> (\<forall>q\<ge>0. payoff_at legs (1000 * q) = 1000 * dval net \<longrightarrow>
          q \<in> set (ax_break_evens ax) \<or> level_around (payoff_at legs) (1000 * dval net) (1000 * q))
     \<and> (\<forall>r\<in>set (ax_sketch ax). of_int (ra_result_cents r) = entry_result legs sz net (ra_price r))"
proof -
  obtain xs where net: "everyday net" and p: "points_of legs = 0 # xs"
    and be: "ax_break_evens ax = break_evens (0 # xs) (map (payoff_thousandths legs) (0 # xs)) (call_slope legs) net"
    and sk: "sketch legs sz net (ax_break_evens ax) = Inr (ax_sketch ax)"
    using at_expiry_parts [OF ax ok] by metis
  obtain pw: "piecewise (payoff_at legs) (0 # xs)" and beyond: "\<And>p. of_int (last (0 # xs)) \<le> p \<Longrightarrow>
       payoff_at legs p = payoff_at legs (of_int (last (0 # xs))) + of_int (call_slope legs) * (p - of_int (last (0 # xs)))"
    using points_of_facts [OF ok] p by (metis list.inject)
  note B = break_evens_iff [where F = "payoff_at legs" and pay = "payoff_thousandths legs",
    OF payoff_at_of_int pw _ beyond]
  have "of_int (ra_result_cents r) = entry_result legs sz net (ra_price r)" if "r \<in> set (ax_sketch ax)" for r
  proof -
    have "list_all2 (\<lambda>point r. bindR (result_cents legs sz net point) (\<lambda>cents.
         Inr \<lparr>ra_price = dollars_of point, ra_result_cents = cents\<rparr>) = Inr r)
       (sketch_points legs (ax_break_evens ax)) (ax_sketch ax)"
      using sk by (simp add: sketch_def traverseR_conv)
    from list_all2_right [OF this that] show ?thesis
      using result_cents_value net by (auto simp: result_simps)
  qed
  moreover have "payoff_at legs (1000 * q) = 1000 * dval net" if "0 \<le> q" "q \<in> set (ax_break_evens ax)" for q
    using B(1) [of "1000 * q" net] that unfolding be by (simp add: mult.commute del: list.map)
  moreover have "q \<in> set (ax_break_evens ax) \<or> level_around (payoff_at legs) (1000 * dval net) (1000 * q)"
    if "0 \<le> q" "payoff_at legs (1000 * q) = 1000 * dval net" for q
    using B(2) [of "1000 * q" net] that unfolding be by (simp add: mult.commute del: list.map)
  ultimately show ?thesis by blast
qed

theorem break_evens_exact_witness:
  "payoff_at sold_spread 96930 = - 3070"
  using break_evens_exact [OF sold_spread_at_expiry, THEN conjunct1, THEN spec, of "9693 / 100"]
  by (simp add: spread_figures_def powi_neg)

end
