(* ===== verification/Event_Allocation.thy ===== *)
theory Event_Allocation
  imports Option_Contract
begin

text \<open>
  \<open>app/options/event_allocation.py\<close>: which lots an assignment, an exercise or an expiry takes, and what
  it does to each owner's books. \<open>et_date\<close> is the New York date of an instant. A refusal carries its
  reason and the count that found no lot, as \<open>OptionEventRefused\<close> does. \<open>sorted(..., reverse=True)\<close>
  is stable, which \<open>rev (sort_key k (rev xs))\<close> is.
\<close>

datatype event_kind = Assigned | Exercised | Expired

datatype event_refusal =
    Contract_Not_Held
  | Wrong_Side
  | More_Contracts_Than_Held
  | Held_On_Both_Sides
  | Cash_Not_Whole_Cents
  | Not_Executed

datatype event_error = Event_Value_Error | Event_Refused event_refusal int

record held_lot =
  hl_owner :: string
  hl_contract :: option_contract
  hl_quantity :: int
  hl_opened_at_ms :: int
  hl_sequence :: int

definition py_space :: "char \<Rightarrow> bool" where
  "py_space c \<longleftrightarrow> (of_char c :: nat) \<in> {9, 10, 11, 12, 13, 28, 29, 30, 31, 32, 133, 160}"

definition held_lot_ok :: "held_lot \<Rightarrow> bool" where
  "held_lot_ok l \<longleftrightarrow> list_ex (\<lambda>c. \<not> py_space c) (hl_owner l) \<and> hl_quantity l \<noteq> 0
     \<and> is_instant_ms (hl_opened_at_ms l) \<and> 0 \<le> hl_sequence l"

record share_trade =
  st_root :: string
  st_shares :: int
  st_price :: int
  st_cash_cents :: int

record lot_allocation =
  la_owner :: string
  la_sequence :: int
  la_opened_at_ms :: int
  la_contracts :: int
  la_remaining_quantity :: int
  la_option_quantity_change :: int
  la_share_quantity_change :: int
  la_cash_change_cents :: int

record event_allocation =
  ea_kind :: event_kind
  ea_contract :: option_contract
  ea_contracts :: int
  ea_multiplier :: int
  ea_lots :: "lot_allocation list"

definition share_price :: "event_allocation \<Rightarrow> int option" where
  "share_price a = (if ea_kind a = Expired then None else Some (oc_strike (ea_contract a)))"

definition share_quantity_change :: "event_allocation \<Rightarrow> int" where
  "share_quantity_change a = (\<Sum>l\<leftarrow>ea_lots a. la_share_quantity_change l)"

definition cash_change_cents :: "event_allocation \<Rightarrow> int" where
  "cash_change_cents a = (\<Sum>l\<leftarrow>ea_lots a. la_cash_change_cents l)"

definition shares_and_cash_cents ::
  "event_kind \<Rightarrow> option_contract \<Rightarrow> int \<Rightarrow> int \<Rightarrow> int \<Rightarrow> (event_error, int \<times> int) result" where
  "shares_and_cash_cents kind contract contracts multiplier event_contracts =
     (if kind = Expired then Inr (0, 0)
      else let holder_buys = (oc_right contract = Call);
               buys = (if kind = Exercised then holder_buys else \<not> holder_buys);
               shares = contracts * multiplier;
               cents = oc_strike contract * shares div 10;
               part_of_a_cent = oc_strike contract * shares mod 10
           in if part_of_a_cent \<noteq> 0 then Inl (Event_Refused Cash_Not_Whole_Cents event_contracts)
              else Inr (if buys then (shares, - cents) else (- shares, cents)))"

definition expected_share_trade ::
  "event_kind \<Rightarrow> option_contract \<Rightarrow> int \<Rightarrow> int \<Rightarrow> (event_error, share_trade option) result" where
  "expected_share_trade kind contract contracts multiplier =
     (if contracts < 1 \<or> multiplier < 1 then Inl Event_Value_Error
      else if kind = Expired then Inr None
      else bindR (shares_and_cash_cents kind contract contracts multiplier contracts) (\<lambda>(shares, cash).
        Inr (Some \<lparr>st_root = oc_root contract, st_shares = shares, st_price = oc_strike contract, st_cash_cents = cash\<rparr>)))"

definition assignment_cash_cents :: "option_contract \<Rightarrow> int \<Rightarrow> int \<Rightarrow> (event_error, int) result" where
  "assignment_cash_cents contract contracts multiplier =
     bindR (expected_share_trade Assigned contract contracts multiplier) (\<lambda>trade. Inr \<bar>st_cash_cents (the trade)\<bar>)"

datatype side = Bought | Sold

definition sides_a_kind_ends :: "event_kind \<Rightarrow> side list" where
  "sides_a_kind_ends kind =
     (case kind of Assigned \<Rightarrow> [Sold] | Exercised \<Rightarrow> [Bought] | Expired \<Rightarrow> [Bought, Sold])"

definition side_held :: "held_lot \<Rightarrow> side" where
  "side_held l = (if 0 < hl_quantity l then Bought else Sold)"

definition side_a_change_ends :: "int \<Rightarrow> side" where
  "side_a_change_ends position_change = (if position_change < 0 then Bought else Sold)"

definition one_contract_and_distinct_lots :: "option_contract \<Rightarrow> held_lot list \<Rightarrow> bool" where
  "one_contract_and_distinct_lots contract lots \<longleftrightarrow>
     list_all (\<lambda>l. hl_contract l = contract) lots \<and> distinct (map (\<lambda>l. (hl_owner l, hl_sequence l)) lots)"

definition lot_order :: "held_lot \<Rightarrow> int \<times> int \<times> string" where
  "lot_order l = (hl_opened_at_ms l, hl_sequence l, hl_owner l)"

definition take_from_lot :: "held_lot \<Rightarrow> int \<Rightarrow> int \<times> int \<Rightarrow> lot_allocation" where
  "take_from_lot l t = (\<lambda>(shares, cash). let bought = 0 < hl_quantity l in
     \<lparr>la_owner = hl_owner l, la_sequence = hl_sequence l, la_opened_at_ms = hl_opened_at_ms l, la_contracts = t,
      la_remaining_quantity = (if bought then hl_quantity l - t else hl_quantity l + t),
      la_option_quantity_change = (if bought then - t else t),
      la_share_quantity_change = shares, la_cash_change_cents = cash\<rparr>)"

text \<open>The taking loop; \<open>left\<close> is what of the event is still to be matched.\<close>

fun take_lots ::
  "event_kind \<Rightarrow> option_contract \<Rightarrow> int \<Rightarrow> int \<Rightarrow> int \<Rightarrow> held_lot list \<Rightarrow> (event_error, lot_allocation list) result" where
  "take_lots kind contract multiplier contracts left [] = Inr []"
| "take_lots kind contract multiplier contracts left (l # ls) =
     (if left = 0 then Inr []
      else let t = min \<bar>hl_quantity l\<bar> left in
        bindR (shares_and_cash_cents kind contract t multiplier contracts) (\<lambda>sc.
        bindR (take_lots kind contract multiplier contracts (left - t) ls) (\<lambda>rest.
          Inr (take_from_lot l t sc # rest))))"

definition side_lots :: "event_kind \<Rightarrow> side \<Rightarrow> held_lot list \<Rightarrow> held_lot list" where
  "side_lots kind sd lots =
     (let on_side = filter (\<lambda>l. side_held l = sd) lots
      in if kind = Expired \<and> on_side = [] then filter (\<lambda>l. side_held l \<noteq> sd) lots else on_side)"

definition open_then :: "(int \<Rightarrow> date) \<Rightarrow> event_kind \<Rightarrow> int \<Rightarrow> held_lot list \<Rightarrow> held_lot list" where
  "open_then et_date kind event_date_ms on_side =
     (let eligible = filter (\<lambda>l. et_date (hl_opened_at_ms l) \<le> et_date event_date_ms) on_side
      in if kind = Expired then rev (sort_key lot_order (rev eligible)) else sort_key lot_order eligible)"

definition allocate_option_event ::
  "(int \<Rightarrow> date) \<Rightarrow> event_kind \<Rightarrow> option_contract \<Rightarrow> int \<Rightarrow> int \<Rightarrow> int \<Rightarrow> held_lot list
   \<Rightarrow> (event_error, event_allocation) result" where
  "allocate_option_event et_date kind contract position_change event_date_ms multiplier lots =
     (if position_change = 0 \<or> \<not> is_instant_ms event_date_ms \<or> multiplier < 1
         \<or> \<not> one_contract_and_distinct_lots contract lots then Inl Event_Value_Error
      else let contracts = \<bar>position_change\<bar>; sd = side_a_change_ends position_change in
        if sd \<notin> set (sides_a_kind_ends kind) then Inl Event_Value_Error
        else bindR (shares_and_cash_cents kind contract contracts multiplier contracts) (\<lambda>_.
          if lots = [] then Inl (Event_Refused Contract_Not_Held contracts)
          else if kind = Expired \<and> list_ex (\<lambda>l. side_held l = sd) lots \<and> list_ex (\<lambda>l. side_held l \<noteq> sd) lots
          then Inl (Event_Refused Held_On_Both_Sides contracts)
          else let on_side = side_lots kind sd lots in
            if on_side = [] then Inl (Event_Refused Wrong_Side contracts)
            else let eligible = open_then et_date kind event_date_ms on_side;
                     held = (\<Sum>l\<leftarrow>eligible. \<bar>hl_quantity l\<bar>)
                 in if held < contracts then Inl (Event_Refused More_Contracts_Than_Held (contracts - held))
                    else bindR (take_lots kind contract multiplier contracts contracts eligible) (\<lambda>taken.
                      Inr \<lparr>ea_kind = kind, ea_contract = contract, ea_contracts = contracts,
                           ea_multiplier = multiplier, ea_lots = taken\<rparr>)))"

subsection \<open>The taking loop as a list of amounts\<close>

fun takes :: "int \<Rightarrow> int list \<Rightarrow> int list" where
  "takes n [] = []"
| "takes n (q # qs) = min q n # takes (n - min q n) qs"

definition nonneg :: "int list \<Rightarrow> bool" where "nonneg qs \<longleftrightarrow> list_all (\<lambda>q. 0 \<le> q) qs"

lemma nonneg_simps [simp]: "nonneg []" "nonneg (q # qs) \<longleftrightarrow> 0 \<le> q \<and> nonneg qs"
  "nonneg (qs @ rs) \<longleftrightarrow> nonneg qs \<and> nonneg rs" "nonneg (rev qs) \<longleftrightarrow> nonneg qs"
  by (auto simp: nonneg_def list_all_iff)

lemma length_takes [simp]: "length (takes n qs) = length qs"
  by (induction n qs rule: takes.induct) auto

lemma takes_zero: "nonneg qs \<Longrightarrow> takes 0 qs = replicate (length qs) 0"
  by (induction qs) auto

lemma sum_takes: "nonneg qs \<Longrightarrow> 0 \<le> n \<Longrightarrow> sum_list (takes n qs) = min n (sum_list qs)"
proof (induction n qs rule: takes.induct)
  case (2 n q qs)
  have "0 \<le> sum_list qs" using 2(2) by (auto simp: nonneg_def list_all_iff intro: sum_list_nonneg)
  with 2 show ?case by (auto simp: min_def)
qed auto

lemma takes_snoc: "nonneg qs \<Longrightarrow> 0 \<le> q \<Longrightarrow> 0 \<le> n \<Longrightarrow> takes n (qs @ [q]) = takes n qs @ [min q (n - min n (sum_list qs))]"
proof (induction n qs rule: takes.induct)
  case (2 n p qs)
  have "0 \<le> sum_list qs" using 2(2) by (auto simp: nonneg_def list_all_iff intro: sum_list_nonneg)
  then have "n - min p n - min (n - min p n) (sum_list qs) = n - min n (p + sum_list qs)"
    using 2(2-) by (auto simp: min_def)
  with 2 show ?case by (auto simp: min_def)
qed auto

text \<open>Taking from the far end first leaves the near end's share as it was, while there is enough for both.\<close>

lemma takes_after_far_end:
  "nonneg qs \<Longrightarrow> 0 \<le> n \<Longrightarrow> 0 \<le> e \<Longrightarrow> n + e \<le> sum_list qs \<Longrightarrow>
     takes n (map2 (-) qs (rev (takes e (rev qs)))) = takes n qs"
proof (induction n qs rule: takes.induct)
  case (2 n q qs)
  define r where "r = rev (takes e (rev qs))"
  have far: "rev (takes e (rev (q # qs))) = min q (e - min e (sum_list qs)) # r"
    using 2(2-) by (simp add: takes_snoc r_def)
  have sum0: "0 \<le> sum_list qs" using 2(2) by (auto simp: nonneg_def list_all_iff intro: sum_list_nonneg)
  have le: "list_all2 (\<lambda>r q. 0 \<le> r \<and> r \<le> q) (takes e xs) xs" if "nonneg xs" "0 \<le> e" for e xs
    using that by (induction e xs rule: takes.induct) auto
  have "list_all2 (\<lambda>r q. 0 \<le> r \<and> r \<le> q) r qs"
    using le [of "rev qs" e] 2(2,4) list_all2_rev unfolding r_def by (metis nonneg_simps(2,4) rev_rev_ident)
  then have nn: "nonneg (map2 (-) qs r)" and len: "length r = length qs"
    by (auto simp: nonneg_def list_all_iff list_all2_conv_all_nth set_zip)
  show ?case
  proof (cases "n \<le> q")
    case True
    then have "n \<le> q - min q (e - min e (sum_list qs))" using 2(2-) sum0 by (auto simp: min_def)
    then show ?thesis using True 2(2-) nn len unfolding far by (auto simp: min_def takes_zero)
  next
    case False
    then have "e \<le> sum_list qs" using 2(5) sum0 by simp
    then have "min q (e - min e (sum_list qs)) = 0" using 2(2) by (auto simp: min_def)
    with False 2 show ?thesis unfolding far r_def by (auto simp: min_def)
  qed
qed auto

definition taken_pairs :: "int \<Rightarrow> held_lot list \<Rightarrow> (held_lot \<times> int) list" where
  "taken_pairs n ls = filter (\<lambda>(l, t). 0 < t) (zip ls (takes n (map (\<lambda>l. \<bar>hl_quantity l\<bar>) ls)))"

lemma taken_pairs_Cons:
  "taken_pairs n (l # ls) = (if 0 < min \<bar>hl_quantity l\<bar> n then [(l, min \<bar>hl_quantity l\<bar> n)] else [])
     @ taken_pairs (n - min \<bar>hl_quantity l\<bar> n) ls"
  by (simp add: taken_pairs_def)

lemma taken_pairs_Nil [simp]: "taken_pairs n [] = []"
  by (simp add: taken_pairs_def)

lemma taken_pairs_zero [simp]: "taken_pairs 0 ls = []"
  by (induction ls) (auto simp: taken_pairs_Cons)

lemma taken_pairs_nonzero:
  "0 \<le> n \<Longrightarrow> taken_pairs n (filter (\<lambda>l. hl_quantity l \<noteq> 0) ls) = taken_pairs n ls"
  by (induction ls arbitrary: n) (auto simp: taken_pairs_Cons)

definition book_lot :: "event_kind \<Rightarrow> option_contract \<Rightarrow> int \<Rightarrow> int \<Rightarrow> held_lot \<times> int \<Rightarrow> (event_error, lot_allocation) result" where
  "book_lot kind contract multiplier contracts = (\<lambda>(l, t).
     bindR (shares_and_cash_cents kind contract t multiplier contracts) (\<lambda>sc. Inr (take_from_lot l t sc)))"

lemma take_lots_eq:
  "0 \<le> n \<Longrightarrow> list_all (\<lambda>l. hl_quantity l \<noteq> 0) ls \<Longrightarrow>
     take_lots kind c m N n ls = traverseR (book_lot kind c m N) (taken_pairs n ls)"
proof (induction ls arbitrary: n)
  case (Cons l ls)
  show ?case
  proof (cases "n = 0")
    case False
    with Cons.prems have t: "0 < min \<bar>hl_quantity l\<bar> n" "0 \<le> n - min \<bar>hl_quantity l\<bar> n" by auto
    then show ?thesis
      using Cons False by (cases "shares_and_cash_cents kind c (min \<bar>hl_quantity l\<bar> n) m N")
        (auto simp: taken_pairs_Cons book_lot_def Let_def)
  qed simp
qed simp

definition event_direction :: "event_kind \<Rightarrow> option_contract \<Rightarrow> int" where
  "event_direction kind c = (case kind of Expired \<Rightarrow> 0
     | Exercised \<Rightarrow> (if oc_right c = Call then 1 else - 1)
     | Assigned \<Rightarrow> (if oc_right c = Call then - 1 else 1))"

lemma shares_and_cash_Inr:
  "shares_and_cash_cents kind c t m N = Inr (s, p) \<longleftrightarrow>
     s = event_direction kind c * (t * m) \<and> 10 * p = - (oc_strike c * s)"
proof -
  let ?k = "oc_strike c * (t * m)" and ?d = "event_direction kind c"
  have "(k mod 10 = 0 \<and> p = k div 10) = (10 * p = k)" "(k mod 10 = 0 \<and> p = - (k div 10)) = (10 * p = - k)" for k :: int
    by presburger+
  note ten = this [of ?k]
  have "shares_and_cash_cents kind c t m N = Inr (s, p) \<longleftrightarrow> s = ?d * (t * m)
      \<and> (if ?d = 0 then p = 0 else ?k mod 10 = 0 \<and> p = (if ?d = 1 then - (?k div 10) else ?k div 10))"
    by (cases kind; cases "oc_right c") (auto simp: shares_and_cash_cents_def event_direction_def Let_def)
  moreover have "?d = 0 \<or> ?d = 1 \<or> ?d = - 1" by (simp add: event_direction_def split: event_kind.split)
  ultimately show ?thesis using ten by (elim disjE) (auto simp: conj_commute)
qed

subsection \<open>What an accepted event does\<close>

definition eligible_lots :: "(int \<Rightarrow> date) \<Rightarrow> event_kind \<Rightarrow> int \<Rightarrow> int \<Rightarrow> held_lot list \<Rightarrow> held_lot list" where
  "eligible_lots et_date kind change date lots =
     open_then et_date kind date (side_lots kind (side_a_change_ends change) lots)"

lemma set_eligible: "set (eligible_lots et_date kind change date lots) \<subseteq> set lots"
  by (auto simp: eligible_lots_def open_then_def side_lots_def Let_def)

lemma mset_open_then:
  "mset (open_then et_date kind date ls) = mset (filter (\<lambda>l. et_date (hl_opened_at_ms l) \<le> et_date date) ls)"
  by (simp add: open_then_def Let_def)

lemma distinct_eligible:
  assumes "distinct (map f lots)"
  shows "distinct (map f (eligible_lots et_date kind change date lots))"
proof -
  have same: "distinct (map f xs) = distinct (map f ys)" if "mset xs = mset ys" for xs ys :: "held_lot list"
    using that by (metis mset_eq_imp_distinct_iff mset_map)
  have "distinct (map f (side_lots kind sd lots))" for sd
    using assms by (simp add: side_lots_def Let_def distinct_map_filter)
  then show ?thesis
    unfolding eligible_lots_def same [OF mset_open_then] by (rule distinct_map_filter)
qed

lemma allocate_parts:
  assumes "allocate_option_event et_date kind c change date m lots = Inr a"
  obtains s p taken where "change \<noteq> 0" "1 \<le> m" "one_contract_and_distinct_lots c lots"
    "shares_and_cash_cents kind c \<bar>change\<bar> m \<bar>change\<bar> = Inr (s, p)"
    "\<bar>change\<bar> \<le> (\<Sum>l\<leftarrow>eligible_lots et_date kind change date lots. \<bar>hl_quantity l\<bar>)"
    "take_lots kind c m \<bar>change\<bar> \<bar>change\<bar> (eligible_lots et_date kind change date lots) = Inr taken"
    "a = \<lparr>ea_kind = kind, ea_contract = c, ea_contracts = \<bar>change\<bar>, ea_multiplier = m, ea_lots = taken\<rparr>"
  using assms
  by (auto simp: allocate_option_event_def Let_def result_simps eligible_lots_def not_less split: if_splits)

lemma taken_pairs_bounds:
  "0 \<le> n \<Longrightarrow> (l, t) \<in> set (taken_pairs n ls) \<Longrightarrow> l \<in> set ls \<and> 1 \<le> t \<and> t \<le> \<bar>hl_quantity l\<bar>"
proof (induction ls arbitrary: n)
  case (Cons a ls)
  have rest: "0 \<le> n - min \<bar>hl_quantity a\<bar> n" by simp
  from Cons.prems(2) consider "l = a" "0 < min \<bar>hl_quantity a\<bar> n" "t = min \<bar>hl_quantity a\<bar> n"
    | "(l, t) \<in> set (taken_pairs (n - min \<bar>hl_quantity a\<bar> n) ls)"
    by (auto simp: taken_pairs_Cons split: if_splits)
  then show ?case by cases (use Cons.IH [OF rest] in auto)
qed simp

lemma taken_pairs_sum:
  "0 \<le> n \<Longrightarrow> (\<Sum>(l, t)\<leftarrow>taken_pairs n ls. t) = min n (\<Sum>l\<leftarrow>ls. \<bar>hl_quantity l\<bar>)"
proof (induction ls arbitrary: n)
  case (Cons l ls)
  have "0 \<le> (\<Sum>l\<leftarrow>ls. \<bar>hl_quantity l\<bar>)" by (rule sum_list_nonneg_map) simp
  with Cons show ?case by (auto simp: taken_pairs_Cons min_def)
qed simp

lemma taken_pairs_distinct:
  "distinct (map f ls) \<Longrightarrow> distinct (map (\<lambda>(l, t). f l) (taken_pairs n ls))"
  by (induction ls arbitrary: n)
    (auto simp: taken_pairs_Cons taken_pairs_def dest!: set_zip_leftD)

lemma book_lot_Inr:
  "book_lot kind c m N (l, t) = Inr x \<longleftrightarrow>
     (\<exists>p. 10 * p = - (oc_strike c * (event_direction kind c * (t * m)))
        \<and> x = take_from_lot l t (event_direction kind c * (t * m), p))"
  by (auto simp: book_lot_def result_simps shares_and_cash_Inr)

lemma accepted_lots:
  assumes a: "allocate_option_event et_date kind c change date m lots = Inr a"
    and ok: "list_all held_lot_ok lots"
  shows "list_all2 (\<lambda>lt x. book_lot kind c m \<bar>change\<bar> lt = Inr x)
     (taken_pairs \<bar>change\<bar> (eligible_lots et_date kind change date lots)) (ea_lots a)"
proof -
  obtain s p taken where
    "take_lots kind c m \<bar>change\<bar> \<bar>change\<bar> (eligible_lots et_date kind change date lots) = Inr taken"
    "a = \<lparr>ea_kind = kind, ea_contract = c, ea_contracts = \<bar>change\<bar>, ea_multiplier = m, ea_lots = taken\<rparr>"
    using a by (rule allocate_parts)
  moreover have "list_all (\<lambda>l. hl_quantity l \<noteq> 0) (eligible_lots et_date kind change date lots)"
    using ok set_eligible by (fastforce simp: list_all_iff held_lot_ok_def)
  ultimately show ?thesis by (simp add: take_lots_eq traverseR_conv [symmetric])
qed

lemma sum_list_all2:
  "list_all2 P xs ys \<Longrightarrow> (\<And>x y. P x y \<Longrightarrow> f x = (g y :: int)) \<Longrightarrow> (\<Sum>x\<leftarrow>xs. f x) = (\<Sum>y\<leftarrow>ys. g y)"
  by (induction rule: list_all2_induct) auto

lemma sum_list_linear: "(\<Sum>x\<leftarrow>xs. k * f x) = k * (\<Sum>x\<leftarrow>xs. f x :: int)"
  by (rule sum_list_const_mult)

lemma allocation_facts:
  assumes a: "allocate_option_event et_date kind c change date m lots = Inr a"
    and ok: "list_all held_lot_ok lots"
  shows "(\<Sum>x\<leftarrow>ea_lots a. la_contracts x) = \<bar>change\<bar>
     \<and> shares_and_cash_cents kind c \<bar>change\<bar> m \<bar>change\<bar> = Inr (share_quantity_change a, cash_change_cents a)
     \<and> distinct (map (\<lambda>x. (la_owner x, la_sequence x)) (ea_lots a))
     \<and> (\<forall>x\<in>set (ea_lots a). \<exists>l\<in>set lots. la_owner x = hl_owner l \<and> la_sequence x = hl_sequence l
          \<and> 1 \<le> la_contracts x \<and> la_contracts x \<le> \<bar>hl_quantity l\<bar>
          \<and> \<bar>la_remaining_quantity x\<bar> = \<bar>hl_quantity l\<bar> - la_contracts x
          \<and> 0 \<le> la_remaining_quantity x * hl_quantity l
          \<and> la_remaining_quantity x = hl_quantity l + la_option_quantity_change x)"
proof -
  let ?ls = "eligible_lots et_date kind change date lots" and ?d = "event_direction kind c"
  note L = accepted_lots [OF a ok]
  obtain s p taken where parts: "one_contract_and_distinct_lots c lots"
    "shares_and_cash_cents kind c \<bar>change\<bar> m \<bar>change\<bar> = Inr (s, p)"
    "\<bar>change\<bar> \<le> (\<Sum>l\<leftarrow>?ls. \<bar>hl_quantity l\<bar>)"
    using a by (rule allocate_parts)
  have "(\<Sum>(l, t)\<leftarrow>taken_pairs \<bar>change\<bar> ?ls. t) = (\<Sum>x\<leftarrow>ea_lots a. la_contracts x)"
    by (rule sum_list_all2 [OF L]) (auto simp: book_lot_Inr take_from_lot_def Let_def)
  then have count: "(\<Sum>x\<leftarrow>ea_lots a. la_contracts x) = \<bar>change\<bar>"
    using parts(3) taken_pairs_sum [of "\<bar>change\<bar>" ?ls] by simp
  have each: "la_share_quantity_change x = ?d * m * la_contracts x \<and>
      10 * la_cash_change_cents x = - oc_strike c * (?d * m) * la_contracts x" if "x \<in> set (ea_lots a)" for x
    using list_all2_right [OF L that]
    by (auto simp: book_lot_Inr take_from_lot_def Let_def algebra_simps)
  have shares: "share_quantity_change a = ?d * m * \<bar>change\<bar>"
    unfolding share_quantity_change_def count [symmetric] sum_list_linear [symmetric]
    by (rule arg_cong [of _ _ sum_list], rule map_cong) (use each in auto)
  have "(\<Sum>x\<leftarrow>ea_lots a. 10 * la_cash_change_cents x) = (\<Sum>x\<leftarrow>ea_lots a. - oc_strike c * (?d * m) * la_contracts x)"
    by (rule arg_cong [of _ _ sum_list], rule map_cong) (use each in auto)
  then have cash: "10 * cash_change_cents a = - oc_strike c * (?d * m) * \<bar>change\<bar>"
    unfolding sum_list_linear count cash_change_cents_def .
  have whole: "shares_and_cash_cents kind c \<bar>change\<bar> m \<bar>change\<bar> = Inr (share_quantity_change a, cash_change_cents a)"
    unfolding shares_and_cash_Inr using shares cash by (simp add: mult.commute mult.left_commute)
  have "distinct (map (\<lambda>(l, t). (hl_owner l, hl_sequence l)) (taken_pairs \<bar>change\<bar> ?ls))"
    using parts(1) by (intro taken_pairs_distinct distinct_eligible) (simp add: one_contract_and_distinct_lots_def)
  moreover have "map (\<lambda>(l, t). (hl_owner l, hl_sequence l)) (taken_pairs \<bar>change\<bar> ?ls)
      = map (\<lambda>x. (la_owner x, la_sequence x)) (ea_lots a)"
    using L by (induction rule: list_all2_induct) (auto simp: book_lot_Inr take_from_lot_def Let_def)
  ultimately have "distinct (map (\<lambda>x. (la_owner x, la_sequence x)) (ea_lots a))" by simp
  moreover have "\<exists>l\<in>set lots. la_owner x = hl_owner l \<and> la_sequence x = hl_sequence l
          \<and> 1 \<le> la_contracts x \<and> la_contracts x \<le> \<bar>hl_quantity l\<bar>
          \<and> \<bar>la_remaining_quantity x\<bar> = \<bar>hl_quantity l\<bar> - la_contracts x
          \<and> 0 \<le> la_remaining_quantity x * hl_quantity l
          \<and> la_remaining_quantity x = hl_quantity l + la_option_quantity_change x"
    if x: "x \<in> set (ea_lots a)" for x
  proof -
    obtain l t where lt: "(l, t) \<in> set (taken_pairs \<bar>change\<bar> ?ls)" "book_lot kind c m \<bar>change\<bar> (l, t) = Inr x"
      using list_all2_right [OF L x] by auto
    have b: "l \<in> set lots" "1 \<le> t" "t \<le> \<bar>hl_quantity l\<bar>"
      using taken_pairs_bounds [OF _ lt(1)] subsetD [OF set_eligible] by auto
    show ?thesis
      by (rule bexI [OF _ b(1)])
        (use lt(2) b(2,3) in \<open>auto simp: book_lot_Inr take_from_lot_def Let_def zero_le_mult_iff split: if_splits\<close>)
  qed
  ultimately show ?thesis using count whole by blast
qed

text \<open>
  C9: an accepted option event is matched whole. The contracts taken add up to the event's, each from a different
  lot that was offered and never more than it held, leaving it on its own side; and the shares and the cash of
  the owners add up exactly to the event's own.
\<close>

theorem allocation_conserves:
  assumes a: "allocate_option_event et_date kind c change date m lots = Inr a"
    and ok: "list_all held_lot_ok lots"
  shows "(\<Sum>x\<leftarrow>ea_lots a. la_contracts x) = \<bar>change\<bar>
     \<and> shares_and_cash_cents kind c \<bar>change\<bar> m \<bar>change\<bar> = Inr (share_quantity_change a, cash_change_cents a)
     \<and> distinct (map (\<lambda>x. (la_owner x, la_sequence x)) (ea_lots a))
     \<and> (\<forall>x\<in>set (ea_lots a). \<exists>l\<in>set lots. la_owner x = hl_owner l \<and> la_sequence x = hl_sequence l
          \<and> 1 \<le> la_contracts x \<and> la_contracts x \<le> \<bar>hl_quantity l\<bar>
          \<and> \<bar>la_remaining_quantity x\<bar> = \<bar>hl_quantity l\<bar> - la_contracts x
          \<and> 0 \<le> la_remaining_quantity x * hl_quantity l
          \<and> la_remaining_quantity x = hl_quantity l + la_option_quantity_change x)"
  using allocation_facts [OF a ok] .

definition example_call :: option_contract where
  "example_call = \<lparr>oc_root = ''AAPL'', oc_expiry_ms = 752947, oc_right = Call, oc_strike = 150000\<rparr>"

definition example_lots :: "held_lot list" where
  "example_lots =
     [\<lparr>hl_owner = ''b'', hl_contract = example_call, hl_quantity = - 2, hl_opened_at_ms = 752930, hl_sequence = 4\<rparr>,
      \<lparr>hl_owner = ''a'', hl_contract = example_call, hl_quantity = - 3, hl_opened_at_ms = 752920, hl_sequence = 7\<rparr>]"

text \<open>Four sold calls assigned: the older lot whole, one of the newer.\<close>

definition example_taken :: "lot_allocation list" where
  "example_taken =
     [\<lparr>la_owner = ''a'', la_sequence = 7, la_opened_at_ms = 752920, la_contracts = 3, la_remaining_quantity = 0,
       la_option_quantity_change = 3, la_share_quantity_change = - 300, la_cash_change_cents = 4500000\<rparr>,
      \<lparr>la_owner = ''b'', la_sequence = 4, la_opened_at_ms = 752930, la_contracts = 1, la_remaining_quantity = - 1,
       la_option_quantity_change = 1, la_share_quantity_change = - 100, la_cash_change_cents = 1500000\<rparr>]"

lemma example_assigned:
  "allocate_option_event (\<lambda>_. (2024, 1, 19)) Assigned example_call 4 752947 100 example_lots
   = Inr \<lparr>ea_kind = Assigned, ea_contract = example_call, ea_contracts = 4, ea_multiplier = 100, ea_lots = example_taken\<rparr>"
  by code_simp

lemma example_lots_ok: "list_all held_lot_ok example_lots"
  by code_simp

theorem allocation_conserves_witness:
  "(\<Sum>x\<leftarrow>example_taken. la_contracts x) = 4"
  using allocation_conserves [OF example_assigned example_lots_ok] by simp

subsection \<open>Oldest first, newest first\<close>

lemma takes_order:
  "nonneg qs \<Longrightarrow> 0 \<le> n \<Longrightarrow> i < j \<Longrightarrow> j < length qs \<Longrightarrow> 0 < takes n qs ! j \<Longrightarrow> takes n qs ! i = qs ! i"
proof (induction n qs arbitrary: i j rule: takes.induct)
  case (2 n q qs)
  obtain j' where j: "j = Suc j'" using 2 by (cases j) auto
  show ?case
  proof (cases "n \<le> q")
    case True
    then have "takes (n - min q n) qs = replicate (length qs) 0" using 2 by (simp add: takes_zero min_def)
    then show ?thesis using 2 j by simp
  next
    case False
    then show ?thesis using 2 j by (cases i) (auto simp: min_def)
  qed
qed simp

lemma sorted_eligible:
  "kind \<noteq> Expired \<Longrightarrow> sorted (map lot_order (open_then et_date kind date ls))"
  "sorted (map lot_order (rev (open_then et_date Expired date ls)))"
  by (simp_all add: open_then_def Let_def)

text \<open>What is taken of one lot.\<close>

definition taken_of :: "lot_allocation list \<Rightarrow> held_lot \<Rightarrow> int" where
  "taken_of taken l = (\<Sum>x\<leftarrow>taken. if la_owner x = hl_owner l \<and> la_sequence x = hl_sequence l then la_contracts x else 0)"

lemma taken_pairs_nth:
  assumes "distinct (map (\<lambda>l. (hl_owner l, hl_sequence l)) ls)" "i < length ls" "0 \<le> n"
  shows "(\<Sum>(l, t)\<leftarrow>taken_pairs n ls. if hl_owner l = hl_owner (ls ! i) \<and> hl_sequence l = hl_sequence (ls ! i) then t else 0)
     = takes n (map (\<lambda>l. \<bar>hl_quantity l\<bar>) ls) ! i"
  using assms
proof (induction ls arbitrary: i n)
  case (Cons l ls)
  let ?m = "n - min \<bar>hl_quantity l\<bar> n"
  have m0: "0 \<le> ?m" using Cons.prems(3) by simp
  have none: "(\<Sum>(k, t)\<leftarrow>taken_pairs ?m ls. if hl_owner k = hl_owner l \<and> hl_sequence k = hl_sequence l then t else 0) = 0"
  proof (rule sum_list_map_if_zero)
    fix kt assume "kt \<in> set (taken_pairs ?m ls)"
    moreover obtain k t where kt: "kt = (k, t)" by (cases kt)
    ultimately have "k \<in> set ls" using taken_pairs_bounds [OF m0] by blast
    with kt
    show "(case kt of (k, t) \<Rightarrow> if hl_owner k = hl_owner l \<and> hl_sequence k = hl_sequence l then t else 0) = 0"
      using Cons.prems(1) by (auto simp: image_iff)
  qed
  show ?case
  proof (cases i)
    case 0
    then show ?thesis using none Cons.prems(3) by (auto simp: taken_pairs_Cons min_def)
  next
    case (Suc i')
    then have i': "i' < length ls" using Cons.prems(2) by simp
    then have "(hl_owner l, hl_sequence l) \<noteq> (hl_owner (ls ! i'), hl_sequence (ls ! i'))"
      using Cons.prems(1) by (auto simp: image_iff)
    then show ?thesis using Cons.IH [OF _ i' m0] Cons.prems(1) Suc by (auto simp: taken_pairs_Cons)
  qed
qed simp

lemma taken_of_nth:
  assumes a: "allocate_option_event et_date kind c change date m lots = Inr a"
    and ok: "list_all held_lot_ok lots" and i: "i < length (eligible_lots et_date kind change date lots)"
  shows "taken_of (ea_lots a) (eligible_lots et_date kind change date lots ! i)
     = takes \<bar>change\<bar> (map (\<lambda>l. \<bar>hl_quantity l\<bar>) (eligible_lots et_date kind change date lots)) ! i"
proof -
  let ?ls = "eligible_lots et_date kind change date lots"
  obtain s p taken where "one_contract_and_distinct_lots c lots" using a by (rule allocate_parts)
  then have "distinct (map (\<lambda>l. (hl_owner l, hl_sequence l)) ?ls)"
    by (intro distinct_eligible) (simp add: one_contract_and_distinct_lots_def)
  from taken_pairs_nth [OF this i, of "\<bar>change\<bar>"]
  have "takes \<bar>change\<bar> (map (\<lambda>l. \<bar>hl_quantity l\<bar>) ?ls) ! i
    = (\<Sum>(l, t)\<leftarrow>taken_pairs \<bar>change\<bar> ?ls. if hl_owner l = hl_owner (?ls ! i) \<and> hl_sequence l = hl_sequence (?ls ! i) then t else 0)"
    by simp
  also have "\<dots> = taken_of (ea_lots a) (?ls ! i)"
    unfolding taken_of_def
    by (rule sum_list_all2 [OF accepted_lots [OF a ok]]) (auto simp: book_lot_Inr take_from_lot_def Let_def)
  finally show ?thesis by simp
qed

text \<open>
  C31: an assignment or an exercise takes older lots whole before it touches a newer one, an expiry the newest
  first: of two lots of the side taken, open by the event's date, the later in that order is taken from only
  when nothing is left of the other.
\<close>

theorem allocation_order:
  assumes a: "allocate_option_event et_date kind c change date m lots = Inr a"
    and ok: "list_all held_lot_ok lots"
    and l: "l \<in> set (eligible_lots et_date kind change date lots)" "l' \<in> set (eligible_lots et_date kind change date lots)"
    and order: "if kind = Expired then lot_order l' < lot_order l else lot_order l < lot_order l'"
    and taken: "0 < taken_of (ea_lots a) l'"
  shows "taken_of (ea_lots a) l = \<bar>hl_quantity l\<bar>"
proof -
  let ?ls = "eligible_lots et_date kind change date lots" and ?qs = "map (\<lambda>l. \<bar>hl_quantity l\<bar>) (eligible_lots et_date kind change date lots)"
  obtain i j where i: "i < length ?ls" "?ls ! i = l" and j: "j < length ?ls" "?ls ! j = l'"
    using l by (auto simp: in_set_conv_nth)
  have "i < j"
  proof (rule ccontr)
    assume "\<not> i < j"
    moreover have "i \<noteq> j" using i j order by (auto split: if_splits)
    ultimately have ji: "j < i" by simp
    show False
    proof (cases "kind = Expired")
      case True
      have "sorted (map lot_order (rev ?ls))" unfolding eligible_lots_def True by (rule sorted_eligible(2))
      then have "sorted_wrt (\<ge>) (map lot_order ?ls)" by (simp add: rev_map [symmetric] sorted_wrt_rev)
      then have "lot_order (?ls ! i) \<le> lot_order (?ls ! j)"
        using sorted_wrt_nth_less [of "(\<ge>)" "map lot_order ?ls" j i] ji i(1) by simp
      with True i j order show False by simp
    next
      case False
      have "sorted (map lot_order ?ls)" unfolding eligible_lots_def by (rule sorted_eligible(1) [OF False])
      then have "lot_order (?ls ! j) \<le> lot_order (?ls ! i)"
        using sorted_nth_mono [of "map lot_order ?ls" j i] ji i(1) by simp
      with False i j order show False by simp
    qed
  qed
  moreover have "nonneg ?qs" by (auto simp: nonneg_def list_all_iff)
  ultimately have "takes \<bar>change\<bar> ?qs ! i = ?qs ! i"
    using takes_order [of ?qs "\<bar>change\<bar>" i j] j(1) taken_of_nth [OF a ok j(1)] taken j(2) by simp
  then show ?thesis using taken_of_nth [OF a ok i(1)] i by simp
qed

theorem allocation_order_witness:
  "taken_of example_taken (example_lots ! 1) = 3"
proof -
  have "eligible_lots (\<lambda>_. (2024, 1, 19)) Assigned 4 752947 example_lots = [example_lots ! 1, example_lots ! 0]"
    by code_simp
  moreover have "lot_order (example_lots ! 1) < lot_order (example_lots ! 0)"
    "0 < taken_of example_taken (example_lots ! 0)" "\<bar>hl_quantity (example_lots ! 1)\<bar> = 3"
    by code_simp+
  ultimately show ?thesis
    using allocation_order [OF example_assigned example_lots_ok, of "example_lots ! 1" "example_lots ! 0"] by simp
qed

subsection \<open>An expiry first or the assignment first\<close>

text \<open>The books once an event's allocations are booked: what is left of each lot, closed lots gone.\<close>

definition lot_after :: "lot_allocation list \<Rightarrow> held_lot \<Rightarrow> held_lot" where
  "lot_after taken l =
     (case find (\<lambda>x. la_owner x = hl_owner l \<and> la_sequence x = hl_sequence l) taken of
        None \<Rightarrow> l | Some x \<Rightarrow> l\<lparr>hl_quantity := la_remaining_quantity x\<rparr>)"

definition books_after :: "lot_allocation list \<Rightarrow> held_lot list \<Rightarrow> held_lot list" where
  "books_after taken lots = filter (\<lambda>l. hl_quantity l \<noteq> 0) (map (lot_after taken) lots)"

definition all_sold :: "held_lot list \<Rightarrow> bool" where
  "all_sold lots \<longleftrightarrow> list_all (\<lambda>l. hl_quantity l < 0) lots"

lemma lot_after_fields [simp]: "hl_owner (lot_after taken l) = hl_owner l" "hl_sequence (lot_after taken l) = hl_sequence l"
  "hl_opened_at_ms (lot_after taken l) = hl_opened_at_ms l" "hl_contract (lot_after taken l) = hl_contract l"
  "lot_order (lot_after taken l) = lot_order l"
  by (auto simp: lot_after_def lot_order_def split: option.splits)

lemma side_lots_all_sold:
  assumes "all_sold lots"
  shows "side_lots kind Sold lots = lots" "side_lots Expired sd lots = lots"
proof -
  have "filter (\<lambda>l. side_held l = Sold) lots = lots" "filter (\<lambda>l. side_held l = Bought) lots = []"
    "filter (\<lambda>l. side_held l \<noteq> Bought) lots = lots"
    using assms by (auto simp: all_sold_def list_all_iff side_held_def filter_id_conv filter_empty_conv)
  then show "side_lots kind Sold lots = lots" "side_lots Expired sd lots = lots"
    by (auto simp: side_lots_def Let_def) (cases sd; auto)+
qed

lemma open_then_expired:
  assumes "distinct (map (\<lambda>l. (hl_owner l, hl_sequence l)) lots)"
  shows "open_then et_date Expired date lots = rev (open_then et_date Assigned date lots)"
proof -
  let ?e = "filter (\<lambda>l. et_date (hl_opened_at_ms l) \<le> et_date date) lots"
  have "inj_on (\<lambda>l. (hl_owner l, hl_sequence l)) (set ?e)"
    using assms by (auto simp: distinct_map intro: inj_on_subset)
  then have "inj_on lot_order (set ?e)" by (auto simp: inj_on_def lot_order_def)
  then have "sort_key lot_order (rev ?e) = sort_key lot_order ?e"
    by (intro sort_key_inj_key_eq) auto
  then show ?thesis by (simp add: open_then_def Let_def)
qed

lemma lot_after_taken_of:
  assumes a: "allocate_option_event et_date kind c change date m lots = Inr a"
    and ok: "list_all held_lot_ok lots" and sold: "all_sold lots" and l: "l \<in> set lots"
  shows "hl_quantity (lot_after (ea_lots a) l) = hl_quantity l + taken_of (ea_lots a) l
     \<and> hl_quantity (lot_after (ea_lots a) l) \<le> 0"
proof -
  let ?P = "\<lambda>x. la_owner x = hl_owner l \<and> la_sequence x = hl_sequence l"
  have C1: "distinct (map (\<lambda>x. (la_owner x, la_sequence x)) (ea_lots a))"
    using allocation_facts [OF a ok] by blast
  have C2: "\<exists>l\<in>set lots. la_owner x = hl_owner l \<and> la_sequence x = hl_sequence l
        \<and> la_remaining_quantity x = hl_quantity l + la_contracts x \<and> la_remaining_quantity x \<le> 0"
    if x: "x \<in> set (ea_lots a)" for x
  proof -
    obtain l where l: "l \<in> set lots" "la_owner x = hl_owner l" "la_sequence x = hl_sequence l"
        "\<bar>la_remaining_quantity x\<bar> = \<bar>hl_quantity l\<bar> - la_contracts x" "0 \<le> la_remaining_quantity x * hl_quantity l"
      using allocation_facts [OF a ok] x by blast
    have "hl_quantity l < 0" using sold l(1) by (auto simp: all_sold_def list_all_iff)
    with l(4,5) have "la_remaining_quantity x \<le> 0" "la_remaining_quantity x = hl_quantity l + la_contracts x"
      by (auto simp: zero_le_mult_iff)
    with l show ?thesis by blast
  qed
  have names: "l1 = l2" if "l1 \<in> set lots" "l2 \<in> set lots" "hl_owner l1 = hl_owner l2" "hl_sequence l1 = hl_sequence l2" for l1 l2
  proof -
    obtain s p taken where "one_contract_and_distinct_lots c lots" using a by (rule allocate_parts)
    then have "inj_on (\<lambda>l. (hl_owner l, hl_sequence l)) (set lots)"
      by (simp add: one_contract_and_distinct_lots_def distinct_map)
    then show ?thesis using that by (auto simp: inj_on_def)
  qed
  have sum: "(\<Sum>x\<leftarrow>xs. if ?P x then la_contracts x else 0) = (case find ?P xs of None \<Rightarrow> 0 | Some x \<Rightarrow> la_contracts x)"
    if "distinct (map (\<lambda>x. (la_owner x, la_sequence x)) xs)" for xs
    using that
  proof (induction xs)
    case (Cons x xs)
    have "(\<Sum>x\<leftarrow>xs. if ?P x then la_contracts x else 0) = 0" if "?P x"
      by (rule sum_list_map_if_zero) (use Cons.prems that in \<open>force simp: image_iff\<close>)
    with Cons show ?case by auto
  qed simp
  show ?thesis
  proof (cases "find ?P (ea_lots a)")
    case None
    moreover have "hl_quantity l \<le> 0" using sold l by (auto simp: all_sold_def list_all_iff)
    ultimately show ?thesis by (simp add: lot_after_def taken_of_def sum [OF C1])
  next
    case (Some x)
    then have x: "x \<in> set (ea_lots a)" "?P x" by (auto simp: find_Some_iff in_set_conv_nth)
    then have "la_remaining_quantity x = hl_quantity l + la_contracts x \<and> la_remaining_quantity x \<le> 0"
      using C2 [OF x(1)] names l by metis
    with Some show ?thesis by (simp add: lot_after_def taken_of_def sum [OF C1])
  qed
qed

lemma assigned_sold_Inr:
  assumes "all_sold lots"
  shows "allocate_option_event et_date Assigned c n date m lots = Inr a \<longleftrightarrow>
     0 < n \<and> is_instant_ms date \<and> 1 \<le> m \<and> one_contract_and_distinct_lots c lots
     \<and> (\<exists>s p. shares_and_cash_cents Assigned c n m n = Inr (s, p))
     \<and> n \<le> (\<Sum>l\<leftarrow>open_then et_date Assigned date lots. \<bar>hl_quantity l\<bar>)
     \<and> (\<exists>taken. take_lots Assigned c m n n (open_then et_date Assigned date lots) = Inr taken
          \<and> a = \<lparr>ea_kind = Assigned, ea_contract = c, ea_contracts = n, ea_multiplier = m, ea_lots = taken\<rparr>)"
proof (cases "0 < n")
  case True
  have "lots = [] \<Longrightarrow> open_then et_date Assigned date lots = []" by (simp add: open_then_def)
  then show ?thesis using True
    by (auto simp: allocate_option_event_def Let_def result_simps side_a_change_ends_def sides_a_kind_ends_def
        side_lots_all_sold [OF assms] split: if_splits)
next
  case False
  then show ?thesis
    by (auto simp: allocate_option_event_def Let_def side_a_change_ends_def sides_a_kind_ends_def)
qed

lemma both_matched_all_sold:
  assumes x: "allocate_option_event et_date Expired c e date m lots = Inr x"
    and a: "allocate_option_event et_date Assigned c n date m lots = Inr a"
    and ok: "list_all held_lot_ok lots"
  shows "all_sold lots"
proof -
  have "side_a_change_ends n = Sold"
    using a by (auto simp: allocate_option_event_def Let_def sides_a_kind_ends_def split: if_splits)
  then obtain k where k: "k \<in> set lots" "side_held k = Sold"
    using a by (auto simp: allocate_option_event_def Let_def result_simps side_lots_def filter_empty_conv split: if_splits)
  have "\<not> (list_ex (\<lambda>l. side_held l = sd) lots \<and> list_ex (\<lambda>l. side_held l \<noteq> sd) lots)"
    if "sd = side_a_change_ends e" for sd
    using x that by (auto simp: allocate_option_event_def Let_def result_simps split: if_splits)
  with k have "\<forall>l\<in>set lots. side_held l = Sold" unfolding list_ex_iff by (metis (full_types) side.exhaust)
  then show ?thesis
    using ok by (auto simp: all_sold_def list_all_iff side_held_def held_lot_ok_def split: if_splits)
      (meson linorder_cases)
qed

lemma sort_key_map: "sort_key k (map f xs) = map f (sort_key (k \<circ> f) xs)"
proof -
  have "insort_key k (f x) (map f ys) = map f (insort_key (k \<circ> f) x ys)" for x ys
    by (induction ys) auto
  then show ?thesis by (induction xs) auto
qed

lemma open_then_books_after:
  "open_then et_date Assigned date (books_after taken lots)
   = filter (\<lambda>l. hl_quantity l \<noteq> 0) (map (lot_after taken) (open_then et_date Assigned date lots))"
proof -
  have "lot_order \<circ> lot_after taken = lot_order" by (simp add: fun_eq_iff)
  then show ?thesis
    by (simp add: open_then_def Let_def books_after_def filter_map filter_sort sort_key_map comp_def conj_commute)
qed

text \<open>What an allocation books for one lot, but for what it says is left of the lot.\<close>

definition booked :: "lot_allocation \<Rightarrow> string \<times> int \<times> int \<times> int \<times> int \<times> int" where
  "booked x = (la_owner x, la_sequence x, la_contracts x, la_option_quantity_change x,
     la_share_quantity_change x, la_cash_change_cents x)"

lemma book_lot_after:
  assumes "hl_quantity l < 0" "hl_quantity (lot_after taken l) \<le> 0" "book_lot kind c m N (l, t) = Inr x"
  shows "\<exists>y. book_lot kind c m N (lot_after taken l, t) = Inr y \<and> booked y = booked x"
  using assms by (auto simp: book_lot_Inr take_from_lot_def Let_def booked_def)

lemma book_lots_after:
  assumes "list_all2 (\<lambda>p x. book_lot kind c m N p = Inr x) ps xs"
    and "\<forall>p\<in>set ps. hl_quantity (fst p) < 0 \<and> hl_quantity (lot_after taken (fst p)) \<le> 0"
  shows "\<exists>ys. traverseR (book_lot kind c m N) (map (\<lambda>(l, t). (lot_after taken l, t)) ps) = Inr ys
     \<and> map booked ys = map booked xs"
  using assms
proof (induction rule: list_all2_induct)
  case (Cons p ps x xs)
  obtain l t where p: "p = (l, t)" by fastforce
  obtain ys where "traverseR (book_lot kind c m N) (map (\<lambda>(l, t). (lot_after taken l, t)) ps) = Inr ys"
      "map booked ys = map booked xs"
    using Cons.IH Cons.prems by (metis list.set_intros(2))
  moreover obtain y where "book_lot kind c m N (lot_after taken l, t) = Inr y" "booked y = booked x"
    using book_lot_after [of l taken kind c m N t x] Cons.hyps(1) Cons.prems p by auto
  ultimately show ?case by (simp add: p)
qed simp

lemma taken_pairs_lot_after:
  assumes "map (\<lambda>l. \<bar>hl_quantity (lot_after taken l)\<bar>) ls = qs'" "takes n qs' = takes n (map (\<lambda>l. \<bar>hl_quantity l\<bar>) ls)"
  shows "taken_pairs n (map (lot_after taken) ls) = map (\<lambda>(l, t). (lot_after taken l, t)) (taken_pairs n ls)"
proof -
  have "taken_pairs n (map (lot_after taken) ls)
      = filter (\<lambda>(l, t). 0 < t) (zip (map (lot_after taken) ls) (takes n (map (\<lambda>l. \<bar>hl_quantity l\<bar>) ls)))"
    using assms by (simp add: taken_pairs_def comp_def)
  then show ?thesis by (simp add: zip_map1 filter_map comp_def taken_pairs_def split_def)
qed

lemma left_after_expiry:
  assumes x: "allocate_option_event et_date Expired c e date m lots = Inr x"
    and ok: "list_all held_lot_ok lots" and sold: "all_sold lots"
  defines "ls \<equiv> open_then et_date Assigned date lots"
  shows "map (\<lambda>l. \<bar>hl_quantity (lot_after (ea_lots x) l)\<bar>) ls
     = map2 (-) (map (\<lambda>l. \<bar>hl_quantity l\<bar>) ls) (rev (takes \<bar>e\<bar> (rev (map (\<lambda>l. \<bar>hl_quantity l\<bar>) ls))))"
proof (rule nth_equalityI)
  fix i assume "i < length (map (\<lambda>l. \<bar>hl_quantity (lot_after (ea_lots x) l)\<bar>) ls)"
  then have i: "i < length ls" by simp
  let ?qs = "map (\<lambda>l. \<bar>hl_quantity l\<bar>) ls" and ?j = "length ls - Suc i"
  obtain s p taken where "one_contract_and_distinct_lots c lots" using x by (rule allocate_parts)
  then have el: "eligible_lots et_date Expired e date lots = rev ls"
    unfolding eligible_lots_def side_lots_all_sold(2) [OF sold] ls_def
    by (intro open_then_expired) (simp add: one_contract_and_distinct_lots_def)
  have l: "ls ! i \<in> set lots" using i set_eligible [of et_date Expired e date lots] by (auto simp: el)
  have "taken_of (ea_lots x) (rev ls ! ?j) = takes \<bar>e\<bar> (rev ?qs) ! ?j"
    using taken_of_nth [OF x ok, of ?j] i by (simp add: el rev_map)
  then have t: "taken_of (ea_lots x) (ls ! i) = rev (takes \<bar>e\<bar> (rev ?qs)) ! i"
    using i by (simp add: rev_nth)
  have "hl_quantity (ls ! i) < 0" using sold l by (auto simp: all_sold_def list_all_iff)
  then show "map (\<lambda>l. \<bar>hl_quantity (lot_after (ea_lots x) l)\<bar>) ls ! i = map2 (-) ?qs (rev (takes \<bar>e\<bar> (rev ?qs))) ! i"
    using i lot_after_taken_of [OF x ok sold l] t by simp
qed simp

lemma books_after_ok:
  assumes "one_contract_and_distinct_lots c lots"
  shows "one_contract_and_distinct_lots c (books_after taken lots)"
proof -
  have "map (\<lambda>l. (hl_owner l, hl_sequence l)) (map (lot_after taken) lots) = map (\<lambda>l. (hl_owner l, hl_sequence l)) lots"
    by simp
  then have "distinct (map (\<lambda>l. (hl_owner l, hl_sequence l)) (map (lot_after taken) lots))"
    using assms by (simp only: one_contract_and_distinct_lots_def)
  then show ?thesis
    using assms distinct_map_filter by (fastforce simp: one_contract_and_distinct_lots_def books_after_def list_all_iff)
qed

lemma sum_list_map2_minus: "length xs = length ys \<Longrightarrow> sum_list (map2 (-) xs ys) = sum_list xs - (sum_list ys :: int)"
  by (induction rule: list_induct2) auto

text \<open>
  C22: which lots an assignment takes, and what it books for each, does not depend on whether an expiry of the same
  contract is matched before it or after it, as long as the lots open then hold enough for both.
\<close>

theorem expiry_first_or_assignment_first:
  assumes x: "allocate_option_event et_date Expired c e date m lots = Inr x"
    and a: "allocate_option_event et_date Assigned c n date m lots = Inr a"
    and ok: "list_all held_lot_ok lots"
    and room: "\<bar>e\<bar> + n \<le> (\<Sum>l\<leftarrow>open_then et_date Assigned date lots. \<bar>hl_quantity l\<bar>)"
  shows "\<exists>a'. allocate_option_event et_date Assigned c n date m (books_after (ea_lots x) lots) = Inr a'
     \<and> map booked (ea_lots a') = map booked (ea_lots a)"
proof -
  define ls where "ls = open_then et_date Assigned date lots"
  define qs where "qs = map (\<lambda>l. \<bar>hl_quantity l\<bar>) ls"
  define up where "up = lot_after (ea_lots x)"
  have sold: "all_sold lots" by (rule both_matched_all_sold [OF x a ok])
  note A = a [unfolded assigned_sold_Inr [OF sold], folded ls_def]
  have ls: "set ls \<subseteq> set lots" by (auto simp: ls_def open_then_def Let_def)
  have nz: "list_all (\<lambda>l. hl_quantity l \<noteq> 0) ls" using ls ok by (auto simp: list_all_iff held_lot_ok_def)
  have up0: "hl_quantity l < 0 \<and> hl_quantity (up l) \<le> 0" if "l \<in> set lots" for l
    using lot_after_taken_of [OF x ok sold that] sold that by (auto simp: up_def all_sold_def list_all_iff)
  have qs': "map (\<lambda>l. \<bar>hl_quantity (up l)\<bar>) ls = map2 (-) qs (rev (takes \<bar>e\<bar> (rev qs)))"
    using left_after_expiry [OF x ok sold] by (simp add: ls_def qs_def up_def)
  have nn: "nonneg qs" by (auto simp: qs_def nonneg_def list_all_iff)
  have n0: "0 < n" using A by blast
  have same: "takes n (map2 (-) qs (rev (takes \<bar>e\<bar> (rev qs)))) = takes n qs"
    using takes_after_far_end [OF nn, of n "\<bar>e\<bar>"] room n0 by (simp add: qs_def ls_def)
  have sold': "all_sold (books_after (ea_lots x) lots)"
    using up0 by (auto simp: all_sold_def list_all_iff books_after_def up_def) (meson linorder_neqE_linordered_idom order_less_le_trans not_le)
  have open': "open_then et_date Assigned date (books_after (ea_lots x) lots)
      = filter (\<lambda>l. hl_quantity l \<noteq> 0) (map up ls)"
    by (simp add: open_then_books_after ls_def up_def)
  have pairs: "taken_pairs n (filter (\<lambda>l. hl_quantity l \<noteq> 0) (map up ls)) = map (\<lambda>(l, t). (up l, t)) (taken_pairs n ls)"
    using taken_pairs_lot_after [OF qs' [unfolded up_def], of n] same n0
    by (simp add: taken_pairs_nonzero up_def qs_def)
  obtain taken where taken: "take_lots Assigned c m n n ls = Inr taken" "ea_lots a = taken" using A by auto
  then have "list_all2 (\<lambda>p y. book_lot Assigned c m n p = Inr y) (taken_pairs n ls) taken"
    using take_lots_eq [OF _ nz] n0 by (simp add: traverseR_conv)
  note each = this
  have "\<forall>p\<in>set (taken_pairs n ls). hl_quantity (fst p) < 0 \<and> hl_quantity (lot_after (ea_lots x) (fst p)) \<le> 0"
    using up0 taken_pairs_bounds [OF less_imp_le [OF n0]] ls by (fastforce simp: up_def)
  from book_lots_after [where taken = "ea_lots x", OF each this]
  obtain ys where ys: "traverseR (book_lot Assigned c m n) (map (\<lambda>(l, t). (up l, t)) (taken_pairs n ls)) = Inr ys"
      "map booked ys = map booked taken"
    unfolding up_def by blast
  have ys': "take_lots Assigned c m n n (filter (\<lambda>l. hl_quantity l \<noteq> 0) (map up ls)) = Inr ys"
  proof -
    have "list_all (\<lambda>l. hl_quantity l \<noteq> 0) (filter (\<lambda>l. hl_quantity l \<noteq> 0) (map up ls))"
      by (simp add: list_all_iff)
    from take_lots_eq [OF less_imp_le [OF n0] this] show ?thesis using ys(1) by (simp only: pairs)
  qed
  have "(\<Sum>l\<leftarrow>filter (\<lambda>l. hl_quantity l \<noteq> 0) (map up ls). \<bar>hl_quantity l\<bar>) = (\<Sum>l\<leftarrow>ls. \<bar>hl_quantity (up l)\<bar>)"
    by (induction ls) auto
  also have "\<dots> = sum_list qs - sum_list (takes \<bar>e\<bar> (rev qs))"
    unfolding qs' by (subst sum_list_map2_minus) simp_all
  also have "sum_list (takes \<bar>e\<bar> (rev qs)) = \<bar>e\<bar>"
    using sum_takes [of "rev qs" "\<bar>e\<bar>"] nn room n0 by (simp add: qs_def ls_def)
  finally have "n \<le> (\<Sum>l\<leftarrow>filter (\<lambda>l. hl_quantity l \<noteq> 0) (map up ls). \<bar>hl_quantity l\<bar>)"
    using room by (simp add: qs_def ls_def)
  then show ?thesis
    unfolding assigned_sold_Inr [OF sold'] open' using A ys' ys(2) taken(2) books_after_ok by auto
qed

definition example_expired :: event_allocation where
  "example_expired = \<lparr>ea_kind = Expired, ea_contract = example_call, ea_contracts = 1, ea_multiplier = 100,
     ea_lots = [\<lparr>la_owner = ''b'', la_sequence = 4, la_opened_at_ms = 752930, la_contracts = 1,
       la_remaining_quantity = - 1, la_option_quantity_change = 1, la_share_quantity_change = 0, la_cash_change_cents = 0\<rparr>]\<rparr>"

theorem expiry_first_or_assignment_first_witness:
  "\<exists>a'. allocate_option_event (\<lambda>_. (2024, 1, 19)) Assigned example_call 4 752947 100
       (books_after (ea_lots example_expired) example_lots) = Inr a' \<and> map booked (ea_lots a') = map booked example_taken"
proof -
  have x: "allocate_option_event (\<lambda>_. (2024, 1, 19)) Expired example_call (- 1) 752947 100 example_lots = Inr example_expired"
    by code_simp
  have "\<bar>- 1\<bar> + 4 \<le> (\<Sum>l\<leftarrow>open_then (\<lambda>_. (2024, 1, 19)) Assigned 752947 example_lots. \<bar>hl_quantity l\<bar>)"
    by code_simp
  from expiry_first_or_assignment_first [OF x example_assigned example_lots_ok this] show ?thesis by simp
qed

end
