(* ===== verification/Structure_Check.thy ===== *)
theory Structure_Check
  imports Requirement
begin

text \<open>
  \<open>app/options/named_structures.py\<close> and \<open>app/options/structure_check.py\<close>: what each named structure is
  made of, and whether the contracts picked for a plan have its legs, cover and shape.

  A leg kind is the triple the code's ordered dataclass compares; positions and rights are ordered as
  the strings they are (\<open>"long" < "short"\<close>, \<open>"call" < "put"\<close>). Of an Action Plan the checks read the
  option legs and the name; a ticker is upper-cased as ASCII. \<open>picked\<close> is an association list with
  distinct keys; the words of a refusal are left out, its reason and its leg ids kept. \<open>et_date\<close> is the
  New York date of an instant, read when a contract's symbol is.
\<close>

instantiation leg_position :: linorder
begin
definition less_eq_leg_position :: "leg_position \<Rightarrow> leg_position \<Rightarrow> bool" where
  "less_eq_leg_position a b \<longleftrightarrow> a = Long \<or> b = Short"
definition less_leg_position :: "leg_position \<Rightarrow> leg_position \<Rightarrow> bool" where
  "less_leg_position a b \<longleftrightarrow> a = Long \<and> b = Short"
instance
  by standard (auto simp: less_eq_leg_position_def less_leg_position_def intro: leg_position.exhaust)
end

instantiation option_right :: linorder
begin
definition less_eq_option_right :: "option_right \<Rightarrow> option_right \<Rightarrow> bool" where
  "less_eq_option_right a b \<longleftrightarrow> a = Call \<or> b = Put"
definition less_option_right :: "option_right \<Rightarrow> option_right \<Rightarrow> bool" where
  "less_option_right a b \<longleftrightarrow> a = Call \<and> b = Put"
instance
  by standard (auto simp: less_eq_option_right_def less_option_right_def intro: option_right.exhaust)
end

datatype named_structure =
    Long_Call
  | Long_Put
  | Bull_Call_Spread
  | Bear_Put_Spread
  | Bull_Put_Spread
  | Bear_Call_Spread
  | Long_Straddle
  | Long_Strangle
  | Iron_Condor
  | Iron_Butterfly
  | Call_Butterfly
  | Put_Butterfly

type_synonym leg_kind = "leg_position \<times> option_right \<times> int"

definition bought :: "option_right \<Rightarrow> int \<Rightarrow> leg_kind" where "bought right ratio = (Long, right, ratio)"
definition sold :: "option_right \<Rightarrow> int \<Rightarrow> leg_kind" where "sold right ratio = (Short, right, ratio)"

definition a_spread_of :: "option_right \<Rightarrow> leg_kind list" where
  "a_spread_of right = [bought right 1, sold right 1]"

definition a_butterfly_of :: "option_right \<Rightarrow> leg_kind list" where
  "a_butterfly_of right = [bought right 1, sold right 2, bought right 1]"

definition four_legs :: "leg_kind list" where
  "four_legs = [bought Put 1, sold Put 1, sold Call 1, bought Call 1]"

fun made_of :: "named_structure \<Rightarrow> leg_kind list" where
  "made_of Long_Call = [bought Call 1]"
| "made_of Long_Put = [bought Put 1]"
| "made_of Bull_Call_Spread = a_spread_of Call"
| "made_of Bear_Call_Spread = a_spread_of Call"
| "made_of Bear_Put_Spread = a_spread_of Put"
| "made_of Bull_Put_Spread = a_spread_of Put"
| "made_of Long_Straddle = [bought Call 1, bought Put 1]"
| "made_of Long_Strangle = [bought Call 1, bought Put 1]"
| "made_of Iron_Condor = four_legs"
| "made_of Iron_Butterfly = four_legs"
| "made_of Call_Butterfly = a_butterfly_of Call"
| "made_of Put_Butterfly = a_butterfly_of Put"

definition is_made_as_named :: "named_structure \<Rightarrow> leg_kind list \<Rightarrow> bool" where
  "is_made_as_named name legs \<longleftrightarrow> sort legs = sort (made_of name)"

datatype structure_refusal =
    Not_The_Plans_Legs
  | Same_Contract
  | Sold_Leg_Not_Covered
  | Not_Made_As_Named
  | More_Than_One_Expiry
  | Strikes_Not_As_Named
  | Wings_Uneven
  | Premium_Not_Paid
  | Premium_Not_Received
  | Credit_Not_Under_Width

datatype structure_error =
    Structure_Refused structure_refusal "string list"
  | Structure_Value_Error

record plan_leg =
  pl_leg_id :: string
  pl_underlying :: string
  pl_position :: leg_position
  pl_ratio :: int
  pl_right :: option_right

datatype action_entity = Option_Leg plan_leg | Stock_Leg

record action_plan =
  ap_on_enter :: "action_entity list"
  ap_structure :: "named_structure option"

definition ascii_upper :: "string \<Rightarrow> string" where
  "ascii_upper = map (\<lambda>c. if 97 \<le> (of_char c :: nat) \<and> (of_char c :: nat) \<le> 122
                          then char_of ((of_char c :: nat) - 32) else c)"

fun option_legs :: "action_entity list \<Rightarrow> plan_leg list" where
  "option_legs [] = []"
| "option_legs (Option_Leg l # es) = l # option_legs es"
| "option_legs (Stock_Leg # es) = option_legs es"

definition legs_of :: "resolved_structure \<Rightarrow> leg_position \<Rightarrow> option_right \<Rightarrow> resolved_leg list" where
  "legs_of legs position right =
     filter (\<lambda>l. rl_position l = position \<and> oc_right (rl_contract l) = right) legs"

definition leg_ids :: "resolved_structure \<Rightarrow> string list" where "leg_ids legs = map rl_id legs"

text \<open>The legs of each symbol in the sorted order of the picks; the first symbol with two legs is refused.\<close>

definition require_one_leg_a_contract ::
  "(int \<Rightarrow> date) \<Rightarrow> (string \<times> option_contract) list \<Rightarrow> (structure_error, unit) result" where
  "require_one_leg_a_contract et_date picked =
     (case find (\<lambda>(_, ids). 1 < length ids)
             (map (\<lambda>(s, ps). (s, map fst ps)) (group_by (\<lambda>p. occ_symbol et_date (snd p)) (sort_key fst picked))) of
        None \<Rightarrow> Inr ()
      | Some (_, ids) \<Rightarrow> Inl (Structure_Refused Same_Contract ids))"

text \<open>The loop over the sold legs, the longest-lived first; \<open>to_cover\<close> counts the contracts sold so far.\<close>

fun cover_sold :: "resolved_leg list \<Rightarrow> int \<Rightarrow> resolved_leg list \<Rightarrow> (structure_error, unit) result" where
  "cover_sold bought_legs to_cover [] = Inr ()"
| "cover_sold bought_legs to_cover (l # ls) =
     (let to_cover' = to_cover + rl_ratio l;
          lasting = (\<Sum>b\<leftarrow>filter (\<lambda>b. oc_expiry_ms (rl_contract l) \<le> oc_expiry_ms (rl_contract b)) bought_legs. rl_ratio b)
      in if lasting < to_cover' then Inl (Structure_Refused Sold_Leg_Not_Covered [rl_id l])
         else cover_sold bought_legs to_cover' ls)"

definition sold_longest_first :: "resolved_structure \<Rightarrow> option_right \<Rightarrow> resolved_leg list" where
  "sold_longest_first legs right =
     rev (sort_key (\<lambda>l. oc_expiry_ms (rl_contract l)) (rev (legs_of legs Short right)))"

definition require_sold_legs_covered :: "resolved_structure \<Rightarrow> (structure_error, unit) result" where
  "require_sold_legs_covered legs =
     bindR (cover_sold (legs_of legs Long Call) 0 (sold_longest_first legs Call)) (\<lambda>_.
       cover_sold (legs_of legs Long Put) 0 (sold_longest_first legs Put))"

definition resolved_structure_of ::
  "(int \<Rightarrow> date) \<Rightarrow> action_plan \<Rightarrow> (string \<times> option_contract) list \<Rightarrow> (structure_error, resolved_structure) result" where
  "resolved_structure_of et_date plan picked =
     (let legs = option_legs (ap_on_enter plan);
          declared = map pl_leg_id legs
      in if legs = [] then Inl Structure_Value_Error
         else if set (map fst picked) \<noteq> set declared
         then Inl (Structure_Refused Not_The_Plans_Legs
                (sort (remdups (filter (\<lambda>i. i \<notin> set (map fst picked)) declared @ filter (\<lambda>i. i \<notin> set declared) (map fst picked)))))
         else bindR (traverseR (\<lambda>l.
                case map_of picked (pl_leg_id l) of
                  None \<Rightarrow> Inl Structure_Value_Error
                | Some c \<Rightarrow>
                    if oc_right c \<noteq> pl_right l \<or> oc_root c \<noteq> ascii_upper (pl_underlying l)
                    then Inl (Structure_Refused Not_The_Plans_Legs [pl_leg_id l])
                    else Inr \<lparr>rl_id = pl_leg_id l, rl_contract = c, rl_position = pl_position l, rl_ratio = pl_ratio l\<rparr>) legs)
           (\<lambda>structure.
              bindR (require_one_leg_a_contract et_date picked) (\<lambda>_.
                if \<not> structure_valid structure then Inl Structure_Value_Error
                else bindR (require_sold_legs_covered structure) (\<lambda>_. Inr structure))))"

subsection \<open>Shapes\<close>

definition strike_of :: "resolved_leg \<Rightarrow> int" where "strike_of l = oc_strike (rl_contract l)"

text \<open>\<open>_the\<close>: the one leg of a kind; unpacking any other number of legs raises.\<close>

definition the_leg :: "resolved_structure \<Rightarrow> leg_position \<Rightarrow> option_right \<Rightarrow> (structure_error, resolved_leg) result" where
  "the_leg legs position right =
     (case legs_of legs position right of [l] \<Rightarrow> Inr l | _ \<Rightarrow> Inl Structure_Value_Error)"

fun require_rising :: "resolved_leg list \<Rightarrow> (structure_error, unit) result" where
  "require_rising (lower # higher # legs) =
     (if strike_of higher \<le> strike_of lower
      then Inl (Structure_Refused Strikes_Not_As_Named [rl_id lower, rl_id higher])
      else require_rising (higher # legs))"
| "require_rising _ = Inr ()"

definition require_one_strike :: "resolved_leg \<Rightarrow> resolved_leg \<Rightarrow> (structure_error, unit) result" where
  "require_one_strike first second =
     guardR (strike_of first = strike_of second) (Structure_Refused Strikes_Not_As_Named [rl_id first, rl_id second])"

definition require_paid :: "resolved_structure \<Rightarrow> decimal \<Rightarrow> (structure_error, unit) result" where
  "require_paid legs net_price = guardR (\<not> dval net_price \<le> 0) (Structure_Refused Premium_Not_Paid (leg_ids legs))"

definition require_received :: "resolved_structure \<Rightarrow> decimal \<Rightarrow> (structure_error, unit) result" where
  "require_received legs net_price =
     guardR (\<not> 0 \<le> dval net_price) (Structure_Refused Premium_Not_Received (leg_ids legs))"

definition require_credit_under_width ::
  "resolved_structure \<Rightarrow> decimal \<Rightarrow> resolved_leg \<Rightarrow> resolved_leg \<Rightarrow> (structure_error, unit) result" where
  "require_credit_under_width legs net_price lower higher =
     bindR (require_received legs net_price) (\<lambda>_.
       let width = strike_of higher - strike_of lower;
           (paid, per) = as_integer_ratio (coefficient net_price) (exponent net_price)
       in guardR (\<not> width * per \<le> - paid * 1000) (Structure_Refused Credit_Not_Under_Width [rl_id lower, rl_id higher]))"

definition butterfly_of :: "option_right \<Rightarrow> resolved_structure \<Rightarrow> (structure_error, unit) result" where
  "butterfly_of right legs =
     (case sort_key strike_of (legs_of legs Long right) of
        [lower, upper] \<Rightarrow>
          bindR (the_leg legs Short right) (\<lambda>body.
          bindR (require_rising [lower, body, upper]) (\<lambda>_.
            guardR (strike_of body - strike_of lower = strike_of upper - strike_of body)
              (Structure_Refused Wings_Uneven [rl_id lower, rl_id upper])))
      | _ \<Rightarrow> Inl Structure_Value_Error)"

fun shape_of :: "named_structure \<Rightarrow> resolved_structure \<Rightarrow> decimal \<Rightarrow> (structure_error, unit) result" where
  "shape_of Long_Call legs net = Inr ()"
| "shape_of Long_Put legs net = Inr ()"
| "shape_of Bull_Call_Spread legs net =
     bindR (the_leg legs Long Call) (\<lambda>lo. bindR (the_leg legs Short Call) (\<lambda>hi.
     bindR (require_rising [lo, hi]) (\<lambda>_. require_paid legs net)))"
| "shape_of Bear_Put_Spread legs net =
     bindR (the_leg legs Short Put) (\<lambda>lo. bindR (the_leg legs Long Put) (\<lambda>hi.
     bindR (require_rising [lo, hi]) (\<lambda>_. require_paid legs net)))"
| "shape_of Bull_Put_Spread legs net =
     bindR (the_leg legs Long Put) (\<lambda>lo. bindR (the_leg legs Short Put) (\<lambda>hi.
     bindR (require_rising [lo, hi]) (\<lambda>_. require_credit_under_width legs net lo hi)))"
| "shape_of Bear_Call_Spread legs net =
     bindR (the_leg legs Short Call) (\<lambda>lo. bindR (the_leg legs Long Call) (\<lambda>hi.
     bindR (require_rising [lo, hi]) (\<lambda>_. require_credit_under_width legs net lo hi)))"
| "shape_of Long_Straddle legs net =
     bindR (the_leg legs Long Put) (\<lambda>p. bindR (the_leg legs Long Call) (\<lambda>c. require_one_strike p c))"
| "shape_of Long_Strangle legs net =
     bindR (the_leg legs Long Put) (\<lambda>p. bindR (the_leg legs Long Call) (\<lambda>c. require_rising [p, c]))"
| "shape_of Iron_Condor legs net =
     bindR (the_leg legs Long Put) (\<lambda>lp. bindR (the_leg legs Short Put) (\<lambda>sp.
     bindR (the_leg legs Short Call) (\<lambda>sc. bindR (the_leg legs Long Call) (\<lambda>lc.
     bindR (require_rising [lp, sp, sc, lc]) (\<lambda>_. require_received legs net)))))"
| "shape_of Iron_Butterfly legs net =
     bindR (the_leg legs Short Put) (\<lambda>sp. bindR (the_leg legs Short Call) (\<lambda>sc.
     bindR (require_one_strike sp sc) (\<lambda>_.
     bindR (the_leg legs Long Put) (\<lambda>lp. bindR (require_rising [lp, sp]) (\<lambda>_.
     bindR (the_leg legs Long Call) (\<lambda>lc. bindR (require_rising [sc, lc]) (\<lambda>_. require_received legs net)))))))"
| "shape_of Call_Butterfly legs net = butterfly_of Call legs"
| "shape_of Put_Butterfly legs net = butterfly_of Put legs"

definition kind_of :: "resolved_leg \<Rightarrow> leg_kind" where
  "kind_of l = (rl_position l, oc_right (rl_contract l), rl_ratio l)"

definition require_named_shape ::
  "named_structure option \<Rightarrow> resolved_structure \<Rightarrow> decimal \<Rightarrow> (structure_error, unit) result" where
  "require_named_shape plan_structure legs net_price =
     (case plan_structure of
        None \<Rightarrow> Inr ()
      | Some name \<Rightarrow>
          (case require_everyday net_price of Inl _ \<Rightarrow> Inl Structure_Value_Error | Inr _ \<Rightarrow>
           if \<not> is_made_as_named name (map kind_of legs) then Inl (Structure_Refused Not_Made_As_Named (leg_ids legs))
           else if \<not> has_one_expiry legs then Inl (Structure_Refused More_Than_One_Expiry (leg_ids legs))
           else shape_of name legs net_price))"

subsection \<open>Cover\<close>

definition ratio_lasting :: "resolved_leg list \<Rightarrow> int \<Rightarrow> int" where
  "ratio_lasting ls e = (\<Sum>l\<leftarrow>filter (\<lambda>l. e \<le> oc_expiry_ms (rl_contract l)) ls. rl_ratio l)"

definition ratios_ok :: "resolved_leg list \<Rightarrow> bool" where
  "ratios_ok ls \<longleftrightarrow> list_all (\<lambda>l. 1 \<le> rl_ratio l) ls"

lemma ratio_lasting_nonneg: "ratios_ok ls \<Longrightarrow> 0 \<le> ratio_lasting ls e"
  unfolding ratio_lasting_def by (rule sum_list_nonneg_map) (auto simp: ratios_ok_def list_all_iff)

lemma ratio_lasting_antimono: "ratios_ok ls \<Longrightarrow> e \<le> e' \<Longrightarrow> ratio_lasting ls e' \<le> ratio_lasting ls e"
  by (induction ls) (auto simp: ratio_lasting_def ratios_ok_def)

lemma ratio_lasting_none: "\<not> (\<exists>l\<in>set ls. e \<le> oc_expiry_ms (rl_contract l)) \<Longrightarrow> ratio_lasting ls e = 0"
  unfolding ratio_lasting_def by (subst filter_False) auto

lemma cover_sold_iff:
  assumes b: "ratios_ok bs"
  shows "sorted_wrt (\<lambda>l l'. oc_expiry_ms (rl_contract l') \<le> oc_expiry_ms (rl_contract l)) ls \<Longrightarrow> ratios_ok ls \<Longrightarrow>
     cover_sold bs c ls = Inr () \<longleftrightarrow>
       (\<forall>e. (\<exists>l\<in>set ls. e \<le> oc_expiry_ms (rl_contract l)) \<longrightarrow> c + ratio_lasting ls e \<le> ratio_lasting bs e)"
proof (induction ls arbitrary: c)
  case (Cons l ls)
  let ?x = "oc_expiry_ms (rl_contract l)"
  have ok: "ratios_ok ls" and below: "\<And>k. k \<in> set ls \<Longrightarrow> oc_expiry_ms (rl_contract k) \<le> ?x"
    using Cons.prems by (auto simp: ratios_ok_def)
  have IH: "cover_sold bs (c + rl_ratio l) ls = Inr () \<longleftrightarrow>
      (\<forall>e. (\<exists>k\<in>set ls. e \<le> oc_expiry_ms (rl_contract k)) \<longrightarrow> c + rl_ratio l + ratio_lasting ls e \<le> ratio_lasting bs e)"
    using Cons.IH [of "c + rl_ratio l"] Cons.prems ok by simp
  have step: "cover_sold bs c (l # ls) = Inr () \<longleftrightarrow>
      c + rl_ratio l \<le> ratio_lasting bs ?x \<and> cover_sold bs (c + rl_ratio l) ls = Inr ()"
    by (auto simp: Let_def ratio_lasting_def)
  have cons: "ratio_lasting (l # ls) e = (if e \<le> ?x then rl_ratio l else 0) + ratio_lasting ls e" for e
    by (simp add: ratio_lasting_def)
  show ?case
  proof
    assume "cover_sold bs c (l # ls) = Inr ()"
    then have first: "c + rl_ratio l \<le> ratio_lasting bs ?x" and rest: "\<And>e k. k \<in> set ls \<Longrightarrow> e \<le> oc_expiry_ms (rl_contract k)
        \<Longrightarrow> c + rl_ratio l + ratio_lasting ls e \<le> ratio_lasting bs e"
      unfolding step IH by blast+
    show "\<forall>e. (\<exists>k\<in>set (l # ls). e \<le> oc_expiry_ms (rl_contract k)) \<longrightarrow> c + ratio_lasting (l # ls) e \<le> ratio_lasting bs e"
    proof (intro allI impI)
      fix e assume "\<exists>k\<in>set (l # ls). e \<le> oc_expiry_ms (rl_contract k)"
      then have ex: "e \<le> ?x" using below by (auto intro: order_trans)
      show "c + ratio_lasting (l # ls) e \<le> ratio_lasting bs e"
      proof (cases "\<exists>k\<in>set ls. e \<le> oc_expiry_ms (rl_contract k)")
        case True
        then show ?thesis using rest ex by (auto simp: cons add.assoc)
      next
        case False
        then show ?thesis using first ratio_lasting_antimono [OF b ex] ex ratio_lasting_none [OF False] by (simp add: cons)
      qed
    qed
  next
    assume all: "\<forall>e. (\<exists>k\<in>set (l # ls). e \<le> oc_expiry_ms (rl_contract k)) \<longrightarrow> c + ratio_lasting (l # ls) e \<le> ratio_lasting bs e"
    have "c + rl_ratio l + ratio_lasting ls ?x \<le> ratio_lasting bs ?x"
      using all [rule_format, of ?x] by (simp add: cons add.assoc)
    then have "c + rl_ratio l \<le> ratio_lasting bs ?x" using ratio_lasting_nonneg [OF ok, of ?x] by linarith
    moreover have "c + rl_ratio l + ratio_lasting ls e \<le> ratio_lasting bs e" if "k \<in> set ls" "e \<le> oc_expiry_ms (rl_contract k)" for e k
    proof -
      have "e \<le> ?x" using below [OF that(1)] that(2) by simp
      then show ?thesis using all [rule_format, of e] by (simp add: cons add.assoc)
    qed
    ultimately show "cover_sold bs c (l # ls) = Inr ()" unfolding step IH by blast
  qed
qed simp

lemma ratio_lasting_mset: "mset ls = mset ls' \<Longrightarrow> ratio_lasting ls e = ratio_lasting ls' e"
  unfolding ratio_lasting_def by (rule sum_list_filter_mset)

lemma ratios_ok_legs_of: "ratios_ok legs \<Longrightarrow> ratios_ok (legs_of legs position right)"
  by (auto simp: ratios_ok_def legs_of_def list_all_iff)

lemma cover_of_right:
  assumes "ratios_ok legs"
  shows "cover_sold (legs_of legs Long right) 0 (sold_longest_first legs right) = Inr () \<longleftrightarrow>
     (\<forall>e. ratio_lasting (legs_of legs Short right) e \<le> ratio_lasting (legs_of legs Long right) e)"
proof -
  let ?s = "sold_longest_first legs right" and ?b = "legs_of legs Long right"
  have m: "mset ?s = mset (legs_of legs Short right)" by (simp add: sold_longest_first_def)
  have ok: "ratios_ok ?s" "ratios_ok ?b"
    using assms by (auto simp: sold_longest_first_def legs_of_def ratios_ok_def list_all_iff)
  have "sorted_wrt (\<lambda>l l'. oc_expiry_ms (rl_contract l') \<le> oc_expiry_ms (rl_contract l)) ?s"
    unfolding sold_longest_first_def sorted_wrt_rev using sorted_sort_key
    by (simp add: sorted_map)
  from cover_sold_iff [OF ok(2) this ok(1)] show ?thesis
    using ratio_lasting_none [of ?s] ratio_lasting_nonneg [OF ok(2)] unfolding ratio_lasting_mset [OF m] by auto metis
qed

text \<open>
  C35: the sold legs of a structure pass the cover check exactly when, for calls and for puts, at every expiry the
  contracts bought that last that long are at least the contracts sold that last that long.
\<close>

theorem sold_cover_spec:
  assumes "ratios_ok legs"
  shows "require_sold_legs_covered legs = Inr () \<longleftrightarrow>
     (\<forall>right e. ratio_lasting (legs_of legs Short right) e \<le> ratio_lasting (legs_of legs Long right) e)"
proof -
  have "require_sold_legs_covered legs = Inr () \<longleftrightarrow>
      (\<forall>right. cover_sold (legs_of legs Long right) 0 (sold_longest_first legs right) = Inr ())"
    by (auto simp: require_sold_legs_covered_def result_simps) (metis option_right.exhaust)
  then show ?thesis using cover_of_right [OF assms] by simp
qed

lemma call_slope_split:
  "call_slope legs = (\<Sum>l\<leftarrow>legs_of legs Long Call. rl_ratio l) - (\<Sum>l\<leftarrow>legs_of legs Short Call. rl_ratio l)"
proof (induction legs)
  case (Cons l legs)
  then show ?case by (cases "rl_position l") (auto simp: call_slope_def legs_of_def leg_sign_def)
qed (simp add: call_slope_def legs_of_def)

lemma covered_bounded:
  assumes "ratios_ok legs" "require_sold_legs_covered legs = Inr ()"
  shows "0 \<le> call_slope legs"
proof -
  define e where "e = Min (insert 0 ((\<lambda>l. oc_expiry_ms (rl_contract l)) ` set legs))"
  have "e \<le> oc_expiry_ms (rl_contract l)" if "l \<in> set legs" for l using that by (simp add: e_def)
  then have all: "ratio_lasting (legs_of legs position Call) e = (\<Sum>l\<leftarrow>legs_of legs position Call. rl_ratio l)" for position
    unfolding ratio_lasting_def by (subst filter_True) (auto simp: legs_of_def)
  have "cover_sold (legs_of legs Long Call) 0 (sold_longest_first legs Call) = Inr ()"
    using assms(2) by (auto simp: require_sold_legs_covered_def result_simps)
  then have "ratio_lasting (legs_of legs Short Call) e \<le> ratio_lasting (legs_of legs Long Call) e"
    unfolding cover_of_right [OF assms(1)] by blast
  then show ?thesis unfolding call_slope_split all by simp
qed

lemma resolved_structure_Inr:
  assumes "resolved_structure_of et_date plan picked = Inr s"
  shows "structure_valid s" "require_sold_legs_covered s = Inr ()"
    "set (map fst picked) = set (map pl_leg_id (option_legs (ap_on_enter plan)))"
    "list_all2 (\<lambda>p l. rl_id l = pl_leg_id p \<and> rl_position l = pl_position p \<and> rl_ratio l = pl_ratio p
        \<and> map_of picked (pl_leg_id p) = Some (rl_contract l) \<and> oc_right (rl_contract l) = pl_right p
        \<and> oc_root (rl_contract l) = ascii_upper (pl_underlying p))
      (option_legs (ap_on_enter plan)) s"
proof -
  show "structure_valid s" "require_sold_legs_covered s = Inr ()"
    "set (map fst picked) = set (map pl_leg_id (option_legs (ap_on_enter plan)))"
    using assms by (auto simp: resolved_structure_of_def Let_def result_simps split: if_splits)
  have "traverseR (\<lambda>l. case map_of picked (pl_leg_id l) of
                  None \<Rightarrow> Inl Structure_Value_Error
                | Some c \<Rightarrow>
                    if oc_right c \<noteq> pl_right l \<or> oc_root c \<noteq> ascii_upper (pl_underlying l)
                    then Inl (Structure_Refused Not_The_Plans_Legs [pl_leg_id l])
                    else Inr \<lparr>rl_id = pl_leg_id l, rl_contract = c, rl_position = pl_position l, rl_ratio = pl_ratio l\<rparr>)
      (option_legs (ap_on_enter plan)) = Inr s"
    using assms by (auto simp: resolved_structure_of_def Let_def result_simps split: if_splits)
  then show "list_all2 (\<lambda>p l. rl_id l = pl_leg_id p \<and> rl_position l = pl_position p \<and> rl_ratio l = pl_ratio p
        \<and> map_of picked (pl_leg_id p) = Some (rl_contract l) \<and> oc_right (rl_contract l) = pl_right p
        \<and> oc_root (rl_contract l) = ascii_upper (pl_underlying p))
      (option_legs (ap_on_enter plan)) s"
    unfolding traverseR_conv by (rule list_all2_mono) (auto split: option.splits if_splits)
qed

text \<open>
  C36: a structure resolved from a plan is the plan's: one leg per option leg, in order, of its position, ratio, right
  and underlying, on the contract picked for it; it is a valid structure, and because its sold legs are covered its
  requirement is never refused as an unlimited loss.
\<close>

theorem resolved_structure_sound:
  assumes r: "resolved_structure_of et_date plan picked = Inr s"
  shows "structure_valid s
     \<and> list_all2 (\<lambda>p l. rl_id l = pl_leg_id p \<and> rl_position l = pl_position p \<and> rl_ratio l = pl_ratio p
          \<and> map_of picked (pl_leg_id p) = Some (rl_contract l) \<and> oc_right (rl_contract l) = pl_right p
          \<and> oc_root (rl_contract l) = ascii_upper (pl_underlying p))
        (option_legs (ap_on_enter plan)) s
     \<and> lowest_legs_payoff_thousandths s \<noteq> Inl (Refused Loss_Unbounded)"
proof -
  note R = resolved_structure_Inr [OF r]
  have "ratios_ok s" using R(1) by (auto simp: structure_valid_def ratios_ok_def list_all_iff)
  from covered_bounded [OF this R(2)] have "lowest_legs_payoff_thousandths s \<noteq> Inl (Refused Loss_Unbounded)"
    by (simp add: lowest_legs_payoff_thousandths_def)
  with R(1,4) show ?thesis by blast
qed

definition spread_plan :: action_plan where
  "spread_plan = \<lparr>ap_on_enter =
     [Option_Leg \<lparr>pl_leg_id = ''a'', pl_underlying = ''aapl'', pl_position = Short, pl_ratio = 1, pl_right = Put\<rparr>,
      Option_Leg \<lparr>pl_leg_id = ''b'', pl_underlying = ''AAPL'', pl_position = Long, pl_ratio = 1, pl_right = Put\<rparr>],
     ap_structure = Some Bull_Put_Spread\<rparr>"

definition spread_picks :: "(string \<times> option_contract) list" where
  "spread_picks = [(''b'', spread_contract 95000), (''a'', spread_contract 100000)]"

lemma spread_symbols:
  "occ_symbol (\<lambda>_. (2024, 1, 19)) (spread_contract 95000) = ''AAPL240119P00095000''"
  "occ_symbol (\<lambda>_. (2024, 1, 19)) (spread_contract 100000) = ''AAPL240119P00100000''"
proof -
  have zeros: "replicate 2 x = [x, x]" "replicate 3 x = [x, x, x]" for x :: char by (simp_all add: numeral_eq_Suc)
  have "pad_nat 2 24 = ''24''" "pad_nat 2 1 = ''01''" "pad_nat 2 19 = ''19''" "pad_nat 8 100000 = ''00100000''"
    "pad_nat 8 95000 = ''00095000''"
    by (simp_all add: pad_nat_def show_nat.simps digit_char_def zeros)
  then show "occ_symbol (\<lambda>_. (2024, 1, 19)) (spread_contract 95000) = ''AAPL240119P00095000''"
    "occ_symbol (\<lambda>_. (2024, 1, 19)) (spread_contract 100000) = ''AAPL240119P00100000''"
    by (simp_all add: occ_symbol_def spread_contract_def right_letter_def)
qed

lemma spread_resolves: "resolved_structure_of (\<lambda>_. (2024, 1, 19)) spread_plan spread_picks = Inr sold_spread"
proof -
  have "sort_key fst spread_picks = [(''a'', spread_contract 100000), (''b'', spread_contract 95000)]" by code_simp
  then have one: "require_one_leg_a_contract (\<lambda>_. (2024, 1, 19)) spread_picks = Inr ()"
    by (simp add: require_one_leg_a_contract_def group_by_def spread_symbols [unfolded One_nat_def])
  have valid: "structure_valid sold_spread" "require_sold_legs_covered sold_spread = Inr ()" by code_simp+
  have upper: "ascii_upper ''aapl'' = ''AAPL''" "ascii_upper ''AAPL'' = ''AAPL''" by code_simp+
  have root: "oc_root (spread_contract k) = ''AAPL''" "oc_right (spread_contract k) = Put" for k
    by (simp_all add: spread_contract_def)
  have s: "sold_spread = [\<lparr>rl_id = ''a'', rl_contract = spread_contract 100000, rl_position = Short, rl_ratio = 1\<rparr>,
      \<lparr>rl_id = ''b'', rl_contract = spread_contract 95000, rl_position = Long, rl_ratio = 1\<rparr>]"
    by (simp add: sold_spread_def)
  have picks: "map fst spread_picks = [''b'', ''a'']" "map_of spread_picks ''a'' = Some (spread_contract 100000)"
    "map_of spread_picks ''b'' = Some (spread_contract 95000)"
    by (simp_all add: spread_picks_def)
  have ids: "set [''b'', ''a''] = set [''a'', ''b'']" by auto
  show ?thesis
    using valid unfolding s
    by (simp add: resolved_structure_of_def spread_plan_def one [unfolded One_nat_def] upper root picks ids insert_commute)
qed

theorem resolved_structure_sound_witness:
  "structure_valid sold_spread \<and> lowest_legs_payoff_thousandths sold_spread \<noteq> Inl (Refused Loss_Unbounded)"
  using resolved_structure_sound [OF spread_resolves] by simp

theorem sold_cover_spec_witness:
  "require_sold_legs_covered (tl sold_spread) = Inr () \<and> require_sold_legs_covered [hd sold_spread] \<noteq> Inr ()"
proof -
  have ok: "ratios_ok (tl sold_spread)" "ratios_ok [hd sold_spread]" by (simp_all add: sold_spread_defs ratios_ok_def)
  have "ratio_lasting (legs_of (tl sold_spread) Short right) e \<le> ratio_lasting (legs_of (tl sold_spread) Long right) e" for right e
    by (simp add: sold_spread_defs legs_of_def ratio_lasting_def)
  then have "require_sold_legs_covered (tl sold_spread) = Inr ()" unfolding sold_cover_spec [OF ok(1)] by blast
  moreover have "\<not> ratio_lasting (legs_of [hd sold_spread] Short Put) 0 \<le> ratio_lasting (legs_of [hd sold_spread] Long Put) 0"
    by (simp add: sold_spread_defs legs_of_def ratio_lasting_def)
  then have "require_sold_legs_covered [hd sold_spread] \<noteq> Inr ()" unfolding sold_cover_spec [OF ok(2)] by blast
  ultimately show ?thesis ..
qed

subsection \<open>Named shapes\<close>

definition kind_slope :: "leg_kind \<Rightarrow> int" where
  "kind_slope k = (case k of (position, right, ratio) \<Rightarrow>
     if right = Call then (if position = Long then ratio else - ratio) else 0)"

lemma call_slope_kinds: "call_slope legs = (\<Sum>k\<leftarrow>map kind_of legs. kind_slope k)"
  by (induction legs) (auto simp: call_slope_def kind_slope_def kind_of_def leg_sign_def)

lemma made_as_named_mset: "is_made_as_named name ks \<Longrightarrow> mset ks = mset (made_of name)"
  unfolding is_made_as_named_def by (metis mset_sort)

lemma made_as_named_slope: "is_made_as_named name (map kind_of legs) \<Longrightarrow> 0 \<le> call_slope legs"
proof -
  assume "is_made_as_named name (map kind_of legs)"
  then have "mset (map kind_slope (map kind_of legs)) = mset (map kind_slope (made_of name))"
    by (metis made_as_named_mset mset_map)
  then have "call_slope legs = (\<Sum>k\<leftarrow>made_of name. kind_slope k)"
    unfolding call_slope_kinds by (metis sum_mset_sum_list)
  also have "0 \<le> \<dots>"
    by (cases name) (simp_all add: bought_def sold_def a_spread_of_def a_butterfly_of_def four_legs_def kind_slope_def)
  finally show ?thesis .
qed

lemma named_shape_parts:
  assumes "require_named_shape (Some name) legs net = Inr ()"
  shows "everyday net" "is_made_as_named name (map kind_of legs)" "has_one_expiry legs" "shape_of name legs net = Inr ()"
  using assms by (auto simp: require_named_shape_def require_everyday_Inr split: sum.splits if_splits)

text \<open>
  A structure that passes the check of any name has the legs the name is made of, one expiry and a bounded loss, so
  its lowest payoff is worked out and never refused for mixed expiries or an unlimited loss.
\<close>

theorem named_shape_bounded:
  assumes "require_named_shape (Some name) legs net = Inr ()"
  shows "mset (map kind_of legs) = mset (made_of name) \<and> has_one_expiry legs
     \<and> (\<exists>v. lowest_payoff_thousandths legs = Inr v)"
  using named_shape_parts [OF assms] made_as_named_mset [OF named_shape_parts(2) [OF assms]]
    made_as_named_slope [OF named_shape_parts(2) [OF assms]]
  by (simp add: lowest_payoff_thousandths_def lowest_legs_payoff_thousandths_def)

lemma spread_legs:
  assumes "mset (map kind_of legs) = mset [(Long, right, 1), (Short, right, 1)]"
  obtains l s where "legs = [l, s] \<or> legs = [s, l]" "legs_of legs Long right = [l]" "legs_of legs Short right = [s]"
    "rl_position l = Long" "rl_position s = Short" "rl_ratio l = 1" "rl_ratio s = 1"
    "oc_right (rl_contract l) = right" "oc_right (rl_contract s) = right"
proof -
  have "length legs = 2" using arg_cong [OF assms, of size] by simp
  then obtain a b where ab: "legs = [a, b]" by (auto simp: numeral_2_eq_2 length_Suc_conv)
  have two: "{#kind_of a, kind_of b#} = {#(Long, right, 1), (Short, right, 1)#}" using assms ab by simp
  then have "kind_of a = (Long, right, 1) \<and> kind_of b = (Short, right, 1)
      \<or> kind_of a = (Short, right, 1) \<and> kind_of b = (Long, right, 1)"
    by (auto simp: add_eq_conv_ex single_is_union)
  then show ?thesis
    using that [of a b] that [of b a] ab by (auto simp: kind_of_def legs_of_def)
qed

lemma payoff_at_pair: "payoff_at [a, b] p = leg_payoff_at a p + leg_payoff_at b p"
  by (simp add: payoff_at_def)

lemma put_spread_lowest:
  assumes "legs = [l, s] \<or> legs = [s, l]" "rl_position l = Long" "rl_position s = Short" "rl_ratio l = 1" "rl_ratio s = 1"
    "oc_right (rl_contract l) = Put" "oc_right (rl_contract s) = Put" "strike_of l < strike_of s" "strikes_ok legs"
  shows "lowest_legs_payoff_thousandths legs = Inr (strike_of l - strike_of s)"
proof -
  have F: "payoff_at legs p = max (of_int (strike_of l) - p) 0 - max (of_int (strike_of s) - p) 0" for p
    using assms(1-7) by (auto simp: payoff_at_pair leg_payoff_at_def leg_sign_def strike_of_def)
  have lt: "(of_int (strike_of l) :: rat) < of_int (strike_of s)" using assms(8) by simp
  have l0: "0 \<le> (of_int (strike_of l) :: rat)" using assms(1,9) by (auto simp: strikes_ok_def strike_of_def)
  have low: "of_int (strike_of l - strike_of s) \<le> payoff_at legs p" for p using lt by (auto simp: F max_def)
  have "payoff_at legs 0 = of_int (strike_of l - strike_of s)" using lt l0 by (simp add: F max_def)
  then have att: "\<exists>p\<ge>0. payoff_at legs p = of_int (strike_of l - strike_of s)" by (intro exI [of _ 0]) simp
  show ?thesis unfolding lowest_Inr_iff [OF assms(9)] using low att by blast
qed

lemma call_spread_lowest:
  assumes "legs = [l, s] \<or> legs = [s, l]" "rl_position l = Long" "rl_position s = Short" "rl_ratio l = 1" "rl_ratio s = 1"
    "oc_right (rl_contract l) = Call" "oc_right (rl_contract s) = Call" "strike_of s < strike_of l" "strikes_ok legs"
  shows "lowest_legs_payoff_thousandths legs = Inr (strike_of s - strike_of l)"
proof -
  have F: "payoff_at legs p = max (p - of_int (strike_of l)) 0 - max (p - of_int (strike_of s)) 0" for p
    using assms(1-7) by (auto simp: payoff_at_pair leg_payoff_at_def leg_sign_def strike_of_def)
  have lt: "(of_int (strike_of s) :: rat) < of_int (strike_of l)" using assms(8) by simp
  have l0: "0 \<le> (of_int (strike_of l) :: rat)" using assms(1,9) by (auto simp: strikes_ok_def strike_of_def)
  have low: "of_int (strike_of s - strike_of l) \<le> payoff_at legs p" for p using lt by (auto simp: F max_def)
  have "payoff_at legs (of_int (strike_of l)) = of_int (strike_of s - strike_of l)" using lt by (simp add: F max_def)
  then have att: "\<exists>p\<ge>0. payoff_at legs p = of_int (strike_of s - strike_of l)" using l0 by blast
  show ?thesis unfolding lowest_Inr_iff [OF assms(9)] using low att by blast
qed

definition spread_width :: "resolved_structure \<Rightarrow> int" where
  "spread_width legs = Max (strike_of ` set legs) - Min (strike_of ` set legs)"

lemma credit_under_width_Inr:
  assumes "require_credit_under_width legs net lo hi = Inr ()" "everyday net"
  shows "- (1000 * dval net) < of_int (strike_of hi - strike_of lo)" "dval net < 0"
proof -
  obtain c e where net: "net = Finite c e" using assms(2) by (auto simp: everyday_def)
  obtain n d where nd: "as_integer_ratio c e = (n, d)" by fastforce
  have d: "0 < d" and v: "dval net = of_int n / of_int d" using as_integer_ratio_value [OF nd] net by auto
  have "\<not> (strike_of hi - strike_of lo) * d \<le> - n * 1000" and r: "\<not> 0 \<le> dval net"
    using assms(1) nd net by (auto simp: require_credit_under_width_def require_received_def Let_def result_simps)
  then have "- n * 1000 < (strike_of hi - strike_of lo) * d" by simp
  then have "(of_int (- n * 1000) :: rat) < of_int ((strike_of hi - strike_of lo) * d)" by (simp only: of_int_less_iff)
  then show "- (1000 * dval net) < of_int (strike_of hi - strike_of lo)" using d by (simp add: v field_simps)
  show "dval net < 0" using r by simp
qed

lemma entry_money_not_positive:
  assumes "entry_money legs sz net fee = Inl (Refused Commitment_Not_Positive)"
    "lowest_payoff_thousandths legs = Inr lowest"
  obtains req per where "payoff_cents (max 0 (- lowest)) sz = Inr req" "contract_cents net sz = Inr per"
    "req + es_units sz * per \<le> 0"
proof -
  have raised: "payoff_cents x sz \<noteq> Inl (Refused r)" "contract_cents net sz \<noteq> Inl (Refused r)" for x r
    by (auto simp: payoff_cents_def contract_cents_def Let_def split: sum.splits if_splits)
  show ?thesis
    using assms raised that
    by (auto simp: entry_money_def Let_def result_simps split: if_splits)
qed

lemma credit_spread_lowest:
  assumes shape: "require_named_shape (Some name) legs net = Inr ()"
    and name: "name = Bull_Put_Spread \<or> name = Bear_Call_Spread" and ok: "strikes_ok legs"
  shows "lowest_payoff_thousandths legs = Inr (- spread_width legs) \<and> 0 < spread_width legs
     \<and> - (1000 * dval net) < of_int (spread_width legs)"
proof -
  note P = named_shape_parts [OF shape]
  define right where "right = (if name = Bull_Put_Spread then Put else Call)"
  have "mset (map kind_of legs) = mset [(Long, right, 1), (Short, right, 1)]"
    using made_as_named_mset [OF P(2)] name by (auto simp: right_def a_spread_of_def bought_def sold_def)
  then obtain l s where ls: "legs = [l, s] \<or> legs = [s, l]" "legs_of legs Long right = [l]" "legs_of legs Short right = [s]"
    "rl_position l = Long" "rl_position s = Short" "rl_ratio l = 1" "rl_ratio s = 1"
    "oc_right (rl_contract l) = right" "oc_right (rl_contract s) = right"
    by (rule spread_legs)
  have legs: "set legs = {l, s}" using ls(1) by auto
  show ?thesis
  proof (cases "name = Bull_Put_Spread")
    case True
    have "strike_of l < strike_of s" "require_credit_under_width legs net l s = Inr ()"
      using P(4) True ls(2,3) by (auto simp: the_leg_def right_def result_simps split: if_splits)
    moreover from this(1) have "lowest_legs_payoff_thousandths legs = Inr (strike_of l - strike_of s)"
      using ls True ok by (intro put_spread_lowest) (auto simp: right_def)
    moreover from \<open>strike_of l < strike_of s\<close> have "spread_width legs = strike_of s - strike_of l"
      by (simp add: spread_width_def legs)
    ultimately show ?thesis using P(1,3) credit_under_width_Inr by (auto simp: lowest_payoff_thousandths_def)
  next
    case False
    have "strike_of s < strike_of l" "require_credit_under_width legs net s l = Inr ()"
      using P(4) name False ls(2,3) by (auto simp: the_leg_def right_def result_simps split: if_splits)
    moreover from this(1) have "lowest_legs_payoff_thousandths legs = Inr (strike_of s - strike_of l)"
      using ls False ok by (intro call_spread_lowest) (auto simp: right_def)
    moreover from \<open>strike_of s < strike_of l\<close> have "spread_width legs = strike_of l - strike_of s"
      by (simp add: spread_width_def legs)
    ultimately show ?thesis using P(1,3) credit_under_width_Inr by (auto simp: lowest_payoff_thousandths_def)
  qed
qed

text \<open>
  C37: a credit spread that passes the check of its name loses at most its width, and because its credit is under that
  width, entering it is never refused as prices that do not belong together.
\<close>

theorem credit_spread_money:
  assumes shape: "require_named_shape (Some name) legs net = Inr ()"
    and name: "name = Bull_Put_Spread \<or> name = Bear_Call_Spread" and ok: "strikes_ok legs" "size_ok sz"
  shows "lowest_payoff_thousandths legs = Inr (- spread_width legs) \<and> 0 < spread_width legs
     \<and> entry_money legs sz net fee \<noteq> Inl (Refused Commitment_Not_Positive)"
proof -
  note L = credit_spread_lowest [OF shape name ok(1)]
  have "entry_money legs sz net fee \<noteq> Inl (Refused Commitment_Not_Positive)"
  proof
    assume e: "entry_money legs sz net fee = Inl (Refused Commitment_Not_Positive)"
    from L have "lowest_payoff_thousandths legs = Inr (- spread_width legs)" by blast
    with e obtain req per where req: "payoff_cents (max 0 (- (- spread_width legs))) sz = Inr req"
        and per: "contract_cents net sz = Inr per" and le: "req + es_units sz * per \<le> 0"
      by (rule entry_money_not_positive)
    define N where "N = (of_int (es_units sz * es_multiplier sz) :: rat)"
    have N: "0 < N" using ok(2) by (simp add: N_def size_ok_def)
    have "of_int req = N * of_int (spread_width legs) / 10"
      using payoff_cents_value [OF req] L by (simp add: N_def max_def)
    moreover have "of_int (es_units sz * per) = N * (100 * dval net)"
      using per by (simp add: contract_cents_value N_def)
    ultimately have "of_int (req + es_units sz * per) = N * (of_int (spread_width legs) / 10 + 100 * dval net)"
      by (simp add: algebra_simps)
    moreover have "0 < of_int (spread_width legs) / 10 + 100 * dval net" using L by linarith
    ultimately have "0 < (of_int (req + es_units sz * per) :: rat)" using N by simp
    with le show False by (simp only: of_int_0_less_iff)
  qed
  with L show ?thesis by blast
qed

lemma sold_spread_shape: "require_named_shape (Some Bull_Put_Spread) sold_spread (Finite (- 307) (- 2)) = Inr ()"
proof -
  have "is_made_as_named Bull_Put_Spread (map kind_of sold_spread)" by code_simp
  moreover have "everyday (Finite (- 307) (- 2))" by (simp add: everyday_def adjusted_def digits_def show_nat.simps)
  moreover have "as_integer_ratio (- 307) (- 2) = (- 307, 100)" by code_simp
  ultimately show ?thesis
    by (simp add: require_named_shape_def everydayI the_leg_def legs_of_def sold_spread_def spread_contract_def
        has_one_expiry_def strike_of_def require_credit_under_width_def require_received_def powi_neg)
qed

theorem named_shape_bounded_witness:
  "has_one_expiry sold_spread \<and> (\<exists>v. lowest_payoff_thousandths sold_spread = Inr v)"
  using named_shape_bounded [OF sold_spread_shape] by blast

theorem credit_spread_money_witness:
  "lowest_payoff_thousandths sold_spread = Inr (- spread_width sold_spread)
   \<and> entry_money sold_spread \<lparr>es_multiplier = 100, es_units = 1\<rparr> (Finite (- 307) (- 2)) 0 \<noteq> Inl (Refused Commitment_Not_Positive)"
  using credit_spread_money [OF sold_spread_shape, of "\<lparr>es_multiplier = 100, es_units = 1\<rparr>" 0] by (simp add: size_ok_def)

end
