(* ===== verification/Replay_Fills.thy ===== *)
theory Replay_Fills
  imports Exact
begin

text \<open>
  \<open>app/options_backtest/fills.py\<close>: the price and money arithmetic of an options replay, in a decimal context of a
  hundred digits that traps \<open>Inexact\<close> and \<open>InvalidOperation\<close>.

  Prices, values and steps are finite. Every operation of the code is one operation here, followed by the context's
  check: dividing by a hundred is multiplying by \<open>1E-2\<close> (the same value, and Python compares decimals by value),
  \<open>divmod\<close> truncates and raises when its quotient has more than a hundred digits or the step is zero.
  \<open>Premium_Negative\<close> is the \<open>ValueError\<close> of a negative premium, \<open>Trapped\<close> what the context raises.
\<close>

datatype leg_side = Buy | Sell

datatype fill_error = Premium_Negative | Trapped value_error

definition exact_digits :: nat where "exact_digits = 100"

definition held_exactly :: "decimal \<Rightarrow> (fill_error, decimal) result" where
  "held_exactly d = (case ctx_exact exact_digits d of Inl v \<Rightarrow> Inl (Trapped v) | Inr x \<Rightarrow> Inr x)"

definition add_x :: "decimal \<Rightarrow> decimal \<Rightarrow> (fill_error, decimal) result" where
  "add_x a b = held_exactly (dadd a b)"
definition mul_x :: "decimal \<Rightarrow> decimal \<Rightarrow> (fill_error, decimal) result" where
  "mul_x a b = held_exactly (dmul a b)"
definition dneg :: "decimal \<Rightarrow> decimal" where "dneg a = dmul (Finite (- 1) 0) a"
definition sub_x :: "decimal \<Rightarrow> decimal \<Rightarrow> (fill_error, decimal) result" where
  "sub_x a b = add_x a (dneg b)"
definition hundredth_x :: "decimal \<Rightarrow> (fill_error, decimal) result" where
  "hundredth_x a = mul_x a (Finite 1 (- 2))"

definition one :: decimal where "one = Finite 1 0"
definition whole :: "int \<Rightarrow> decimal" where "whole n = Finite n 0"

text \<open>\<open>divmod\<close> of two finite decimals: the truncated quotient and what is left.\<close>

fun divmod_x :: "decimal \<Rightarrow> decimal \<Rightarrow> (fill_error, int \<times> decimal) result" where
  "divmod_x (Finite c e) (Finite s f) =
     (if s = 0 then Inl (Trapped Inexact_Raised)
      else let m = min e f;
               a = c * 10 ^ nat (e - m); b = s * 10 ^ nat (f - m);
               q = sgn a * sgn b * (\<bar>a\<bar> div \<bar>b\<bar>)
           in if exact_digits < digits q then Inl (Trapped Inexact_Raised)
              else bindR (held_exactly (Finite (a - q * b) m)) (\<lambda>r. Inr (q, r)))"
| "divmod_x _ _ = Inl (Trapped Inexact_Raised)"

definition to_step :: "decimal \<Rightarrow> decimal \<Rightarrow> bool \<Rightarrow> (fill_error, decimal) result" where
  "to_step price step up =
     bindR (divmod_x price step) (\<lambda>(whole_steps, remainder).
     bindR (if up \<and> 0 < dval remainder then add_x (whole whole_steps) one else Inr (whole whole_steps)) (\<lambda>n.
       mul_x n step))"

definition require_not_negative :: "decimal \<Rightarrow> (fill_error, unit) result" where
  "require_not_negative seen = guardR (\<not> dval seen < 0) Premium_Negative"

definition buy_fill_price :: "decimal \<Rightarrow> decimal \<Rightarrow> decimal \<Rightarrow> (fill_error, decimal) result" where
  "buy_fill_price seen slippage_percent price_step =
     bindR (require_not_negative seen) (\<lambda>_.
     bindR (hundredth_x slippage_percent) (\<lambda>p.
     bindR (add_x one p) (\<lambda>f.
     bindR (mul_x seen f) (\<lambda>moved. to_step moved price_step True))))"

definition sell_fill_price :: "decimal \<Rightarrow> decimal \<Rightarrow> decimal \<Rightarrow> (fill_error, decimal) result" where
  "sell_fill_price seen slippage_percent price_step =
     bindR (require_not_negative seen) (\<lambda>_.
     bindR (hundredth_x slippage_percent) (\<lambda>p.
     bindR (sub_x one p) (\<lambda>f.
     bindR (mul_x seen f) (\<lambda>moved. to_step moved price_step False))))"

definition order_value :: "decimal \<Rightarrow> int \<Rightarrow> int \<Rightarrow> (fill_error, decimal) result" where
  "order_value filled multiplier contracts =
     bindR (mul_x filled (whole multiplier)) (\<lambda>v. mul_x v (whole contracts))"

definition entry_cost :: "decimal \<Rightarrow> int \<Rightarrow> int \<Rightarrow> decimal \<Rightarrow> (fill_error, decimal) result" where
  "entry_cost filled multiplier contracts fee =
     bindR (order_value filled multiplier contracts) (\<lambda>v. add_x v fee)"

definition exit_proceeds :: "decimal \<Rightarrow> int \<Rightarrow> int \<Rightarrow> decimal \<Rightarrow> (fill_error, decimal) result" where
  "exit_proceeds filled multiplier contracts fee =
     bindR (order_value filled multiplier contracts) (\<lambda>v. sub_x v fee)"

definition cash_effect :: "leg_side \<Rightarrow> decimal \<Rightarrow> int \<Rightarrow> int \<Rightarrow> decimal \<Rightarrow> (fill_error, decimal) result" where
  "cash_effect side filled multiplier contracts fee =
     (if side = Buy then bindR (entry_cost filled multiplier contracts fee) (\<lambda>c. held_exactly (dneg c))
      else exit_proceeds filled multiplier contracts fee)"

definition trade_pnl :: "decimal \<Rightarrow> decimal \<Rightarrow> int \<Rightarrow> int \<Rightarrow> decimal \<Rightarrow> decimal \<Rightarrow> (fill_error, decimal) result" where
  "trade_pnl bought sold multiplier contracts entry_fee exit_fee =
     bindR (sub_x sold bought) (\<lambda>d.
     bindR (mul_x d (whole multiplier)) (\<lambda>m.
     bindR (mul_x m (whole contracts)) (\<lambda>v.
     bindR (sub_x v entry_fee) (\<lambda>w. sub_x w exit_fee))))"

datatype stop_kind = Stop_Percent | Stop_Points

record stop_loss =
  sl_kind :: stop_kind
  sl_value :: decimal

datatype momentum_kind = Percent_Up | Percent_Down | Points_Up | Points_Down

record momentum =
  mo_kind :: momentum_kind
  mo_value :: decimal

definition percent_of_one :: "decimal \<Rightarrow> decimal \<Rightarrow> (fill_error, decimal) result" where
  "percent_of_one sign percent = bindR (hundredth_x percent) (\<lambda>p. add_x one (dmul sign p))"

definition stop_level :: "stop_loss \<Rightarrow> decimal \<Rightarrow> (fill_error, decimal) result" where
  "stop_level rule bought =
     (case sl_kind rule of
        Stop_Percent \<Rightarrow> bindR (percent_of_one (Finite (- 1) 0) (sl_value rule)) (mul_x bought)
      | Stop_Points \<Rightarrow> sub_x bought (sl_value rule))"

definition stop_hit :: "decimal \<Rightarrow> decimal \<Rightarrow> bool" where "stop_hit level close \<longleftrightarrow> dval close \<le> dval level"

definition sold_stop_level :: "stop_loss \<Rightarrow> decimal \<Rightarrow> (fill_error, decimal) result" where
  "sold_stop_level rule sold =
     (case sl_kind rule of
        Stop_Percent \<Rightarrow> bindR (percent_of_one one (sl_value rule)) (mul_x sold)
      | Stop_Points \<Rightarrow> add_x sold (sl_value rule))"

definition sold_stop_hit :: "decimal \<Rightarrow> decimal \<Rightarrow> bool" where "sold_stop_hit level close \<longleftrightarrow> dval level \<le> dval close"

definition momentum_level :: "momentum \<Rightarrow> decimal \<Rightarrow> (fill_error, decimal) result" where
  "momentum_level rule starting_price =
     (case mo_kind rule of
        Percent_Up \<Rightarrow> bindR (percent_of_one one (mo_value rule)) (mul_x starting_price)
      | Percent_Down \<Rightarrow> bindR (percent_of_one (Finite (- 1) 0) (mo_value rule)) (mul_x starting_price)
      | Points_Up \<Rightarrow> add_x starting_price (mo_value rule)
      | Points_Down \<Rightarrow> sub_x starting_price (mo_value rule))"

definition momentum_reached :: "momentum \<Rightarrow> decimal \<Rightarrow> decimal \<Rightarrow> bool" where
  "momentum_reached rule level close \<longleftrightarrow>
     (if mo_kind rule = Percent_Up \<or> mo_kind rule = Points_Up then dval level \<le> dval close else dval close \<le> dval level)"

subsection \<open>Values of the figures\<close>

lemma held_exactly_Inr [simp]: "is_finite d \<Longrightarrow> held_exactly d = Inr d' \<Longrightarrow> d' = d"
  by (cases d) (auto simp: held_exactly_def ctx_exact_def is_finite_def split: decimal.splits if_splits)

lemma is_finite_simps [simp]: "is_finite a \<Longrightarrow> is_finite b \<Longrightarrow> is_finite (dadd a b)"
  "is_finite a \<Longrightarrow> is_finite b \<Longrightarrow> is_finite (dmul a b)" "is_finite a \<Longrightarrow> is_finite (dneg a)"
  "is_finite (Finite c e)" "is_finite one" "is_finite (whole n)"
  by (cases a; cases b; simp add: is_finite_def Let_def dneg_def one_def whole_def)+

lemma dval_simps [simp]: "dval one = 1" "dval (whole n) = of_int n" "is_finite a \<Longrightarrow> dval (dneg a) = - dval a"
  by (simp_all add: one_def whole_def dneg_def dval_dmul)

lemma add_x_Inr: "add_x a b = Inr c \<Longrightarrow> is_finite a \<Longrightarrow> is_finite b \<Longrightarrow> is_finite c \<and> dval c = dval a + dval b"
  by (auto simp: add_x_def dval_dadd dest!: held_exactly_Inr [rotated])

lemma mul_x_Inr: "mul_x a b = Inr c \<Longrightarrow> is_finite a \<Longrightarrow> is_finite b \<Longrightarrow> is_finite c \<and> dval c = dval a * dval b"
  by (auto simp: mul_x_def dval_dmul dest!: held_exactly_Inr [rotated])

lemma sub_x_Inr: "sub_x a b = Inr c \<Longrightarrow> is_finite a \<Longrightarrow> is_finite b \<Longrightarrow> is_finite c \<and> dval c = dval a - dval b"
  using add_x_Inr [of a "dneg b" c] by (simp add: sub_x_def)

lemma hundredth_x_Inr: "hundredth_x a = Inr c \<Longrightarrow> is_finite a \<Longrightarrow> is_finite c \<and> dval c = dval a / 100"
  using mul_x_Inr [of a "Finite 1 (- 2)" c] by (simp add: hundredth_x_def power_int_def power2_eq_square)

lemmas exact_values = add_x_Inr mul_x_Inr sub_x_Inr hundredth_x_Inr

lemma divmod_x_Inr:
  assumes "divmod_x a b = Inr (q, r)" "is_finite a" "is_finite b" "0 \<le> dval a" "0 < dval b"
  shows "is_finite r \<and> dval a = of_int q * dval b + dval r \<and> 0 \<le> dval r \<and> dval r < dval b \<and> 0 \<le> q"
proof -
  obtain c e s f where ab: "a = Finite c e" "b = Finite s f"
    using assms(2,3) by (cases a; cases b) (auto simp: is_finite_def)
  define m where "m = min e f"
  define A where "A = c * 10 ^ nat (e - m)"
  define B where "B = s * 10 ^ nat (f - m)"
  have shift: "(10 :: rat) ^ nat (x - m) * 10 powi m = 10 powi x" if "m \<le> x" for x
    using that by (simp flip: power_int_of_nat add: power_int_add [symmetric])
  have a: "dval a = of_int A * 10 powi m" using shift [of e] by (simp add: ab A_def m_def mult.assoc)
  have b: "dval b = of_int B * 10 powi m" using shift [of f] by (simp add: ab B_def m_def mult.assoc)
  have pos: "0 < (10 :: rat) powi m" by simp
  have A: "0 \<le> A" using assms(4) pos unfolding a by (simp add: zero_le_mult_iff not_le [symmetric])
  have B: "0 < B" using assms(5) pos unfolding b by (simp add: zero_less_mult_iff)
  have q: "q = A div B" and r: "r = Finite (A - q * B) m"
  proof -
    have unfolded: "divmod_x a b = (if s = 0 then Inl (Trapped Inexact_Raised)
        else if exact_digits < digits (sgn A * sgn B * (\<bar>A\<bar> div \<bar>B\<bar>)) then Inl (Trapped Inexact_Raised)
        else bindR (held_exactly (Finite (A - sgn A * sgn B * (\<bar>A\<bar> div \<bar>B\<bar>) * B) m))
          (\<lambda>r. Inr (sgn A * sgn B * (\<bar>A\<bar> div \<bar>B\<bar>), r)))"
      unfolding ab by (simp only: divmod_x.simps Let_def m_def A_def B_def)
    have quotient: "sgn A * sgn B * (\<bar>A\<bar> div \<bar>B\<bar>) = A div B" using A B by (cases "A = 0") auto
    from assms(1) show "q = A div B" unfolding unfolded quotient by (auto simp: result_simps split: if_splits)
    with assms(1) show "r = Finite (A - q * B) m" unfolding unfolded quotient
      by (auto simp: result_simps split: if_splits dest!: held_exactly_Inr [rotated])
  qed
  have "A - q * B = A mod B" unfolding q by (simp add: minus_div_mult_eq_mod)
  then have "0 \<le> A - q * B" "A - q * B < B" using B by simp_all
  then have "0 \<le> (of_int (A - q * B) :: rat)" "(of_int (A - q * B) :: rat) < of_int B" by (simp_all only: of_int_0_le_iff of_int_less_iff)
  moreover have "0 \<le> q" using A B unfolding q by (simp add: pos_imp_zdiv_nonneg_iff)
  moreover have "dval r = of_int (A - q * B) * 10 powi m" unfolding r by simp
  moreover have "dval a = of_int q * dval b + of_int (A - q * B) * 10 powi m" unfolding a b by (simp add: algebra_simps)
  moreover have "(of_int (A - q * B) :: rat) * 10 powi m < of_int B * 10 powi m"
    using calculation(2) pos by (rule mult_strict_right_mono)
  moreover have "0 \<le> (of_int (A - q * B) :: rat) * 10 powi m" using calculation(1) pos by (intro mult_nonneg_nonneg) auto
  ultimately show ?thesis unfolding b r by simp
qed

lemma to_step_up:
  assumes "to_step price step True = Inr d" "is_finite price" "is_finite step" "0 \<le> dval price" "0 < dval step"
  shows "is_finite d \<and> (\<exists>n. dval d = of_int n * dval step) \<and> dval price \<le> dval d \<and> dval d < dval price + dval step"
proof -
  obtain q r n where D: "divmod_x price step = Inr (q, r)"
    and n: "(if True \<and> 0 < dval r then add_x (whole q) one else Inr (whole q)) = Inr n" and d: "mul_x n step = Inr d"
    using assms(1) by (auto simp: to_step_def result_simps)
  note V = divmod_x_Inr [OF D assms(2-)]
  have N: "is_finite n \<and> dval n = of_int (if 0 < dval r then q + 1 else q)"
    using n add_x_Inr [of "whole q" one n] by (auto split: if_splits)
  then have "is_finite d \<and> dval d = of_int (if 0 < dval r then q + 1 else q) * dval step"
    using mul_x_Inr [OF d] assms(3) by simp
  then show ?thesis using V by (auto simp: algebra_simps split: if_splits)
qed

lemma to_step_down:
  assumes "to_step price step False = Inr d" "is_finite price" "is_finite step" "0 \<le> dval price" "0 < dval step"
  shows "is_finite d \<and> (\<exists>n. dval d = of_int n * dval step) \<and> dval d \<le> dval price \<and> dval price < dval d + dval step
     \<and> 0 \<le> dval d"
proof -
  obtain q r where D: "divmod_x price step = Inr (q, r)" and d: "mul_x (whole q) step = Inr d"
    using assms(1) by (auto simp: to_step_def result_simps)
  note V = divmod_x_Inr [OF D assms(2-)]
  have "is_finite d \<and> dval d = of_int q * dval step" using mul_x_Inr [OF d] assms(3) by simp
  then show ?thesis using V assms(5) by (auto simp: algebra_simps)
qed

lemma fill_prices:
  assumes "is_finite seen" "is_finite p" "is_finite step" "0 < dval step" "0 \<le> dval p" "dval p < 100"
  shows "buy_fill_price seen p step = Inr b \<Longrightarrow> is_finite b \<and> (\<exists>n. dval b = of_int n * dval step)
      \<and> dval seen * (1 + dval p / 100) \<le> dval b \<and> dval b < dval seen * (1 + dval p / 100) + dval step \<and> 0 \<le> dval seen"
    and "sell_fill_price seen p step = Inr s \<Longrightarrow> is_finite s \<and> (\<exists>n. dval s = of_int n * dval step)
      \<and> dval s \<le> dval seen * (1 - dval p / 100) \<and> dval seen * (1 - dval p / 100) < dval s + dval step
      \<and> 0 \<le> dval s \<and> 0 \<le> dval seen"
proof -
  assume "buy_fill_price seen p step = Inr b"
  then obtain h f m where F: "\<not> dval seen < 0" "hundredth_x p = Inr h" "add_x one h = Inr f" "mul_x seen f = Inr m"
    "to_step m step True = Inr b" by (auto simp: buy_fill_price_def require_not_negative_def result_simps)
  have h: "is_finite h" "dval h = dval p / 100" using hundredth_x_Inr [OF F(2) assms(2)] by auto
  have f: "is_finite f" "dval f = 1 + dval p / 100" using add_x_Inr [OF F(3) _ h(1)] h(2) by auto
  have m: "is_finite m" "dval m = dval seen * (1 + dval p / 100)" using mul_x_Inr [OF F(4) assms(1) f(1)] f(2) by auto
  have "0 \<le> dval m" using F(1) assms(5) unfolding m(2) by simp
  from to_step_up [OF F(5) m(1) assms(3) this assms(4)] F(1) show
    "is_finite b \<and> (\<exists>n. dval b = of_int n * dval step) \<and> dval seen * (1 + dval p / 100) \<le> dval b
      \<and> dval b < dval seen * (1 + dval p / 100) + dval step \<and> 0 \<le> dval seen" unfolding m(2) by auto
next
  assume "sell_fill_price seen p step = Inr s"
  then obtain h f m where F: "\<not> dval seen < 0" "hundredth_x p = Inr h" "sub_x one h = Inr f" "mul_x seen f = Inr m"
    "to_step m step False = Inr s" by (auto simp: sell_fill_price_def require_not_negative_def result_simps)
  have h: "is_finite h" "dval h = dval p / 100" using hundredth_x_Inr [OF F(2) assms(2)] by auto
  have f: "is_finite f" "dval f = 1 - dval p / 100" using sub_x_Inr [OF F(3) _ h(1)] h(2) by auto
  have m: "is_finite m" "dval m = dval seen * (1 - dval p / 100)" using mul_x_Inr [OF F(4) assms(1) f(1)] f(2) by auto
  have "0 \<le> dval m" using F(1) assms(6) unfolding m(2) by simp
  from to_step_down [OF F(5) m(1) assms(3) this assms(4)] F(1) show
    "is_finite s \<and> (\<exists>n. dval s = of_int n * dval step) \<and> dval s \<le> dval seen * (1 - dval p / 100)
      \<and> dval seen * (1 - dval p / 100) < dval s + dval step \<and> 0 \<le> dval s \<and> 0 \<le> dval seen" unfolding m(2) by auto
qed

text \<open>What the context refuses is only what it cannot hold: a bound on the coefficient at a common exponent.\<close>

definition fits :: "decimal \<Rightarrow> nat \<Rightarrow> nat \<Rightarrow> bool" where
  "fits d k n \<longleftrightarrow> (\<exists>c e. d = Finite c e \<and> - int k \<le> e \<and> \<bar>c\<bar> * 10 ^ nat (e + int k) < 10 ^ n)"

lemma fits_finite: "fits d k n \<Longrightarrow> is_finite d"
  by (auto simp: fits_def is_finite_def)

lemma fits_mono:
  assumes "fits d k n" "n + j \<le> m" shows "fits d (k + j) m"
proof -
  obtain c e where d: "d = Finite c e" "- int k \<le> e" "\<bar>c\<bar> * 10 ^ nat (e + int k) < 10 ^ n"
    using assms(1) by (auto simp: fits_def)
  have "nat (e + int (k + j)) = nat (e + int k) + j" using d(2) by simp
  then have "\<bar>c\<bar> * 10 ^ nat (e + int (k + j)) = \<bar>c\<bar> * 10 ^ nat (e + int k) * 10 ^ j" by (simp add: power_add)
  also have "\<dots> < 10 ^ n * 10 ^ j" using d(3) by simp
  also have "\<dots> \<le> 10 ^ m" unfolding power_add [symmetric] by (rule power_increasing) (use assms(2) in auto)
  finally show ?thesis using d(1,2) by (auto simp: fits_def)
qed

lemma fits_mul:
  assumes "fits a k n" "fits b j m" shows "fits (dmul a b) (k + j) (n + m)"
proof -
  obtain c e d f where ab: "a = Finite c e" "- int k \<le> e" "\<bar>c\<bar> * 10 ^ nat (e + int k) < 10 ^ n"
    "b = Finite d f" "- int j \<le> f" "\<bar>d\<bar> * 10 ^ nat (f + int j) < 10 ^ m" using assms by (auto simp: fits_def)
  have "nat (e + f + int (k + j)) = nat (e + int k) + nat (f + int j)" using ab(2,5) by simp
  then have "\<bar>c * d\<bar> * 10 ^ nat (e + f + int (k + j)) = (\<bar>c\<bar> * 10 ^ nat (e + int k)) * (\<bar>d\<bar> * 10 ^ nat (f + int j))"
    by (simp add: abs_mult power_add)
  also have "\<dots> < 10 ^ n * 10 ^ m" by (rule mult_strict_mono) (use ab(3,6) in auto)
  finally show ?thesis using ab(1,2,4,5) by (auto simp: fits_def power_add)
qed

lemma fits_add:
  assumes "fits a k n" "fits b k n" shows "fits (dadd a b) k (Suc n)"
proof -
  obtain c e d f where ab: "a = Finite c e" "- int k \<le> e" "\<bar>c\<bar> * 10 ^ nat (e + int k) < 10 ^ n"
    "b = Finite d f" "- int k \<le> f" "\<bar>d\<bar> * 10 ^ nat (f + int k) < 10 ^ n" using assms by (auto simp: fits_def)
  let ?m = "min e f"
  have shift: "(10 :: int) ^ nat (x - ?m) * 10 ^ nat (?m + int k) = 10 ^ nat (x + int k)" if "?m \<le> x" for x
  proof -
    have "nat (x - ?m) + nat (?m + int k) = nat (x + int k)" using that ab(2,5) by linarith
    then show ?thesis by (simp only: power_add [symmetric])
  qed
  let ?s = "c * 10 ^ nat (e - ?m) + d * 10 ^ nat (f - ?m)"
  have "\<bar>?s\<bar> * 10 ^ nat (?m + int k) \<le> (\<bar>c\<bar> * 10 ^ nat (e - ?m) + \<bar>d\<bar> * 10 ^ nat (f - ?m)) * 10 ^ nat (?m + int k)"
    by (intro mult_right_mono order_trans [OF abs_triangle_ineq]) (auto simp: abs_mult)
  also have "\<dots> = \<bar>c\<bar> * 10 ^ nat (e + int k) + \<bar>d\<bar> * 10 ^ nat (f + int k)"
    using shift [of e] shift [of f] by (simp add: distrib_right mult.assoc)
  also have "\<dots> < 10 ^ n + 10 ^ n" using ab(3,6) by (rule add_strict_mono)
  also have "\<dots> \<le> 10 ^ Suc n" by simp
  finally show ?thesis using ab(1,2,4,5) by (auto simp: fits_def Let_def)
qed

lemma fits_held:
  assumes "fits d k n" "0 < n" "n \<le> 100" shows "held_exactly d = Inr d"
proof -
  obtain c e where d: "d = Finite c e" "\<bar>c\<bar> * 10 ^ nat (e + int k) < 10 ^ n" using assms(1) by (auto simp: fits_def)
  have "\<bar>c\<bar> * 1 \<le> \<bar>c\<bar> * 10 ^ nat (e + int k)" by (intro mult_left_mono) auto
  with d(2) have "\<bar>c\<bar> < 10 ^ n" by linarith
  also have "(10 :: int) ^ n \<le> 10 ^ exact_digits" by (rule power_increasing) (use assms(3) in \<open>auto simp: exact_digits_def\<close>)
  finally have "ctx_exact exact_digits (Finite c e) = Inr (Finite c e)" by (rule ctx_exact_ok) (simp add: exact_digits_def)
  then show ?thesis by (simp add: held_exactly_def d(1))
qed

text \<open>
  A figure a setup states: its digits and its decimals, as the code's field limits count them, which is without the
  trailing zeros it was written with.
\<close>

definition setup_figure :: "nat \<Rightarrow> nat \<Rightarrow> decimal \<Rightarrow> bool" where
  "setup_figure max_digits decimal_places d =
     (case d of
        Finite c e \<Rightarrow>
          (case strip c e of
             Finite s f \<Rightarrow> - int decimal_places \<le> f \<and> int (digits s) + max f 0 \<le> int max_digits
           | _ \<Rightarrow> False)
      | _ \<Rightarrow> False)"

lemma setup_figure_finite: "setup_figure n k d \<Longrightarrow> is_finite d"
  by (cases d) (auto simp: setup_figure_def is_finite_def)

lemma setup_figure_fits:
  assumes "setup_figure n k d" obtains d0 where "fits d0 k (n + k)" "dval d0 = dval d"
proof -
  obtain c e s f where d: "d = Finite c e" "strip c e = Finite s f" "- int k \<le> f" "int (digits s) + max f 0 \<le> int n"
    using assms by (auto simp: setup_figure_def split: decimal.splits)
  have "\<bar>s\<bar> * 10 ^ nat (f + int k) < 10 ^ digits s * 10 ^ nat (f + int k)" using less_digits [of s] by simp
  also have "\<dots> = 10 ^ (digits s + nat (f + int k))" by (simp add: power_add)
  also have "\<dots> \<le> (10 :: int) ^ (n + k)" by (rule power_increasing) (use d(3,4) in auto)
  finally have "fits (Finite s f) k (n + k)" using d(3) by (auto simp: fits_def)
  moreover have "dval (Finite s f) = dval d" using dval_strip [of c e] d(1,2) by simp
  ultimately show thesis by (rule that)
qed

lemma everyday_fits: "everyday d \<Longrightarrow> fits d 40 53"
proof -
  assume d: "everyday d"
  then obtain c e where c: "d = Finite c e" unfolding everyday_def by blast
  from everyday_scaled [OF d [unfolded c]] show ?thesis by (simp add: fits_def c)
qed

lemma one_fits: "fits one 0 1"
  by (simp add: one_def fits_def)

lemma to_step_total:
  assumes "fits price k n" "fits step j m" "0 \<le> dval price" "0 < dval step" "j \<le> k" "Suc n + m \<le> 100" "0 < n"
  shows "\<exists>d. to_step price step up = Inr d"
proof -
  obtain c e where p: "price = Finite c e" "- int k \<le> e" "\<bar>c\<bar> * 10 ^ nat (e + int k) < 10 ^ n"
    using assms(1) by (auto simp: fits_def)
  obtain s f where st: "step = Finite s f" "- int j \<le> f" using assms(2) by (auto simp: fits_def)
  define g where "g = min e f"
  define A where "A = c * 10 ^ nat (e - g)"
  define B where "B = s * 10 ^ nat (f - g)"
  define q where "q = sgn A * sgn B * (\<bar>A\<bar> div \<bar>B\<bar>)"
  have powi: "0 < (10 :: rat) powi x" for x by simp
  have s: "0 < s" using assms(4) powi [of f] unfolding st
    by (simp add: zero_less_mult_iff del: zero_less_power_int)
  have B: "0 < B" using s by (simp add: B_def)
  have c: "0 \<le> c"
    using assms(3) powi [of e] unfolding p dval.simps zero_le_mult_iff by (metis not_le of_int_0_le_iff)
  have A: "0 \<le> A" using c by (simp add: A_def)
  have "nat (e - g) \<le> nat (e + int k)" using st(2) p(2) assms(5) by (auto simp: g_def)
  then have "(10 :: int) ^ nat (e - g) \<le> 10 ^ nat (e + int k)" by (rule power_increasing) simp
  then have "A \<le> \<bar>c\<bar> * 10 ^ nat (e + int k)" using c by (simp add: A_def mult_left_mono)
  then have bound: "\<bar>A\<bar> < 10 ^ n" using p(3) A by simp
  have qv: "q = A div B" using A B unfolding q_def by (cases "A = 0") auto
  have q: "0 \<le> q" "q \<le> A" unfolding qv using A B zdiv_mono2 [of A 1 B] by (auto simp: pos_imp_zdiv_nonneg_iff)
  have "digits q \<le> n" using q bound A assms(7) by (intro digits_le) auto
  then have dq: "\<not> exact_digits < digits q" using assms(6) by (simp add: exact_digits_def)
  have "A - q * B = A mod B" unfolding qv by (simp add: minus_div_mult_eq_mod)
  then have rem0: "0 \<le> A - q * B" using B by simp
  have "0 \<le> q * B" using B q(1) by (intro mult_nonneg_nonneg) simp_all
  then have "A - q * B \<le> A" by simp
  note rem = rem0 this
  have r: "held_exactly (Finite (A - q * B) g) = Inr (Finite (A - q * B) g)"
  proof -
    have "\<bar>A - q * B\<bar> < 10 ^ n" using rem bound A by simp
    also have "(10 :: int) ^ n \<le> 10 ^ exact_digits" by (rule power_increasing) (use assms(6) in \<open>auto simp: exact_digits_def\<close>)
    finally have "ctx_exact exact_digits (Finite (A - q * B) g) = Inr (Finite (A - q * B) g)"
      by (rule ctx_exact_ok) (simp add: exact_digits_def)
    then show ?thesis by (simp add: held_exactly_def)
  qed
  have D: "divmod_x price step = Inr (q, Finite (A - q * B) g)"
  proof -
    have "divmod_x price step = (if s = 0 then Inl (Trapped Inexact_Raised)
        else if exact_digits < digits q then Inl (Trapped Inexact_Raised)
        else bindR (held_exactly (Finite (A - q * B) g)) (\<lambda>r. Inr (q, r)))"
      unfolding p(1) st(1) by (simp only: divmod_x.simps Let_def g_def A_def B_def q_def)
    with s dq r show ?thesis by simp
  qed
  have qf: "fits (whole q) 0 n" using q bound A by (auto simp: whole_def fits_def)
  have up: "held_exactly (dadd (whole q) one) = Inr (dadd (whole q) one)"
    by (rule fits_held [OF fits_add [OF qf fits_mono [OF one_fits, of 0 n, simplified]]]) (use assms(6,7) in auto)
  have "fits (dadd (whole q) one) 0 (Suc n)"
    by (rule fits_add [OF qf fits_mono [OF one_fits, of 0 n, simplified]]) (use assms(7) in auto)
  note m1 = fits_mul [OF this assms(2)]
  note m0 = fits_mul [OF fits_mono [OF qf, of 0 "Suc n", simplified] assms(2)]
  have "\<exists>d. mul_x n' step = Inr d" if "n' = whole q \<or> n' = dadd (whole q) one" for n'
    using that fits_held [OF m0] fits_held [OF m1] assms(6) by (auto simp: mul_x_def)
  then show ?thesis using D up by (simp add: to_step_def add_x_def)
qed

text \<open>
  What the context holds depends on the value of a figure, not on how it is written: every operation of the code gives
  figures of one value a result of one value.
\<close>

definition same_value :: "decimal \<Rightarrow> decimal \<Rightarrow> bool" where
  "same_value a b \<longleftrightarrow> is_finite a \<and> is_finite b \<and> dval a = dval b"

lemma held_by_value:
  assumes "held_exactly a = Inr x" "same_value a b" shows "held_exactly b = Inr b"
proof -
  obtain c e c' e' where ab: "a = Finite c e" "b = Finite c' e'" "dval (Finite c e) = dval (Finite c' e')"
    using assms(2) by (cases a; cases b) (auto simp: same_value_def is_finite_def)
  show ?thesis using assms(1) unfolding ab(1,2) held_exactly_def ctx_exact_def
    by (auto simp: strip_canonical [OF ab(3)] split: decimal.splits if_splits)
qed

lemma mul_by_value:
  assumes "mul_x a b = Inr x" "same_value a a'" "same_value b b'"
  obtains x' where "mul_x a' b' = Inr x'" "same_value x x'"
proof -
  have v: "same_value (dmul a b) (dmul a' b')" using assms(2,3) by (auto simp: same_value_def dval_dmul)
  moreover have "x = dmul a b" using assms(1,2,3) by (auto simp: same_value_def mul_x_def dest!: held_exactly_Inr [rotated])
  ultimately show thesis using that [of "dmul a' b'"] held_by_value [OF assms(1) [unfolded mul_x_def] v] by (simp add: mul_x_def)
qed

lemma add_by_value:
  assumes "add_x a b = Inr x" "same_value a a'" "same_value b b'"
  obtains x' where "add_x a' b' = Inr x'" "same_value x x'"
proof -
  have v: "same_value (dadd a b) (dadd a' b')" using assms(2,3) by (auto simp: same_value_def dval_dadd)
  moreover have "x = dadd a b" using assms(1,2,3) by (auto simp: same_value_def add_x_def dest!: held_exactly_Inr [rotated])
  ultimately show thesis using that [of "dadd a' b'"] held_by_value [OF assms(1) [unfolded add_x_def] v] by (simp add: add_x_def)
qed

lemma divmod_forms:
  assumes "is_finite a" "is_finite b" "0 \<le> dval a" "0 < dval b"
  obtains r where "divmod_x a b = (if exact_digits < digits \<lfloor>dval a / dval b\<rfloor> then Inl (Trapped Inexact_Raised)
      else bindR (held_exactly r) (\<lambda>r. Inr (\<lfloor>dval a / dval b\<rfloor>, r)))"
    "is_finite r" "dval r = dval a - of_int \<lfloor>dval a / dval b\<rfloor> * dval b"
proof -
  obtain c e s f where ab: "a = Finite c e" "b = Finite s f"
    using assms(1,2) by (cases a; cases b) (auto simp: is_finite_def)
  define m where "m = min e f"
  define A where "A = c * 10 ^ nat (e - m)"
  define B where "B = s * 10 ^ nat (f - m)"
  have shift: "(10 :: rat) ^ nat (x - m) * 10 powi m = 10 powi x" if "m \<le> x" for x
    using that by (simp flip: power_int_of_nat add: power_int_add [symmetric])
  have a: "dval a = of_int A * 10 powi m" using shift [of e] by (simp add: ab A_def m_def mult.assoc)
  have b: "dval b = of_int B * 10 powi m" using shift [of f] by (simp add: ab B_def m_def mult.assoc)
  have pos: "0 < (10 :: rat) powi m" by simp
  have A: "0 \<le> A" using assms(3) pos unfolding a by (simp add: zero_le_mult_iff not_le [symmetric])
  have B: "0 < B" using assms(4) pos unfolding b by (simp add: zero_less_mult_iff)
  have q: "sgn A * sgn B * (\<bar>A\<bar> div \<bar>B\<bar>) = A div B" using A B by (cases "A = 0") auto
  have "dval a / dval b = of_int A / of_int B" using pos by (simp add: a b)
  then have floor: "\<lfloor>dval a / dval b\<rfloor> = A div B" by (simp add: floor_divide_of_int_eq)
  have "s \<noteq> 0" using B by (auto simp: B_def)
  then have "divmod_x a b = (if exact_digits < digits (A div B) then Inl (Trapped Inexact_Raised)
      else bindR (held_exactly (Finite (A - A div B * B) m)) (\<lambda>r. Inr (A div B, r)))"
    unfolding ab divmod_x.simps Let_def m_def [symmetric] A_def [symmetric] B_def [symmetric] q by simp
  then show thesis unfolding floor [symmetric]
    by (rule that) (simp_all add: a b algebra_simps)
qed

lemma to_step_by_value:
  assumes "to_step a b up = Inr x" "same_value a a'" "same_value b b'" "0 \<le> dval a" "0 < dval b"
  obtains x' where "to_step a' b' up = Inr x'"
proof -
  obtain q r n where D: "divmod_x a b = Inr (q, r)"
    and n: "(if up \<and> 0 < dval r then add_x (whole q) one else Inr (whole q)) = Inr n" and x: "mul_x n b = Inr x"
    using assms(1) by (auto simp: to_step_def result_simps)
  have fin: "is_finite a" "is_finite b" "is_finite a'" "is_finite b'" "dval a' = dval a" "dval b' = dval b"
    using assms(2,3) by (simp_all add: same_value_def)
  obtain r0 where r0: "divmod_x a b = (if exact_digits < digits \<lfloor>dval a / dval b\<rfloor> then Inl (Trapped Inexact_Raised)
      else bindR (held_exactly r0) (\<lambda>r. Inr (\<lfloor>dval a / dval b\<rfloor>, r)))"
    "is_finite r0" "dval r0 = dval a - of_int \<lfloor>dval a / dval b\<rfloor> * dval b"
    by (rule divmod_forms [OF fin(1,2) assms(4,5)])
  obtain r1 where "divmod_x a' b' = (if exact_digits < digits \<lfloor>dval a' / dval b'\<rfloor> then Inl (Trapped Inexact_Raised)
      else bindR (held_exactly r1) (\<lambda>r. Inr (\<lfloor>dval a' / dval b'\<rfloor>, r)))"
    "is_finite r1" "dval r1 = dval a' - of_int \<lfloor>dval a' / dval b'\<rfloor> * dval b'"
    by (rule divmod_forms [OF fin(3,4)]) (use assms(4,5) fin(5,6) in simp_all)
  note r1 = this [unfolded fin(5,6)]
  have q: "q = \<lfloor>dval a / dval b\<rfloor>" "held_exactly r0 = Inr r" "\<not> exact_digits < digits q"
    using D unfolding r0(1) by (auto simp: result_simps split: if_splits)
  have "same_value r0 r1" using r0 r1 by (simp add: same_value_def)
  then have "divmod_x a' b' = Inr (q, r1)" using held_by_value [OF q(2)] q(1,3) unfolding r1(1) by simp
  moreover have "dval r1 = dval r" using held_exactly_Inr [OF r0(2) q(2)] r0(3) r1(3) by simp
  moreover have "same_value n n" using n add_x_Inr [of "whole q" one n] by (auto simp: same_value_def split: if_splits)
  then obtain x' where "mul_x n b' = Inr x'" by (rule mul_by_value [OF x _ assms(3)])
  ultimately show thesis using that [of x'] n by (simp add: to_step_def)
qed

lemma fill_prices_total:
  assumes "everyday seen" "0 \<le> dval seen" "setup_figure 7 4 p" "0 \<le> dval p" "dval p < 100"
    "setup_figure 12 4 step" "0 < dval step"
  shows "\<exists>b. buy_fill_price seen p step = Inr b" "\<exists>s. sell_fill_price seen p step = Inr s"
proof -
  have seen: "fits seen 40 53" by (rule everyday_fits [OF assms(1)])
  obtain p0 where p0: "fits p0 4 11" "dval p0 = dval p" using setup_figure_fits [OF assms(3)] by auto
  obtain step0 where step: "fits step0 4 16" "dval step0 = dval step" using setup_figure_fits [OF assms(6)] by auto
  define h where "h = dmul p0 (Finite 1 (- 2))"
  have h: "fits h 6 12"
    unfolding h_def using fits_mul [OF p0(1), of "Finite 1 (- 2)" 2 1] by (simp add: fits_def)
  have hx: "hundredth_x p0 = Inr h" by (simp add: hundredth_x_def mul_x_def h_def [symmetric] fits_held [OF h])
  have hv: "is_finite h" "dval h = dval p / 100"
    using hundredth_x_Inr [OF hx fits_finite [OF p0(1)]] p0(2) by auto
  have one: "fits one 6 12" using fits_mono [OF one_fits, of 6 12] by simp
  have neg: "fits (dneg h) 6 12" using fits_mono [OF fits_mul [of "Finite (- 1) 0" 0 1 h 6 12], of 0] h
    by (auto simp: dneg_def fits_def)
  have nonneg: "\<not> dval seen < 0" using assms(2) by simp
  have same: "same_value p0 p" "same_value step0 step" "same_value seen seen" "same_value one one"
    using p0 step fits_finite [OF p0(1)] fits_finite [OF step(1)] fits_finite [OF seen]
      setup_figure_finite [OF assms(3)] setup_figure_finite [OF assms(6)] by (simp_all add: same_value_def)
  have "same_value (Finite 1 (- 2)) (Finite 1 (- 2))" by (simp add: same_value_def)
  then obtain h' where h': "hundredth_x p = Inr h'" "same_value h h'"
    using mul_by_value [OF hx [unfolded hundredth_x_def] same(1)] by (auto simp: hundredth_x_def)
  have go: "\<exists>d. bindR (mul_x seen f') (\<lambda>m. to_step m step up) = Inr d" if f: "fits f 6 13" "0 \<le> dval f" "same_value f f'" for f f' up
  proof -
    have m: "fits (dmul seen f) 46 66" using fits_mul [OF seen f(1)] by simp
    have pos: "0 \<le> dval (dmul seen f)" using assms(2) f by (simp add: dval_dmul fits_finite [OF seen] fits_finite [OF f(1)])
    have "mul_x seen f = Inr (dmul seen f)" by (simp add: mul_x_def fits_held [OF m])
    then obtain m' where m': "mul_x seen f' = Inr m'" "same_value (dmul seen f) m'" by (rule mul_by_value [OF _ same(3) f(3)])
    obtain d where d: "to_step (dmul seen f) step0 up = Inr d" using to_step_total [OF m step(1) pos] assms(7) step(2) by auto
    obtain d' where "to_step m' step up = Inr d'"
      by (rule to_step_by_value [OF d m'(2) same(2) pos]) (use assms(7) step(2) in simp)
    with m'(1) show ?thesis by simp
  qed
  have up: "fits (dadd one h) 6 13" using fits_add [OF one h] by simp
  have down: "fits (dadd one (dneg h)) 6 13" using fits_add [OF one neg] by simp
  have signs: "0 \<le> dval (dadd one h)" "0 \<le> dval (dadd one (dneg h))" using assms(4,5) hv by (simp_all add: dval_dadd)
  have "add_x one h = Inr (dadd one h)" by (simp add: add_x_def fits_held [OF up])
  then obtain u where u: "add_x one h' = Inr u" "same_value (dadd one h) u" by (rule add_by_value [OF _ same(4) h'(2)])
  have "same_value (dneg h) (dneg h')" using h'(2) by (simp add: same_value_def)
  moreover have "add_x one (dneg h) = Inr (dadd one (dneg h))" by (simp add: add_x_def fits_held [OF down])
  ultimately obtain v where v: "add_x one (dneg h') = Inr v" "same_value (dadd one (dneg h)) v"
    using add_by_value [OF _ same(4)] by blast
  show "\<exists>b. buy_fill_price seen p step = Inr b" "\<exists>s. sell_fill_price seen p step = Inr s"
    using go [OF up signs(1) u(2)] go [OF down signs(2) v(2)]
    by (simp_all add: buy_fill_price_def sell_fill_price_def require_not_negative_def nonneg h'(1) u(1) v(1) sub_x_def)
qed

text \<open>
  C18: for an everyday premium that is not negative and the slippage and price step a setup may state, both fill prices
  are worked out and never trapped: the buy fills at the least whole number of steps at or above the premium moved up
  by the slippage, the sale at the greatest one at or below the premium moved down, which is never below zero. So
  both are against the trader, by less than a step more than the slippage.
\<close>

theorem fills_against_the_trader:
  assumes "everyday seen" "0 \<le> dval seen" "setup_figure 7 4 p" "0 \<le> dval p" "dval p < 100"
    and "setup_figure 12 4 step" "0 < dval step"
  shows "\<exists>b s n m. buy_fill_price seen p step = Inr b \<and> sell_fill_price seen p step = Inr s
     \<and> dval b = of_int n * dval step \<and> dval s = of_int m * dval step
     \<and> dval seen * (1 + dval p / 100) \<le> dval b \<and> dval b < dval seen * (1 + dval p / 100) + dval step
     \<and> dval s \<le> dval seen * (1 - dval p / 100) \<and> dval seen * (1 - dval p / 100) < dval s + dval step
     \<and> 0 \<le> dval s \<and> dval s \<le> dval seen \<and> dval seen \<le> dval b"
proof -
  obtain b s where bs: "buy_fill_price seen p step = Inr b" "sell_fill_price seen p step = Inr s"
    using fill_prices_total [OF assms] by blast
  have fin: "is_finite seen" "is_finite p" "is_finite step"
    using everyday_fits [OF assms(1)] setup_figure_finite [OF assms(3)] setup_figure_finite [OF assms(6)]
    by (auto dest: fits_finite)
  note B = fill_prices(1) [OF fin assms(7,4,5) bs(1)] and S = fill_prices(2) [OF fin assms(7,4,5) bs(2)]
  have "dval seen \<le> dval seen * (1 + dval p / 100)" "dval seen * (1 - dval p / 100) \<le> dval seen"
    using assms(2,4) by (simp_all add: algebra_simps)
  with B S bs show ?thesis by (auto intro: order_trans)
qed

theorem fills_against_the_trader_witness:
  "\<exists>b s. buy_fill_price (Finite 123 (- 2)) (Finite 3 (- 1)) (Finite 5 (- 2)) = Inr b
     \<and> sell_fill_price (Finite 123 (- 2)) (Finite 3 (- 1)) (Finite 5 (- 2)) = Inr s
     \<and> 123 / 100 \<le> dval b \<and> dval s \<le> 123 / 100"
proof -
  have "everyday (Finite 123 (- 2))" "setup_figure 7 4 (Finite 3 (- 1))" "setup_figure 12 4 (Finite 5 (- 2))"
    by (simp_all add: everyday_def adjusted_def setup_figure_def strip_def trail.simps digits_def show_nat.simps)
  moreover have "dval (Finite 123 (- 2)) = 123 / 100" "dval (Finite 3 (- 1)) = 3 / 10" "dval (Finite 5 (- 2)) = 5 / 100"
    by (simp_all add: power_int_def power2_eq_square)
  ultimately show ?thesis
    using fills_against_the_trader [of "Finite 123 (- 2)" "Finite 3 (- 1)" "Finite 5 (- 2)"] by auto
qed

subsection \<open>The cash of a round trip\<close>

definition other_of :: "leg_side \<Rightarrow> leg_side" where "other_of side = (if side = Buy then Sell else Buy)"

lemma order_value_Inr:
  "order_value filled m n = Inr v \<Longrightarrow> is_finite filled \<Longrightarrow> is_finite v \<and> dval v = dval filled * of_int m * of_int n"
  by (auto simp: order_value_def result_simps dest!: mul_x_Inr)

lemma cash_effect_Inr:
  assumes "cash_effect side filled m n fee = Inr c" "is_finite filled" "is_finite fee"
  shows "is_finite c \<and> dval c = (if side = Buy then - 1 else 1) * (dval filled * of_int m * of_int n) - dval fee"
proof (cases "side = Buy")
  case True
  then obtain v w where F: "order_value filled m n = Inr v" "add_x v fee = Inr w" "held_exactly (dneg w) = Inr c"
    using assms(1) by (auto simp: cash_effect_def entry_cost_def result_simps)
  note v = order_value_Inr [OF F(1) assms(2)]
  note w = add_x_Inr [OF F(2) conjunct1 [OF v] assms(3)]
  have "c = dneg w" using w F(3) held_exactly_Inr [of "dneg w" c] by simp
  with v w True show ?thesis by simp
next
  case False
  then obtain v where F: "order_value filled m n = Inr v" "sub_x v fee = Inr c"
    using assms(1) by (auto simp: cash_effect_def exit_proceeds_def result_simps)
  note v = order_value_Inr [OF F(1) assms(2)]
  from sub_x_Inr [OF F(2) conjunct1 [OF v] assms(3)] v False show ?thesis by simp
qed

lemma trade_pnl_Inr:
  "trade_pnl bought sold m n ef xf = Inr d \<Longrightarrow> is_finite bought \<Longrightarrow> is_finite sold \<Longrightarrow> is_finite ef \<Longrightarrow> is_finite xf \<Longrightarrow>
     is_finite d \<and> dval d = (dval sold - dval bought) * of_int m * of_int n - dval ef - dval xf"
  by (auto simp: trade_pnl_def result_simps dest!: mul_x_Inr sub_x_Inr)

text \<open>
  C39: a round trip's profit is the cash its two orders moved: for a leg that opens on either side, the cash effect of
  the entry and the cash effect of the close on the other side add up to the profit worked out from the two prices.
\<close>

theorem round_trip_cash_is_pnl:
  assumes "cash_effect side entry_price m n entry_fee = Inr c_in"
    and "cash_effect (other_of side) exit_price m n exit_fee = Inr c_out"
    and "trade_pnl (if side = Buy then entry_price else exit_price) (if side = Buy then exit_price else entry_price)
           m n entry_fee exit_fee = Inr pnl"
    and "is_finite entry_price" "is_finite exit_price" "is_finite entry_fee" "is_finite exit_fee"
  shows "dval c_in + dval c_out = dval pnl"
  using cash_effect_Inr [OF assms(1,4,6)] cash_effect_Inr [OF assms(2,5,7)]
    trade_pnl_Inr [OF assms(3)] assms(4-)
  by (cases side) (auto simp: other_of_def algebra_simps)

lemma held_small: "digits c \<le> 100 \<Longrightarrow> held_exactly (Finite c e) = Inr (Finite c e)"
proof -
  assume d: "digits c \<le> 100"
  have "(10 :: int) ^ digits c \<le> 10 ^ exact_digits" by (rule power_increasing) (use d in \<open>auto simp: exact_digits_def\<close>)
  with less_digits [of c] have "\<bar>c\<bar> < 10 ^ exact_digits" by (rule less_le_trans)
  then show ?thesis by (simp add: held_exactly_def ctx_exact_ok exact_digits_def)
qed

theorem round_trip_cash_is_pnl_witness:
  "\<exists>c_in c_out. cash_effect Sell (Finite 125 (- 2)) 100 2 (Finite 65 (- 2)) = Inr c_in
     \<and> cash_effect Buy (Finite 40 (- 2)) 100 2 (Finite 65 (- 2)) = Inr c_out \<and> dval c_in + dval c_out = 1687 / 10"
proof -
  have c: "cash_effect Sell (Finite 125 (- 2)) 100 2 (Finite 65 (- 2)) = Inr (Finite 24935 (- 2))"
    "cash_effect (other_of Sell) (Finite 40 (- 2)) 100 2 (Finite 65 (- 2)) = Inr (Finite (- 8065) (- 2))"
    "trade_pnl (Finite 40 (- 2)) (Finite 125 (- 2)) 100 2 (Finite 65 (- 2)) (Finite 65 (- 2)) = Inr (Finite 16870 (- 2))"
    by (simp_all add: cash_effect_def entry_cost_def exit_proceeds_def order_value_def trade_pnl_def mul_x_def add_x_def
        sub_x_def dneg_def whole_def held_small digits_def show_nat.simps other_of_def)
  have "dval (Finite 24935 (- 2)) + dval (Finite (- 8065) (- 2)) = dval (Finite 16870 (- 2))"
    by (rule round_trip_cash_is_pnl [where side = Sell, OF c(1,2)]) (use c(3) in simp_all)
  then show ?thesis using c by (simp add: other_of_def power_int_def power2_eq_square)
qed

end
