(* ===== verification/Cover_Book.thy ===== *)
theory Cover_Book
  imports Event_Allocation Requirement Replay_Fills
begin

text \<open>
  \<open>app/options_backtest/cover_book.py\<close>: what an options backtest holds, what covers it, what it pledges, and
  how one minute's opening fills are judged.

  A candidate is a holding with a cash effect, as in the code. \<open>Decimal\<close> dollars made of whole cents are
  \<open>Finite cents (- 2)\<close>. Errors: \<open>Book_Value_Error\<close> a \<open>ValueError\<close>, \<open>Cover_Invariant_Broken\<close>
  the requirement's typed refusal, the others passed on. \<open>et_date\<close> is read when a contract is named by its symbol.
  Dataclasses are equal when their fields are, so \<open>remaining.remove(holding)\<close> is \<open>remove1\<close>.
\<close>

datatype opening_refusal = Other_Side | Second_Expiry | No_Cover | Cash_Short

datatype book_error =
    Book_Value_Error
  | Cover_Invariant_Broken money_refusal
  | Book_Money money_error
  | Book_Event event_error
  | Book_Amount value_error

definition standard_multiplier :: int where "standard_multiplier = 100"

definition held_size :: entry_size where "held_size = \<lparr>es_multiplier = standard_multiplier, es_units = 1\<rparr>"

record holding =
  h_leg_id :: string
  h_contract :: option_contract
  h_side :: leg_side
  h_contracts :: int
  h_multiplier :: int

record candidate = holding +
  cd_cash_effect :: decimal

definition holding_ok :: "'a holding_scheme \<Rightarrow> bool" where
  "holding_ok h \<longleftrightarrow> h_leg_id h \<noteq> [] \<and> 1 \<le> h_contracts h \<and> h_multiplier h = standard_multiplier"

definition candidate_ok :: "candidate \<Rightarrow> bool" where
  "candidate_ok c \<longleftrightarrow> holding_ok c \<and> \<not> isl (require_everyday (cd_cash_effect c))
     \<and> \<not> (h_side c = Buy \<and> 0 < dval (cd_cash_effect c))"

definition signed_contracts :: "'a holding_scheme \<Rightarrow> int" where
  "signed_contracts h = (if h_side h = Buy then h_contracts h else - h_contracts h)"

record held =
  hd_listed :: "string list"
  hd_holdings :: "holding list"

fun one_sided :: "(option_contract \<times> leg_side) list \<Rightarrow> holding list \<Rightarrow> bool" where
  "one_sided sides [] \<longleftrightarrow> True"
| "one_sided sides (h # hs) \<longleftrightarrow>
     (case map_of sides (h_contract h) of
        None \<Rightarrow> one_sided ((h_contract h, h_side h) # sides) hs
      | Some s \<Rightarrow> s = h_side h \<and> one_sided sides hs)"

text \<open>\<open>position\<close>: a leg id's place in the setup's list; past the end for an unlisted id.\<close>

definition place :: "string list \<Rightarrow> string \<Rightarrow> nat" where
  "place listed i = length (takeWhile (\<lambda>j. j \<noteq> i) listed)"

definition make_held :: "string list \<Rightarrow> holding list \<Rightarrow> (book_error, held) result" where
  "make_held listed holdings =
     (if distinct listed \<and> [] \<notin> set listed \<and> distinct (map h_leg_id holdings)
         \<and> set (map h_leg_id holdings) \<subseteq> set listed \<and> one_sided [] holdings
      then Inr \<lparr>hd_listed = listed, hd_holdings = sort_key (\<lambda>h. place listed (h_leg_id h)) holdings\<rparr>
      else Inl Book_Value_Error)"

definition empty_held :: "string list \<Rightarrow> (book_error, held) result" where
  "empty_held listed = make_held listed []"

definition holding_of :: "held \<Rightarrow> string \<Rightarrow> holding option" where
  "holding_of held i = find (\<lambda>h. h_leg_id h = i) (hd_holdings held)"

definition opened :: "held \<Rightarrow> candidate list \<Rightarrow> (book_error, held) result" where
  "opened held taken = make_held (hd_listed held) (hd_holdings held @ map holding.truncate taken)"

definition without :: "held \<Rightarrow> string list \<Rightarrow> (book_error, held) result" where
  "without held ids =
     (if \<not> set ids \<subseteq> set (map h_leg_id (hd_holdings held)) then Inl Book_Value_Error
      else make_held (hd_listed held) (filter (\<lambda>h. h_leg_id h \<notin> set ids) (hd_holdings held)))"

record refused_candidate =
  rf_candidate :: candidate
  rf_reason :: opening_refusal

record admission =
  ad_taken :: "candidate list"
  ad_refused :: "refused_candidate list"

type_synonym cover_kind = "string \<times> option_right \<times> int"

definition cover_kind_of :: "option_contract \<Rightarrow> cover_kind" where
  "cover_kind_of c = (oc_root c, oc_right c, oc_expiry_ms c)"

definition signed_by_contract :: "holding list \<Rightarrow> (option_contract \<times> int) list" where
  "signed_by_contract hs = tally_on [] h_contract signed_contracts hs"

definition signed_leg :: "(int \<Rightarrow> date) \<Rightarrow> option_contract \<times> int \<Rightarrow> (book_error, resolved_leg) result" where
  "signed_leg et_date = (\<lambda>(c, signed).
     if signed = 0 then Inl Book_Value_Error
     else Inr \<lparr>rl_id = occ_symbol et_date c, rl_contract = c, rl_position = (if 0 < signed then Long else Short),
               rl_ratio = \<bar>signed\<bar>\<rparr>)"

definition requirement_cents :: "(int \<Rightarrow> date) \<Rightarrow> holding list \<Rightarrow> (book_error, int) result" where
  "requirement_cents et_date hs =
     bindR (traverseR (signed_leg et_date) (signed_by_contract hs)) (\<lambda>legs.
       case portfolio_broker_requirement legs held_size of
         Inl (Refused r) \<Rightarrow> Inl (Cover_Invariant_Broken r)
       | Inl e \<Rightarrow> Inl (Book_Money e)
       | Inr cents \<Rightarrow> Inr cents)"

definition dollars_of_cents :: "int \<Rightarrow> decimal" where "dollars_of_cents cents = Finite cents (- 2)"

definition covered :: "holding list \<Rightarrow> bool" where
  "covered hs \<longleftrightarrow> list_all (\<lambda>(_, count). 0 \<le> count) (tally_on [] (\<lambda>h. cover_kind_of (h_contract h)) signed_contracts hs)"

definition stands :: "(int \<Rightarrow> date) \<Rightarrow> int \<Rightarrow> holding list \<Rightarrow> (book_error, bool) result" where
  "stands et_date before remaining =
     (if covered remaining then bindR (requirement_cents et_date remaining) (\<lambda>r. Inr (r \<le> before)) else Inr False)"

definition bought_leg :: "held \<Rightarrow> string \<Rightarrow> (book_error, holding) result" where
  "bought_leg held i =
     (case holding_of held i of
        None \<Rightarrow> Inl Book_Value_Error
      | Some h \<Rightarrow> if h_side h \<noteq> Buy then Inl Book_Value_Error else Inr h)"

definition covers :: "option_contract \<Rightarrow> option_contract \<Rightarrow> bool" where
  "covers bought sold \<longleftrightarrow> cover_kind_of bought = cover_kind_of sold"

definition is_covered :: "held \<Rightarrow> bool" where "is_covered held \<longleftrightarrow> covered (hd_holdings held)"

definition collateral :: "(int \<Rightarrow> date) \<Rightarrow> held \<Rightarrow> (book_error, decimal) result" where
  "collateral et_date held =
     bindR (requirement_cents et_date (hd_holdings held)) (\<lambda>cents. Inr (dollars_of_cents cents))"

definition assignment_obligation :: "held \<Rightarrow> (book_error, decimal) result" where
  "assignment_obligation held =
     bindR (foldR (\<lambda>total h.
         case assignment_cash_cents (h_contract h) (h_contracts h) (h_multiplier h) of
           Inl e \<Rightarrow> Inl (Book_Event e) | Inr c \<Rightarrow> Inr (total + c))
       0 (filter (\<lambda>h. h_side h = Sell) (hd_holdings held))) (\<lambda>cents. Inr (dollars_of_cents cents))"

definition may_leave :: "(int \<Rightarrow> date) \<Rightarrow> held \<Rightarrow> string \<Rightarrow> (book_error, bool) result" where
  "may_leave et_date held i =
     bindR (bought_leg held i) (\<lambda>_.
     bindR (requirement_cents et_date (hd_holdings held)) (\<lambda>before.
       stands et_date before (filter (\<lambda>h. h_leg_id h \<noteq> i) (hd_holdings held))))"

text \<open>The closing loop: stop as soon as what remains stands, else close the next sold leg.\<close>

fun close_until :: "(holding list \<Rightarrow> ('e, bool) result) \<Rightarrow> holding list \<Rightarrow> holding list \<Rightarrow> ('e, holding list) result" where
  "close_until st remaining [] = Inr []"
| "close_until st remaining (h # hs) =
     bindR (st remaining) (\<lambda>ok. if ok then Inr []
       else bindR (close_until st (remove1 h remaining) hs) (\<lambda>plan. Inr (h # plan)))"

definition sold_in_closing_order :: "string list \<Rightarrow> cover_kind list \<Rightarrow> holding list \<Rightarrow> holding list" where
  "sold_in_closing_order listed leaving_kinds remaining =
     sort_key (\<lambda>h. (cover_kind_of (h_contract h) \<notin> set leaving_kinds, - int (place listed (h_leg_id h))))
       (filter (\<lambda>h. h_side h = Sell) remaining)"

definition leaving_plan :: "(int \<Rightarrow> date) \<Rightarrow> held \<Rightarrow> string list \<Rightarrow> (book_error, string list) result" where
  "leaving_plan et_date held leaving =
     bindR (traverseR (\<lambda>i. bindR (bought_leg held i) (\<lambda>h. Inr (cover_kind_of (h_contract h)))) leaving) (\<lambda>leaving_kinds.
     bindR (requirement_cents et_date (hd_holdings held)) (\<lambda>before.
       let remaining = filter (\<lambda>h. h_leg_id h \<notin> set leaving) (hd_holdings held);
           sold = sold_in_closing_order (hd_listed held) leaving_kinds remaining
       in bindR (close_until (stands et_date before) remaining sold) (\<lambda>plan. Inr (map h_leg_id plan))))"

subsection \<open>The opening group\<close>

type_synonym judged = "candidate list \<times> (string \<times> opening_refusal) list"

definition keep :: "candidate \<Rightarrow> judged \<Rightarrow> judged" where "keep c j = (c # fst j, snd j)"
definition refuse :: "candidate \<Rightarrow> opening_refusal \<Rightarrow> judged \<Rightarrow> judged" where
  "refuse c r j = (fst j, (h_leg_id c, r) # snd j)"

fun other_side_loop :: "(option_contract \<times> leg_side) list \<Rightarrow> candidate list \<Rightarrow> judged" where
  "other_side_loop sides [] = ([], [])"
| "other_side_loop sides (c # cs) =
     (case map_of sides (h_contract c) of
        None \<Rightarrow> keep c (other_side_loop ((h_contract c, h_side c) # sides) cs)
      | Some s \<Rightarrow> if s = h_side c then keep c (other_side_loop sides cs)
                  else refuse c Other_Side (other_side_loop sides cs))"

definition other_side :: "held \<Rightarrow> candidate list \<Rightarrow> judged" where
  "other_side held cs = other_side_loop (rev (map (\<lambda>h. (h_contract h, h_side h)) (hd_holdings held))) cs"

fun second_expiry_loop :: "int list \<Rightarrow> bool \<Rightarrow> candidate list \<Rightarrow> judged" where
  "second_expiry_loop expiries sold_in_play [] = ([], [])"
| "second_expiry_loop expiries sold_in_play (c # cs) =
     (let expiry = oc_expiry_ms (h_contract c); differs = list_ex (\<lambda>e. e \<noteq> expiry) expiries
      in if differs \<and> (sold_in_play \<or> h_side c = Sell)
         then refuse c Second_Expiry (second_expiry_loop expiries sold_in_play cs)
         else keep c (second_expiry_loop (List.insert expiry expiries) (sold_in_play \<or> h_side c = Sell) cs))"

definition second_expiry :: "held \<Rightarrow> candidate list \<Rightarrow> judged" where
  "second_expiry held cs =
     second_expiry_loop (remdups (map (\<lambda>h. oc_expiry_ms (h_contract h)) (hd_holdings held)))
       (list_ex (\<lambda>h. h_side h = Sell) (hd_holdings held)) cs"

fun cover_loop :: "(cover_kind \<times> int) list \<Rightarrow> candidate list \<Rightarrow> judged" where
  "cover_loop cover [] = ([], [])"
| "cover_loop cover (c # cs) =
     (let k = cover_kind_of (h_contract c) in
      if h_side c = Sell
      then (if dict_get cover k < h_contracts c then refuse c No_Cover (cover_loop cover cs)
            else keep c (cover_loop (AList.update k (dict_get cover k - h_contracts c) cover) cs))
      else keep c (cover_loop cover cs))"

definition without_cover :: "held \<Rightarrow> string list \<Rightarrow> candidate list \<Rightarrow> judged" where
  "without_cover held closing cs =
     (let cover = tally_on [] (\<lambda>h. cover_kind_of (h_contract h)) signed_contracts
            (filter (\<lambda>h. h_side h = Sell \<or> h_leg_id h \<notin> set closing) (hd_holdings held));
          cover' = tally_on cover (\<lambda>c. cover_kind_of (h_contract c)) h_contracts (filter (\<lambda>c. h_side c = Buy) cs)
      in cover_loop cover' cs)"

definition short_of_cash :: "(int \<Rightarrow> date) \<Rightarrow> held \<Rightarrow> decimal \<Rightarrow> candidate list \<Rightarrow> (book_error, judged) result" where
  "short_of_cash et_date held cash cs =
     (if cs = [] then Inr ([], [])
      else case exact_sum ((1, cash) # map (\<lambda>c. (1, cd_cash_effect c)) cs) of
             Inl e \<Rightarrow> Inl (Book_Amount e)
           | Inr after \<Rightarrow>
               bindR (requirement_cents et_date (hd_holdings held @ map holding.truncate cs)) (\<lambda>cents.
                 if dval after < dval (dollars_of_cents cents)
                 then Inr ([], map (\<lambda>c. (h_leg_id c, Cash_Short)) cs) else Inr (cs, [])))"

definition admit_opening ::
  "(int \<Rightarrow> date) \<Rightarrow> held \<Rightarrow> candidate list \<Rightarrow> decimal option \<Rightarrow> string list \<Rightarrow> (book_error, admission) result" where
  "admit_opening et_date held candidates cash closing =
     (let ordered = sort_key (\<lambda>c. place (hd_listed held) (h_leg_id c)) candidates;
          ids = map h_leg_id ordered;
          holding_ids = map h_leg_id (hd_holdings held)
      in if \<not> set ids \<subseteq> set (hd_listed held) \<or> \<not> distinct ids \<or> set ids \<inter> set holding_ids \<noteq> {}
            \<or> \<not> set closing \<subseteq> set holding_ids
         then Inl Book_Value_Error
         else case (case cash of None \<Rightarrow> Inr () | Some a \<Rightarrow> bindR (require_everyday a) (\<lambda>_. Inr ())) of
                Inl e \<Rightarrow> Inl (Book_Amount e)
              | Inr _ \<Rightarrow>
                  let (s1, r1) = other_side held ordered;
                      (s2, r2) = second_expiry held s1;
                      (s3, r3) = without_cover held closing s2
                  in bindR (case cash of None \<Rightarrow> Inr (s3, []) | Some a \<Rightarrow> short_of_cash et_date held a s3) (\<lambda>(s4, r4).
                       let reasons = r4 @ r3 @ r2 @ r1
                       in Inr \<lparr>ad_taken = s4,
                               ad_refused = List.map_filter (\<lambda>c. map_option (\<lambda>r. \<lparr>rf_candidate = c, rf_reason = r\<rparr>)
                                 (map_of reasons (h_leg_id c))) ordered\<rparr>))"

subsection \<open>Holdings that agree on a side\<close>

definition sides_agree :: "holding list \<Rightarrow> bool" where
  "sides_agree hs \<longleftrightarrow> (\<forall>h\<in>set hs. \<forall>h'\<in>set hs. h_contract h = h_contract h' \<longrightarrow> h_side h = h_side h')"

definition book_ok :: "holding list \<Rightarrow> bool" where
  "book_ok hs \<longleftrightarrow> list_all holding_ok hs \<and> sides_agree hs"

lemma book_ok_subset: "book_ok hs \<Longrightarrow> set hs' \<subseteq> set hs \<Longrightarrow> book_ok hs'"
  unfolding book_ok_def sides_agree_def list_all_iff by blast

lemma agree_insert:
  "(\<forall>x\<in>insert a A. \<forall>y\<in>insert a A. f x = f y \<longrightarrow> g x = g y) \<longleftrightarrow>
     (\<forall>x\<in>A. f x = f a \<longrightarrow> g x = g a) \<and> (\<forall>x\<in>A. \<forall>y\<in>A. f x = f y \<longrightarrow> g x = g y)" (is "?l \<longleftrightarrow> ?r")
proof
  assume ?l then show ?r by blast
next
  assume r: ?r
  have "g x = g y" if "x \<in> insert a A" "y \<in> insert a A" "f x = f y" for x y
  proof (cases "x = a")
    case True
    then show ?thesis using that r by (cases "y = a") (simp, metis insertE)
  next
    case False
    then show ?thesis using that r by (cases "y = a") (simp, metis insertE)
  qed
  then show ?l by blast
qed

lemma one_sided_iff:
  "one_sided sides hs \<longleftrightarrow>
     (\<forall>h\<in>set hs. \<forall>s. map_of sides (h_contract h) = Some s \<longrightarrow> s = h_side h) \<and> sides_agree hs"
proof (induction hs arbitrary: sides)
  case (Cons h hs)
  let ?fits = "\<lambda>sides x. \<forall>s. map_of sides (h_contract x) = Some s \<longrightarrow> s = h_side x"
  have agree: "sides_agree (h # hs) \<longleftrightarrow>
      (\<forall>x\<in>set hs. h_contract x = h_contract h \<longrightarrow> h_side x = h_side h) \<and> sides_agree hs"
    unfolding sides_agree_def list.set by (rule agree_insert)
  show ?case
  proof (cases "map_of sides (h_contract h)")
    case None
    then have "(\<forall>x\<in>set hs. ?fits ((h_contract h, h_side h) # sides) x) \<longleftrightarrow>
        (\<forall>x\<in>set hs. ?fits sides x \<and> (h_contract x = h_contract h \<longrightarrow> h_side x = h_side h))"
      by (intro ball_cong) (auto simp del: holding.equality)
    with None show ?thesis unfolding agree by (simp add: Cons.IH) blast
  next
    case (Some s)
    have "h_side x = s" if "h_contract x = h_contract h" "?fits sides x" for x using that Some by simp
    with Some show ?thesis unfolding agree by (simp add: Cons.IH) blast
  qed
qed (simp add: sides_agree_def)

text \<open>The signed count of a contract held on one side is not zero.\<close>

lemma signed_nonzero:
  assumes "book_ok hs" "h \<in> set hs"
  shows "sum_at h_contract signed_contracts (h_contract h) hs \<noteq> 0"
proof -
  let ?f = "filter (\<lambda>x. h_contract x = h_contract h) hs"
  have each: "h_side x = h_side h \<and> 1 \<le> h_contracts x" if "x \<in> set ?f" for x
  proof -
    have x: "x \<in> set hs" "h_contract x = h_contract h" using that by simp_all
    with assms have "h_side x = h_side h" unfolding book_ok_def sides_agree_def by blast
    with x assms show ?thesis by (simp add: book_ok_def list_all_iff holding_ok_def)
  qed
  have "1 \<le> (\<Sum>x\<leftarrow>xs. h_contracts x)" if "xs \<noteq> []" "\<forall>x\<in>set xs. 1 \<le> h_contracts x" for xs :: "holding list"
    using that
  proof (induction xs)
    case (Cons x xs)
    then show ?case by (cases "xs = []") auto
  qed simp
  moreover have "?f \<noteq> []" using assms(2) by (auto simp: filter_empty_conv)
  ultimately have pos: "1 \<le> (\<Sum>x\<leftarrow>?f. h_contracts x)" using each by blast
  have "(\<Sum>x\<leftarrow>?f. signed_contracts x) = (\<Sum>x\<leftarrow>?f. (if h_side h = Buy then 1 else - 1) * h_contracts x)"
    by (rule arg_cong [of _ _ sum_list], rule map_cong) (use each in \<open>auto simp: signed_contracts_def\<close>)
  also have "\<dots> = (if h_side h = Buy then 1 else - 1) * (\<Sum>x\<leftarrow>?f. h_contracts x)" by (rule sum_list_const_mult)
  finally show ?thesis using pos by (auto simp: sum_at_def)
qed

subsection \<open>The requirement of covered holdings\<close>

definition book_legs :: "(int \<Rightarrow> date) \<Rightarrow> holding list \<Rightarrow> resolved_leg list" where
  "book_legs et_date hs = map (\<lambda>(c, signed). \<lparr>rl_id = occ_symbol et_date c, rl_contract = c,
     rl_position = (if 0 < signed then Long else Short), rl_ratio = \<bar>signed\<bar>\<rparr>) (signed_by_contract hs)"

lemma book_legs_signed:
  assumes "book_ok hs"
  shows "traverseR (signed_leg et_date) (signed_by_contract hs) = Inr (book_legs et_date hs)"
  unfolding book_legs_def
proof (rule traverseR_total)
  fix x assume x: "x \<in> set (signed_by_contract hs)"
  obtain c n where cn: "x = (c, n)" by fastforce
  have "c \<in> h_contract ` set hs"
    using x keys_tally [of "[]" h_contract signed_contracts hs] unfolding cn signed_by_contract_def by force
  then obtain h where "h \<in> set hs" "c = h_contract h" by auto
  then have "n \<noteq> 0" using signed_nonzero [OF assms] tally_entry x unfolding cn signed_by_contract_def by metis
  then show "signed_leg et_date x = Inr (case x of (c, signed) \<Rightarrow> \<lparr>rl_id = occ_symbol et_date c, rl_contract = c,
     rl_position = (if 0 < signed then Long else Short), rl_ratio = \<bar>signed\<bar>\<rparr>)"
    by (simp add: cn signed_leg_def)
qed

lemma covered_iff:
  "covered hs \<longleftrightarrow> (\<forall>k. 0 \<le> sum_at (\<lambda>h. cover_kind_of (h_contract h)) signed_contracts k hs)"
proof -
  let ?key = "\<lambda>h. cover_kind_of (h_contract h)"
  let ?d = "tally_on [] ?key signed_contracts hs"
  have none: "sum_at ?key signed_contracts k hs = 0" if "k \<notin> fst ` set ?d" for k
    using that unfolding keys_tally sum_at_def by (subst filter_False) auto
  have "(\<forall>(k, n)\<in>set ?d. 0 \<le> n) \<longleftrightarrow> (\<forall>k\<in>fst ` set ?d. 0 \<le> sum_at ?key signed_contracts k hs)"
    using tally_entry by fastforce
  also have "\<dots> \<longleftrightarrow> (\<forall>k. 0 \<le> sum_at ?key signed_contracts k hs)" using none by (metis order_refl)
  finally show ?thesis by (auto simp: covered_def list_all_iff)
qed

lemma book_call_slope:
  "call_slope (filter (\<lambda>l. portfolio_key l = (rt, e)) (book_legs et_date hs))
     = sum_at (\<lambda>h. cover_kind_of (h_contract h)) signed_contracts (rt, Call, e) hs"
proof -
  let ?g = "\<lambda>c. cover_kind_of c = (rt, Call, e)"
  have "call_slope (filter (\<lambda>l. portfolio_key l = (rt, e)) (map (\<lambda>(c, n). \<lparr>rl_id = occ_symbol et_date c, rl_contract = c,
     rl_position = (if 0 < n then Long else Short), rl_ratio = \<bar>n\<bar>\<rparr>) d)) = (\<Sum>(c, n)\<leftarrow>d. if ?g c then n else 0)" for d
  proof (induction d)
    case (Cons x d)
    obtain c n where "x = (c, n)" by fastforce
    with Cons show ?case
      by (auto simp: call_slope_def portfolio_key_def cover_kind_of_def leg_sign_def)
  qed (simp add: call_slope_def)
  then have "call_slope (filter (\<lambda>l. portfolio_key l = (rt, e)) (book_legs et_date hs))
      = (\<Sum>(c, n)\<leftarrow>signed_by_contract hs. if ?g c then n else 0)" by (simp add: book_legs_def)
  also have "\<dots> = (\<Sum>h\<leftarrow>hs. if ?g (h_contract h) then signed_contracts h else 0)"
    unfolding signed_by_contract_def tally_total by simp
  also have "\<dots> = sum_at (\<lambda>h. cover_kind_of (h_contract h)) signed_contracts (rt, Call, e) hs"
    by (induction hs) auto
  finally show ?thesis .
qed

lemma sum_at_mset: "mset xs = mset ys \<Longrightarrow> sum_at key val k xs = sum_at key val k ys"
  unfolding sum_at_def by (rule sum_list_filter_mset)

lemma tally_mset:
  assumes "mset xs = mset ys"
  shows "mset (tally_on [] key val xs) = mset (tally_on [] key val ys)"
proof -
  let ?d = "\<lambda>zs. tally_on [] key val zs"
  have entries: "set (?d zs) = (\<lambda>k. (k, sum_at key val k zs)) ` key ` set zs" for zs
  proof -
    have "p = (fst p, sum_at key val (fst p) zs)" if "p \<in> set (?d zs)" for p
      using that tally_entry [of "fst p" "snd p" key val zs] by (metis prod.collapse)
    then have "set (?d zs) = (\<lambda>k. (k, sum_at key val k zs)) ` fst ` set (?d zs)" by force
    then show ?thesis unfolding keys_tally by simp
  qed
  have "set (?d xs) = set (?d ys)" unfolding entries mset_eq_setD [OF assms] sum_at_mset [OF assms] ..
  moreover have "distinct (?d zs)" for zs using distinct_tally [of "[]" key val zs] by (simp add: distinct_map)
  ultimately show ?thesis by (simp add: set_eq_iff_mset_eq_distinct)
qed

lemma book_legs_mset: "mset hs = mset hs' \<Longrightarrow> mset (book_legs et_date hs) = mset (book_legs et_date hs')"
  using tally_mset [of hs hs' h_contract signed_contracts]
  by (simp add: book_legs_def signed_by_contract_def case_prod_unfold)

text \<open>What the book proves of its requirement, from the laws of the interface alone.\<close>

context held_requirement begin

lemma same_holdings:
  assumes "mset hs = mset hs'" "req (book_legs et_date hs) held_size = Inr c"
  shows "req (book_legs et_date hs') held_size = Inr c"
  using book_legs_mset [OF assms(1)] assms(2) by (rule any_order)

lemma covered_has_requirement:
  assumes "covered hs"
  shows "\<exists>c. req (book_legs et_date hs) held_size = Inr c \<and> 0 \<le> c"
proof (rule bounded)
  show "10 dvd es_multiplier held_size" by (simp add: held_size_def standard_multiplier_def)
  show "0 \<le> call_slope (filter (\<lambda>l. portfolio_key l = k) (book_legs et_date hs))" for k
    using assms by (cases k) (simp add: book_call_slope covered_iff)
qed

lemma bought_only_requirement:
  assumes "book_ok hs" "\<not> list_ex (\<lambda>h. h_side h = Sell) hs"
  shows "req (book_legs et_date hs) held_size = Inr 0"
proof (rule nothing_sold)
  have "0 \<le> n" if "(c, n) \<in> set (signed_by_contract hs)" for c n
  proof -
    have "n = sum_at h_contract signed_contracts c hs" using that tally_entry by (metis signed_by_contract_def)
    also have "0 \<le> \<dots>" unfolding sum_at_def
    proof (rule sum_list_nonneg_map)
      fix x assume "x \<in> set (filter (\<lambda>h. h_contract h = c) hs)"
      then have "x \<in> set hs" by simp
      then have "h_side x \<noteq> Sell" "1 \<le> h_contracts x"
        using assms by (auto simp: book_ok_def list_all_iff list_ex_iff holding_ok_def)
      then show "0 \<le> signed_contracts x" by (cases "h_side x") (simp_all add: signed_contracts_def)
    qed
    finally show ?thesis .
  qed
  moreover have "n \<noteq> 0" if "(c, n) \<in> set (signed_by_contract hs)" for c n
  proof -
    have "\<exists>l. signed_leg et_date (c, n) = Inr l"
      using book_legs_signed [OF assms(1), of et_date] that by (auto simp: traverseR_conv list_all2_conv_all_nth in_set_conv_nth)
    then show ?thesis by (auto simp: signed_leg_def split: if_splits)
  qed
  ultimately show "list_all (\<lambda>l. rl_position l = Long \<and> 0 \<le> rl_ratio l) (book_legs et_date hs)"
    by (fastforce simp: book_legs_def list_all_iff order_less_le)
qed

end

end
