(* ===== verification/Cover_Rules.thy ===== *)
theory Cover_Rules
  imports Cover_Book
begin

text \<open>
  What the rules of \<open>app/options_backtest/cover_book.py\<close> keep true of what is held: the plan of sold legs that
  leave with a bought one, the judgment of an opening group, and the books reached from an empty one by the moves the
  replay makes.
\<close>

subsection \<open>Well-formed books\<close>

definition held_ok :: "held \<Rightarrow> bool" where
  "held_ok held \<longleftrightarrow> list_all holding_ok (hd_holdings held) \<and> make_held (hd_listed held) (hd_holdings held) = Inr held"

definition one_expiry :: "holding list \<Rightarrow> bool" where
  "one_expiry hs \<longleftrightarrow> list_ex (\<lambda>h. h_side h = Sell) hs
     \<longrightarrow> (\<forall>h\<in>set hs. \<forall>h'\<in>set hs. oc_expiry_ms (h_contract h) = oc_expiry_ms (h_contract h'))"

lemma one_expiry_subset: "one_expiry hs \<Longrightarrow> set hs' \<subseteq> set hs \<Longrightarrow> one_expiry hs'"
  unfolding one_expiry_def list_ex_iff by blast

lemma one_sided_start: "one_sided [] hs \<longleftrightarrow> sides_agree hs"
  by (simp add: one_sided_iff)

lemma make_held_Inr:
  "make_held listed hs = Inr held \<longleftrightarrow>
     distinct listed \<and> [] \<notin> set listed \<and> distinct (map h_leg_id hs) \<and> set (map h_leg_id hs) \<subseteq> set listed
     \<and> sides_agree hs
     \<and> held = \<lparr>hd_listed = listed, hd_holdings = sort_key (\<lambda>h. place listed (h_leg_id h)) hs\<rparr>"
  unfolding make_held_def one_sided_start by auto

lemma sides_agree_cong: "set hs = set hs' \<Longrightarrow> sides_agree hs \<longleftrightarrow> sides_agree hs'"
  by (simp only: sides_agree_def)

lemma distinct_map_mset: "mset xs = mset ys \<Longrightarrow> distinct (map f xs) \<longleftrightarrow> distinct (map f ys)"
  by (metis mset_eq_imp_distinct_iff mset_map)

lemma held_ok_iff:
  "held_ok held \<longleftrightarrow> list_all holding_ok (hd_holdings held) \<and> distinct (hd_listed held) \<and> [] \<notin> set (hd_listed held)
     \<and> distinct (map h_leg_id (hd_holdings held)) \<and> set (map h_leg_id (hd_holdings held)) \<subseteq> set (hd_listed held)
     \<and> sides_agree (hd_holdings held) \<and> sorted (map (\<lambda>h. place (hd_listed held) (h_leg_id h)) (hd_holdings held))"
proof -
  have "held = \<lparr>hd_listed = hd_listed held, hd_holdings = sort_key f (hd_holdings held)\<rparr>
      \<longleftrightarrow> sort_key f (hd_holdings held) = hd_holdings held" for f :: "holding \<Rightarrow> nat"
    by (cases held) auto
  moreover have "sort_key f hs = hs \<longleftrightarrow> sorted (map f hs)" for f :: "holding \<Rightarrow> nat" and hs
    by (metis sorted_sort_key sort_key_id_if_sorted)
  ultimately show ?thesis unfolding held_ok_def make_held_Inr by meson
qed

lemma held_ok_book: "held_ok held \<Longrightarrow> book_ok (hd_holdings held)"
  by (simp add: held_ok_iff book_ok_def)

lemma make_held_ok: "make_held listed hs = Inr held \<Longrightarrow> list_all holding_ok hs \<Longrightarrow> held_ok held"
proof -
  assume "make_held listed hs = Inr held" and ok: "list_all holding_ok hs"
  then have m: "distinct listed" "[] \<notin> set listed" "distinct (map h_leg_id hs)" "set (map h_leg_id hs) \<subseteq> set listed"
    "sides_agree hs" and held: "held = \<lparr>hd_listed = listed, hd_holdings = sort_key (\<lambda>h. place listed (h_leg_id h)) hs\<rparr>"
    unfolding make_held_Inr by blast+
  have "sides_agree (sort_key (\<lambda>h. place listed (h_leg_id h)) hs)"
    using m(5) by (subst sides_agree_cong [of _ hs]) simp_all
  moreover have "distinct (map h_leg_id (sort_key (\<lambda>h. place listed (h_leg_id h)) hs))"
    using m(3) by (subst distinct_map_mset [of _ hs]) simp_all
  ultimately show "held_ok held" unfolding held_ok_iff held using m ok by (simp add: list_all_iff)
qed

lemma holding_of_mem:
  "held_ok held \<Longrightarrow> holding_of held i = Some h \<longleftrightarrow> h \<in> set (hd_holdings held) \<and> h_leg_id h = i"
proof -
  have "find (\<lambda>h. h_leg_id h = i) hs = Some h \<longleftrightarrow> h \<in> set hs \<and> h_leg_id h = i"
    if "distinct (map h_leg_id hs)" for hs :: "holding list"
    using that by (induction hs) auto
  then show "held_ok held \<Longrightarrow> ?thesis" by (simp add: held_ok_iff holding_of_def)
qed

lemma without_Inr:
  assumes "held_ok held" "set ids \<subseteq> set (map h_leg_id (hd_holdings held))"
  shows "without held ids = Inr (held\<lparr>hd_holdings := filter (\<lambda>h. h_leg_id h \<notin> set ids) (hd_holdings held)\<rparr>)"
    and "held_ok (held\<lparr>hd_holdings := filter (\<lambda>h. h_leg_id h \<notin> set ids) (hd_holdings held)\<rparr>)"
proof -
  let ?h = "held\<lparr>hd_holdings := filter (\<lambda>h. h_leg_id h \<notin> set ids) (hd_holdings held)\<rparr>"
  show ok: "held_ok ?h"
    using assms(1) unfolding held_ok_iff
    by (auto simp: list_all_iff sides_agree_def distinct_map_filter sorted_filter)
  then have "make_held (hd_listed ?h) (hd_holdings ?h) = Inr ?h" by (simp only: held_ok_def)
  with assms(2) show "without held ids = Inr ?h" by (simp add: without_def)
qed

subsection \<open>The requirement of a book\<close>

lemma requirement_of_book:
  "book_ok hs \<Longrightarrow> requirement_cents et_date hs =
     (case portfolio_broker_requirement (book_legs et_date hs) held_size of
        Inl (Refused r) \<Rightarrow> Inl (Cover_Invariant_Broken r) | Inl e \<Rightarrow> Inl (Book_Money e) | Inr c \<Rightarrow> Inr c)"
  by (simp add: requirement_cents_def book_legs_signed)

lemma covered_requirement:
  assumes "book_ok hs" "covered hs"
  shows "\<exists>c. requirement_cents et_date hs = Inr c \<and> 0 \<le> c"
  using portfolio.covered_has_requirement [OF assms(2), of et_date] requirement_of_book [OF assms(1), of et_date]
  by force

lemma bought_requirement:
  assumes "book_ok hs" "\<not> list_ex (\<lambda>h. h_side h = Sell) hs"
  shows "requirement_cents et_date hs = Inr 0"
  using portfolio.bought_only_requirement [OF assms, of et_date] requirement_of_book [OF assms(1), of et_date] by simp

lemma bought_covered:
  assumes "book_ok hs" "\<not> list_ex (\<lambda>h. h_side h = Sell) hs"
  shows "covered hs"
proof -
  have "0 \<le> signed_contracts h" if "h \<in> set hs" for h
    using assms that by (cases "h_side h") (auto simp: book_ok_def list_all_iff list_ex_iff holding_ok_def signed_contracts_def)
  then show ?thesis unfolding covered_iff sum_at_def by (auto intro!: sum_list_nonneg_map)
qed

lemma stands_Inr:
  "book_ok hs \<Longrightarrow> \<exists>b. stands et_date before hs = Inr b"
  using covered_requirement [of hs et_date] by (cases "covered hs") (auto simp: stands_def)

lemma stands_True:
  "stands et_date before hs = Inr True \<longleftrightarrow> covered hs \<and> (\<exists>r. requirement_cents et_date hs = Inr r \<and> r \<le> before)"
  by (auto simp: stands_def result_simps)

lemma covered_mset: "mset hs = mset hs' \<Longrightarrow> covered hs \<longleftrightarrow> covered hs'"
  using sum_at_mset [of hs hs' "\<lambda>h. cover_kind_of (h_contract h)" signed_contracts] by (simp add: covered_iff)

lemma requirement_mset:
  assumes "book_ok hs" "mset hs = mset hs'" "requirement_cents et_date hs = Inr c"
  shows "requirement_cents et_date hs' = Inr c"
proof -
  have "portfolio_broker_requirement (book_legs et_date hs) held_size = Inr c"
    using assms(3) by (auto simp: requirement_of_book [OF assms(1)] split: sum.splits money_error.splits)
  from portfolio.same_holdings [OF assms(2) this]
  have "portfolio_broker_requirement (book_legs et_date hs') held_size = Inr c" .
  moreover have "book_ok hs'" using mset_eq_setD [OF assms(2)] by (intro book_ok_subset [OF assms(1)]) simp
  ultimately show ?thesis by (simp add: requirement_of_book)
qed

subsection \<open>The closing loop\<close>

text \<open>
  What the closing loop asks of its test: an answer for well-formed holdings, whose parts are well-formed too,
  and yes once nothing sold is left.
\<close>

locale closing_rule =
  fixes st :: "int \<Rightarrow> holding list \<Rightarrow> ('e, bool) result" and ok :: "holding list \<Rightarrow> bool"
  assumes part: "ok hs \<Longrightarrow> set hs' \<subseteq> set hs \<Longrightarrow> ok hs'"
    and returns: "ok hs \<Longrightarrow> \<exists>b. st before hs = Inr b"
    and nothing_sold: "ok hs \<Longrightarrow> 0 \<le> before \<Longrightarrow> \<not> list_ex (\<lambda>h. h_side h = Sell) hs \<Longrightarrow> st before hs = Inr True"
begin

lemma close_until_plan:
  assumes "ok hs" "0 \<le> before" "distinct hs" "distinct sold" "set sold = {h \<in> set hs. h_side h = Sell}"
  shows "\<exists>n \<le> length sold. close_until (st before) hs sold = Inr (take n sold)
     \<and> st before (filter (\<lambda>h. h \<notin> set (take n sold)) hs) = Inr True
     \<and> (\<forall>m<n. st before (filter (\<lambda>h. h \<notin> set (take m sold)) hs) = Inr False)"
  using assms
proof (induction sold arbitrary: hs)
  case Nil
  have "set hs \<inter> {h. h_side h = Sell} = {}" using Nil.prems(5) by auto
  then have "\<not> list_ex (\<lambda>h. h_side h = Sell) hs" by (auto simp: list_ex_iff)
  with Nil.prems(1,2) show ?case by (simp add: nothing_sold)
next
  case (Cons s sold)
  obtain b where b: "st before hs = Inr b" using returns [OF Cons.prems(1)] by blast
  show ?case
  proof (cases b)
    case True
    with b show ?thesis by (intro exI [of _ 0]) simp
  next
    case False
    let ?hs = "remove1 s hs"
    have without: "?hs = filter (\<lambda>h. h \<noteq> s) hs"
      using Cons.prems(3) by (auto simp: distinct_remove1_removeAll removeAll_filter_not_eq intro!: filter_cong)
    have "ok ?hs" by (rule part [OF Cons.prems(1)]) (rule set_remove1_subset)
    moreover have "distinct ?hs" "distinct sold" "set sold = {h \<in> set ?hs. h_side h = Sell}"
      using Cons.prems unfolding without by auto
    ultimately obtain n where n: "n \<le> length sold" "close_until (st before) ?hs sold = Inr (take n sold)"
      "st before (filter (\<lambda>h. h \<notin> set (take n sold)) ?hs) = Inr True"
      "\<forall>m<n. st before (filter (\<lambda>h. h \<notin> set (take m sold)) ?hs) = Inr False"
      using Cons.IH [of ?hs] Cons.prems(2) by blast
    have step: "filter (\<lambda>h. h \<notin> set (take m sold)) ?hs = filter (\<lambda>h. h \<notin> set (take (Suc m) (s # sold))) hs" for m
      unfolding without by (auto intro!: filter_cong)
    have "st before (filter (\<lambda>h. h \<notin> set (take m (s # sold))) hs) = Inr False" if "m < Suc n" for m
      using that b False n(4) step [of "m - 1"] by (cases m) auto
    with n step [of n] b False show ?thesis by (intro exI [of _ "Suc n"]) simp
  qed
qed

end

interpretation closing: closing_rule "stands et_date" book_ok for et_date
proof
  fix hs :: "holding list" and before :: int
  assume ok: "book_ok hs"
  then show "\<exists>b. stands et_date before hs = Inr b" by (rule stands_Inr)
  show "book_ok hs'" if "set hs' \<subseteq> set hs" for hs' using ok that by (rule book_ok_subset)
  show "stands et_date before hs = Inr True" if "0 \<le> before" "\<not> list_ex (\<lambda>h. h_side h = Sell) hs"
    using bought_covered [OF ok that(2)] bought_requirement [OF ok that(2)] that(1) by (simp add: stands_True)
qed

subsection \<open>The legs that leave together\<close>

abbreviation ids :: "'a holding_scheme list \<Rightarrow> string list" where "ids \<equiv> map h_leg_id"

abbreviation left_without :: "held \<Rightarrow> string list \<Rightarrow> holding list" where
  "left_without held gone \<equiv> filter (\<lambda>h. h_leg_id h \<notin> set gone) (hd_holdings held)"

lemma held_ok_inj: "held_ok held \<Longrightarrow> inj_on h_leg_id (set (hd_holdings held))"
  by (simp add: held_ok_iff distinct_map)

lemma bought_leg_Inr:
  "bought_leg held i = Inr h \<longleftrightarrow> holding_of held i = Some h \<and> h_side h = Buy"
  by (auto simp: bought_leg_def split: option.splits)

lemma leaving_plan_facts:
  assumes ok: "held_ok held" and cov: "is_covered held"
    and leaving: "\<And>i. i \<in> set leaving \<Longrightarrow> \<exists>h. holding_of held i = Some h \<and> h_side h = Buy"
  shows "\<exists>before plan. requirement_cents et_date (hd_holdings held) = Inr before
     \<and> leaving_plan et_date held leaving = Inr plan \<and> distinct plan
     \<and> (\<forall>i\<in>set plan. \<exists>h. holding_of held i = Some h \<and> h_side h = Sell)
     \<and> stands et_date before (left_without held (leaving @ plan)) = Inr True
     \<and> (\<forall>m<length plan. stands et_date before (left_without held (leaving @ take m plan)) = Inr False)"
proof -
  let ?hs = "hd_holdings held"
  have book: "book_ok ?hs" by (rule held_ok_book [OF ok])
  obtain before where before: "requirement_cents et_date ?hs = Inr before" "0 \<le> before"
    using covered_requirement [OF book, of et_date] cov by (auto simp: is_covered_def)
  define ks where "ks = map (\<lambda>i. cover_kind_of (h_contract (the (holding_of held i)))) leaving"
  have ks: "traverseR (\<lambda>i. bindR (bought_leg held i) (\<lambda>h. Inr (cover_kind_of (h_contract h)))) leaving = Inr ks"
    unfolding ks_def
  proof (rule traverseR_total)
    fix i assume "i \<in> set leaving"
    from leaving [OF this] obtain h where h: "holding_of held i = Some h" "bought_leg held i = Inr h"
      unfolding bought_leg_Inr by blast
    then show "bindR (bought_leg held i) (\<lambda>h. Inr (cover_kind_of (h_contract h)))
        = Inr (cover_kind_of (h_contract (the (holding_of held i))))" by simp
  qed
  define rest where "rest = left_without held leaving"
  define sold where "sold = sold_in_closing_order (hd_listed held) ks rest"
  have dist: "distinct ?hs" using ok by (simp add: held_ok_iff distinct_map)
  have rest: "book_ok rest" "distinct rest"
    using dist unfolding rest_def by (auto intro: book_ok_subset [OF book])
  have sold: "distinct sold" "set sold = {h \<in> set rest. h_side h = Sell}"
    using rest(2) by (simp_all add: sold_def sold_in_closing_order_def)
  from closing.close_until_plan [OF rest(1) before(2) rest(2) sold, of et_date]
  obtain n where n: "close_until (stands et_date before) rest sold = Inr (take n sold)" "n \<le> length sold"
    "stands et_date before (filter (\<lambda>h. h \<notin> set (take n sold)) rest) = Inr True"
    "\<forall>m<n. stands et_date before (filter (\<lambda>h. h \<notin> set (take m sold)) rest) = Inr False" by blast
  define plan where "plan = ids (take n sold)"
  have sub: "set sold \<subseteq> set ?hs" using sold(2) by (auto simp: rest_def)
  have same: "filter (\<lambda>h. h \<notin> set (take m sold)) rest = left_without held (leaving @ take m (ids sold))" for m
  proof -
    have "h_leg_id h \<in> set (take m (ids sold)) \<longleftrightarrow> h \<in> set (take m sold)" if "h \<in> set ?hs" for h
      using inj_on_image_mem_iff [OF held_ok_inj [OF ok] that, of "set (take m sold)"] sub
      by (auto simp: take_map dest: in_set_takeD)
    then show ?thesis unfolding rest_def filter_filter by (intro filter_cong) auto
  qed
  have "leaving_plan et_date held leaving = Inr plan"
    using n(1) by (simp add: leaving_plan_def ks before(1) rest_def [symmetric] sold_def [symmetric] plan_def Let_def)
  moreover have "distinct plan"
  proof -
    have "inj_on h_leg_id (set sold)" using held_ok_inj [OF ok] sub by (rule inj_on_subset)
    then show ?thesis using sold(1) by (simp add: plan_def distinct_map inj_on_subset set_take_subset)
  qed
  moreover have "\<forall>i\<in>set plan. \<exists>h. holding_of held i = Some h \<and> h_side h = Sell"
  proof
    fix i assume "i \<in> set plan"
    then obtain h where "h \<in> set (take n sold)" "h_leg_id h = i" by (auto simp: plan_def)
    then have "h \<in> set ?hs" "h_side h = Sell" "h_leg_id h = i" using sub sold(2) by (auto dest: in_set_takeD)
    then show "\<exists>h. holding_of held i = Some h \<and> h_side h = Sell" using holding_of_mem [OF ok] by blast
  qed
  moreover have "stands et_date before (left_without held (leaving @ plan)) = Inr True"
    using n(3) same [of n] by (simp add: plan_def take_map)
  moreover have "\<forall>m<length plan. stands et_date before (left_without held (leaving @ take m plan)) = Inr False"
    using n(2,4) same by (auto simp: plan_def take_map min_def)
  ultimately show ?thesis using before(1) by blast
qed

text \<open>
  C21: from covered holdings, the plan of what must go with bought legs that leave always exists: it names sold legs
  that are held, each once, and once the leaving legs and the plan are gone what remains is a well-formed book, is
  covered, and pledges no more than before. No shorter beginning of the plan is enough.
\<close>

theorem leaving_plan_protects:
  assumes "held_ok held" "is_covered held"
    and "list_all (\<lambda>i. \<exists>h. holding_of held i = Some h \<and> h_side h = Buy) leaving"
  shows "\<exists>before plan rest after.
     requirement_cents et_date (hd_holdings held) = Inr before
     \<and> leaving_plan et_date held leaving = Inr plan
     \<and> distinct plan \<and> list_all (\<lambda>i. \<exists>h. holding_of held i = Some h \<and> h_side h = Sell) plan
     \<and> without held (leaving @ plan) = Inr rest \<and> held_ok rest \<and> is_covered rest
     \<and> requirement_cents et_date (hd_holdings rest) = Inr after \<and> after \<le> before
     \<and> list_all (\<lambda>m. stands et_date before (left_without held (leaving @ take m plan)) = Inr False) [0..<length plan]"
proof -
  from leaving_plan_facts [OF assms(1,2), of leaving et_date] assms(3)
  obtain before plan where p: "requirement_cents et_date (hd_holdings held) = Inr before"
    "leaving_plan et_date held leaving = Inr plan" "distinct plan"
    "\<forall>i\<in>set plan. \<exists>h. holding_of held i = Some h \<and> h_side h = Sell"
    "stands et_date before (left_without held (leaving @ plan)) = Inr True"
    "\<forall>m<length plan. stands et_date before (left_without held (leaving @ take m plan)) = Inr False"
    by (auto simp: list_all_iff)
  have "set (leaving @ plan) \<subseteq> set (ids (hd_holdings held))"
    using p(4) assms(3) holding_of_mem [OF assms(1)] by (force simp: list_all_iff)
  note w = without_Inr [OF assms(1) this]
  from p(5) w show ?thesis unfolding stands_True
    by (intro exI [of _ before] exI [of _ plan])
      (use p in \<open>auto simp: is_covered_def list_all_iff\<close>)
qed

definition book_call :: "int \<Rightarrow> option_contract" where
  "book_call strike = \<lparr>oc_root = ''SPY'', oc_expiry_ms = 1705698000000, oc_right = Call, oc_strike = strike\<rparr>"

definition spread_book :: held where
  "spread_book = \<lparr>hd_listed = [''bought'', ''sold''], hd_holdings =
     [\<lparr>h_leg_id = ''bought'', h_contract = book_call 475000, h_side = Buy, h_contracts = 2, h_multiplier = 100\<rparr>,
      \<lparr>h_leg_id = ''sold'', h_contract = book_call 480000, h_side = Sell, h_contracts = 2, h_multiplier = 100\<rparr>]\<rparr>"

lemma spread_book_ok: "held_ok spread_book" "is_covered spread_book" "one_expiry (hd_holdings spread_book)"
  "holding_of spread_book ''bought'' =
     Some \<lparr>h_leg_id = ''bought'', h_contract = book_call 475000, h_side = Buy, h_contracts = 2, h_multiplier = 100\<rparr>"
  by (simp_all add: held_ok_iff spread_book_def holding_ok_def standard_multiplier_def sides_agree_def place_def
      is_covered_def covered_def tally_on_def dict_get_def cover_kind_of_def book_call_def signed_contracts_def
      one_expiry_def holding_of_def)

theorem leaving_plan_protects_witness:
  "\<exists>before plan rest after.
     requirement_cents (\<lambda>_. (2024, 1, 19)) (hd_holdings spread_book) = Inr before
     \<and> leaving_plan (\<lambda>_. (2024, 1, 19)) spread_book [''bought''] = Inr plan
     \<and> distinct plan \<and> list_all (\<lambda>i. \<exists>h. holding_of spread_book i = Some h \<and> h_side h = Sell) plan
     \<and> without spread_book ([''bought''] @ plan) = Inr rest \<and> held_ok rest \<and> is_covered rest
     \<and> requirement_cents (\<lambda>_. (2024, 1, 19)) (hd_holdings rest) = Inr after \<and> after \<le> before
     \<and> list_all (\<lambda>m. stands (\<lambda>_. (2024, 1, 19)) before (left_without spread_book ([''bought''] @ take m plan)) = Inr False)
         [0..<length plan]"
  by (rule leaving_plan_protects) (use spread_book_ok in auto)

end
