(* ===== verification/Cover_Admission.thy ===== *)
theory Cover_Admission
  imports Cover_Rules
begin

text \<open>
  The judgment of an opening group in \<open>app/options_backtest/cover_book.py\<close>: what each of its four steps leaves
  standing, and that what is taken may be opened. The books reached from an empty one by the replay's moves are
  then all covered.
\<close>

subsection \<open>What a step leaves standing\<close>

text \<open>A step shuffles its candidates into those that stand and those it refuses, each for the step's reason.\<close>

definition judges :: "opening_refusal \<Rightarrow> candidate list \<Rightarrow> judged \<Rightarrow> bool" where
  "judges r cs j \<longleftrightarrow> (\<exists>gone. cs \<in> shuffles (fst j) gone \<and> snd j = map (\<lambda>c. (h_leg_id c, r)) gone)"

lemma judges_Nil [simp]: "judges r [] ([], [])"
  by (simp add: judges_def)

lemma judges_keep: "judges r cs j \<Longrightarrow> judges r (c # cs) (keep c j)"
  unfolding judges_def keep_def by (auto intro: Cons_in_shuffles_leftI)

lemma judges_refuse: "judges r cs j \<Longrightarrow> judges r (c # cs) (refuse c r j)"
  unfolding judges_def refuse_def
proof (elim exE conjE)
  fix gone assume "cs \<in> shuffles (fst j) gone" "snd j = map (\<lambda>c. (h_leg_id c, r)) gone"
  then show "\<exists>gone. c # cs \<in> shuffles (fst (fst j, (h_leg_id c, r) # snd j)) gone
      \<and> snd (fst j, (h_leg_id c, r) # snd j) = map (\<lambda>c. (h_leg_id c, r)) gone"
    by (intro exI [of _ "c # gone"]) (simp add: Cons_in_shuffles_rightI)
qed

lemma other_side_judges: "judges Other_Side cs (other_side_loop sides cs)"
  by (induction sides cs rule: other_side_loop.induct)
    (auto split: option.splits intro: judges_keep judges_refuse)

lemma second_expiry_judges: "judges Second_Expiry cs (second_expiry_loop es s cs)"
  by (induction es s cs rule: second_expiry_loop.induct) (auto simp: Let_def intro: judges_keep judges_refuse)

lemma cover_judges: "judges No_Cover cs (cover_loop cover cs)"
  by (induction cover cs rule: cover_loop.induct) (auto simp: Let_def intro: judges_keep judges_refuse)

lemma cash_judges:
  assumes "short_of_cash et_date held cash cs = Inr j"
  shows "judges Cash_Short cs j"
proof -
  have all: "judges Cash_Short cs ([], map (\<lambda>c. (h_leg_id c, Cash_Short)) cs)" "judges Cash_Short cs (cs, [])"
    by (auto simp: judges_def)
  show ?thesis
    using assms all by (auto simp: short_of_cash_def result_simps split: if_splits sum.splits)
qed


lemma shuffles_filter:
  "zs \<in> shuffles xs ys \<Longrightarrow> distinct (map f zs) \<Longrightarrow>
     xs = filter (\<lambda>z. f z \<notin> f ` set ys) zs \<and> f ` set zs = f ` set xs \<union> f ` set ys \<and> f ` set xs \<inter> f ` set ys = {}"
proof (induction xs ys arbitrary: zs rule: shuffles.induct)
  case (3 x xs y ys)
  from 3(3) consider z where "zs = x # z" "z \<in> shuffles xs (y # ys)" | z where "zs = y # z" "z \<in> shuffles (x # xs) ys"
    by auto
  then show ?case
  proof cases
    case 1
    with 3(1) [OF 1(2)] 3(4) show ?thesis by auto
  next
    case 2
    then have d: "distinct (map f z)" "f y \<notin> f ` set z" using 3(4) by auto
    with 3(2) [OF 2(2)] have IH: "x # xs = filter (\<lambda>z. f z \<notin> f ` set ys) z" "f ` set z = f ` set (x # xs) \<union> f ` set ys"
      "f ` set (x # xs) \<inter> f ` set ys = {}" "f y \<notin> f ` set z" by blast+
    have ne: "f z' \<noteq> f y" if "z' \<in> set z" for z' using d(2) that by (metis imageI)
    have "filter (\<lambda>z. f z \<notin> f ` set (y # ys)) zs = filter (\<lambda>z. f z \<notin> f ` set (y # ys)) z"
      unfolding 2(1) by simp
    also have "\<dots> = filter (\<lambda>z. f z \<notin> f ` set ys) z" by (rule filter_cong) (simp_all add: ne)
    finally have "x # xs = filter (\<lambda>z. f z \<notin> f ` set (y # ys)) zs" using IH(1) by simp
    moreover have "f ` set zs = f ` set (x # xs) \<union> f ` set (y # ys)" unfolding 2(1) using IH(2) by auto
    moreover have "f ` set (x # xs) \<inter> f ` set (y # ys) = {}"
    proof -
      have "f y \<notin> f ` set (x # xs)" using d(2) IH(2) by blast
      then show ?thesis using IH(3) by auto
    qed
    ultimately show ?thesis by blast
  qed
qed (auto simp: filter_empty_conv)

lemma judges_filter:
  assumes "judges r cs j" "distinct (ids cs)"
  shows "fst j = filter (\<lambda>c. h_leg_id c \<notin> fst ` set (snd j)) cs"
    and "snd j = map (\<lambda>c. (h_leg_id c, r)) (filter (\<lambda>c. h_leg_id c \<in> fst ` set (snd j)) cs)"
proof -
  obtain gone where g: "cs \<in> shuffles (fst j) gone" "snd j = map (\<lambda>c. (h_leg_id c, r)) gone"
    using assms(1) unfolding judges_def by blast
  have im: "fst ` set (snd j) = h_leg_id ` set gone" unfolding g(2) by (simp add: image_image)
  from shuffles_filter [OF g(1) assms(2)] show "fst j = filter (\<lambda>c. h_leg_id c \<notin> fst ` set (snd j)) cs"
    unfolding im by blast
  from g(1) have "cs \<in> shuffles gone (fst j)" by (simp add: shuffles_commutes)
  from shuffles_filter [OF this assms(2)] have s: "gone = filter (\<lambda>z. h_leg_id z \<notin> h_leg_id ` set (fst j)) cs"
    "h_leg_id ` set cs = h_leg_id ` set gone \<union> h_leg_id ` set (fst j)" "h_leg_id ` set gone \<inter> h_leg_id ` set (fst j) = {}"
    by blast+
  then have "gone = filter (\<lambda>c. h_leg_id c \<in> h_leg_id ` set gone) cs"
    by (subst s(1)) (rule filter_cong, use s(2,3) in auto)
  with g(2) show "snd j = map (\<lambda>c. (h_leg_id c, r)) (filter (\<lambda>c. h_leg_id c \<in> fst ` set (snd j)) cs)"
    unfolding im by simp
qed

subsection \<open>What each step keeps\<close>

abbreviation opened_with :: "holding list \<Rightarrow> candidate list \<Rightarrow> holding list" where
  "opened_with hs cs \<equiv> hs @ map holding.truncate cs"

lemma truncate_simps [simp]: "h_leg_id (holding.truncate c) = h_leg_id c" "h_contract (holding.truncate c) = h_contract c"
  "h_side (holding.truncate c) = h_side c" "h_contracts (holding.truncate c) = h_contracts c"
  "h_multiplier (holding.truncate c) = h_multiplier c"
  "signed_contracts (holding.truncate c) = signed_contracts c" "holding_ok (holding.truncate c) \<longleftrightarrow> holding_ok c"
  by (simp_all add: holding.truncate_def signed_contracts_def holding_ok_def)

lemma sum_at_truncate: "sum_at (\<lambda>h. f (h_contract h)) signed_contracts k (map holding.truncate cs)
    = sum_at (\<lambda>c. f (h_contract c)) signed_contracts k cs"
  by (induction cs) auto

lemma other_side_agree:
  assumes "\<And>h. h \<in> set hs \<Longrightarrow> map_of sides (h_contract h) = Some (h_side h)"
  shows "sides_agree (opened_with hs (fst (other_side_loop sides cs)))"
  using assms
proof (induction sides cs arbitrary: hs rule: other_side_loop.induct)
  case (1 sides)
  have "h_side h = h_side h'" if "h \<in> set hs" "h' \<in> set hs" "h_contract h = h_contract h'" for h h'
    using 1 [OF that(1)] 1 [OF that(2)] that(3) by simp
  then have "sides_agree hs" unfolding sides_agree_def by blast
  then show ?case by simp
next
  case (2 sides c cs)
  show ?case
  proof (cases "map_of sides (h_contract c)")
    case None
    then have "h_contract h \<noteq> h_contract c" if "h \<in> set hs" for h using 2(4) [OF that] by auto
    then have "map_of ((h_contract c, h_side c) # sides) (h_contract h) = Some (h_side h)"
      if "h \<in> set (hs @ [holding.truncate c])" for h using that 2(4) by auto
    then have "sides_agree (opened_with (hs @ [holding.truncate c])
        (fst (other_side_loop ((h_contract c, h_side c) # sides) cs)))" by (rule 2(1) [OF None])
    then show ?thesis by (simp add: None keep_def)
  next
    case (Some s)
    show ?thesis
    proof (cases "s = h_side c")
      case True
      then have "map_of sides (h_contract h) = Some (h_side h)" if "h \<in> set (hs @ [holding.truncate c])" for h
        using that 2(4) Some by auto
      then have "sides_agree (opened_with (hs @ [holding.truncate c]) (fst (other_side_loop sides cs)))"
        by (rule 2(2) [OF Some True])
      then show ?thesis by (simp add: Some True keep_def)
    next
      case False
      from 2(3) [OF Some False 2(4)] show ?thesis by (simp add: Some False refuse_def)
    qed
  qed
qed

lemma second_expiry_one:
  assumes "set es = (\<lambda>h. oc_expiry_ms (h_contract h)) ` set hs" "s \<longleftrightarrow> list_ex (\<lambda>h. h_side h = Sell) hs" "one_expiry hs"
  shows "one_expiry (opened_with hs (fst (second_expiry_loop es s cs)))"
  using assms
proof (induction es s cs arbitrary: hs rule: second_expiry_loop.induct)
  case (2 es s c cs)
  let ?e = "oc_expiry_ms (h_contract c)"
  show ?case
  proof (cases "list_ex (\<lambda>e. e \<noteq> ?e) es \<and> (s \<or> h_side c = Sell)")
    case True
    with 2(1) [OF refl refl True 2(3-5)] show ?thesis by (simp add: refuse_def)
  next
    case False
    let ?hs = "hs @ [holding.truncate c]"
    have one: "one_expiry ?hs"
      unfolding one_expiry_def
    proof (intro impI ballI)
      fix h h' assume sold: "list_ex (\<lambda>h. h_side h = Sell) ?hs" and h: "h \<in> set ?hs" "h' \<in> set ?hs"
      have "s \<or> h_side c = Sell" using sold 2(4) by simp
      with False have "\<not> list_ex (\<lambda>e. e \<noteq> ?e) es" by blast
      then have "e = ?e" if "e \<in> set es" for e using that by (auto simp: list_ex_iff)
      then have "oc_expiry_ms (h_contract x) = ?e" if "x \<in> set hs" for x using that 2(3) by blast
      then have "oc_expiry_ms (h_contract x) = ?e" if "x \<in> set ?hs" for x using that by auto
      with h show "oc_expiry_ms (h_contract h) = oc_expiry_ms (h_contract h')" by simp
    qed
    have "set (List.insert ?e es) = (\<lambda>h. oc_expiry_ms (h_contract h)) ` set ?hs" using 2(3) by simp
    moreover have "(s \<or> h_side c = Sell) \<longleftrightarrow> list_ex (\<lambda>h. h_side h = Sell) ?hs" using 2(4) by simp
    ultimately have "one_expiry (opened_with ?hs (fst (second_expiry_loop (List.insert ?e es) (s \<or> h_side c = Sell) cs)))"
      using 2(2) [OF refl refl False] one by blast
    then show ?thesis by (simp only: second_expiry_loop.simps Let_def if_not_P [OF False]) (simp add: keep_def)
  qed
qed simp

abbreviation kind_of_holding :: "'a holding_scheme \<Rightarrow> cover_kind" where "kind_of_holding h \<equiv> cover_kind_of (h_contract h)"

abbreviation sells :: "cover_kind \<Rightarrow> candidate list \<Rightarrow> candidate list" where
  "sells k cs \<equiv> filter (\<lambda>c. h_side c = Sell \<and> kind_of_holding c = k) cs"

lemma cover_loop_sells:
  "sells k (fst (cover_loop cover cs)) \<noteq> [] \<Longrightarrow>
     (\<Sum>c\<leftarrow>sells k (fst (cover_loop cover cs)). h_contracts c) \<le> dict_get cover k"
proof (induction cover cs rule: cover_loop.induct)
  case (2 cover c cs)
  let ?k = "kind_of_holding c"
  let ?cover = "AList.update ?k (dict_get cover ?k - h_contracts c) cover"
  consider "h_side c \<noteq> Sell" | "h_side c = Sell" "dict_get cover ?k < h_contracts c"
    | "h_side c = Sell" "\<not> dict_get cover ?k < h_contracts c" by blast
  then show ?case
  proof cases
    case 3
    let ?rest = "sells k (fst (cover_loop ?cover cs))"
    have rest: "(\<Sum>c\<leftarrow>?rest. h_contracts c) \<le> dict_get ?cover k" if "?rest \<noteq> []"
      using 2(2) [OF refl 3] that by blast
    show ?thesis
    proof (cases "?k = k")
      case True
      with 3 rest show ?thesis by (cases "?rest = []") (auto simp: Let_def keep_def dict_get_update)
    next
      case False
      with 3 rest 2(4) show ?thesis by (auto simp: Let_def keep_def dict_get_update)
    qed
  qed (use 2 in \<open>auto simp: Let_def keep_def refuse_def\<close>)
qed simp

lemma cover_loop_buys: "filter (\<lambda>c. h_side c = Buy) (fst (cover_loop cover cs)) = filter (\<lambda>c. h_side c = Buy) cs"
  by (induction cover cs rule: cover_loop.induct) (auto simp: Let_def keep_def refuse_def)

subsection \<open>The steps together\<close>

definition book_inv :: "held \<Rightarrow> bool" where
  "book_inv held \<longleftrightarrow> held_ok held \<and> is_covered held \<and> one_expiry (hd_holdings held)"

definition cover_in_time :: "held \<Rightarrow> string list \<Rightarrow> candidate list \<Rightarrow> bool" where
  "cover_in_time held closing taken \<longleftrightarrow>
     list_all (\<lambda>c. h_side c = Sell \<longrightarrow> 0 \<le> sum_at kind_of_holding signed_contracts (kind_of_holding c)
        (opened_with (filter (\<lambda>h. h_side h = Sell \<or> h_leg_id h \<notin> set closing) (hd_holdings held)) taken)) taken"

lemma sides_agree_subset: "sides_agree hs \<Longrightarrow> set hs' \<subseteq> set hs \<Longrightarrow> sides_agree hs'"
  unfolding sides_agree_def by blast


lemma signed_split:
  "sum_at kind_of_holding signed_contracts k cs =
     sum_at kind_of_holding h_contracts k (filter (\<lambda>c. h_side c = Buy) cs) - (\<Sum>c\<leftarrow>sells k cs. h_contracts c)"
proof (induction cs)
  case (Cons c cs)
  then show ?case by (cases "h_side c") (auto simp: signed_contracts_def)
qed simp

lemma without_cover_sells:
  assumes "sells k (fst (without_cover held closing cs)) \<noteq> []"
  shows "0 \<le> sum_at kind_of_holding signed_contracts k
      (opened_with (filter (\<lambda>h. h_side h = Sell \<or> h_leg_id h \<notin> set closing) (hd_holdings held))
         (fst (without_cover held closing cs)))"
  using cover_loop_sells [OF assms [unfolded without_cover_def Let_def]]
  unfolding without_cover_def Let_def sum_at_simps sum_at_truncate signed_split [of k "fst (cover_loop d cs)" for d] cover_loop_buys
  by (simp add: dict_get_tally) (simp add: dict_get_def)

lemma sum_at_nonneg: "(\<And>x. x \<in> set xs \<Longrightarrow> 0 \<le> val x) \<Longrightarrow> 0 \<le> sum_at key val k xs"
  unfolding sum_at_def by (rule sum_list_nonneg_map) simp

lemma sum_at_drop:
  "(\<And>x. x \<in> set xs \<Longrightarrow> \<not> P x \<Longrightarrow> 0 \<le> val x) \<Longrightarrow> sum_at key val k (filter P xs) \<le> sum_at key val k xs"
proof (induction xs)
  case (Cons x xs)
  then have "sum_at key val k (filter P xs) \<le> sum_at key val k xs" by simp
  with Cons.prems [of x] show ?case by auto
qed simp

lemma sum_at_drop_sold:
  "(\<And>x. x \<in> set xs \<Longrightarrow> \<not> P x \<Longrightarrow> val x \<le> 0) \<Longrightarrow> sum_at key val k xs \<le> sum_at key val k (filter P xs)"
proof (induction xs)
  case (Cons x xs)
  then have "sum_at key val k xs \<le> sum_at key val k (filter P xs)" by simp
  with Cons.prems [of x] show ?case by auto
qed simp

lemma without_cover_covered:
  assumes "list_all holding_ok (hd_holdings held)" "list_all holding_ok cs" "is_covered held"
  shows "covered (opened_with (hd_holdings held) (fst (without_cover held closing cs)))"
  unfolding covered_iff
proof
  fix k
  let ?hs = "hd_holdings held" and ?s = "fst (without_cover held closing cs)"
  let ?kept = "filter (\<lambda>h. h_side h = Sell \<or> h_leg_id h \<notin> set closing) ?hs"
  show "0 \<le> sum_at kind_of_holding signed_contracts k (opened_with ?hs ?s)"
  proof (cases "sells k ?s = []")
    case False
    have "sum_at kind_of_holding signed_contracts k ?kept \<le> sum_at kind_of_holding signed_contracts k ?hs"
    proof (rule sum_at_drop)
      fix h assume "h \<in> set ?hs" "\<not> (h_side h = Sell \<or> h_leg_id h \<notin> set closing)"
      with assms(1) show "0 \<le> signed_contracts h"
        by (cases "h_side h") (auto simp: list_all_iff holding_ok_def signed_contracts_def)
    qed
    with without_cover_sells [OF False] show ?thesis by simp
  next
    case True
    have "set ?s \<subseteq> set cs"
      using cover_judges set_shuffles unfolding without_cover_def Let_def judges_def by fastforce
    then have "0 \<le> sum_at kind_of_holding h_contracts k (filter (\<lambda>c. h_side c = Buy) ?s)"
      using assms(2) by (intro sum_at_nonneg) (fastforce simp: list_all_iff holding_ok_def)
    then have "0 \<le> sum_at kind_of_holding signed_contracts k ?s" unfolding signed_split True by simp
    moreover have "0 \<le> sum_at kind_of_holding signed_contracts k ?hs"
      using assms(3) unfolding is_covered_def covered_iff by blast
    ultimately show ?thesis by (simp add: sum_at_truncate)
  qed
qed

lemma judges_subset: "judges r cs j \<Longrightarrow> set (fst j) \<subseteq> set cs"
  by (auto simp: judges_def dest: set_shuffles)

lemma judges_distinct: "judges r cs j \<Longrightarrow> distinct (ids cs) \<Longrightarrow> distinct (ids (fst j))"
  using judges_filter(1) [of r cs j] by (metis distinct_map_filter)

text \<open>The four steps by name, for the group in listed order.\<close>

definition in_listed_order :: "held \<Rightarrow> candidate list \<Rightarrow> candidate list" where
  "in_listed_order held cs = sort_key (\<lambda>c. place (hd_listed held) (h_leg_id c)) cs"

definition step1 :: "held \<Rightarrow> candidate list \<Rightarrow> judged" where
  "step1 held cs = other_side held (in_listed_order held cs)"
definition step2 :: "held \<Rightarrow> candidate list \<Rightarrow> judged" where
  "step2 held cs = second_expiry held (fst (step1 held cs))"
definition step3 :: "held \<Rightarrow> string list \<Rightarrow> candidate list \<Rightarrow> judged" where
  "step3 held closing cs = without_cover held closing (fst (step2 held cs))"

definition ids_fit :: "held \<Rightarrow> candidate list \<Rightarrow> string list \<Rightarrow> bool" where
  "ids_fit held cs closing \<longleftrightarrow> set (ids cs) \<subseteq> set (hd_listed held) \<and> distinct (ids cs)
     \<and> set (ids cs) \<inter> set (ids (hd_holdings held)) = {} \<and> set closing \<subseteq> set (ids (hd_holdings held))"

lemma steps_judge:
  "judges Other_Side (in_listed_order held cs) (step1 held cs)"
  "judges Second_Expiry (fst (step1 held cs)) (step2 held cs)"
  "judges No_Cover (fst (step2 held cs)) (step3 held closing cs)"
  by (simp_all add: step1_def step2_def step3_def other_side_def second_expiry_def without_cover_def Let_def
      other_side_judges second_expiry_judges cover_judges)

lemma steps_subset:
  "set (fst (step1 held cs)) \<subseteq> set cs" "set (fst (step2 held cs)) \<subseteq> set (fst (step1 held cs))"
  "set (fst (step3 held closing cs)) \<subseteq> set (fst (step2 held cs))" "set (fst (step3 held closing cs)) \<subseteq> set cs"
proof -
  note s = judges_subset [OF steps_judge(1) [of held cs]] judges_subset [OF steps_judge(2) [of held cs]]
    judges_subset [OF steps_judge(3) [of held cs closing]]
  from s(1) show 1: "set (fst (step1 held cs)) \<subseteq> set cs" by (simp add: in_listed_order_def)
  from s(2) show "set (fst (step2 held cs)) \<subseteq> set (fst (step1 held cs))" .
  from s(3) show "set (fst (step3 held closing cs)) \<subseteq> set (fst (step2 held cs))" .
  with s(2) 1 show "set (fst (step3 held closing cs)) \<subseteq> set cs" by blast
qed

lemma admit_opening_unfold:
  "admit_opening et_date held cs cash closing =
     (if \<not> ids_fit held cs closing then Inl Book_Value_Error
      else case (case cash of None \<Rightarrow> Inr () | Some a \<Rightarrow> bindR (require_everyday a) (\<lambda>_. Inr ())) of
             Inl e \<Rightarrow> Inl (Book_Amount e)
           | Inr _ \<Rightarrow>
               bindR (case cash of None \<Rightarrow> Inr (fst (step3 held closing cs), [])
                      | Some a \<Rightarrow> short_of_cash et_date held a (fst (step3 held closing cs)))
                 (\<lambda>j. Inr \<lparr>ad_taken = fst j,
                   ad_refused = List.map_filter (\<lambda>c. map_option (\<lambda>r. \<lparr>rf_candidate = c, rf_reason = r\<rparr>)
                     (map_of (snd j @ snd (step3 held closing cs) @ snd (step2 held cs) @ snd (step1 held cs)) (h_leg_id c)))
                     (in_listed_order held cs)\<rparr>))"
proof -
  have fit: "\<not> ids_fit held cs closing \<longleftrightarrow>
      \<not> set (ids (in_listed_order held cs)) \<subseteq> set (hd_listed held) \<or> \<not> distinct (ids (in_listed_order held cs))
      \<or> set (ids (in_listed_order held cs)) \<inter> set (ids (hd_holdings held)) \<noteq> {}
      \<or> \<not> set closing \<subseteq> set (ids (hd_holdings held))"
    using distinct_map_mset [of "in_listed_order held cs" cs h_leg_id] by (auto simp: ids_fit_def in_listed_order_def)
  show ?thesis
    unfolding fit admit_opening_def step3_def step2_def step1_def in_listed_order_def Let_def case_prod_unfold
    by (rule refl)
qed

text \<open>Whatever the cash says, what is taken is nothing or all that the first three steps left standing.\<close>

lemma admitted_taken:
  assumes "admit_opening et_date held cs cash closing = Inr adm"
  shows "ids_fit held cs closing" "ad_taken adm = [] \<or> ad_taken adm = fst (step3 held closing cs)"
    "cash = Some a \<Longrightarrow> ad_taken adm \<noteq> [] \<Longrightarrow>
       \<exists>after cents. exact_sum ((1, a) # map (\<lambda>c. (1, cd_cash_effect c)) (ad_taken adm)) = Inr after
       \<and> requirement_cents et_date (opened_with (hd_holdings held) (ad_taken adm)) = Inr cents
       \<and> dval (dollars_of_cents cents) \<le> dval after \<and> require_everyday a = Inr a"
  using assms unfolding admit_opening_unfold
  by (auto simp: result_simps short_of_cash_def require_everyday_Inr split: if_splits option.splits sum.splits)

lemma taken_subset: "admit_opening et_date held cs cash closing = Inr adm \<Longrightarrow> set (ad_taken adm) \<subseteq> set cs"
  using admitted_taken(2) [of et_date held cs cash closing adm] steps_subset(4) [where held = held and cs = cs and closing = closing]
  by auto

lemma step3_facts:
  assumes inv: "book_inv held" and ok: "list_all candidate_ok cs"
  shows "sides_agree (opened_with (hd_holdings held) (fst (step3 held closing cs)))"
    "one_expiry (opened_with (hd_holdings held) (fst (step3 held closing cs)))"
    "covered (opened_with (hd_holdings held) (fst (step3 held closing cs)))"
    "cover_in_time held closing (fst (step3 held closing cs))"
    "book_ok (opened_with (hd_holdings held) (fst (step3 held closing cs)))"
proof -
  let ?hs = "hd_holdings held"
  have held: "held_ok held" "is_covered held" "one_expiry ?hs" using inv by (simp_all add: book_inv_def)
  note sub = steps_subset(2) [where held = held and cs = cs] steps_subset(3,4) [where held = held and cs = cs and closing = closing]
  have ok_cs: "list_all holding_ok cs" using ok by (auto simp: list_all_iff candidate_ok_def)
  have sides: "sides_agree ?hs" using held(1) by (simp add: held_ok_iff)
  have "map_of (rev (map (\<lambda>h. (h_contract h, h_side h)) ?hs)) (h_contract h) = Some (h_side h)" if h: "h \<in> set ?hs" for h
  proof -
    have "h_contract h \<in> fst ` set (rev (map (\<lambda>h. (h_contract h, h_side h)) ?hs))" using h by force
    then obtain s where s: "map_of (rev (map (\<lambda>h. (h_contract h, h_side h)) ?hs)) (h_contract h) = Some s"
      by (metis domD dom_map_of_conv_image_fst)
    then obtain h' where "h' \<in> set ?hs" "h_contract h' = h_contract h" "h_side h' = s"
      by (auto dest!: map_of_SomeD)
    then have "h_side h' = h_side h" "h_side h' = s" using sides h unfolding sides_agree_def by blast+
    with s show ?thesis by simp
  qed
  then have "sides_agree (opened_with ?hs (fst (step1 held cs)))"
    unfolding step1_def other_side_def by (rule other_side_agree)
  then show agree: "sides_agree (opened_with ?hs (fst (step3 held closing cs)))"
    by (rule sides_agree_subset) (use sub in auto)
  have "one_expiry (opened_with ?hs (fst (step2 held cs)))"
    unfolding step2_def second_expiry_def by (rule second_expiry_one) (use held(3) in auto)
  then show "one_expiry (opened_with ?hs (fst (step3 held closing cs)))"
    by (rule one_expiry_subset) (use sub in auto)
  have ok2: "list_all holding_ok (fst (step2 held cs))" using ok_cs sub steps_subset(1) [of held cs] by (auto simp: list_all_iff)
  show "covered (opened_with ?hs (fst (step3 held closing cs)))"
    unfolding step3_def by (rule without_cover_covered) (use held ok2 in \<open>simp_all add: held_ok_iff\<close>)
  show "cover_in_time held closing (fst (step3 held closing cs))"
    unfolding cover_in_time_def list_all_iff
  proof (intro ballI impI)
    fix c assume "c \<in> set (fst (step3 held closing cs))" "h_side c = Sell"
    then have "sells (kind_of_holding c) (fst (step3 held closing cs)) \<noteq> []" by (auto simp: filter_empty_conv)
    then show "0 \<le> sum_at kind_of_holding signed_contracts (kind_of_holding c)
        (opened_with (filter (\<lambda>h. h_side h = Sell \<or> h_leg_id h \<notin> set closing) ?hs) (fst (step3 held closing cs)))"
      unfolding step3_def by (rule without_cover_sells)
  qed
  have "list_all holding_ok (opened_with ?hs (fst (step3 held closing cs)))"
    using held(1) ok_cs sub by (auto simp: held_ok_iff list_all_iff)
  with agree show "book_ok (opened_with ?hs (fst (step3 held closing cs)))" by (simp add: book_ok_def)
qed

lemma taken_facts:
  assumes inv: "book_inv held" and ok: "list_all candidate_ok cs"
    and adm: "admit_opening et_date held cs cash closing = Inr adm"
  shows "book_ok (opened_with (hd_holdings held) (ad_taken adm))" "one_expiry (opened_with (hd_holdings held) (ad_taken adm))"
    "covered (opened_with (hd_holdings held) (ad_taken adm))" "cover_in_time held closing (ad_taken adm)"
    "distinct (ids (ad_taken adm))"
proof -
  note s3 = step3_facts [OF inv ok, of closing]
  have "distinct (ids (in_listed_order held cs))"
    using admitted_taken(1) [OF adm] distinct_map_mset [of "in_listed_order held cs" cs h_leg_id]
    by (simp add: ids_fit_def in_listed_order_def)
  note d = judges_distinct [OF steps_judge(3) judges_distinct [OF steps_judge(2) judges_distinct [OF steps_judge(1) this]]]
  from admitted_taken(2) [OF adm]
  have "book_ok (opened_with (hd_holdings held) (ad_taken adm)) \<and> one_expiry (opened_with (hd_holdings held) (ad_taken adm))
    \<and> covered (opened_with (hd_holdings held) (ad_taken adm)) \<and> cover_in_time held closing (ad_taken adm)
    \<and> distinct (ids (ad_taken adm))"
  proof
    assume "ad_taken adm = []"
    then show ?thesis using inv by (simp add: book_inv_def held_ok_book is_covered_def cover_in_time_def)
  next
    assume "ad_taken adm = fst (step3 held closing cs)"
    then show ?thesis using s3 d [of closing] by simp
  qed
  then show "book_ok (opened_with (hd_holdings held) (ad_taken adm))"
    "one_expiry (opened_with (hd_holdings held) (ad_taken adm))"
    "covered (opened_with (hd_holdings held) (ad_taken adm))" "cover_in_time held closing (ad_taken adm)"
    "distinct (ids (ad_taken adm))" by blast+
qed

lemma opened_taken:
  assumes inv: "book_inv held" and ok: "list_all candidate_ok cs"
    and adm: "admit_opening et_date held cs cash closing = Inr adm"
  shows "\<exists>held'. opened held (ad_taken adm) = Inr held' \<and> book_inv held'
     \<and> mset (hd_holdings held') = mset (opened_with (hd_holdings held) (ad_taken adm))"
proof -
  let ?hs = "opened_with (hd_holdings held) (ad_taken adm)"
  let ?held' = "\<lparr>hd_listed = hd_listed held, hd_holdings = sort_key (\<lambda>h. place (hd_listed held) (h_leg_id h)) ?hs\<rparr>"
  note t = taken_facts [OF assms]
  have fit: "set (ids (ad_taken adm)) \<subseteq> set (ids cs)" using taken_subset [OF adm] by auto
  have ids: "ids ?hs = ids (hd_holdings held) @ ids (ad_taken adm)" by simp
  have held: "held_ok held" using inv by (simp add: book_inv_def)
  have made: "opened held (ad_taken adm) = Inr ?held'"
    unfolding opened_def make_held_Inr ids
  proof (intro conjI)
    show "distinct (ids (hd_holdings held) @ ids (ad_taken adm))"
      using held t(5) admitted_taken(1) [OF adm] fit unfolding held_ok_iff ids_fit_def distinct_append by blast
    show "set (ids (hd_holdings held) @ ids (ad_taken adm)) \<subseteq> set (hd_listed held)"
      using held admitted_taken(1) [OF adm] fit unfolding held_ok_iff ids_fit_def set_append by blast
    show "sides_agree ?hs" using t(1) by (simp only: book_ok_def)
  qed (use held in \<open>simp_all add: held_ok_iff\<close>)
  have "held_ok ?held'" by (rule make_held_ok [OF made [unfolded opened_def]]) (use t(1) in \<open>simp add: book_ok_def\<close>)
  moreover have "is_covered ?held'" using t(3) covered_mset [of "hd_holdings ?held'" ?hs] by (simp add: is_covered_def)
  moreover have "one_expiry (hd_holdings ?held')" by (rule one_expiry_subset [OF t(2)]) simp
  ultimately show ?thesis using made by (simp add: book_inv_def)
qed

text \<open>
  C10: what an opening group's judgment takes can be opened: from a covered book whose sold legs share one expiry, the
  book holding the taken legs as well is again well-formed, covered and of one expiry when anything is sold;
  every sale taken has its cover in bought legs whose close is not pending; and when cash is asked, what is taken is
  nothing or leaves the cash, with every effect of the group, at no less than the collateral then pledged.
\<close>

theorem admit_opening_safe:
  assumes "book_inv held" "list_all candidate_ok cs" "admit_opening et_date held cs cash closing = Inr adm"
  shows "\<exists>held'. opened held (ad_taken adm) = Inr held' \<and> book_inv held' \<and> cover_in_time held closing (ad_taken adm)
     \<and> (case cash of None \<Rightarrow> True
        | Some a \<Rightarrow> ad_taken adm = [] \<or>
            (\<exists>cents. requirement_cents et_date (hd_holdings held') = Inr cents
               \<and> of_int cents / 100 \<le> dval a + (\<Sum>c\<leftarrow>ad_taken adm. dval (cd_cash_effect c))))"
proof -
  obtain held' where h: "opened held (ad_taken adm) = Inr held'" "book_inv held'"
    "mset (hd_holdings held') = mset (opened_with (hd_holdings held) (ad_taken adm))"
    using opened_taken [OF assms] by blast
  note t = taken_facts [OF assms]
  have "\<exists>cents. requirement_cents et_date (hd_holdings held') = Inr cents
      \<and> of_int cents / 100 \<le> dval a + (\<Sum>c\<leftarrow>ad_taken adm. dval (cd_cash_effect c))"
    if a: "cash = Some a" and ne: "ad_taken adm \<noteq> []" for a
  proof -
    obtain after cents where f: "exact_sum ((1, a) # map (\<lambda>c. (1, cd_cash_effect c)) (ad_taken adm)) = Inr after"
      "requirement_cents et_date (opened_with (hd_holdings held) (ad_taken adm)) = Inr cents"
      "dval (dollars_of_cents cents) \<le> dval after" "require_everyday a = Inr a"
      using admitted_taken(3) [OF assms(3) a ne] by blast
    have "list_all (\<lambda>(m, a). everyday a) ((1 :: int, a) # map (\<lambda>c. (1, cd_cash_effect c)) (ad_taken adm))"
    proof -
      have "everyday (cd_cash_effect c)" if c: "c \<in> set (ad_taken adm)" for c
      proof -
        have "candidate_ok c" using c assms(2) taken_subset [OF assms(3)] by (auto simp: list_all_iff)
        then have "\<not> isl (require_everyday (cd_cash_effect c))" by (simp add: candidate_ok_def)
        then obtain d where "require_everyday (cd_cash_effect c) = Inr d" by (cases "require_everyday (cd_cash_effect c)") auto
        then show ?thesis by (simp add: require_everyday_Inr)
      qed
      then show ?thesis using f(4) by (auto simp: require_everyday_Inr list_all_iff)
    qed
    from exact_sum_value [OF this] f(1)
    have "dval after = dval a + (\<Sum>c\<leftarrow>ad_taken adm. dval (cd_cash_effect c))" by (auto simp: comp_def)
    moreover have "dval (dollars_of_cents cents) = of_int cents / 100" by (simp add: dollars_of_cents_def power_int_def power2_eq_square)
    moreover have "requirement_cents et_date (hd_holdings held') = Inr cents"
      using requirement_mset [OF t(1) h(3) [symmetric] f(2)] .
    ultimately show ?thesis using f(3) by auto
  qed
  then show ?thesis using h(1,2) t(4) by (auto split: option.splits)
qed

subsection \<open>Every offered fill is taken or refused\<close>

lemma map_filter_map_option:
  "List.map_filter (\<lambda>c. map_option (g c) (f c)) cs = map (\<lambda>c. g c (the (f c))) (filter (\<lambda>c. f c \<noteq> None) cs)"
  by (induction cs) (auto simp: List.map_filter_def)

lemma four_filters:
  assumes "s1 = filter (\<lambda>c. f c \<notin> A) xs" "s2 = filter (\<lambda>c. f c \<notin> B) s1" "s3 = filter (\<lambda>c. f c \<notin> C) s2"
    "s4 = filter (\<lambda>c. f c \<notin> D) s3"
  shows "s4 = filter (\<lambda>c. f c \<notin> D \<union> C \<union> B \<union> A) xs"
  unfolding assms filter_filter by (rule filter_cong) auto

lemma cash_returns:
  assumes inv: "book_inv held" and ok: "list_all candidate_ok cs" and a: "everyday a"
  shows "\<exists>j. short_of_cash et_date held a (fst (step3 held closing cs)) = Inr j"
proof -
  let ?s = "fst (step3 held closing cs)"
  have "list_all (\<lambda>(m, a). everyday a) ((1 :: int, a) # map (\<lambda>c. (1, cd_cash_effect c)) ?s)"
  proof -
    have "everyday (cd_cash_effect c)" if c: "c \<in> set ?s" for c
    proof -
      have "candidate_ok c" using c ok steps_subset(4) [where held = held and cs = cs and closing = closing]
        by (auto simp: list_all_iff)
      then have "\<not> isl (require_everyday (cd_cash_effect c))" by (simp add: candidate_ok_def)
      then obtain d where "require_everyday (cd_cash_effect c) = Inr d" by (cases "require_everyday (cd_cash_effect c)") auto
      then show ?thesis by (simp add: require_everyday_Inr)
    qed
    then show ?thesis using a by (auto simp: list_all_iff)
  qed
  from exact_sum_value [OF this] obtain after where
    "exact_sum ((1, a) # map (\<lambda>c. (1, cd_cash_effect c)) ?s) = Inr after" by blast
  moreover obtain cents where "requirement_cents et_date (opened_with (hd_holdings held) ?s) = Inr cents"
    using covered_requirement [OF step3_facts(5,3) [OF inv ok]] by blast
  ultimately show ?thesis by (simp add: short_of_cash_def)
qed

lemma admission_parts:
  assumes fit: "ids_fit held cs closing" and adm: "admit_opening et_date held cs cash closing = Inr adm"
  shows "ad_taken adm = filter (\<lambda>c. h_leg_id c \<notin> set (map (\<lambda>r. h_leg_id (rf_candidate r)) (ad_refused adm)))
           (in_listed_order held cs)"
    and "map rf_candidate (ad_refused adm) = filter (\<lambda>c. h_leg_id c \<notin> set (ids (ad_taken adm))) (in_listed_order held cs)"
proof -
  let ?o = "in_listed_order held cs"
  let ?r1 = "snd (step1 held cs)" and ?r2 = "snd (step2 held cs)" and ?r3 = "snd (step3 held closing cs)"
  have d0: "distinct (ids ?o)"
    using fit distinct_map_mset [of ?o cs h_leg_id] by (simp add: ids_fit_def in_listed_order_def)
  note d1 = judges_distinct [OF steps_judge(1) d0]
  note d2 = judges_distinct [OF steps_judge(2) d1]
  note d3 = judges_distinct [OF steps_judge(3) d2]
  obtain j where j: "judges Cash_Short (fst (step3 held closing cs)) j" and taken: "ad_taken adm = fst j"
    and refused: "ad_refused adm = List.map_filter (\<lambda>c. map_option (\<lambda>r. \<lparr>rf_candidate = c, rf_reason = r\<rparr>)
        (map_of (snd j @ ?r3 @ ?r2 @ ?r1) (h_leg_id c))) ?o"
  proof (cases cash)
    case None
    have "judges Cash_Short (fst (step3 held closing cs)) (fst (step3 held closing cs), [])" by (simp add: judges_def)
    then show ?thesis using adm None fit that unfolding admit_opening_unfold by (auto simp: result_simps)
  next
    case (Some a)
    with adm fit obtain j where j: "short_of_cash et_date held a (fst (step3 held closing cs)) = Inr j"
      "adm = \<lparr>ad_taken = fst j, ad_refused = List.map_filter (\<lambda>c. map_option (\<lambda>r. \<lparr>rf_candidate = c, rf_reason = r\<rparr>)
        (map_of (snd j @ ?r3 @ ?r2 @ ?r1) (h_leg_id c))) ?o\<rparr>"
      unfolding admit_opening_unfold by (auto simp: result_simps split: sum.splits)
    show ?thesis by (rule that [OF cash_judges [OF j(1)]]) (simp_all add: j(2))
  qed
  have stand: "fst j = filter (\<lambda>c. h_leg_id c \<notin> fst ` set (snd j) \<union> fst ` set ?r3 \<union> fst ` set ?r2 \<union> fst ` set ?r1) ?o"
    by (rule four_filters [OF judges_filter(1) [OF steps_judge(1) d0] judges_filter(1) [OF steps_judge(2) d1]
          judges_filter(1) [OF steps_judge(3) d2] judges_filter(1) [OF j d3]])
  have none: "map_of (snd j @ ?r3 @ ?r2 @ ?r1) i = None \<longleftrightarrow>
      i \<notin> fst ` set (snd j) \<union> fst ` set ?r3 \<union> fst ` set ?r2 \<union> fst ` set ?r1" for i
    unfolding map_of_eq_None_iff by auto
  let ?in = "\<lambda>c. map_of (snd j @ ?r3 @ ?r2 @ ?r1) (h_leg_id c)"
  have t: "ad_taken adm = filter (\<lambda>c. ?in c = None) ?o" unfolding taken none by (rule stand)
  have r: "map rf_candidate (ad_refused adm) = filter (\<lambda>c. ?in c \<noteq> None) ?o"
    unfolding refused map_filter_map_option by (simp add: comp_def)
  have rids: "map (\<lambda>r. h_leg_id (rf_candidate r)) (ad_refused adm) = ids (filter (\<lambda>c. ?in c \<noteq> None) ?o)"
    unfolding r [symmetric] by simp
  have inj: "inj_on h_leg_id (set ?o)" using d0 by (simp add: distinct_map)
  have mem: "h_leg_id c \<in> set (ids (filter P ?o)) \<longleftrightarrow> P c" if "c \<in> set ?o" for c P
    using inj that by (auto dest: inj_onD)
  show "ad_taken adm = filter (\<lambda>c. h_leg_id c \<notin> set (map (\<lambda>r. h_leg_id (rf_candidate r)) (ad_refused adm))) ?o"
    unfolding rids unfolding t by (rule filter_cong [OF refl]) (simp only: mem not_not)
  show "map rf_candidate (ad_refused adm) = filter (\<lambda>c. h_leg_id c \<notin> set (ids (ad_taken adm))) ?o"
    unfolding r unfolding t by (rule filter_cong [OF refl]) (simp only: mem)
qed

lemma admission_returns:
  assumes "book_inv held" "list_all candidate_ok cs" "ids_fit held cs closing" "\<And>a. cash = Some a \<Longrightarrow> everyday a"
  shows "\<exists>adm. admit_opening et_date held cs cash closing = Inr adm"
proof (cases cash)
  case None
  with assms(3) show ?thesis unfolding admit_opening_unfold by simp
next
  case (Some a)
  from cash_returns [OF assms(1,2), of a et_date closing] assms(4) [OF Some]
  obtain j where "short_of_cash et_date held a (fst (step3 held closing cs)) = Inr j" by blast
  then show ?thesis unfolding admit_opening_unfold using Some assms(3,4) by (simp add: everydayI)
qed

text \<open>
  C38: over a covered book the judgment of an opening group fails in two ways only: a \<open>ValueError\<close> exactly when a
  candidate or a pending close names a leg wrongly, and the refusal of a cash amount that is not everyday. The broken
  invariant is never raised. Otherwise every candidate is taken or refused, not both, each list in listed order.
\<close>

theorem admit_opening_outcome:
  assumes "book_inv held" "list_all candidate_ok cs"
  shows "case admit_opening et_date held cs cash closing of
      Inl e \<Rightarrow> (if ids_fit held cs closing
               then \<exists>a v. cash = Some a \<and> require_everyday a = Inl v \<and> e = Book_Amount v
               else e = Book_Value_Error)
    | Inr adm \<Rightarrow> ids_fit held cs closing \<and> (case cash of None \<Rightarrow> True | Some a \<Rightarrow> everyday a)
        \<and> ad_taken adm = filter (\<lambda>c. h_leg_id c \<notin> set (map (\<lambda>r. h_leg_id (rf_candidate r)) (ad_refused adm)))
            (in_listed_order held cs)
        \<and> map rf_candidate (ad_refused adm)
            = filter (\<lambda>c. h_leg_id c \<notin> set (ids (ad_taken adm))) (in_listed_order held cs)"
proof (cases "admit_opening et_date held cs cash closing")
  case (Inr adm)
  note fit = admitted_taken(1) [OF Inr]
  have "case cash of None \<Rightarrow> True | Some a \<Rightarrow> everyday a"
    using Inr fit unfolding admit_opening_unfold
    by (auto simp: result_simps require_everyday_Inr split: option.splits sum.splits)
  with admission_parts [OF fit Inr] fit Inr show ?thesis by simp
next
  case (Inl e)
  show ?thesis
  proof (cases "ids_fit held cs closing")
    case True
    with admission_returns [OF assms, of closing cash et_date] Inl obtain a where a: "cash = Some a" "\<not> everyday a" by force
    then obtain v where "require_everyday a = Inl v" by (cases "require_everyday a") (auto simp: require_everyday_Inr)
    moreover from this have "e = Book_Amount v" using Inl True a(1) unfolding admit_opening_unfold by simp
    ultimately show ?thesis using Inl True a(1) by simp
  next
    case False
    with Inl show ?thesis unfolding admit_opening_unfold by simp
  qed
qed

subsection \<open>The books a replay reaches\<close>

text \<open>
  The moves the replay makes on what is held: an opening group that was judged, a bought leg that may leave, bought legs
  leaving with their plan, and a sold leg bought back.
\<close>

inductive book_step :: "(int \<Rightarrow> date) \<Rightarrow> held \<Rightarrow> held \<Rightarrow> bool" for et_date where
  open_group: "list_all candidate_ok cs \<Longrightarrow> admit_opening et_date held cs cash closing = Inr adm \<Longrightarrow>
      opened held (ad_taken adm) = Inr held' \<Longrightarrow> book_step et_date held held'"
| sell_bought: "may_leave et_date held i = Inr True \<Longrightarrow> without held [i] = Inr held' \<Longrightarrow> book_step et_date held held'"
| leave_together: "leaving_plan et_date held leaving = Inr plan \<Longrightarrow> without held (leaving @ plan) = Inr held' \<Longrightarrow>
      book_step et_date held held'"
| buy_back: "holding_of held i = Some h \<Longrightarrow> h_side h = Sell \<Longrightarrow> without held [i] = Inr held' \<Longrightarrow>
      book_step et_date held held'"

inductive reachable_book :: "(int \<Rightarrow> date) \<Rightarrow> string list \<Rightarrow> held \<Rightarrow> bool" for et_date listed where
  nothing_held: "empty_held listed = Inr held \<Longrightarrow> reachable_book et_date listed held"
| moved: "reachable_book et_date listed held \<Longrightarrow> book_step et_date held held' \<Longrightarrow> reachable_book et_date listed held'"

inductive_cases book_stepE: "book_step et_date held held'"

lemma without_holds:
  assumes "held_ok held" "without held gone = Inr held'"
  shows "held' = held\<lparr>hd_holdings := left_without held gone\<rparr>" "held_ok held'"
proof -
  have sub: "set gone \<subseteq> set (ids (hd_holdings held))" using assms(2) by (simp add: without_def split: if_splits)
  from without_Inr [OF assms(1) sub] assms(2) show "held' = held\<lparr>hd_holdings := left_without held gone\<rparr>" by simp
  with without_Inr(2) [OF assms(1) sub] show "held_ok held'" by simp
qed

lemma without_inv:
  assumes "book_inv held" "without held gone = Inr held'" "covered (left_without held gone)"
  shows "book_inv held'"
  using without_holds [of held gone held'] assms one_expiry_subset [of "hd_holdings held" "left_without held gone"]
  by (auto simp: book_inv_def is_covered_def)

lemma leaving_covered:
  assumes inv: "book_inv held" and plan: "leaving_plan et_date held leaving = Inr plan"
  shows "covered (left_without held (leaving @ plan))"
proof -
  have "\<exists>h. holding_of held i = Some h \<and> h_side h = Buy" if "i \<in> set leaving" for i
  proof -
    obtain ks where "traverseR (\<lambda>i. bindR (bought_leg held i) (\<lambda>h. Inr (cover_kind_of (h_contract h)))) leaving = Inr ks"
      using plan by (auto simp: leaving_plan_def result_simps)
    then have "list_all2 (\<lambda>i k. bindR (bought_leg held i) (\<lambda>h. Inr (cover_kind_of (h_contract h))) = Inr k) leaving ks"
      by (simp only: traverseR_conv)
    from list_all2_left [OF this that]
    obtain k where "bindR (bought_leg held i) (\<lambda>h. Inr (cover_kind_of (h_contract h))) = Inr k" by blast
    then show ?thesis by (cases "bought_leg held i") (auto simp: bought_leg_Inr)
  qed
  from leaving_plan_facts [where et_date = et_date and leaving = leaving, OF _ _ this] inv plan show ?thesis
    by (auto simp: book_inv_def stands_True)
qed

lemma book_step_inv: "book_step et_date held held' \<Longrightarrow> book_inv held \<Longrightarrow> book_inv held'"
proof (induction rule: book_step.induct)
  case (open_group cs held cash closing adm held')
  with opened_taken [OF open_group(4,1,2)] show ?case by auto
next
  case (sell_bought held i held')
  then have "covered (left_without held [i])"
    by (auto simp: may_leave_def result_simps stands_True [unfolded stands_def] stands_def split: if_splits)
  with sell_bought show ?case by (blast intro: without_inv)
next
  case (leave_together held leaving plan held')
  then show ?case by (blast intro: without_inv leaving_covered)
next
  case (buy_back held i h held')
  have ok: "held_ok held" "covered (hd_holdings held)" using buy_back(4) by (simp_all add: book_inv_def is_covered_def)
  have sold: "signed_contracts x \<le> 0" if "x \<in> set (hd_holdings held)" "\<not> h_leg_id x \<notin> set [i]" for x
  proof -
    have "holding_of held i = Some x" using that holding_of_mem [OF ok(1)] by simp
    with buy_back(1,2) have "h_side x = Sell" by simp
    moreover have "1 \<le> h_contracts x" using ok(1) that(1) by (simp add: held_ok_iff list_all_iff holding_ok_def)
    ultimately show ?thesis by (simp add: signed_contracts_def)
  qed
  have "0 \<le> sum_at kind_of_holding signed_contracts k (left_without held [i])" for k
  proof -
    have "0 \<le> sum_at kind_of_holding signed_contracts k (hd_holdings held)" using ok(2) unfolding covered_iff by blast
    also have "\<dots> \<le> sum_at kind_of_holding signed_contracts k (left_without held [i])"
      by (rule sum_at_drop_sold) (rule sold)
    finally show ?thesis .
  qed
  then have "covered (left_without held [i])" unfolding covered_iff by blast
  with buy_back show ?case by (blast intro: without_inv)
qed

lemma reachable_inv: "reachable_book et_date listed held \<Longrightarrow> book_inv held"
proof (induction rule: reachable_book.induct)
  case (nothing_held held)
  then have "held_ok held" "hd_holdings held = []"
    unfolding empty_held_def using make_held_ok [of listed "[]" held] by (simp_all add: make_held_Inr)
  then show ?case by (simp add: book_inv_def is_covered_def covered_def tally_on_def one_expiry_def)
next
  case (moved held held')
  then show ?case by (blast intro: book_step_inv)
qed

text \<open>
  C1: every book reached from nothing held, by opening groups that were judged, sales of bought legs that may leave,
  bought legs leaving with their plan and sold legs bought back, in any order and whatever the candidates and the cash
  were, is covered and of one expiry when anything is sold, and its collateral is a figure of at least zero: the broken
  invariant is never raised on it.
\<close>

theorem reachable_book_covered:
  assumes "reachable_book et_date listed held"
  shows "held_ok held \<and> is_covered held \<and> one_expiry (hd_holdings held)
     \<and> (\<exists>cents. 0 \<le> cents \<and> collateral et_date held = Inr (Finite cents (- 2)))"
proof -
  have inv: "book_inv held" using assms by (rule reachable_inv)
  then obtain c where "requirement_cents et_date (hd_holdings held) = Inr c" "0 \<le> c"
    using covered_requirement [OF held_ok_book [of held], of et_date] by (auto simp: book_inv_def is_covered_def)
  with inv show ?thesis by (simp add: book_inv_def collateral_def dollars_of_cents_def)
qed

definition spread_group :: "candidate list" where
  "spread_group =
     [\<lparr>h_leg_id = ''sold'', h_contract = book_call 480000, h_side = Sell, h_contracts = 2, h_multiplier = 100,
       cd_cash_effect = Finite 40000 (- 2)\<rparr>,
      \<lparr>h_leg_id = ''bought'', h_contract = book_call 475000, h_side = Buy, h_contracts = 2, h_multiplier = 100,
       cd_cash_effect = Finite (- 90000) (- 2)\<rparr>]"

definition no_book :: held where "no_book = \<lparr>hd_listed = [''bought'', ''sold''], hd_holdings = []\<rparr>"

lemma spread_group_facts: "book_inv no_book" "list_all candidate_ok spread_group" "ids_fit no_book spread_group []"
  "empty_held [''bought'', ''sold''] = Inr no_book" "everyday (Finite 100000 (- 2))"
proof -
  have everyday: "everyday (Finite 40000 (- 2))" "everyday (Finite (- 90000) (- 2))" "everyday (Finite 100000 (- 2))"
    by (simp_all add: everyday_def adjusted_def digits_def show_nat.simps)
  from everyday(3) show "everyday (Finite 100000 (- 2))" .
  show "list_all candidate_ok spread_group"
    using everyday by (simp add: spread_group_def candidate_ok_def holding_ok_def standard_multiplier_def everydayI)
  show e: "empty_held [''bought'', ''sold''] = Inr no_book"
    by (simp add: empty_held_def make_held_Inr no_book_def sides_agree_def)
  show "book_inv no_book" by (rule reachable_inv [where et_date = "\<lambda>_. (2024, 1, 19)"]) (rule nothing_held [OF e])
  show "ids_fit no_book spread_group []" by (simp add: ids_fit_def no_book_def spread_group_def)
qed

lemma spread_admitted:
  "\<exists>adm. admit_opening (\<lambda>_. (2024, 1, 19)) no_book spread_group (Some (Finite 100000 (- 2))) [] = Inr adm"
  by (rule admission_returns) (use spread_group_facts in auto)

theorem admit_opening_safe_witness:
  "\<exists>adm held'. admit_opening (\<lambda>_. (2024, 1, 19)) no_book spread_group (Some (Finite 100000 (- 2))) [] = Inr adm
     \<and> opened no_book (ad_taken adm) = Inr held' \<and> book_inv held' \<and> cover_in_time no_book [] (ad_taken adm)"
proof -
  obtain adm where "admit_opening (\<lambda>_. (2024, 1, 19)) no_book spread_group (Some (Finite 100000 (- 2))) [] = Inr adm"
    using spread_admitted by blast
  with admit_opening_safe [OF spread_group_facts(1,2) this] show ?thesis by blast
qed

theorem admit_opening_outcome_witness:
  "\<exists>adm. admit_opening (\<lambda>_. (2024, 1, 19)) no_book spread_group (Some (Finite 100000 (- 2))) [] = Inr adm
     \<and> map rf_candidate (ad_refused adm)
         = filter (\<lambda>c. h_leg_id c \<notin> set (ids (ad_taken adm))) (in_listed_order no_book spread_group)"
proof -
  obtain adm where "admit_opening (\<lambda>_. (2024, 1, 19)) no_book spread_group (Some (Finite 100000 (- 2))) [] = Inr adm"
    using spread_admitted by blast
  with admit_opening_outcome [where et_date = "\<lambda>_. (2024, 1, 19)" and cash = "Some (Finite 100000 (- 2))" and closing = "[]",
      OF spread_group_facts(1,2)]
  show ?thesis by simp
qed

theorem reachable_book_covered_witness:
  "\<exists>adm held. admit_opening (\<lambda>_. (2024, 1, 19)) no_book spread_group (Some (Finite 100000 (- 2))) [] = Inr adm
     \<and> opened no_book (ad_taken adm) = Inr held \<and> is_covered held
     \<and> (\<exists>cents. 0 \<le> cents \<and> collateral (\<lambda>_. (2024, 1, 19)) held = Inr (Finite cents (- 2)))"
proof -
  obtain adm where adm: "admit_opening (\<lambda>_. (2024, 1, 19)) no_book spread_group (Some (Finite 100000 (- 2))) [] = Inr adm"
    using spread_admitted by blast
  obtain held where held: "opened no_book (ad_taken adm) = Inr held"
    using opened_taken [OF spread_group_facts(1,2) adm] by blast
  have "reachable_book (\<lambda>_. (2024, 1, 19)) [''bought'', ''sold''] held"
    by (rule moved [OF nothing_held [OF spread_group_facts(4)] open_group [OF spread_group_facts(2) adm held]])
  from reachable_book_covered [OF this] adm held show ?thesis by blast
qed

end
