(* ===== verification/Backtest_Setup.thy ===== *)
theory Backtest_Setup
  imports Replay_Fills Option_Contract
begin

text \<open>
  \<open>app/options_backtest/setup.py\<close>: what an options setup states, and the validators that refuse one.

  A setup is typed, so the shape of its fields is the type's (a per-contract fee is given with its policy by the
  constructor); the limits of a number field are the \<open>_ok\<close> predicates, where \<open>field_figure n k\<close> is a
  decimal of at most \<open>n\<close> digits before and after the point, at most \<open>k\<close> of them after it and \<open>n - k\<close> before
  it, its trailing zeros not counted. The model validators are
  \<open>validate_setup\<close>, in the order they run, each with its \<open>ValueError\<close>; a leg's own validators are in
  \<open>leg_setup_ok\<close>. An expiry rule and a strike rule are compared and handed to the market, never read here.
\<close>

definition ms_per_minute :: int where "ms_per_minute = 60000"
definition ms_per_day :: int where "ms_per_day = 24 * 60 * ms_per_minute"
definition max_legs :: nat where "max_legs = 8"
definition max_reentries :: int where "max_reentries = 20"
definition max_contracts :: int where "max_contracts = 1000"
definition max_strike_steps :: int where "max_strike_steps = 50"
definition max_expiry_days :: int where "max_expiry_days = 730"

datatype session_anchor = Open_Anchor | Close_Anchor

record session_time =
  st_anchor :: session_anchor
  st_offset_ms :: int

definition session_time_ok :: "session_time \<Rightarrow> bool" where
  "session_time_ok st \<longleftrightarrow> 0 \<le> st_offset_ms st \<and> st_offset_ms st < ms_per_day \<and> st_offset_ms st mod ms_per_minute = 0"

definition time_at :: "session_time \<Rightarrow> int \<Rightarrow> int \<Rightarrow> int" where
  "time_at st session_open session_close =
     (if st_anchor st = Open_Anchor then session_open + st_offset_ms st else session_close - st_offset_ms st)"

definition field_figure :: "nat \<Rightarrow> nat \<Rightarrow> decimal \<Rightarrow> bool" where
  "field_figure n k d \<longleftrightarrow> setup_figure n k d \<and> \<bar>dval d\<bar> < 10 ^ (n - k)"
definition positive_figure :: "decimal \<Rightarrow> bool" where
  "positive_figure d \<longleftrightarrow> field_figure 12 4 d \<and> 0 < dval d"
definition percent_figure :: "decimal \<Rightarrow> bool" where
  "percent_figure d \<longleftrightarrow> field_figure 7 4 d \<and> 0 \<le> dval d \<and> dval d < 100"

definition momentum_ok :: "momentum \<Rightarrow> bool" where
  "momentum_ok m \<longleftrightarrow> positive_figure (mo_value m) \<and> \<not> (mo_kind m = Percent_Down \<and> 100 \<le> dval (mo_value m))"

datatype reentry_kind = At_Once | On_Momentum

record reentry_rule =
  re_kind :: reentry_kind
  re_count :: int

definition reentry_ok :: "reentry_rule \<Rightarrow> bool" where
  "reentry_ok r \<longleftrightarrow> 1 \<le> re_count r \<and> re_count r \<le> max_reentries"

datatype expiry_rule = Same_Day | This_Week | Min_Days int
datatype strike_rule = At_The_Money | Steps_From_The_Money int

fun expiry_rule_ok :: "expiry_rule \<Rightarrow> bool" where
  "expiry_rule_ok (Min_Days n) \<longleftrightarrow> 0 \<le> n \<and> n \<le> max_expiry_days"
| "expiry_rule_ok _ \<longleftrightarrow> True"

fun strike_rule_ok :: "strike_rule \<Rightarrow> bool" where
  "strike_rule_ok (Steps_From_The_Money n) \<longleftrightarrow> - max_strike_steps \<le> n \<and> n \<le> max_strike_steps \<and> n \<noteq> 0"
| "strike_rule_ok At_The_Money \<longleftrightarrow> True"

record leg_setup =
  ls_leg_id :: string
  ls_side :: leg_side
  ls_right :: option_right
  ls_contracts :: int
  ls_expiry :: expiry_rule
  ls_strike :: strike_rule
  ls_stop_loss :: "stop_loss option"
  ls_momentum :: "momentum option"
  ls_reentry :: "reentry_rule option"

definition leg_id_char :: "char \<Rightarrow> bool" where
  "leg_id_char c \<longleftrightarrow> (let n = of_char c :: nat in 97 \<le> n \<and> n \<le> 122 \<or> 48 \<le> n \<and> n \<le> 57 \<or> n = 95)"

definition leg_id_ok :: "string \<Rightarrow> bool" where
  "leg_id_ok i \<longleftrightarrow> 1 \<le> length i \<and> length i \<le> 32 \<and> list_all leg_id_char i"

definition stop_leaves_something :: "leg_side \<Rightarrow> stop_loss option \<Rightarrow> bool" where
  "stop_leaves_something side rule =
     (case rule of None \<Rightarrow> True
      | Some r \<Rightarrow> \<not> (side = Buy \<and> sl_kind r = Stop_Percent \<and> 100 \<le> dval (sl_value r)))"

definition reentry_has_momentum :: "leg_setup \<Rightarrow> bool" where
  "reentry_has_momentum l =
     (case ls_reentry l of None \<Rightarrow> True | Some r \<Rightarrow> \<not> (re_kind r = On_Momentum \<and> ls_momentum l = None))"

definition leg_setup_ok :: "leg_setup \<Rightarrow> bool" where
  "leg_setup_ok l \<longleftrightarrow> leg_id_ok (ls_leg_id l) \<and> 1 \<le> ls_contracts l \<and> ls_contracts l \<le> max_contracts
     \<and> expiry_rule_ok (ls_expiry l) \<and> strike_rule_ok (ls_strike l)
     \<and> pred_option (\<lambda>r. positive_figure (sl_value r)) (ls_stop_loss l)
     \<and> pred_option momentum_ok (ls_momentum l) \<and> pred_option reentry_ok (ls_reentry l)
     \<and> stop_leaves_something (ls_side l) (ls_stop_loss l) \<and> reentry_has_momentum l"

datatype square_off = Partial | Complete
datatype fee_policy = Estimated | Per_Contract decimal | Not_Charged

record backtest_setup =
  bs_underlying :: string
  bs_entry :: session_time
  bs_exit :: session_time
  bs_no_reentry_after :: "session_time option"
  bs_square_off :: square_off
  bs_legs :: "leg_setup list"
  bs_slippage_percent :: decimal
  bs_price_step :: decimal
  bs_fees :: fee_policy
  bs_starting_cash :: decimal

definition setup_sells :: "backtest_setup \<Rightarrow> bool" where
  "setup_sells s \<longleftrightarrow> list_ex (\<lambda>l. ls_side l = Sell) (bs_legs s)"

definition window_fits :: "backtest_setup \<Rightarrow> int \<Rightarrow> int \<Rightarrow> bool" where
  "window_fits s session_open session_close =
     (let entry = time_at (bs_entry s) session_open session_close; exit = time_at (bs_exit s) session_open session_close
      in session_open + ms_per_minute \<le> entry \<and> entry < exit \<and> exit \<le> session_close - ms_per_minute)"

datatype setup_error =
    Repeated_Leg_Id
  | Entry_Too_Early
  | Entry_Too_Late
  | Exit_Too_Late
  | Exit_Too_Early
  | Exit_Not_After_Entry
  | Window_Longer_Than_A_Day
  | Reentry_Never_Reached string
  | Sells_More_Than_It_Buys option_right
  | Expiry_Rules_Differ string

definition every_leg_has_its_own_id :: "backtest_setup \<Rightarrow> (setup_error, unit) result" where
  "every_leg_has_its_own_id s = guardR (distinct (map ls_leg_id (bs_legs s))) Repeated_Leg_Id"

definition the_window_can_hold_a_trade :: "backtest_setup \<Rightarrow> (setup_error, unit) result" where
  "the_window_can_hold_a_trade s =
     (let entry = bs_entry s; exit = bs_exit s in
      if st_anchor entry = Open_Anchor \<and> st_offset_ms entry < ms_per_minute then Inl Entry_Too_Early
      else if st_anchor entry = Close_Anchor \<and> st_offset_ms entry < 2 * ms_per_minute then Inl Entry_Too_Late
      else if st_anchor exit = Close_Anchor \<and> st_offset_ms exit < ms_per_minute then Inl Exit_Too_Late
      else if st_anchor exit = Open_Anchor \<and> st_offset_ms exit < 2 * ms_per_minute then Inl Exit_Too_Early
      else if st_anchor entry = st_anchor exit
      then guardR (if st_anchor entry = Open_Anchor then st_offset_ms entry < st_offset_ms exit
                   else st_offset_ms exit < st_offset_ms entry) Exit_Not_After_Entry
      else if st_anchor entry = Open_Anchor \<and> ms_per_day \<le> st_offset_ms entry + st_offset_ms exit
      then Inl Window_Longer_Than_A_Day
      else Inr ())"

definition stop_can_close :: "backtest_setup \<Rightarrow> leg_setup \<Rightarrow> bool" where
  "stop_can_close s l =
     (let stopped = filter (\<lambda>each. ls_stop_loss each \<noteq> None) (bs_legs s) in
      if ls_stop_loss l \<noteq> None then True
      else if bs_square_off s = Complete \<and> stopped \<noteq> [] then True
      else ls_side l = Sell \<and> list_ex (\<lambda>each. ls_side each = Buy \<and> ls_right each = ls_right l) stopped)"

definition reentry_rules_can_be_reached :: "backtest_setup \<Rightarrow> (setup_error, unit) result" where
  "reentry_rules_can_be_reached s =
     (case find (\<lambda>l. \<not> (ls_reentry l = None \<or> stop_can_close s l)) (bs_legs s) of
        None \<Rightarrow> Inr () | Some l \<Rightarrow> Inl (Reentry_Never_Reached (ls_leg_id l)))"

definition contracts_of :: "backtest_setup \<Rightarrow> option_right \<Rightarrow> leg_side \<Rightarrow> int" where
  "contracts_of s right side =
     (\<Sum>l\<leftarrow>filter (\<lambda>l. ls_right l = right \<and> ls_side l = side) (bs_legs s). ls_contracts l)"

definition sold_covered_by_bought :: "backtest_setup \<Rightarrow> (setup_error, unit) result" where
  "sold_covered_by_bought s =
     (case find (\<lambda>right. contracts_of s right Buy < contracts_of s right Sell) [Call, Put] of
        None \<Rightarrow> Inr () | Some right \<Rightarrow> Inl (Sells_More_Than_It_Buys right))"

definition one_expiry_rule_when_selling :: "backtest_setup \<Rightarrow> (setup_error, unit) result" where
  "one_expiry_rule_when_selling s =
     (if \<not> setup_sells s then Inr ()
      else case find (\<lambda>l. ls_expiry l \<noteq> ls_expiry (hd (bs_legs s))) (tl (bs_legs s)) of
             None \<Rightarrow> Inr () | Some l \<Rightarrow> Inl (Expiry_Rules_Differ (ls_leg_id l)))"

definition validate_setup :: "backtest_setup \<Rightarrow> (setup_error, unit) result" where
  "validate_setup s =
     bindR (every_leg_has_its_own_id s) (\<lambda>_.
     bindR (the_window_can_hold_a_trade s) (\<lambda>_.
     bindR (reentry_rules_can_be_reached s) (\<lambda>_.
     bindR (sold_covered_by_bought s) (\<lambda>_.
       one_expiry_rule_when_selling s))))"

definition underlying_ok :: "string \<Rightarrow> bool" where
  "underlying_ok u \<longleftrightarrow> 1 \<le> length u \<and> length u \<le> 5
     \<and> list_all (\<lambda>c. 65 \<le> (of_char c :: nat) \<and> (of_char c :: nat) \<le> 90) u"

fun fee_policy_ok :: "fee_policy \<Rightarrow> bool" where
  "fee_policy_ok (Per_Contract d) \<longleftrightarrow> field_figure 8 4 d \<and> 0 \<le> dval d"
| "fee_policy_ok _ \<longleftrightarrow> True"

definition setup_fields_ok :: "backtest_setup \<Rightarrow> bool" where
  "setup_fields_ok s \<longleftrightarrow> session_time_ok (bs_entry s) \<and> session_time_ok (bs_exit s)
     \<and> pred_option session_time_ok (bs_no_reentry_after s)
     \<and> 1 \<le> length (bs_legs s) \<and> length (bs_legs s) \<le> max_legs \<and> list_all leg_setup_ok (bs_legs s)
     \<and> percent_figure (bs_slippage_percent s) \<and> positive_figure (bs_price_step s)
     \<and> underlying_ok (bs_underlying s) \<and> fee_policy_ok (bs_fees s)
     \<and> field_figure 14 2 (bs_starting_cash s) \<and> 0 < dval (bs_starting_cash s)"

definition setup_ok :: "backtest_setup \<Rightarrow> bool" where
  "setup_ok s \<longleftrightarrow> setup_fields_ok s \<and> validate_setup s = Inr ()"

subsection \<open>What the validators mean\<close>

lemma window_accepted:
  "the_window_can_hold_a_trade s = Inr () \<longleftrightarrow>
     (case (st_anchor (bs_entry s), st_anchor (bs_exit s)) of
        (Open_Anchor, Open_Anchor) \<Rightarrow> ms_per_minute \<le> st_offset_ms (bs_entry s)
          \<and> 2 * ms_per_minute \<le> st_offset_ms (bs_exit s) \<and> st_offset_ms (bs_entry s) < st_offset_ms (bs_exit s)
      | (Close_Anchor, Close_Anchor) \<Rightarrow> 2 * ms_per_minute \<le> st_offset_ms (bs_entry s)
          \<and> ms_per_minute \<le> st_offset_ms (bs_exit s) \<and> st_offset_ms (bs_exit s) < st_offset_ms (bs_entry s)
      | (Open_Anchor, Close_Anchor) \<Rightarrow> ms_per_minute \<le> st_offset_ms (bs_entry s)
          \<and> ms_per_minute \<le> st_offset_ms (bs_exit s) \<and> st_offset_ms (bs_entry s) + st_offset_ms (bs_exit s) < ms_per_day
      | (Close_Anchor, Open_Anchor) \<Rightarrow> 2 * ms_per_minute \<le> st_offset_ms (bs_entry s)
          \<and> 2 * ms_per_minute \<le> st_offset_ms (bs_exit s))"
  by (cases "st_anchor (bs_entry s)"; cases "st_anchor (bs_exit s)")
    (auto simp: the_window_can_hold_a_trade_def Let_def result_simps)

lemma whole_minutes:
  assumes "session_time_ok st"
  obtains k where "st_offset_ms st = 60000 * k" "0 \<le> k" "k < 1440"
proof -
  have o: "0 \<le> st_offset_ms st" "st_offset_ms st < 86400000" "60000 dvd st_offset_ms st"
    using assms by (auto simp: session_time_ok_def ms_per_day_def ms_per_minute_def)
  then obtain k where k: "st_offset_ms st = 60000 * k" by (auto elim: dvdE)
  show thesis by (rule that [OF k]) (use o k in linarith)+
qed

text \<open>The length of the shortest session an accepted window fits: its last minute is the one the exit fills in.\<close>

definition least_session :: "backtest_setup \<Rightarrow> int" where
  "least_session s =
     (let e = st_offset_ms (bs_entry s); x = st_offset_ms (bs_exit s) in
      ms_per_minute + (case (st_anchor (bs_entry s), st_anchor (bs_exit s)) of
        (Open_Anchor, Open_Anchor) \<Rightarrow> x
      | (Open_Anchor, Close_Anchor) \<Rightarrow> e + x
      | (Close_Anchor, Open_Anchor) \<Rightarrow> max e x
      | (Close_Anchor, Close_Anchor) \<Rightarrow> e))"

lemma least_session_fits:
  assumes "session_time_ok (bs_entry s)" "session_time_ok (bs_exit s)" "the_window_can_hold_a_trade s = Inr ()"
  shows "window_fits s session_open (session_open + least_session s)"
    and "least_session s \<le> ms_per_day \<and> ms_per_minute dvd least_session s"
proof -
  obtain e where e: "st_offset_ms (bs_entry s) = 60000 * e" "0 \<le> e" "e < 1440" using whole_minutes [OF assms(1)] .
  obtain x where x: "st_offset_ms (bs_exit s) = 60000 * x" "0 \<le> x" "x < 1440" using whole_minutes [OF assms(2)] .
  note defs = window_accepted window_fits_def time_at_def Let_def ms_per_minute_def ms_per_day_def least_session_def e(1) x(1)
  have larger: "max (60000 * e) (60000 * x) = 60000 * max e x" by (simp add: max_def)
  show "window_fits s session_open (session_open + least_session s)"
    using assms(3) e x by (cases "st_anchor (bs_entry s)"; cases "st_anchor (bs_exit s)") (auto simp: defs)
  define k where "k = 1 + (case (st_anchor (bs_entry s), st_anchor (bs_exit s)) of
      (Open_Anchor, Open_Anchor) \<Rightarrow> x | (Open_Anchor, Close_Anchor) \<Rightarrow> e + x
    | (Close_Anchor, Open_Anchor) \<Rightarrow> max e x | (Close_Anchor, Close_Anchor) \<Rightarrow> e)"
  have "least_session s = 60000 * k" using larger
    by (cases "st_anchor (bs_entry s)"; cases "st_anchor (bs_exit s)")
      (simp_all add: least_session_def k_def Let_def ms_per_minute_def e(1) x(1))
  moreover have "k \<le> 1440" using assms(3) e(2,3) x(2,3)
    by (cases "st_anchor (bs_entry s)"; cases "st_anchor (bs_exit s)")
      (simp_all add: k_def window_accepted ms_per_minute_def ms_per_day_def e(1) x(1))
  ultimately show "least_session s \<le> ms_per_day \<and> ms_per_minute dvd least_session s"
    by (simp add: ms_per_day_def ms_per_minute_def)
qed

text \<open>
  C40: the validator of a setup's window accepts an entry and an exit exactly when some session of whole minutes and of at
  most a day fits them. The shortest such session that fits an accepted window is \<open>least_session\<close> long, which can be a whole
  day: an entry and an exit a minute short of a day apart from their ends are accepted, and no session shorter than a day
  fits them.
\<close>

theorem window_validator_exact:
  assumes "session_time_ok (bs_entry s)" "session_time_ok (bs_exit s)"
  shows "(the_window_can_hold_a_trade s = Inr () \<longleftrightarrow>
       (\<exists>session_open session_close. ms_per_minute dvd session_open \<and> ms_per_minute dvd session_close
          \<and> session_close - session_open \<le> ms_per_day \<and> window_fits s session_open session_close))
     \<and> (the_window_can_hold_a_trade s = Inr () \<longrightarrow>
       (\<forall>session_open. window_fits s session_open (session_open + least_session s)
          \<and> (\<forall>session_close. ms_per_minute dvd session_open \<longrightarrow> ms_per_minute dvd session_close
               \<longrightarrow> window_fits s session_open session_close \<longrightarrow> least_session s \<le> session_close - session_open)))"
proof -
  have accepted: "the_window_can_hold_a_trade s = Inr ()"
    if "c - o' \<le> ms_per_day" "window_fits s o' c" for o' c
  proof -
    obtain e where e: "st_offset_ms (bs_entry s) = 60000 * e" using whole_minutes [OF assms(1)] .
    obtain x where x: "st_offset_ms (bs_exit s) = 60000 * x" using whole_minutes [OF assms(2)] .
    show ?thesis using that unfolding window_accepted window_fits_def time_at_def Let_def ms_per_minute_def ms_per_day_def e x
      by (cases "st_anchor (bs_entry s)"; cases "st_anchor (bs_exit s)") auto
  qed
  have least: "least_session s \<le> c - o'"
    if fits: "ms_per_minute dvd o'" "ms_per_minute dvd c" "window_fits s o' c" for o' c
  proof -
    obtain e where e: "st_offset_ms (bs_entry s) = 60000 * e" using whole_minutes [OF assms(1)] .
    obtain x where x: "st_offset_ms (bs_exit s) = 60000 * x" using whole_minutes [OF assms(2)] .
    obtain m n where mn: "o' = 60000 * m" "c = 60000 * n" using fits(1,2) by (auto simp: ms_per_minute_def elim!: dvdE)
    show ?thesis
    proof (cases "st_anchor (bs_entry s) = Open_Anchor \<and> st_anchor (bs_exit s) = Close_Anchor")
      case True
      then have "o' + 60000 * e < c - 60000 * x" using fits(3) by (simp add: window_fits_def time_at_def e x)
      then have "60000 * (m + e) < 60000 * (n - x)" by (simp add: mn algebra_simps)
      then have "m + e + 1 \<le> n - x" by simp
      then have "60000 + (60000 * e + 60000 * x) \<le> c - o'" unfolding mn by linarith
      with True show ?thesis by (simp add: least_session_def ms_per_minute_def e x)
    next
      case False
      then show ?thesis using fits(3)
        by (cases "st_anchor (bs_entry s)"; cases "st_anchor (bs_exit s)")
          (auto simp: least_session_def window_fits_def time_at_def Let_def ms_per_minute_def)
    qed
  qed
  have "\<exists>o' c. ms_per_minute dvd o' \<and> ms_per_minute dvd c \<and> c - o' \<le> ms_per_day \<and> window_fits s o' c"
    if "the_window_can_hold_a_trade s = Inr ()"
    using least_session_fits(1) [OF assms that, of 0] least_session_fits(2) [OF assms that] by (intro exI [of _ 0] exI [of _ "least_session s"]) auto
  with accepted least least_session_fits(1) [OF assms] show ?thesis by blast
qed

definition sample_leg :: leg_setup where
  "sample_leg = \<lparr>ls_leg_id = ''a'', ls_side = Buy, ls_right = Call, ls_contracts = 2, ls_expiry = Same_Day,
     ls_strike = At_The_Money, ls_stop_loss = Some \<lparr>sl_kind = Stop_Percent, sl_value = Finite 30 0\<rparr>,
     ls_momentum = None, ls_reentry = Some \<lparr>re_kind = At_Once, re_count = 1\<rparr>\<rparr>"

definition sample_setup :: backtest_setup where
  "sample_setup = \<lparr>bs_underlying = ''SPY'',
     bs_entry = \<lparr>st_anchor = Open_Anchor, st_offset_ms = 900000\<rparr>,
     bs_exit = \<lparr>st_anchor = Close_Anchor, st_offset_ms = 900000\<rparr>, bs_no_reentry_after = None,
     bs_square_off = Complete, bs_legs = [sample_leg], bs_slippage_percent = Finite 3 (- 1),
     bs_price_step = Finite 1 (- 2), bs_fees = Not_Charged, bs_starting_cash = Finite 10000 0\<rparr>"

lemma sample_setup_ok: "setup_ok sample_setup"
  by (simp add: setup_ok_def setup_fields_ok_def sample_setup_def sample_leg_def session_time_ok_def ms_per_day_def
      ms_per_minute_def max_legs_def leg_setup_ok_def leg_id_ok_def leg_id_char_def max_contracts_def positive_figure_def
      percent_figure_def field_figure_def setup_figure_def strip_def trail.simps digits_def show_nat.simps reentry_ok_def max_reentries_def
      stop_leaves_something_def reentry_has_momentum_def underlying_ok_def validate_setup_def
      every_leg_has_its_own_id_def the_window_can_hold_a_trade_def reentry_rules_can_be_reached_def stop_can_close_def
      sold_covered_by_bought_def contracts_of_def one_expiry_rule_when_selling_def setup_sells_def)

theorem window_validator_exact_witness:
  "the_window_can_hold_a_trade sample_setup = Inr () \<and> least_session sample_setup = 1860000
     \<and> window_fits sample_setup 0 1860000 \<and> \<not> window_fits sample_setup 0 1800000
     \<and> (\<exists>session_open session_close. ms_per_minute dvd session_open \<and> ms_per_minute dvd session_close
          \<and> session_close - session_open \<le> ms_per_day \<and> window_fits sample_setup session_open session_close)"
proof -
  have ok: "session_time_ok (bs_entry sample_setup)" "session_time_ok (bs_exit sample_setup)"
    by (simp_all add: sample_setup_def session_time_ok_def ms_per_day_def ms_per_minute_def)
  have accepted: "the_window_can_hold_a_trade sample_setup = Inr ()"
    by (simp add: sample_setup_def the_window_can_hold_a_trade_def ms_per_day_def ms_per_minute_def)
  have least: "least_session sample_setup = 1860000"
    by (simp add: sample_setup_def least_session_def ms_per_minute_def)
  note exact = window_validator_exact [OF ok, unfolded least]
  have "window_fits sample_setup 0 (0 + 1860000)"
    "ms_per_minute dvd 0 \<longrightarrow> ms_per_minute dvd 1800000 \<longrightarrow> window_fits sample_setup 0 1800000 \<longrightarrow> 1860000 \<le> 1800000 - (0 :: int)"
    using conjunct2 [OF exact] accepted by blast+
  moreover have "ms_per_minute dvd 1800000" by (simp add: ms_per_minute_def)
  ultimately have "window_fits sample_setup 0 1860000" "\<not> window_fits sample_setup 0 1800000" by simp_all
  with exact accepted least show ?thesis by blast
qed

end
