(* ===== verification/Session_State.thy ===== *)
theory Session_State
  imports Backtest_Setup Cover_Rules
begin

text \<open>
  The data of an options session: \<open>app/options_backtest/market.py\<close>, the timeline of
  \<open>app/options_backtest/results.py\<close>, and the state of \<open>app/options_bots/session.py\<close> with the
  validator a restored state must pass.

  The market is the caller's: its three questions are functions of \<open>market\<close>. An \<open>Event\<close>'s reason is the value
  of one of four enumerations with no value in common, so it is the member itself. An outcome's digest is
  \<open>sr_digest\<close> of it (SHA-256 of its JSON is a library's). Amounts are compared by value, as \<open>Decimal\<close> is.
  A \<open>dict\<close> is an association list. \<open>Session_Fuel\<close> is not the code's: it is what the model answers should its
  bound on the protection loop be passed, and it never is for a covered book.
\<close>

datatype session_error =
    Session_Value_Error
  | Session_Assertion
  | Session_Trap fill_error
  | Session_Book book_error
  | Session_Fuel

definition trapR :: "(fill_error, 'a) result \<Rightarrow> (session_error, 'a) result" where
  "trapR m = (case m of Inl e \<Rightarrow> Inl (Session_Trap e) | Inr x \<Rightarrow> Inr x)"
definition bookR :: "(book_error, 'a) result \<Rightarrow> (session_error, 'a) result" where
  "bookR m = (case m of Inl e \<Rightarrow> Inl (Session_Book e) | Inr x \<Rightarrow> Inr x)"

lemma liftR_Inr [result_simps]: "trapR m = Inr x \<longleftrightarrow> m = Inr x" "bookR m' = Inr y \<longleftrightarrow> m' = Inr y"
  by (cases m; cases m'; simp add: trapR_def bookR_def)+

subsection \<open>The market\<close>

record minute_bar =
  mb_close_ms :: int
  mb_open :: decimal
  mb_high :: decimal
  mb_low :: decimal
  mb_close :: decimal

datatype pick_refusal = Chain_Incomplete | Expiry_Not_Listed | Expiry_Not_A_Session | Strike_Not_Listed | Not_Standard

datatype pick_answer = Picked option_contract int | Pick_Refused pick_refusal string

record market =
  mk_open_ms :: int
  mk_close_ms :: int
  mk_underlying_close :: "int \<Rightarrow> decimal option"
  mk_pick :: "leg_setup \<Rightarrow> int \<Rightarrow> decimal \<Rightarrow> pick_answer"
  mk_option_bar :: "option_contract \<Rightarrow> int \<Rightarrow> minute_bar option"

subsection \<open>The timeline\<close>

datatype skip_reason = Window_Does_Not_Fit | Underlying_Did_Not_Trade

datatype exit_reason =
    Ex_Stop | Ex_Square_Off | Ex_Closed_With_Its_Protection | Ex_Exit_Time | Ex_Marked_Not_Sold | Ex_Marked_Not_Bought_Back

datatype cancel_reason = Cancel_Square_Off | Cancel_Exit_Time

datatype entry_refusal =
    Ref_Cash_Short | Ref_Other_Side | Ref_Second_Expiry | Ref_Cover_Did_Not_Trade | Ref_Cover_Not_Yet_Held | Ref_Sale_At_Zero

datatype timeline_kind =
    Ev_Picked | Ev_Pick_Refused | Ev_Starting_Price_Taken | Ev_No_Starting_Price | Ev_Momentum_Hit
  | Ev_Entry_Filled | Ev_Entry_Dropped | Ev_Entry_Refused_For_Cash | Ev_Entry_Refused_For_Cover
  | Ev_Entry_Refused_For_Second_Expiry | Ev_Entry_Refused_For_Other_Side | Ev_Sale_Not_Taken_At_Zero
  | Ev_Stop_Hit | Ev_Squared_Off | Ev_Closed_With_Its_Protection | Ev_Exit_Time | Ev_Close_Filled
  | Ev_Re_Entry_Earned | Ev_Re_Entry_Blocked_By_Cutoff | Ev_Re_Entry_Lost | Ev_Leg_Cancelled
  | Ev_Marked_Not_Sold | Ev_Marked_Not_Bought_Back

fun entry_refusal_event :: "entry_refusal \<Rightarrow> timeline_kind" where
  "entry_refusal_event Ref_Cash_Short = Ev_Entry_Refused_For_Cash"
| "entry_refusal_event Ref_Other_Side = Ev_Entry_Refused_For_Other_Side"
| "entry_refusal_event Ref_Second_Expiry = Ev_Entry_Refused_For_Second_Expiry"
| "entry_refusal_event Ref_Cover_Did_Not_Trade = Ev_Entry_Refused_For_Cover"
| "entry_refusal_event Ref_Cover_Not_Yet_Held = Ev_Entry_Refused_For_Cover"
| "entry_refusal_event Ref_Sale_At_Zero = Ev_Sale_Not_Taken_At_Zero"

datatype told_reason = Told_Cancel cancel_reason | Told_Refusal entry_refusal | Told_Pick pick_refusal | Told_Clerk_Reduction

record fill =
  fl_leg_id :: string
  fl_contract :: option_contract
  fl_side :: leg_side
  fl_contracts :: int
  fl_multiplier :: int
  fl_bar_close_ms :: int
  fl_seen :: decimal
  fl_filled :: decimal

definition same_fill :: "fill \<Rightarrow> fill \<Rightarrow> bool" where
  "same_fill a b \<longleftrightarrow> fl_leg_id a = fl_leg_id b \<and> fl_contract a = fl_contract b \<and> fl_side a = fl_side b
     \<and> fl_contracts a = fl_contracts b \<and> fl_multiplier a = fl_multiplier b \<and> fl_bar_close_ms a = fl_bar_close_ms b
     \<and> dval (fl_seen a) = dval (fl_seen b) \<and> dval (fl_filled a) = dval (fl_filled b)"

record mark =
  ma_bar_close_ms :: int
  ma_price :: decimal

record timeline_event =
  ev_kind :: timeline_kind
  ev_at_ms :: int
  ev_leg_id :: string
  ev_entry_number :: int
  ev_contract :: "option_contract option"
  ev_price :: "decimal option"
  ev_reason :: "told_reason option"
  ev_detail :: "string option"

subsection \<open>The state of a session\<close>

datatype phase = Ph_Done | Ph_Waiting | Ph_Ordered | Ph_Held | Ph_Earned

record attempt =
  at_contract :: option_contract
  at_multiplier :: int
  at_starting_price :: "decimal option"
  at_momentum_level :: "decimal option"
  at_at_once :: bool

definition same_attempt :: "attempt \<Rightarrow> attempt \<Rightarrow> bool" where
  "same_attempt a b \<longleftrightarrow> at_contract a = at_contract b \<and> at_multiplier a = at_multiplier b
     \<and> map_option dval (at_starting_price a) = map_option dval (at_starting_price b)
     \<and> map_option dval (at_momentum_level a) = map_option dval (at_momentum_level b) \<and> at_at_once a = at_at_once b"

record close_order =
  co_reason :: exit_reason
  co_group :: int
  co_decided_at_ms :: int
  co_earns_reentry :: bool

record position =
  po_attempt :: attempt
  po_entry_number :: int
  po_entry :: fill
  po_entry_fee :: decimal
  po_entry_decided_at_ms :: int
  po_stop_level :: "decimal option"
  po_last_seen :: mark
  po_close :: "close_order option"
  po_entry_terminal :: bool
  po_closed_contracts :: int
  po_externally_reduced :: bool

definition contracts_held :: "position \<Rightarrow> int" where
  "contracts_held p = fl_contracts (po_entry p) - po_closed_contracts p"

record leg =
  lg_setup :: leg_setup
  lg_reentries_left :: int
  lg_phase :: phase
  lg_attempt :: "attempt option"
  lg_order_decided_at_ms :: int
  lg_position :: "position option"
  lg_entries_filled :: int
  lg_entry_cancel_requested :: bool
  lg_close_on_fill :: "close_order option"

record session =
  ss_setup :: backtest_setup
  ss_open_ms :: int
  ss_close_ms :: int
  ss_legs :: "leg list"
  ss_groups :: int
  ss_started :: bool
  ss_exit_requested :: bool
  ss_skipped :: "skip_reason option"
  ss_last_minute_ms :: "int option"
  ss_observed :: "(string \<times> string) list"
  ss_events :: "timeline_event list"

definition reentry_limit :: "leg_setup \<Rightarrow> int" where
  "reentry_limit l = (case ls_reentry l of None \<Rightarrow> 0 | Some r \<Rightarrow> re_count r)"

text \<open>What the restore validator asks of one leg, in the code's order.\<close>

definition position_describes :: "leg \<Rightarrow> position \<Rightarrow> bool" where
  "position_describes l p \<longleftrightarrow>
     po_entry_number p = lg_entries_filled l - 1
     \<and> (case lg_attempt l of None \<Rightarrow> False | Some a \<Rightarrow> same_attempt (po_attempt p) a)
     \<and> fl_leg_id (po_entry p) = ls_leg_id (lg_setup l)
     \<and> fl_contract (po_entry p) = at_contract (po_attempt p)
     \<and> fl_side (po_entry p) = ls_side (lg_setup l)
     \<and> 0 \<le> po_closed_contracts p \<and> po_closed_contracts p \<le> fl_contracts (po_entry p)
     \<and> fl_contracts (po_entry p) \<le> ls_contracts (lg_setup l)
     \<and> fl_contracts (po_entry p) \<noteq> 0"

definition leg_describes :: "leg \<Rightarrow> bool" where
  "leg_describes l \<longleftrightarrow>
     0 \<le> lg_entries_filled l \<and> lg_entries_filled l \<le> reentry_limit (lg_setup l) + 1
     \<and> lg_reentries_left l = reentry_limit (lg_setup l) - max 0 (lg_entries_filled l - 1)
     \<and> (lg_phase l = Ph_Held \<longleftrightarrow> lg_position l \<noteq> None)
     \<and> (lg_phase l \<in> {Ph_Held, Ph_Waiting, Ph_Ordered} \<longrightarrow> lg_attempt l \<noteq> None)
     \<and> (case lg_position l of None \<Rightarrow> True | Some p \<Rightarrow> position_describes l p)"

definition state_describes_its_setup :: "session \<Rightarrow> bool" where
  "state_describes_its_setup s \<longleftrightarrow>
     \<not> (ss_close_ms s \<le> ss_open_ms s \<or> ss_open_ms s mod ms_per_minute \<noteq> 0 \<or> ss_close_ms s mod ms_per_minute \<noteq> 0)
     \<and> map lg_setup (ss_legs s) = bs_legs (ss_setup s)
     \<and> 0 \<le> ss_groups s
     \<and> (case ss_last_minute_ms s of None \<Rightarrow> True
        | Some m \<Rightarrow> m mod ms_per_minute = 0 \<and> ss_open_ms s < m \<and> m \<le> ss_close_ms s)
     \<and> list_all leg_describes (ss_legs s)"

subsection \<open>Outcomes and decisions\<close>

datatype order_kind = Entry_Order | Close_Order

record execution_outcome =
  eo_outcome_id :: string
  eo_leg_id :: string
  eo_entry_number :: int
  eo_kind :: order_kind
  eo_fill :: "fill option"
  eo_terminal :: bool
  eo_fee_usd :: decimal
  eo_mark :: "mark option"
  eo_refusal :: "entry_refusal option"
  eo_decided_at_ms :: "int option"

datatype decision =
    Open_Leg (dn_leg_id: string) (dn_entry_number: int) (dn_contract: option_contract) (dn_contracts: int)
      (dn_multiplier: int) (dn_decided_at_ms: int) (dn_side: leg_side)
  | Close_Leg (dn_leg_id: string) (dn_entry_number: int) (dn_contract: option_contract) (dn_contracts: int)
      (dn_multiplier: int) (dn_decided_at_ms: int) (dn_reason: exit_reason) (dn_group: int)
  | Cancel_Entry (dn_leg_id: string) (dn_entry_number: int) (dn_decided_at_ms: int) (dn_entry_decided_at_ms: int)

record surroundings =
  sr_market :: market
  sr_digest :: "execution_outcome \<Rightarrow> string"
  sr_et_date :: "int \<Rightarrow> date"

subsection \<open>Going through the legs\<close>

text \<open>A \<open>for leg in self.legs\<close> loop: each leg in turn, with what the loop carries.\<close>

fun sweep :: "('a \<Rightarrow> leg \<Rightarrow> ('e, 'a \<times> leg) result) \<Rightarrow> 'a \<Rightarrow> leg list \<Rightarrow> ('e, 'a \<times> leg list) result" where
  "sweep f a [] = Inr (a, [])"
| "sweep f a (l # ls) =
     bindR (f a l) (\<lambda>(a', l'). bindR (sweep f a' ls) (\<lambda>(a'', ls'). Inr (a'', l' # ls')))"

lemma sweep_list_all2:
  assumes "sweep f a ls = Inr (a', ls')" and "\<And>a l a' l'. l \<in> set ls \<Longrightarrow> f a l = Inr (a', l') \<Longrightarrow> Q l l'"
  shows "list_all2 Q ls ls'"
  using assms
proof (induction ls arbitrary: a ls')
  case (Cons l ls)
  then obtain a1 l1 ls1 where "f a l = Inr (a1, l1)" "sweep f a1 ls = Inr (a', ls1)" "ls' = l1 # ls1"
    by (auto simp: result_simps)
  with Cons.IH [of a1 ls1] Cons.prems(2) show ?case by auto
qed simp

lemma sweep_keeps:
  assumes "sweep f a ls = Inr (a', ls')" "list_all P ls"
    and step: "\<And>a l a' l'. P l \<Longrightarrow> f a l = Inr (a', l') \<Longrightarrow> P l'"
  shows "list_all P ls'"
proof -
  have "list_all2 (\<lambda>l l'. P l \<longrightarrow> P l') ls ls'" by (rule sweep_list_all2 [OF assms(1)]) (use step in blast)
  from this assms(2) show ?thesis by (induction rule: list_all2_induct) auto
qed

lemma sweep_carried:
  assumes "sweep f a ls = Inr (a', ls')" "I a"
    and step: "\<And>a l a' l'. I a \<Longrightarrow> f a l = Inr (a', l') \<Longrightarrow> I a'"
  shows "I a'"
  using assms(1,2)
proof (induction ls arbitrary: a ls')
  case (Cons l ls)
  then obtain a1 l1 ls1 where f: "f a l = Inr (a1, l1)" "sweep f a1 ls = Inr (a', ls1)" by (auto simp: result_simps)
  from Cons.IH [OF f(2) step [OF Cons.prems(2) f(1)]] show ?case .
qed simp

lemma sweep_total:
  "(\<And>a l. l \<in> set ls \<Longrightarrow> \<exists>r. f a l = Inr r) \<Longrightarrow> \<exists>r. sweep f a ls = Inr r"
proof (induction ls arbitrary: a)
  case (Cons l ls)
  obtain a1 l1 where "f a l = Inr (a1, l1)" using Cons.prems [of l a] by auto
  moreover obtain a2 ls2 where "sweep f a1 ls = Inr (a2, ls2)" using Cons.IH [of a1] Cons.prems by fastforce
  ultimately show ?case by simp
qed simp

end
