(* ===== verification/Session_Rules.thy ===== *)
theory Session_Rules
  imports Session_State
begin

text \<open>
  \<open>app/options_bots/session.py\<close>: the rules of an options session, a function per method of
  \<open>OptionsSession\<close>. A method that changes one leg is a function of the events so far and that leg; one that
  goes through the legs is a \<open>sweep\<close>; the session's own fields are threaded through \<open>session\<close>. Where an
  exception is raised the new state is lost in the model, as it is for a caller that restores what it saved.
\<close>

subsection \<open>Times, events, and what a leg must have\<close>

definition entry_ms :: "session \<Rightarrow> int" where
  "entry_ms s = time_at (bs_entry (ss_setup s)) (ss_open_ms s) (ss_close_ms s)"
definition exit_ms :: "session \<Rightarrow> int" where
  "exit_ms s = time_at (bs_exit (ss_setup s)) (ss_open_ms s) (ss_close_ms s)"
definition cutoff_ms :: "session \<Rightarrow> int option" where
  "cutoff_ms s = map_option (\<lambda>t. time_at t (ss_open_ms s) (ss_close_ms s)) (bs_no_reentry_after (ss_setup s))"

definition leg_id :: "leg \<Rightarrow> string" where "leg_id l = ls_leg_id (lg_setup l)"

definition attempt_of :: "leg \<Rightarrow> (session_error, attempt) result" where
  "attempt_of l = (case lg_attempt l of None \<Rightarrow> Inl Session_Assertion | Some a \<Rightarrow> Inr a)"
definition position_of :: "leg \<Rightarrow> (session_error, position) result" where
  "position_of l = (case lg_position l of None \<Rightarrow> Inl Session_Assertion | Some p \<Rightarrow> Inr p)"

definition tell ::
  "timeline_kind \<Rightarrow> int \<Rightarrow> leg \<Rightarrow> position option \<Rightarrow> option_contract option \<Rightarrow> decimal option \<Rightarrow> told_reason option
    \<Rightarrow> string option \<Rightarrow> timeline_event list \<Rightarrow> timeline_event list" where
  "tell kind t l position contract price why detail evs =
     evs @ [\<lparr>ev_kind = kind, ev_at_ms = t, ev_leg_id = leg_id l,
             ev_entry_number = (case position of None \<Rightarrow> lg_entries_filled l | Some p \<Rightarrow> po_entry_number p),
             ev_contract = contract, ev_price = price, ev_reason = why, ev_detail = detail\<rparr>]"

definition stop_level_of :: "stop_loss \<Rightarrow> fill \<Rightarrow> (session_error, decimal) result" where
  "stop_level_of rule f =
     trapR (if fl_side f = Sell then sold_stop_level rule (fl_filled f) else stop_level rule (fl_filled f))"

definition stop_reached :: "position \<Rightarrow> decimal \<Rightarrow> bool" where
  "stop_reached p close =
     (case po_stop_level p of None \<Rightarrow> False
      | Some level \<Rightarrow> if fl_side (po_entry p) = Sell then sold_stop_hit level close else stop_hit level close)"

definition lose_reentry :: "int \<Rightarrow> leg \<Rightarrow> timeline_event list \<Rightarrow> timeline_event list" where
  "lose_reentry t l evs = (if 0 < lg_entries_filled l then tell Ev_Re_Entry_Lost t l None None None None None evs else evs)"

subsection \<open>Beginning an attempt\<close>

definition begin_leg ::
  "market \<Rightarrow> int \<Rightarrow> decimal \<Rightarrow> bool \<Rightarrow> timeline_event list \<Rightarrow> leg \<Rightarrow> (session_error, timeline_event list \<times> leg) result" where
  "begin_leg mk t underlying wait evs l0 =
     (let l = l0\<lparr>lg_entry_cancel_requested := False, lg_close_on_fill := None\<rparr> in
      case mk_pick mk (lg_setup l) t underlying of
        Pick_Refused reason detail \<Rightarrow>
          Inr (lose_reentry t l (tell Ev_Pick_Refused t l None None None (Some (Told_Pick reason)) (Some detail) evs),
               l\<lparr>lg_phase := Ph_Done\<rparr>)
      | Picked contract multiplier \<Rightarrow>
          let evs1 = tell Ev_Picked t l None (Some contract) None None None evs in
          if \<not> wait
          then Inr (evs1, l\<lparr>lg_attempt := Some \<lparr>at_contract = contract, at_multiplier = multiplier,
                     at_starting_price = None, at_momentum_level = None, at_at_once = True\<rparr>,
                     lg_phase := Ph_Ordered, lg_order_decided_at_ms := t\<rparr>)
          else case mk_option_bar mk contract t of
                 None \<Rightarrow> Inr (lose_reentry t l (tell Ev_No_Starting_Price t l None (Some contract) None None None evs1),
                              l\<lparr>lg_phase := Ph_Done\<rparr>)
               | Some bar \<Rightarrow>
                   (case ls_momentum (lg_setup l) of
                      None \<Rightarrow> Inl Session_Assertion
                    | Some m \<Rightarrow>
                        bindR (trapR (momentum_level m (mb_close bar))) (\<lambda>level.
                          Inr (tell Ev_Starting_Price_Taken t l None (Some contract) (Some (mb_close bar)) None None evs1,
                               l\<lparr>lg_attempt := Some \<lparr>at_contract = contract, at_multiplier = multiplier,
                                   at_starting_price = Some (mb_close bar), at_momentum_level = Some level,
                                   at_at_once = False\<rparr>,
                                 lg_phase := Ph_Waiting\<rparr>))))"

definition check_momentum ::
  "market \<Rightarrow> int \<Rightarrow> timeline_event list \<Rightarrow> leg \<Rightarrow> (session_error, timeline_event list \<times> leg) result" where
  "check_momentum mk t evs l =
     bindR (attempt_of l) (\<lambda>a.
       case (ls_momentum (lg_setup l), at_momentum_level a) of
         (Some m, Some level) \<Rightarrow>
           (case mk_option_bar mk (at_contract a) t of
              None \<Rightarrow> Inr (evs, l)
            | Some bar \<Rightarrow>
                if momentum_reached m level (mb_close bar)
                then Inr (tell Ev_Momentum_Hit t l None (Some (at_contract a)) (Some (mb_close bar)) None None evs,
                          l\<lparr>lg_phase := Ph_Ordered, lg_order_decided_at_ms := t\<rparr>)
                else Inr (evs, l))
       | _ \<Rightarrow> Inl Session_Assertion)"

definition reenter ::
  "market \<Rightarrow> int \<Rightarrow> timeline_event list \<Rightarrow> leg \<Rightarrow> (session_error, timeline_event list \<times> leg) result" where
  "reenter mk t evs l =
     (case ls_reentry (lg_setup l) of
        None \<Rightarrow> Inl Session_Assertion
      | Some rule \<Rightarrow>
          (case mk_underlying_close mk t of
             None \<Rightarrow> Inr (evs, l)
           | Some underlying \<Rightarrow> begin_leg mk t underlying (re_kind rule = On_Momentum) evs l))"

definition a_close_is_pending :: "session \<Rightarrow> bool" where
  "a_close_is_pending s \<longleftrightarrow>
     list_ex (\<lambda>l. lg_phase l = Ph_Held \<and> (case lg_position l of None \<Rightarrow> False | Some p \<Rightarrow> po_close p \<noteq> None)) (ss_legs s)"

definition over_legs ::
  "(timeline_event list \<Rightarrow> leg \<Rightarrow> (session_error, timeline_event list \<times> leg) result) \<Rightarrow> session
    \<Rightarrow> (session_error, session) result" where
  "over_legs f s =
     bindR (sweep f (ss_events s) (ss_legs s)) (\<lambda>(evs, legs). Inr (s\<lparr>ss_events := evs, ss_legs := legs\<rparr>))"

definition enter_leg ::
  "market \<Rightarrow> int \<Rightarrow> timeline_event list \<Rightarrow> leg \<Rightarrow> (session_error, timeline_event list \<times> leg) result" where
  "enter_leg mk t evs l =
     (if lg_phase l = Ph_Earned then reenter mk t evs l
      else if lg_phase l = Ph_Waiting then check_momentum mk t evs l
      else Inr (evs, l))"

definition enter :: "market \<Rightarrow> int \<Rightarrow> session \<Rightarrow> (session_error, session) result" where
  "enter mk t s =
     (if bs_square_off (ss_setup s) = Complete \<and> a_close_is_pending s then Inr s
      else over_legs (enter_leg mk t) s)"

subsection \<open>Closing what is held\<close>

definition drop_entry :: "int \<Rightarrow> timeline_event list \<Rightarrow> leg \<Rightarrow> (session_error, timeline_event list \<times> leg) result" where
  "drop_entry t evs l =
     (let evs1 = tell Ev_Entry_Dropped t l None None None None None evs in
      bindR (attempt_of l) (\<lambda>a.
        if at_at_once a then Inr (lose_reentry t l evs1, l\<lparr>lg_phase := Ph_Done\<rparr>)
        else Inr (evs1, l\<lparr>lg_phase := Ph_Waiting\<rparr>)))"

definition finish_closed :: "bool \<Rightarrow> leg \<Rightarrow> (session_error, leg) result" where
  "finish_closed exit_requested l =
     bindR (position_of l) (\<lambda>p.
       if po_entry_terminal p \<and> po_closed_contracts p = fl_contracts (po_entry p)
       then let earns = (case po_close p of None \<Rightarrow> False | Some c \<Rightarrow> co_earns_reentry c)
                          \<and> \<not> po_externally_reduced p \<and> \<not> exit_requested
            in Inr (l\<lparr>lg_phase := (if earns then Ph_Earned else Ph_Done), lg_position := None\<rparr>)
       else Inr l)"

text \<open>Whether a leg closed at \<open>t\<close> earns a re-entry, with the event that says so.\<close>

definition earns_reentry ::
  "int option \<Rightarrow> int \<Rightarrow> timeline_event list \<Rightarrow> leg \<Rightarrow> (session_error, timeline_event list \<times> bool) result" where
  "earns_reentry cutoff t evs l =
     (if ls_reentry (lg_setup l) = None \<or> lg_reentries_left l \<le> 0 then Inr (evs, False)
      else bindR (position_of l) (\<lambda>p.
        if po_externally_reduced p then Inr (evs, False)
        else case cutoff of
               Some c \<Rightarrow>
                 if c < t then Inr (tell Ev_Re_Entry_Blocked_By_Cutoff t l None None None None None evs, False)
                 else Inr (tell Ev_Re_Entry_Earned t l None None None None None evs, True)
             | None \<Rightarrow> Inr (tell Ev_Re_Entry_Earned t l None None None None None evs, True)))"

definition order_close ::
  "int option \<Rightarrow> exit_reason \<Rightarrow> int \<Rightarrow> int \<Rightarrow> timeline_event list \<Rightarrow> leg \<Rightarrow> position
    \<Rightarrow> (session_error, timeline_event list \<times> leg) result" where
  "order_close cutoff reason grp t evs l p =
     bindR (earns_reentry cutoff t evs l) (\<lambda>(evs1, earns).
       Inr (evs1, l\<lparr>lg_position := Some (p\<lparr>po_close := Some \<lparr>co_reason = reason, co_group = grp,
         co_decided_at_ms = t, co_earns_reentry = earns\<rparr>\<rparr>)\<rparr>))"

definition exit_leg ::
  "bool \<Rightarrow> int \<Rightarrow> timeline_event list \<times> int \<times> int option \<Rightarrow> leg
    \<Rightarrow> (session_error, (timeline_event list \<times> int \<times> int option) \<times> leg) result" where
  "exit_leg exit_requested t = (\<lambda>(evs, groups, grp) l.
     let (groups', g) = (case grp of None \<Rightarrow> (groups + 1, groups + 1) | Some g \<Rightarrow> (groups, g));
         by_exit = \<lparr>co_reason = Ex_Exit_Time, co_group = g, co_decided_at_ms = t, co_earns_reentry = False\<rparr>;
         cancelled = tell Ev_Leg_Cancelled t l None None None (Some (Told_Cancel Cancel_Exit_Time)) None evs
     in if lg_phase l = Ph_Held
        then bindR (position_of l) (\<lambda>p.
               case po_close p of
                 None \<Rightarrow>
                   let p' = p\<lparr>po_close := Some by_exit\<rparr> in
                   Inr ((tell Ev_Exit_Time t l (Some p') (Some (at_contract (po_attempt p'))) None None None evs,
                         groups', Some g), l\<lparr>lg_position := Some p'\<rparr>)
               | Some c \<Rightarrow>
                   Inr ((if co_earns_reentry c \<and> \<not> exit_requested then cancelled else evs, groups, grp), l))
        else if lg_phase l = Ph_Waiting \<or> lg_phase l = Ph_Earned
        then Inr ((tell Ev_Leg_Cancelled t l None None None (Some (Told_Cancel Cancel_Exit_Time)) None evs, groups, grp),
                  l\<lparr>lg_phase := Ph_Done\<rparr>)
        else if lg_phase l = Ph_Ordered \<and> lg_close_on_fill l = None
        then Inr ((evs, groups', Some g), l\<lparr>lg_close_on_fill := Some by_exit\<rparr>)
        else Inr ((evs, groups, grp), l))"

definition exit_time :: "int \<Rightarrow> session \<Rightarrow> (session_error, session) result" where
  "exit_time t s =
     bindR (sweep (exit_leg (ss_exit_requested s) t) (ss_events s, ss_groups s, None) (ss_legs s))
       (\<lambda>((evs, groups, _), legs). Inr (s\<lparr>ss_events := evs, ss_groups := groups, ss_legs := legs\<rparr>))"

type_synonym held_bars = "(string \<times> minute_bar option) list"

definition bar_of :: "held_bars \<Rightarrow> string \<Rightarrow> minute_bar option" where
  "bar_of bars i = (case map_of bars i of None \<Rightarrow> None | Some bar \<Rightarrow> bar)"

definition read_leg_bar :: "market \<Rightarrow> int \<Rightarrow> held_bars \<Rightarrow> leg \<Rightarrow> (session_error, held_bars \<times> leg) result" where
  "read_leg_bar mk t bars l =
     (if lg_phase l \<noteq> Ph_Held then Inr (bars, l)
      else bindR (position_of l) (\<lambda>p.
        if t < fl_bar_close_ms (po_entry p) then Inr (bars, l)
        else let bar = mk_option_bar mk (at_contract (po_attempt p)) t in
             Inr (AList.update (leg_id l) bar bars,
                  case bar of None \<Rightarrow> l
                  | Some b \<Rightarrow> l\<lparr>lg_position := Some (p\<lparr>po_last_seen := \<lparr>ma_bar_close_ms = t, ma_price = mb_close b\<rparr>\<rparr>)\<rparr>)))"

definition read_held_bars :: "market \<Rightarrow> int \<Rightarrow> session \<Rightarrow> (session_error, session \<times> held_bars) result" where
  "read_held_bars mk t s =
     bindR (sweep (read_leg_bar mk t) [] (ss_legs s)) (\<lambda>(bars, legs). Inr (s\<lparr>ss_legs := legs\<rparr>, bars))"

fun legs_at_their_stop :: "held_bars \<Rightarrow> leg list \<Rightarrow> (session_error, (string \<times> minute_bar) list) result" where
  "legs_at_their_stop bars [] = Inr []"
| "legs_at_their_stop bars (l # ls) =
     (if lg_phase l \<noteq> Ph_Held then legs_at_their_stop bars ls
      else bindR (position_of l) (\<lambda>p.
        case bar_of bars (leg_id l) of
          Some bar \<Rightarrow>
            if po_close p = None \<and> po_stop_level p \<noteq> None \<and> stop_reached p (mb_close bar)
            then bindR (legs_at_their_stop bars ls) (\<lambda>hit. Inr ((leg_id l, bar) # hit))
            else legs_at_their_stop bars ls
        | None \<Rightarrow> legs_at_their_stop bars ls))"

text \<open>What the legs hold, as the cover book reads it.\<close>

definition leg_holding :: "bool \<Rightarrow> leg \<Rightarrow> holding option" where
  "leg_holding including_closing l =
     (case lg_position l of
        None \<Rightarrow> None
      | Some p \<Rightarrow>
          if lg_phase l = Ph_Held \<and> 0 < contracts_held p \<and> (including_closing \<or> po_close p = None)
          then Some \<lparr>h_leg_id = leg_id l, h_contract = fl_contract (po_entry p), h_side = fl_side (po_entry p),
                     h_contracts = contracts_held p, h_multiplier = fl_multiplier (po_entry p)\<rparr>
          else None)"

definition held_by_legs :: "bool \<Rightarrow> leg list \<Rightarrow> (session_error, held) result" where
  "held_by_legs including_closing ls =
     (let hs = List.map_filter (leg_holding including_closing) ls in
      if list_all holding_ok hs then bookR (make_held (map leg_id ls) hs) else Inl (Session_Book Book_Value_Error))"

definition closing_legs :: "leg list \<Rightarrow> string list" where
  "closing_legs ls = map leg_id (filter (\<lambda>l. lg_phase l = Ph_Held \<and>
     (case lg_position l of None \<Rightarrow> False | Some p \<Rightarrow> po_close p \<noteq> None)) ls)"

subsection \<open>Stops and protection\<close>

text \<open>The loop that asks the book again until it adds nothing. Every round takes a sold leg that is held.\<close>

fun protection_plan :: "(int \<Rightarrow> date) \<Rightarrow> held \<Rightarrow> string list \<Rightarrow> nat \<Rightarrow> string list \<Rightarrow> (session_error, string list) result" where
  "protection_plan et_date standing leaving 0 plan = Inl Session_Fuel"
| "protection_plan et_date standing leaving (Suc fuel) plan =
     bindR (bookR (without standing plan)) (\<lambda>left.
     bindR (bookR (leaving_plan et_date left leaving)) (\<lambda>more.
       if more = [] then Inr plan else protection_plan et_date standing leaving fuel (plan @ more)))"

definition protect_leg ::
  "int option \<Rightarrow> int \<Rightarrow> int \<Rightarrow> string \<Rightarrow> timeline_event list \<Rightarrow> leg \<Rightarrow> (session_error, timeline_event list \<times> leg) result" where
  "protect_leg cutoff grp t i evs l =
     (if leg_id l \<noteq> i then Inr (evs, l)
      else bindR (position_of l) (\<lambda>p.
        order_close cutoff Ex_Closed_With_Its_Protection grp t
          (tell Ev_Closed_With_Its_Protection t l (Some p) (Some (at_contract (po_attempt p))) None None None evs) l p))"

definition close_with_protection ::
  "(int \<Rightarrow> date) \<Rightarrow> int \<Rightarrow> int \<Rightarrow> held \<Rightarrow> string list \<Rightarrow> session \<Rightarrow> (session_error, session) result" where
  "close_with_protection et_date t grp standing leaving s =
     bindR (protection_plan et_date standing leaving (Suc (length (hd_holdings standing))) []) (\<lambda>plan.
       foldR (\<lambda>s i. over_legs (protect_leg (cutoff_ms s) grp t i) s) s plan)"

definition stop_leg ::
  "(string \<times> minute_bar) list \<Rightarrow> bool \<Rightarrow> int option \<Rightarrow> int \<Rightarrow> int
    \<Rightarrow> timeline_event list \<times> string list \<times> string list \<Rightarrow> leg
    \<Rightarrow> (session_error, (timeline_event list \<times> string list \<times> string list) \<times> leg) result" where
  "stop_leg hit closes_all cutoff grp t = (\<lambda>(evs, leaving, stopped_sold) l.
     if lg_phase l = Ph_Held
     then bindR (position_of l) (\<lambda>p.
            if po_close p \<noteq> None then Inr ((evs, leaving, stopped_sold), l)
            else
              let close_it = (\<lambda>reason evs1. bindR (order_close cutoff reason grp t evs1 l p) (\<lambda>(evs2, l').
                    Inr ((evs2, if ls_side (lg_setup l) = Sell then leaving else leaving @ [leg_id l],
                          if ls_side (lg_setup l) = Sell then stopped_sold @ [leg_id l] else stopped_sold), l')))
              in case map_of hit (leg_id l) of
                   Some bar \<Rightarrow> close_it Ex_Stop
                     (tell Ev_Stop_Hit t l (Some p) (Some (at_contract (po_attempt p))) (Some (mb_close bar)) None None evs)
                 | None \<Rightarrow>
                     if closes_all
                     then close_it Ex_Square_Off
                       (tell Ev_Squared_Off t l (Some p) (Some (at_contract (po_attempt p))) None None None evs)
                     else Inr ((evs, leaving, stopped_sold), l))
     else if closes_all \<and> lg_phase l = Ph_Waiting
     then Inr ((tell Ev_Leg_Cancelled t l None None None (Some (Told_Cancel Cancel_Square_Off)) None evs,
                leaving, stopped_sold), l\<lparr>lg_phase := Ph_Done\<rparr>)
     else if closes_all \<and> lg_phase l = Ph_Ordered
     then Inr ((evs, leaving, stopped_sold),
               l\<lparr>lg_close_on_fill := Some \<lparr>co_reason = Ex_Square_Off, co_group = grp, co_decided_at_ms = t,
                                       co_earns_reentry = False\<rparr>\<rparr>)
     else Inr ((evs, leaving, stopped_sold), l))"

definition stops :: "(int \<Rightarrow> date) \<Rightarrow> int \<Rightarrow> held_bars \<Rightarrow> session \<Rightarrow> (session_error, session \<times> bool) result" where
  "stops et_date t bars s =
     bindR (legs_at_their_stop bars (ss_legs s)) (\<lambda>hit.
       if hit = [] then Inr (s, False)
       else
         let grp = ss_groups s + 1;
             closes_all = (bs_square_off (ss_setup s) = Complete)
         in bindR (if setup_sells (ss_setup s) \<and> \<not> closes_all
                   then bindR (held_by_legs False (ss_legs s)) (\<lambda>h. Inr (Some h)) else Inr None) (\<lambda>standing.
            bindR (sweep (stop_leg hit closes_all (cutoff_ms s) grp t) (ss_events s, [], []) (ss_legs s))
              (\<lambda>((evs, leaving, stopped_sold), legs).
               let s' = s\<lparr>ss_groups := grp, ss_events := evs, ss_legs := legs\<rparr> in
               case standing of
                 None \<Rightarrow> Inr (s', True)
               | Some book \<Rightarrow>
                   if leaving = [] then Inr (s', True)
                   else bindR (bookR (without book stopped_sold)) (\<lambda>book'.
                        bindR (close_with_protection et_date t grp book' leaving s') (\<lambda>s''. Inr (s'', True))))))"

definition advance_rules ::
  "surroundings \<Rightarrow> int \<Rightarrow> held_bars \<Rightarrow> bool \<Rightarrow> session \<Rightarrow> (session_error, session) result" where
  "advance_rules sr t bars allow_entries s =
     (if exit_ms s \<le> t then bindR (exit_time t s) (\<lambda>s'. Inr (s'\<lparr>ss_exit_requested := True\<rparr>))
      else bindR (stops (sr_et_date sr) t bars s) (\<lambda>(s', decided).
        if \<not> decided \<and> allow_entries then enter (sr_market sr) t s' else Inr s'))"

subsection \<open>Starting, and observing what was executed\<close>

definition start_session :: "surroundings \<Rightarrow> int \<Rightarrow> bool \<Rightarrow> session \<Rightarrow> (session_error, session) result" where
  "start_session sr t allow_entries s0 =
     (let s = s0\<lparr>ss_started := True\<rparr>; mk = sr_market sr in
      if \<not> window_fits (ss_setup s) (ss_open_ms s) (ss_close_ms s)
      then Inr (s\<lparr>ss_skipped := Some Window_Does_Not_Fit\<rparr>)
      else if t \<noteq> entry_ms s \<or> \<not> allow_entries then Inr s
      else case mk_underlying_close mk t of
             None \<Rightarrow> Inr (s\<lparr>ss_skipped := Some Underlying_Did_Not_Trade\<rparr>)
           | Some underlying \<Rightarrow>
               over_legs (\<lambda>evs l. begin_leg mk t underlying (ls_momentum (lg_setup l) \<noteq> None) evs l) s)"

definition observe_entry ::
  "bool \<Rightarrow> execution_outcome \<Rightarrow> int \<Rightarrow> timeline_event list \<Rightarrow> leg \<Rightarrow> (session_error, timeline_event list \<times> leg) result" where
  "observe_entry exit_requested oc t evs l =
     (case (eo_fill oc, lg_position l) of
        (None, Some p) \<Rightarrow>
          if \<not> eo_terminal oc then Inr (evs, l)
          else bindR (finish_closed exit_requested (l\<lparr>lg_position := Some (p\<lparr>po_entry_terminal := True\<rparr>)\<rparr>)) (\<lambda>l'. Inr (evs, l'))
      | (None, None) \<Rightarrow>
          if \<not> eo_terminal oc then Inr (evs, l)
          else (case eo_refusal oc of
                  Some why \<Rightarrow> Inr (tell (entry_refusal_event why) t l None None None (Some (Told_Refusal why)) None evs,
                                   l\<lparr>lg_phase := Ph_Done\<rparr>)
                | None \<Rightarrow> drop_entry t evs l)
      | (Some f, None) \<Rightarrow>
          if fl_side f \<noteq> ls_side (lg_setup l) then Inl Session_Value_Error
          else if lg_phase l \<noteq> Ph_Ordered then Inl Session_Value_Error
          else bindR (attempt_of l) (\<lambda>a.
               bindR (case ls_stop_loss (lg_setup l) of None \<Rightarrow> Inr None
                      | Some rule \<Rightarrow> bindR (stop_level_of rule f) (\<lambda>v. Inr (Some v))) (\<lambda>level.
                 let p = \<lparr>po_attempt = a, po_entry_number = lg_entries_filled l, po_entry = f,
                          po_entry_fee = eo_fee_usd oc, po_entry_decided_at_ms = lg_order_decided_at_ms l,
                          po_stop_level = level,
                          po_last_seen = (case eo_mark oc of Some m \<Rightarrow> m
                                          | None \<Rightarrow> \<lparr>ma_bar_close_ms = t, ma_price = fl_filled f\<rparr>),
                          po_close = lg_close_on_fill l, po_entry_terminal = eo_terminal oc,
                          po_closed_contracts = 0, po_externally_reduced = False\<rparr>;
                     l' = l\<lparr>lg_reentries_left := (if 0 < lg_entries_filled l then lg_reentries_left l - 1
                                                else lg_reentries_left l),
                           lg_entries_filled := lg_entries_filled l + 1,
                           lg_position := Some p, lg_phase := Ph_Held\<rparr>;
                     evs1 = tell Ev_Entry_Filled t l' (Some p) (Some (fl_contract f)) (Some (fl_filled f)) None None evs
                 in Inr (case po_close p of
                           None \<Rightarrow> evs1
                         | Some c \<Rightarrow> tell (if co_reason c = Ex_Exit_Time then Ev_Exit_Time else Ev_Squared_Off)
                                       t l' (Some p) (Some (fl_contract f)) None None None evs1, l')))
      | (Some f, Some p) \<Rightarrow>
          if fl_side f \<noteq> ls_side (lg_setup l) then Inl Session_Value_Error
          else if fl_contracts f < fl_contracts (po_entry p) then Inl Session_Value_Error
          else if po_entry_terminal p \<and> \<not> same_fill f (po_entry p) then Inl Session_Value_Error
          else bindR (case ls_stop_loss (lg_setup l) of None \<Rightarrow> Inr (po_stop_level p)
                      | Some rule \<Rightarrow> bindR (stop_level_of rule f) (\<lambda>v. Inr (Some v))) (\<lambda>level.
               bindR (finish_closed exit_requested (l\<lparr>lg_position := Some (p\<lparr>po_entry := f,
                   po_entry_fee := eo_fee_usd oc,
                   po_entry_terminal := eo_terminal oc \<or> po_entry_terminal p, po_stop_level := level,
                   po_last_seen := (case eo_mark oc of Some m \<Rightarrow> m | None \<Rightarrow> po_last_seen p)\<rparr>)\<rparr>)) (\<lambda>l'.
                 Inr (evs, l'))))"

definition clerk_reduction_detail :: string where
  "clerk_reduction_detail = ''The Clerk reduced this leg outside its session decisions.''"

definition observe_close ::
  "bool \<Rightarrow> execution_outcome \<Rightarrow> int \<Rightarrow> timeline_event list \<Rightarrow> leg \<Rightarrow> (session_error, timeline_event list \<times> leg) result" where
  "observe_close exit_requested oc t evs l =
     (case eo_fill oc of
        None \<Rightarrow> Inr (evs, l)
      | Some f \<Rightarrow>
          bindR (position_of l) (\<lambda>p.
            if fl_side f = ls_side (lg_setup l)
               \<or> \<not> (po_closed_contracts p \<le> fl_contracts f \<and> fl_contracts f \<le> fl_contracts (po_entry p))
            then Inl Session_Value_Error
            else
              let added = fl_contracts f - po_closed_contracts p;
                  p1 = p\<lparr>po_closed_contracts := fl_contracts f\<rparr>;
                  p' = (if po_close p = None then p1\<lparr>po_externally_reduced := True\<rparr> else p1);
                  evs' = (if po_close p = None
                          then if added \<noteq> 0
                               then tell Ev_Close_Filled t l (Some p') (Some (fl_contract f)) (Some (fl_filled f))
                                      (Some Told_Clerk_Reduction) (Some clerk_reduction_detail) evs
                               else evs
                          else if added \<noteq> 0 \<and> fl_contracts f = fl_contracts (po_entry p)
                          then tell Ev_Close_Filled t l (Some p') (Some (fl_contract f)) (Some (fl_filled f)) None None evs
                          else evs)
              in bindR (finish_closed exit_requested (l\<lparr>lg_position := Some p'\<rparr>)) (\<lambda>l'. Inr (evs', l'))))"

text \<open>The checks of an outcome's fill against the leg it names.\<close>

definition fill_matches :: "leg \<Rightarrow> attempt \<Rightarrow> fill \<Rightarrow> int \<Rightarrow> bool" where
  "fill_matches l a f t \<longleftrightarrow> fl_leg_id f = leg_id l \<and> fl_contract f = at_contract a \<and> fl_multiplier f = at_multiplier a
     \<and> 0 < fl_contracts f \<and> fl_contracts f \<le> ls_contracts (lg_setup l) \<and> \<not> dval (fl_filled f) < 0 \<and> fl_bar_close_ms f \<le> t"

text \<open>A leg that was changed, in its place: the code changes one leg object, and a validated setup gives each its own id.\<close>

definition put_leg :: "leg \<Rightarrow> leg list \<Rightarrow> leg list" where
  "put_leg l' ls = map (\<lambda>l. if leg_id l = leg_id l' then l' else l) ls"

definition observe_execution ::
  "surroundings \<Rightarrow> execution_outcome \<Rightarrow> int \<Rightarrow> session \<Rightarrow> (session_error, session) result" where
  "observe_execution sr oc t s =
     (case map_of (ss_observed s) (eo_outcome_id oc) of
        Some previous \<Rightarrow> if previous \<noteq> sr_digest sr oc then Inl Session_Value_Error else Inr s
      | None \<Rightarrow>
          (case find (\<lambda>l. leg_id l = eo_leg_id oc) (ss_legs s) of
             None \<Rightarrow> Inl Session_Value_Error
           | Some l \<Rightarrow>
               let expected = (case lg_position l of None \<Rightarrow> lg_entries_filled l | Some p \<Rightarrow> po_entry_number p) in
               if eo_entry_number oc \<noteq> expected then Inl Session_Value_Error
               else if (case eo_decided_at_ms oc of None \<Rightarrow> False | Some d \<Rightarrow> d \<noteq> lg_order_decided_at_ms l)
               then Inl Session_Value_Error
               else bindR (case eo_fill oc of
                             None \<Rightarrow> Inr ()
                           | Some f \<Rightarrow>
                               if fl_leg_id f \<noteq> leg_id l then Inl Session_Value_Error
                               else bindR (attempt_of l) (\<lambda>a. guardR (fill_matches l a f t) Session_Value_Error)) (\<lambda>_.
                    bindR ((if eo_kind oc = Entry_Order then observe_entry else observe_close)
                             (ss_exit_requested s) oc t (ss_events s) l) (\<lambda>(evs, l').
                      Inr (s\<lparr>ss_events := evs, ss_legs := put_leg l' (ss_legs s),
                             ss_observed := (eo_outcome_id oc, sr_digest sr oc) # ss_observed s\<rparr>)))))"

subsection \<open>Decisions\<close>

type_synonym pending_key = "order_kind \<times> string \<times> int \<times> int"

definition pending_decisions :: "leg list \<Rightarrow> pending_key list" where
  "pending_decisions ls = concat (map (\<lambda>l.
     (if lg_phase l = Ph_Ordered then [(Entry_Order, leg_id l, lg_entries_filled l, lg_order_decided_at_ms l)] else [])
     @ (case lg_position l of None \<Rightarrow> []
        | Some p \<Rightarrow> (case po_close p of None \<Rightarrow> []
                     | Some c \<Rightarrow> [(Close_Order, leg_id l, po_entry_number p, co_decided_at_ms c)]))) ls)"

definition decide_leg ::
  "pending_key list \<Rightarrow> int \<Rightarrow> int \<Rightarrow> bool \<Rightarrow> decision list \<Rightarrow> leg \<Rightarrow> (session_error, decision list \<times> leg) result" where
  "decide_leg before exit t allow_entries ds l =
     bindR (if lg_phase l = Ph_Ordered
               \<and> (Entry_Order, leg_id l, lg_entries_filled l, lg_order_decided_at_ms l) \<notin> set before
            then bindR (attempt_of l) (\<lambda>a. Inr (ds @ [Open_Leg (leg_id l) (lg_entries_filled l) (at_contract a)
                   (ls_contracts (lg_setup l)) (at_multiplier a) (lg_order_decided_at_ms l) (ls_side (lg_setup l))]))
            else Inr ds) (\<lambda>ds1.
       let ds2 = (case lg_position l of None \<Rightarrow> ds1
                  | Some p \<Rightarrow> (case po_close p of None \<Rightarrow> ds1
                      | Some c \<Rightarrow>
                          if (Close_Order, leg_id l, po_entry_number p, co_decided_at_ms c) \<in> set before then ds1
                          else ds1 @ [Close_Leg (leg_id l) (po_entry_number p) (at_contract (po_attempt p))
                                 (contracts_held p) (fl_multiplier (po_entry p)) (co_decided_at_ms c)
                                 (co_reason c) (co_group c)]));
           pending = (lg_phase l = Ph_Ordered \<or> (case lg_position l of None \<Rightarrow> False | Some p \<Rightarrow> \<not> po_entry_terminal p))
       in if pending \<and> \<not> lg_entry_cancel_requested l
             \<and> (exit \<le> t \<or> lg_position l \<noteq> None \<or> \<not> allow_entries \<or> lg_close_on_fill l \<noteq> None)
          then Inr (Cancel_Entry (leg_id l) (case lg_position l of None \<Rightarrow> lg_entries_filled l | Some p \<Rightarrow> po_entry_number p)
                      t (lg_order_decided_at_ms l) # ds2, l\<lparr>lg_entry_cancel_requested := True\<rparr>)
          else Inr (ds2, l))"

fun decision_rank :: "(string \<rightharpoonup> leg_side) \<Rightarrow> decision \<Rightarrow> nat" where
  "decision_rank sides (Cancel_Entry _ _ _ _) = 0"
| "decision_rank sides (Close_Leg i _ _ _ _ _ _ _) = (if sides i = Some Sell then 1 else 2)"
| "decision_rank sides (Open_Leg _ _ _ _ _ _ side) = (if side = Buy then 3 else 4)"

definition new_decisions ::
  "pending_key list \<Rightarrow> int \<Rightarrow> bool \<Rightarrow> session \<Rightarrow> (session_error, session \<times> decision list) result" where
  "new_decisions before t allow_entries s =
     bindR (sweep (decide_leg before (exit_ms s) t allow_entries) [] (ss_legs s)) (\<lambda>(ds, legs).
       Inr (s\<lparr>ss_legs := legs\<rparr>,
            sort_key (decision_rank (map_of (rev (map (\<lambda>l. (leg_id l, ls_side (lg_setup l))) legs)))) ds))"

record options_step =
  os_decisions :: "decision list"
  os_events :: "timeline_event list"

definition advance ::
  "surroundings \<Rightarrow> session \<Rightarrow> int \<Rightarrow> execution_outcome list \<Rightarrow> bool \<Rightarrow> int option
    \<Rightarrow> (session_error, session \<times> options_step) result" where
  "advance sr s t outcomes allow_entries observed_at =
     (if t mod ms_per_minute \<noteq> 0 \<or> \<not> (ss_open_ms s < t \<and> t \<le> ss_close_ms s) then Inl Session_Value_Error
      else if (case ss_last_minute_ms s of None \<Rightarrow> False | Some m \<Rightarrow> t < m) then Inl Session_Value_Error
      else
        let event_start = length (ss_events s);
            before = pending_decisions (ss_legs s);
            answer = (\<lambda>s'. bindR (new_decisions before t allow_entries s') (\<lambda>(s'', ds).
              Inr (s'', \<lparr>os_decisions = ds, os_events = drop event_start (ss_events s'')\<rparr>)))
        in bindR (foldR (\<lambda>s oc. observe_execution sr oc (case observed_at of None \<Rightarrow> t | Some m \<Rightarrow> m) s) s outcomes) (\<lambda>s1.
           if ss_last_minute_ms s1 = Some t then answer s1
           else if \<not> ss_started s1 \<and> t < entry_ms s1
           then Inr (s1\<lparr>ss_last_minute_ms := Some t\<rparr>, \<lparr>os_decisions = [], os_events = drop event_start (ss_events s1)\<rparr>)
           else bindR (if \<not> ss_started s1 then start_session sr t allow_entries s1
                       else if ss_skipped s1 = None
                       then bindR (if exit_ms s1 \<le> t then Inr (s1, []) else read_held_bars (sr_market sr) t s1)
                              (\<lambda>(s2, bars). advance_rules sr t bars allow_entries s2)
                       else Inr s1) (\<lambda>s2.
             answer (s2\<lparr>ss_last_minute_ms := Some t\<rparr>))))"

subsection \<open>A fresh or a restored session\<close>

definition fresh_leg :: "leg_setup \<Rightarrow> leg" where
  "fresh_leg l = \<lparr>lg_setup = l, lg_reentries_left = reentry_limit l, lg_phase = Ph_Done, lg_attempt = None,
     lg_order_decided_at_ms = 0, lg_position = None, lg_entries_filled = 0, lg_entry_cancel_requested = False,
     lg_close_on_fill = None\<rparr>"

definition fresh_session :: "backtest_setup \<Rightarrow> market \<Rightarrow> session" where
  "fresh_session setup mk = \<lparr>ss_setup = setup, ss_open_ms = mk_open_ms mk, ss_close_ms = mk_close_ms mk,
     ss_legs = map fresh_leg (bs_legs setup), ss_groups = 0, ss_started = False, ss_exit_requested = False,
     ss_skipped = None, ss_last_minute_ms = None, ss_observed = [], ss_events = []\<rparr>"

text \<open>The repair of a leg that was ordered when the exit was requested, and has no close to fill into.\<close>

definition repair_leg :: "int \<Rightarrow> int \<Rightarrow> leg \<Rightarrow> (session_error, int \<times> leg) result" where
  "repair_leg decided groups l =
     (if lg_phase l = Ph_Ordered \<and> lg_close_on_fill l = None
      then Inr (groups + 1, l\<lparr>lg_close_on_fill := Some \<lparr>co_reason = Ex_Exit_Time, co_group = groups + 1,
             co_decided_at_ms = decided, co_earns_reentry = False\<rparr>\<rparr>)
      else Inr (groups, l))"

definition options_session :: "backtest_setup \<Rightarrow> market \<Rightarrow> session option \<Rightarrow> (session_error, session) result" where
  "options_session setup mk state =
     (if mk_open_ms mk mod ms_per_minute \<noteq> 0 \<or> mk_close_ms mk mod ms_per_minute \<noteq> 0 then Inl Session_Value_Error
      else if (case state of None \<Rightarrow> False
               | Some s \<Rightarrow> ss_setup s \<noteq> setup \<or> ss_open_ms s \<noteq> mk_open_ms mk \<or> ss_close_ms s \<noteq> mk_close_ms mk
                   \<or> map lg_setup (ss_legs s) \<noteq> bs_legs setup)
      then Inl Session_Value_Error
      else bindR (case state of Some s \<Rightarrow> Inr s
                  | None \<Rightarrow> if state_describes_its_setup (fresh_session setup mk) then Inr (fresh_session setup mk)
                            else Inl Session_Value_Error) (\<lambda>s.
             if \<not> ss_exit_requested s then Inr s
             else let decided = (case ss_last_minute_ms s of None \<Rightarrow> exit_ms s | Some m \<Rightarrow> if m = 0 then exit_ms s else m)
                  in bindR (sweep (repair_leg decided) (ss_groups s) (ss_legs s)) (\<lambda>(groups, legs).
                       Inr (s\<lparr>ss_groups := groups, ss_legs := legs\<rparr>))))"


end
