(* ===== verification/Session_Invariant.thy ===== *)
theory Session_Invariant
  imports Session_Rules
begin

text \<open>
  What every session reached by \<open>advance\<close> satisfies: it passes the validator a restored state must pass, so a
  session saved after any minute restores, and no leg enters more often than its re-entry rule allows.
\<close>

subsection \<open>The invariant of one leg\<close>

definition close_is_earned :: "leg \<Rightarrow> close_order option \<Rightarrow> bool" where
  "close_is_earned l c \<longleftrightarrow> (case c of None \<Rightarrow> True | Some c \<Rightarrow> co_earns_reentry c \<longrightarrow> 1 \<le> lg_reentries_left l)"

definition leg_inv :: "leg \<Rightarrow> bool" where
  "leg_inv l \<longleftrightarrow> leg_describes l \<and> 0 \<le> reentry_limit (lg_setup l)
     \<and> (lg_phase l \<in> {Ph_Waiting, Ph_Ordered} \<and> 1 \<le> lg_entries_filled l \<longrightarrow> 1 \<le> lg_reentries_left l)
     \<and> (lg_phase l = Ph_Earned \<longrightarrow> 1 \<le> lg_reentries_left l)
     \<and> (case lg_close_on_fill l of None \<Rightarrow> True | Some c \<Rightarrow> \<not> co_earns_reentry c)
     \<and> (case lg_position l of None \<Rightarrow> True
        | Some p \<Rightarrow> lg_attempt l = Some (po_attempt p) \<and> 1 \<le> lg_entries_filled l \<and> close_is_earned l (po_close p))"

lemma close_is_earned_simps [simp]: "close_is_earned l None"
  "close_is_earned l (Some c) \<longleftrightarrow> (co_earns_reentry c \<longrightarrow> 1 \<le> lg_reentries_left l)"
  "close_is_earned (l\<lparr>lg_position := x\<rparr>) cl = close_is_earned l cl"
  "close_is_earned (l\<lparr>lg_entry_cancel_requested := b\<rparr>) cl = close_is_earned l cl"
  by (simp_all add: close_is_earned_def split: option.split)

lemma leg_inv_idle:
  assumes "lg_position l = None" "lg_phase l \<noteq> Ph_Held"
  shows "leg_inv l \<longleftrightarrow> 0 \<le> lg_entries_filled l \<and> lg_entries_filled l \<le> reentry_limit (lg_setup l) + 1
     \<and> lg_reentries_left l = reentry_limit (lg_setup l) - max 0 (lg_entries_filled l - 1)
     \<and> 0 \<le> reentry_limit (lg_setup l)
     \<and> (lg_phase l \<in> {Ph_Waiting, Ph_Ordered} \<longrightarrow> lg_attempt l \<noteq> None)
     \<and> (lg_phase l \<in> {Ph_Waiting, Ph_Ordered} \<and> 1 \<le> lg_entries_filled l \<longrightarrow> 1 \<le> lg_reentries_left l)
     \<and> (lg_phase l = Ph_Earned \<longrightarrow> 1 \<le> lg_reentries_left l)
     \<and> (case lg_close_on_fill l of None \<Rightarrow> True | Some c \<Rightarrow> \<not> co_earns_reentry c)"
  using assms by (auto simp: leg_inv_def leg_describes_def)

definition position_inv :: "leg \<Rightarrow> position \<Rightarrow> bool" where
  "position_inv l p \<longleftrightarrow> lg_attempt l = Some (po_attempt p) \<and> po_entry_number p = lg_entries_filled l - 1
     \<and> 1 \<le> lg_entries_filled l
     \<and> fl_leg_id (po_entry p) = ls_leg_id (lg_setup l) \<and> fl_contract (po_entry p) = at_contract (po_attempt p)
     \<and> fl_side (po_entry p) = ls_side (lg_setup l) \<and> 0 \<le> po_closed_contracts p
     \<and> po_closed_contracts p \<le> fl_contracts (po_entry p) \<and> fl_contracts (po_entry p) \<le> ls_contracts (lg_setup l)
     \<and> fl_contracts (po_entry p) \<noteq> 0 \<and> close_is_earned l (po_close p)"

lemma leg_inv_held:
  assumes "lg_position l = Some p"
  shows "leg_inv l \<longleftrightarrow> lg_phase l = Ph_Held \<and> position_inv l p \<and> 0 \<le> reentry_limit (lg_setup l)
     \<and> lg_entries_filled l \<le> reentry_limit (lg_setup l) + 1
     \<and> lg_reentries_left l = reentry_limit (lg_setup l) - max 0 (lg_entries_filled l - 1)
     \<and> (case lg_close_on_fill l of None \<Rightarrow> True | Some c \<Rightarrow> \<not> co_earns_reentry c)"
  using assms
  by (auto simp: leg_inv_def leg_describes_def position_describes_def position_inv_def same_attempt_def)

text \<open>What a step keeps of a leg: its setup, and the invariant.\<close>

definition keeps_leg :: "leg \<Rightarrow> leg \<Rightarrow> bool" where
  "keeps_leg l l' \<longleftrightarrow> lg_setup l' = lg_setup l \<and> (leg_inv l \<longrightarrow> leg_inv l')"

lemma keeps_refl [simp]: "keeps_leg l l"
  by (simp add: keeps_leg_def)

lemma keeps_trans: "keeps_leg l l' \<Longrightarrow> keeps_leg l' l'' \<Longrightarrow> keeps_leg l l''"
  by (auto simp: keeps_leg_def)

lemma position_of_Inr [result_simps]: "position_of l = Inr p \<longleftrightarrow> lg_position l = Some p"
  "attempt_of l = Inr a \<longleftrightarrow> lg_attempt l = Some a"
  by (auto simp: position_of_def attempt_of_def split: option.splits)

lemma inv_not_held: "leg_inv l \<Longrightarrow> lg_phase l \<noteq> Ph_Held \<Longrightarrow> lg_position l = None"
  by (auto simp: leg_inv_def leg_describes_def)

lemma inv_held: "leg_inv l \<Longrightarrow> lg_position l = Some p \<Longrightarrow> lg_phase l = Ph_Held"
  by (auto simp: leg_inv_def leg_describes_def)

subsection \<open>Each rule keeps its leg\<close>

text \<open>A leg that may begin an attempt: it holds nothing, and has a re-entry left unless it has entered nothing.\<close>

definition may_begin :: "leg \<Rightarrow> bool" where
  "may_begin l \<longleftrightarrow> lg_position l = None \<and> lg_phase l \<noteq> Ph_Held \<and> (1 \<le> lg_entries_filled l \<longrightarrow> 1 \<le> lg_reentries_left l)"

lemma begin_leg_shape:
  assumes "begin_leg mk t u wait evs l = Inr (evs', l')"
  shows "lg_setup l' = lg_setup l \<and> lg_reentries_left l' = lg_reentries_left l \<and> lg_entries_filled l' = lg_entries_filled l
    \<and> lg_position l' = lg_position l \<and> lg_close_on_fill l' = None
    \<and> (lg_phase l' = Ph_Done \<or> lg_phase l' \<in> {Ph_Ordered, Ph_Waiting} \<and> lg_attempt l' \<noteq> None)"
proof (cases "mk_pick mk (lg_setup l) t u")
  case (Pick_Refused reason detail)
  with assms show ?thesis by (auto simp: begin_leg_def Let_def)
next
  case (Picked c m)
  show ?thesis
  proof (cases wait)
    case False
    with assms Picked show ?thesis by (auto simp: begin_leg_def Let_def)
  next
    case True
    then show ?thesis
      using assms Picked
      by (cases "mk_option_bar mk c t"; cases "ls_momentum (lg_setup l)")
        (auto simp: begin_leg_def Let_def bindR_Inr_iff)
  qed
qed

lemma begin_leg_inv:
  assumes "begin_leg mk t u wait evs l = Inr (evs', l')" "leg_inv l" "may_begin l"
  shows "leg_inv l'"
proof -
  note S = begin_leg_shape [OF assms(1)]
  have idle: "lg_position l = None" "lg_phase l \<noteq> Ph_Held" "lg_position l' = None" "lg_phase l' \<noteq> Ph_Held"
    using S assms(3) by (auto simp: may_begin_def)
  have same: "lg_setup l' = lg_setup l" "lg_reentries_left l' = lg_reentries_left l" "lg_entries_filled l' = lg_entries_filled l"
    "lg_close_on_fill l' = None" using S by simp_all
  from S have "lg_phase l' = Ph_Done \<or> lg_phase l' \<noteq> Ph_Earned \<and> lg_phase l' \<noteq> Ph_Done \<and> lg_attempt l' \<noteq> None" by auto
  then show ?thesis
    using assms(2,3) unfolding leg_inv_idle [OF idle(1,2)] leg_inv_idle [OF idle(3,4)] same may_begin_def by (elim disjE) simp_all
qed

lemma check_momentum_shape:
  assumes "check_momentum mk t evs l = Inr (evs', l')"
  shows "l' = l \<or> l' = l\<lparr>lg_phase := Ph_Ordered, lg_order_decided_at_ms := t\<rparr> \<and> lg_attempt l \<noteq> None"
proof -
  obtain a where a: "lg_attempt l = Some a" using assms by (auto simp: check_momentum_def bindR_Inr_iff position_of_Inr)
  obtain m level where "ls_momentum (lg_setup l) = Some m" "at_momentum_level a = Some level"
    using assms a by (auto simp: check_momentum_def attempt_of_def split: option.splits)
  with assms a show ?thesis by (auto simp: check_momentum_def attempt_of_def split: option.splits if_splits)
qed

lemma check_momentum_keeps:
  assumes "check_momentum mk t evs l = Inr (evs', l')" "lg_phase l = Ph_Waiting"
  shows "keeps_leg l l'"
  using check_momentum_shape [OF assms(1)]
proof
  assume l': "l' = l\<lparr>lg_phase := Ph_Ordered, lg_order_decided_at_ms := t\<rparr> \<and> lg_attempt l \<noteq> None"
  have "leg_inv l'" if inv: "leg_inv l"
  proof -
    have n: "lg_position l = None" "lg_phase l \<noteq> Ph_Held" using inv_not_held [OF inv] assms(2) by auto
    have n': "lg_position l' = None" "lg_phase l' \<noteq> Ph_Held" using l' n by auto
    from inv l' assms(2) show ?thesis unfolding leg_inv_idle [OF n] leg_inv_idle [OF n'] by auto
  qed
  with l' show ?thesis by (simp add: keeps_leg_def)
qed simp

lemma enter_leg_keeps:
  assumes "enter_leg mk t evs l = Inr (evs', l')" shows "keeps_leg l l'"
proof (cases "lg_phase l = Ph_Earned")
  case True
  then have r: "reenter mk t evs l = Inr (evs', l')" using assms by (simp add: enter_leg_def)
  then obtain rule where rule: "ls_reentry (lg_setup l) = Some rule" by (auto simp: reenter_def split: option.splits)
  show ?thesis
  proof (cases "mk_underlying_close mk t")
    case None
    with r rule show ?thesis by (simp add: reenter_def)
  next
    case (Some u)
    with r rule have b: "begin_leg mk t u (re_kind rule = On_Momentum) evs l = Inr (evs', l')" by (simp add: reenter_def)
    have "may_begin l" if "leg_inv l"
      using that True inv_not_held [OF that] by (auto simp: may_begin_def leg_inv_def)
    then show ?thesis using begin_leg_inv [OF b] begin_leg_shape [OF b] by (auto simp: keeps_leg_def)
  qed
next
  case False
  with assms show ?thesis by (auto simp: enter_leg_def split: if_splits intro: check_momentum_keeps)
qed

lemma finish_closed_keeps: "finish_closed ex l = Inr l' \<Longrightarrow> keeps_leg l l'"
proof -
  assume f: "finish_closed ex l = Inr l'"
  then obtain p where p: "lg_position l = Some p" by (auto simp: finish_closed_def result_simps)
  have "leg_inv l'" if inv: "leg_inv l"
  proof (cases "l' = l")
    case False
    define e where "e \<longleftrightarrow> (case po_close p of None \<Rightarrow> False | Some c \<Rightarrow> co_earns_reentry c)
        \<and> \<not> po_externally_reduced p \<and> \<not> ex"
    have l': "l' = l\<lparr>lg_phase := (if e then Ph_Earned else Ph_Done), lg_position := None\<rparr>"
      using f False unfolding e_def finish_closed_def by (auto simp: position_of_def p Let_def split: if_splits)
    have e: "e \<Longrightarrow> (case po_close p of None \<Rightarrow> False | Some c \<Rightarrow> co_earns_reentry c)" unfolding e_def by blast
    have "leg_inv l' \<longleftrightarrow> (e \<longrightarrow> 1 \<le> lg_reentries_left l)"
      using inv unfolding leg_inv_held [OF p] by (subst leg_inv_idle) (auto simp: l' position_inv_def)
    then show ?thesis using e inv unfolding leg_inv_held [OF p] by (auto simp: position_inv_def close_is_earned_def split: option.splits)
  qed (use inv in simp)
  moreover have "lg_setup l' = lg_setup l" using f by (auto simp: finish_closed_def result_simps Let_def split: if_splits)
  ultimately show ?thesis by (simp add: keeps_leg_def)
qed

lemma order_close_keeps:
  assumes "order_close cutoff reason grp t evs l p = Inr (evs', l')" "lg_position l = Some p"
  shows "keeps_leg l l'"
proof -
  obtain evs1 e where e: "earns_reentry cutoff t evs l = Inr (evs1, e)"
    and l': "l' = l\<lparr>lg_position := Some (p\<lparr>po_close := Some \<lparr>co_reason = reason, co_group = grp, co_decided_at_ms = t,
      co_earns_reentry = e\<rparr>\<rparr>)\<rparr>"
    using assms(1) by (auto simp: order_close_def result_simps)
  have "e \<Longrightarrow> 1 \<le> lg_reentries_left l"
    using e by (auto simp: earns_reentry_def result_simps split: if_splits option.splits)
  then show ?thesis
    unfolding keeps_leg_def leg_inv_held [OF assms(2)] l' by (subst leg_inv_held) (auto simp: position_inv_def close_is_earned_def)
qed

lemma protect_leg_keeps: "protect_leg cutoff grp t i evs l = Inr (evs', l') \<Longrightarrow> keeps_leg l l'"
  by (auto simp: protect_leg_def result_simps split: if_splits intro: order_close_keeps)

lemma inv_unfold_same:
  assumes "lg_position l = None" "lg_phase l \<noteq> Ph_Held"
  shows "keeps_leg l (l\<lparr>lg_phase := Ph_Done\<rparr>)"
    "\<not> co_earns_reentry c \<Longrightarrow> keeps_leg l (l\<lparr>lg_close_on_fill := Some c\<rparr>)"
  unfolding keeps_leg_def leg_inv_idle [OF assms] by (subst leg_inv_idle; use assms in auto)+

lemma idle_updates_keep:
  assumes "lg_phase l \<noteq> Ph_Held"
  shows "keeps_leg l (l\<lparr>lg_phase := Ph_Done\<rparr>)"
    "\<not> co_earns_reentry c \<Longrightarrow> keeps_leg l (l\<lparr>lg_close_on_fill := Some c\<rparr>)"
proof -
  have same: "lg_setup (l\<lparr>lg_phase := Ph_Done\<rparr>) = lg_setup l" "lg_setup (l\<lparr>lg_close_on_fill := Some c\<rparr>) = lg_setup l" by simp_all
  show "keeps_leg l (l\<lparr>lg_phase := Ph_Done\<rparr>)"
    using inv_unfold_same(1) [OF inv_not_held assms] assms same(1) by (cases "leg_inv l") (auto simp: keeps_leg_def)
  show "keeps_leg l (l\<lparr>lg_close_on_fill := Some c\<rparr>)" if "\<not> co_earns_reentry c"
    using inv_unfold_same(2) [OF inv_not_held assms that] assms same(2) by (cases "leg_inv l") (auto simp: keeps_leg_def)
qed

text \<open>What the exit time and a stop do to a leg.\<close>

lemma exit_leg_shape:
  assumes "exit_leg ex t a l = Inr (a', l')"
  shows "l' = l \<or> lg_phase l \<noteq> Ph_Held \<and> l' = l\<lparr>lg_phase := Ph_Done\<rparr>
    \<or> (\<exists>c. lg_phase l \<noteq> Ph_Held \<and> \<not> co_earns_reentry c \<and> co_decided_at_ms c = t \<and> l' = l\<lparr>lg_close_on_fill := Some c\<rparr>)
    \<or> (\<exists>p c. lg_phase l = Ph_Held \<and> lg_position l = Some p \<and> \<not> co_earns_reentry c \<and> co_decided_at_ms c = t
        \<and> l' = l\<lparr>lg_position := Some (p\<lparr>po_close := Some c\<rparr>)\<rparr>)"
proof -
  obtain evs n g where a: "a = (evs, n, g)" by (metis prod_cases3)
  define c where "c = \<lparr>co_reason = Ex_Exit_Time, co_group = (case g of None \<Rightarrow> n + 1 | Some g \<Rightarrow> g), co_decided_at_ms = t,
      co_earns_reentry = False\<rparr>"
  have c: "\<not> co_earns_reentry c" "co_decided_at_ms c = t" by (simp_all add: c_def)
  show ?thesis
  proof (cases "lg_phase l = Ph_Held")
    case True
    with assms obtain p where p: "lg_position l = Some p"
      by (auto simp: a exit_leg_def Let_def bindR_Inr_iff position_of_Inr split: option.splits)
    have "l' = l \<or> l' = l\<lparr>lg_position := Some (p\<lparr>po_close := Some c\<rparr>)\<rparr>"
      using assms True p by (auto simp: a exit_leg_def Let_def position_of_def c_def split: option.splits)
    with True p c show ?thesis by blast
  next
    case False
    have "l' = l \<or> l' = l\<lparr>lg_phase := Ph_Done\<rparr> \<or> l' = l\<lparr>lg_close_on_fill := Some c\<rparr>"
      using assms False by (auto simp: a exit_leg_def Let_def c_def split: if_splits option.splits)
    with False c show ?thesis by blast
  qed
qed

lemma exit_leg_keeps:
  assumes "exit_leg ex t a l = Inr (a', l')" shows "keeps_leg l l'"
  using exit_leg_shape [OF assms]
proof (elim disjE exE conjE)
  fix p c assume p: "lg_position l = Some p" and "\<not> co_earns_reentry c" and l': "l' = l\<lparr>lg_position := Some (p\<lparr>po_close := Some c\<rparr>)\<rparr>"
  then show ?thesis unfolding keeps_leg_def leg_inv_held [OF p] l'
    by (subst leg_inv_held) (auto simp: position_inv_def close_is_earned_def)
qed (auto intro: idle_updates_keep)

lemma stop_leg_shape:
  assumes "stop_leg hit ca cutoff grp t a l = Inr (a', l')"
  shows "l' = l \<or> lg_phase l \<noteq> Ph_Held \<and> l' = l\<lparr>lg_phase := Ph_Done\<rparr>
    \<or> (\<exists>c. lg_phase l \<noteq> Ph_Held \<and> \<not> co_earns_reentry c \<and> co_decided_at_ms c = t \<and> l' = l\<lparr>lg_close_on_fill := Some c\<rparr>)
    \<or> (\<exists>p reason evs1 evs2. lg_phase l = Ph_Held \<and> lg_position l = Some p
        \<and> order_close cutoff reason grp t evs1 l p = Inr (evs2, l'))"
proof -
  obtain evs lv so where a: "a = (evs, lv, so)" by (metis prod_cases3)
  show ?thesis
  proof (cases "lg_phase l = Ph_Held")
    case True
    with assms obtain p where p: "lg_position l = Some p" by (auto simp: a stop_leg_def bindR_Inr_iff position_of_Inr)
    have "l' = l \<or> (\<exists>reason evs1 evs2. order_close cutoff reason grp t evs1 l p = Inr (evs2, l'))"
      using assms True p
      by (auto simp: a stop_leg_def position_of_def Let_def bindR_Inr_iff split: if_splits option.splits)
    with True p show ?thesis by blast
  next
    case False
    define c where "c = \<lparr>co_reason = Ex_Square_Off, co_group = grp, co_decided_at_ms = t, co_earns_reentry = False\<rparr>"
    have "l' = l \<or> l' = l\<lparr>lg_phase := Ph_Done\<rparr> \<or> l' = l\<lparr>lg_close_on_fill := Some c\<rparr>"
      using assms False by (auto simp: a stop_leg_def c_def split: if_splits)
    moreover have "\<not> co_earns_reentry c" "co_decided_at_ms c = t" by (simp_all add: c_def)
    ultimately show ?thesis using False by blast
  qed
qed

lemma stop_leg_keeps:
  assumes "stop_leg hit ca cutoff grp t a l = Inr (a', l')" shows "keeps_leg l l'"
  using stop_leg_shape [OF assms]
proof (elim disjE exE conjE)
  fix p reason evs1 evs2 assume "lg_position l = Some p" "order_close cutoff reason grp t evs1 l p = Inr (evs2, l')"
  then show ?thesis by (blast intro: order_close_keeps)
qed (auto intro: idle_updates_keep)

lemma held_update_keeps:
  assumes "lg_position l = Some p"
    and "l' = l\<lparr>lg_position := Some p'\<rparr>" and "position_inv l p \<Longrightarrow> position_inv l p'"
  shows "keeps_leg l l'"
proof -
  have "position_inv l' q = position_inv l q" for q by (simp add: assms(2) position_inv_def)
  then show ?thesis unfolding keeps_leg_def leg_inv_held [OF assms(1)]
    by (subst leg_inv_held [where p = p']) (use assms(2,3) in auto)
qed

lemma read_leg_bar_keeps:
  assumes "read_leg_bar mk t bars l = Inr (bars', l')" shows "keeps_leg l l'"
proof (cases "lg_phase l = Ph_Held")
  case True
  with assms obtain p where p: "lg_position l = Some p" by (auto simp: read_leg_bar_def bindR_Inr_iff position_of_Inr)
  have "l' = l \<or> (\<exists>m. l' = l\<lparr>lg_position := Some (p\<lparr>po_last_seen := m\<rparr>)\<rparr>)"
    using assms True p by (auto simp: read_leg_bar_def position_of_def Let_def split: if_splits option.splits)
  then show ?thesis using held_update_keeps [OF p] by (auto simp: position_inv_def)
qed (use assms in \<open>simp add: read_leg_bar_def\<close>)

lemma flag_keeps: "keeps_leg l (l\<lparr>lg_entry_cancel_requested := b\<rparr>)"
  by (cases "lg_position l")
    (auto simp: keeps_leg_def leg_inv_def leg_describes_def position_describes_def cong: option.case_cong)

lemma decide_leg_shape:
  "decide_leg before ex t allow ds l = Inr (ds', l') \<Longrightarrow> l' = l \<or> l' = l\<lparr>lg_entry_cancel_requested := True\<rparr>"
  by (auto simp: decide_leg_def bindR_Inr_iff Let_def split: if_splits)

lemma decide_leg_keeps: "decide_leg before ex t allow ds l = Inr (ds', l') \<Longrightarrow> keeps_leg l l'"
  using decide_leg_shape flag_keeps by fastforce

lemma repair_leg_keeps:
  assumes "repair_leg d n l = Inr (n', l')" shows "keeps_leg l l'"
proof -
  have "l' = l \<or> lg_phase l = Ph_Ordered \<and> l' = l\<lparr>lg_close_on_fill := Some \<lparr>co_reason = Ex_Exit_Time, co_group = n + 1,
      co_decided_at_ms = d, co_earns_reentry = False\<rparr>\<rparr>"
    using assms by (auto simp: repair_leg_def split: if_splits)
  then show ?thesis
  proof
    assume l': "lg_phase l = Ph_Ordered \<and> l' = l\<lparr>lg_close_on_fill := Some \<lparr>co_reason = Ex_Exit_Time, co_group = n + 1,
      co_decided_at_ms = d, co_earns_reentry = False\<rparr>\<rparr>"
    show ?thesis
    proof (cases "leg_inv l")
      case True
      have n: "lg_position l = None" "lg_phase l \<noteq> Ph_Held" using l' inv_not_held [OF True] by auto
      show ?thesis using inv_unfold_same(2) [OF n] l' by simp
    qed (use l' in \<open>simp add: keeps_leg_def\<close>)
  qed simp
qed

subsection \<open>Observed executions\<close>

text \<open>
  A bare terminal entry outcome (no fill, no refusal) answers an order that is out: the leg it names is ordered.
\<close>

definition answers_an_order :: "session \<Rightarrow> execution_outcome \<Rightarrow> bool" where
  "answers_an_order s oc \<longleftrightarrow>
     (eo_kind oc = Entry_Order \<and> eo_fill oc = None \<and> eo_terminal oc \<and> eo_refusal oc = None
      \<longrightarrow> list_all (\<lambda>l. leg_id l = eo_leg_id oc \<and> lg_position l = None \<longrightarrow> lg_phase l = Ph_Ordered) (ss_legs s))"

definition reduced_position :: "fill \<Rightarrow> position \<Rightarrow> position" where
  "reduced_position f p = (if po_close p = None
      then p\<lparr>po_closed_contracts := fl_contracts f\<rparr>\<lparr>po_externally_reduced := True\<rparr>
      else p\<lparr>po_closed_contracts := fl_contracts f\<rparr>)"

lemma observe_close_shape:
  assumes "observe_close ex oc t evs l = Inr (evs', l')" "eo_fill oc = Some f"
  obtains p where "lg_position l = Some p" "po_closed_contracts p \<le> fl_contracts f" "fl_contracts f \<le> fl_contracts (po_entry p)"
    "finish_closed ex (l\<lparr>lg_position := Some (reduced_position f p)\<rparr>) = Inr l'"
proof -
  obtain p where p: "lg_position l = Some p"
    using assms by (auto simp: observe_close_def bindR_Inr_iff position_of_Inr)
  moreover have "po_closed_contracts p \<le> fl_contracts f \<and> fl_contracts f \<le> fl_contracts (po_entry p)"
    using assms p by (auto simp: observe_close_def position_of_def split: if_splits)
  moreover have "finish_closed ex (l\<lparr>lg_position := Some (reduced_position f p)\<rparr>) = Inr l'"
    using assms p
    by (auto simp: observe_close_def position_of_def Let_def reduced_position_def bindR_Inr_iff split: if_splits)
  ultimately show thesis using that by blast
qed

lemma observe_close_keeps:
  assumes "observe_close ex oc t evs l = Inr (evs', l')"
    and "\<And>f. eo_fill oc = Some f \<Longrightarrow> 0 < fl_contracts f"
  shows "keeps_leg l l'"
proof (cases "eo_fill oc")
  case None
  with assms(1) show ?thesis by (simp add: observe_close_def)
next
  case (Some f)
  from observe_close_shape [OF assms(1) Some] obtain p where p: "lg_position l = Some p"
    and ok: "po_closed_contracts p \<le> fl_contracts f" "fl_contracts f \<le> fl_contracts (po_entry p)"
    and f': "finish_closed ex (l\<lparr>lg_position := Some (reduced_position f p)\<rparr>) = Inr l'" by metis
  have "keeps_leg l (l\<lparr>lg_position := Some (reduced_position f p)\<rparr>)"
    by (rule held_update_keeps [OF p refl]) (use ok assms(2) [OF Some] in \<open>auto simp: reduced_position_def position_inv_def\<close>)
  then show ?thesis using f' by (blast intro: keeps_trans finish_closed_keeps)
qed

lemma drop_entry_keeps:
  assumes "drop_entry t evs l = Inr (evs', l')" "lg_phase l = Ph_Ordered"
  shows "keeps_leg l l'"
proof -
  have "l' = l\<lparr>lg_phase := Ph_Done\<rparr> \<or> l' = l\<lparr>lg_phase := Ph_Waiting\<rparr>"
    using assms(1) by (auto simp: drop_entry_def Let_def bindR_Inr_iff split: if_splits)
  moreover have "keeps_leg l (l\<lparr>lg_phase := Ph_Waiting\<rparr>)"
  proof (cases "leg_inv l")
    case True
    have n: "lg_position l = None" "lg_phase l \<noteq> Ph_Held" using assms(2) inv_not_held [OF True] by auto
    show ?thesis unfolding keeps_leg_def leg_inv_idle [OF n] by (subst leg_inv_idle; use n assms(2) in auto)
  qed (simp add: keeps_leg_def)
  moreover have "lg_phase l \<noteq> Ph_Held" using assms(2) by simp
  ultimately show ?thesis using idle_updates_keep(1) by blast
qed

text \<open>The first fill of an order: the leg is held, with the close that was waiting for it.\<close>

lemma first_fill_keeps:
  assumes "lg_phase l = Ph_Ordered" "lg_attempt l = Some (po_attempt p)" "fill_matches l (po_attempt p) (po_entry p) t"
    and "fl_side (po_entry p) = ls_side (lg_setup l)" "po_entry_number p = lg_entries_filled l"
    and "po_close p = lg_close_on_fill l" "po_closed_contracts p = 0"
    and l': "l' = l\<lparr>lg_reentries_left := (if 0 < lg_entries_filled l then lg_reentries_left l - 1
        else lg_reentries_left l), lg_entries_filled := lg_entries_filled l + 1,
        lg_position := Some p, lg_phase := Ph_Held\<rparr>"
  shows "keeps_leg l l'"
proof (cases "leg_inv l")
  case True
  have n: "lg_position l = None" "lg_phase l \<noteq> Ph_Held" using assms(1) inv_not_held [OF True] by auto
  note I = True [unfolded leg_inv_idle [OF n]]
  have p': "lg_position l' = Some p" by (simp add: l')
  have "position_inv l' p"
    using I assms by (auto simp: position_inv_def l' fill_matches_def leg_id_def close_is_earned_def split: option.splits)
  with I assms(1) have "leg_inv l'" unfolding leg_inv_held [OF p'] by (auto simp: l')
  then show ?thesis by (simp add: keeps_leg_def l')
qed (simp add: keeps_leg_def l')

definition first_position :: "int \<Rightarrow> execution_outcome \<Rightarrow> fill \<Rightarrow> attempt \<Rightarrow> decimal option \<Rightarrow> leg \<Rightarrow> position" where
  "first_position t oc f a level l = \<lparr>po_attempt = a, po_entry_number = lg_entries_filled l, po_entry = f,
     po_entry_fee = eo_fee_usd oc, po_entry_decided_at_ms = lg_order_decided_at_ms l, po_stop_level = level,
     po_last_seen = (case eo_mark oc of Some m \<Rightarrow> m | None \<Rightarrow> \<lparr>ma_bar_close_ms = t, ma_price = fl_filled f\<rparr>),
     po_close = lg_close_on_fill l, po_entry_terminal = eo_terminal oc, po_closed_contracts = 0,
     po_externally_reduced = False\<rparr>"

definition grown_position :: "execution_outcome \<Rightarrow> fill \<Rightarrow> decimal option \<Rightarrow> position \<Rightarrow> position" where
  "grown_position oc f level p = p\<lparr>po_entry := f, po_entry_fee := eo_fee_usd oc,
     po_entry_terminal := eo_terminal oc \<or> po_entry_terminal p, po_stop_level := level,
     po_last_seen := (case eo_mark oc of Some m \<Rightarrow> m | None \<Rightarrow> po_last_seen p)\<rparr>"

lemma observe_entry_first:
  assumes "observe_entry ex oc t evs l = Inr (evs', l')" "eo_fill oc = Some f" "lg_position l = None"
  obtains a level where "lg_phase l = Ph_Ordered" "fl_side f = ls_side (lg_setup l)" "lg_attempt l = Some a"
    "l' = l\<lparr>lg_reentries_left := (if 0 < lg_entries_filled l then lg_reentries_left l - 1 else lg_reentries_left l),
       lg_entries_filled := lg_entries_filled l + 1,
       lg_position := Some (first_position t oc f a level l), lg_phase := Ph_Held\<rparr>"
proof -
  obtain a where a: "lg_attempt l = Some a"
    using assms by (auto simp: observe_entry_def bindR_Inr_iff position_of_Inr split: if_splits)
  then show thesis
    using assms that [OF _ _ a]
    by (auto simp: observe_entry_def attempt_of_def first_position_def Let_def bindR_Inr_iff split: if_splits)
qed

lemma observe_entry_keeps:
  assumes obs: "observe_entry ex oc t evs l = Inr (evs', l')"
    and fits: "\<And>f. eo_fill oc = Some f \<Longrightarrow> \<exists>a. lg_attempt l = Some a \<and> fill_matches l a f t"
    and bare: "eo_fill oc = None \<Longrightarrow> eo_terminal oc \<Longrightarrow> eo_refusal oc = None \<Longrightarrow> lg_position l = None \<Longrightarrow> lg_phase l = Ph_Ordered"
  shows "keeps_leg l l'"
proof (cases "eo_fill oc")
  case None
  show ?thesis
  proof (cases "lg_position l")
    case (Some p)
    have "l' = l \<or> finish_closed ex (l\<lparr>lg_position := Some (p\<lparr>po_entry_terminal := True\<rparr>)\<rparr>) = Inr l'"
      using obs None Some by (auto simp: observe_entry_def bindR_Inr_iff split: if_splits)
    moreover have "keeps_leg l (l\<lparr>lg_position := Some (p\<lparr>po_entry_terminal := True\<rparr>)\<rparr>)"
      by (rule held_update_keeps [OF Some refl]) (simp add: position_inv_def)
    ultimately show ?thesis by (auto intro: keeps_trans finish_closed_keeps)
  next
    case empty: None
    show ?thesis
    proof (cases "eo_refusal oc")
      case (Some why)
      have "l' = l \<or> l' = l\<lparr>lg_phase := Ph_Done\<rparr>"
        using obs None empty Some by (auto simp: observe_entry_def split: if_splits)
      moreover have "keeps_leg l (l\<lparr>lg_phase := Ph_Done\<rparr>)"
        using idle_updates_keep(1) [of l] empty by (cases "lg_phase l = Ph_Held") (auto simp: keeps_leg_def leg_inv_def leg_describes_def)
      ultimately show ?thesis by auto
    next
      case bareless: None
      have "l' = l \<or> eo_terminal oc \<and> drop_entry t evs l = Inr (evs', l')"
        using obs None empty bareless by (auto simp: observe_entry_def split: if_splits)
      then show ?thesis using drop_entry_keeps bare [OF None _ bareless empty] by auto
    qed
  qed
next
  case (Some f)
  obtain a where a: "lg_attempt l = Some a" and m: "fill_matches l a f t" using fits [OF Some] by auto
  show ?thesis
  proof (cases "lg_position l")
    case None
    from observe_entry_first [OF obs Some None] a
    obtain level where o: "lg_phase l = Ph_Ordered" "fl_side f = ls_side (lg_setup l)"
      and l': "l' = l\<lparr>lg_reentries_left := (if 0 < lg_entries_filled l then lg_reentries_left l - 1
            else lg_reentries_left l), lg_entries_filled := lg_entries_filled l + 1,
          lg_position := Some (first_position t oc f a level l), lg_phase := Ph_Held\<rparr>"
      by (metis option.inject)
    show ?thesis
      by (rule first_fill_keeps [OF o(1) _ _ _ _ _ _ l', where t = t]) (use a m o in \<open>simp_all add: first_position_def\<close>)
  next
    case held: (Some p)
    have ok: "fl_side f = ls_side (lg_setup l)" "fl_contracts (po_entry p) \<le> fl_contracts f"
      using obs Some held by (auto simp: observe_entry_def split: if_splits)
    obtain level where f': "finish_closed ex (l\<lparr>lg_position := Some (grown_position oc f level p)\<rparr>) = Inr l'"
      using obs Some held by (auto simp: observe_entry_def grown_position_def bindR_Inr_iff split: if_splits)
    have "keeps_leg l (l\<lparr>lg_position := Some (grown_position oc f level p)\<rparr>)"
      by (rule held_update_keeps [OF held refl])
        (use a m ok in \<open>auto simp: position_inv_def fill_matches_def leg_id_def grown_position_def\<close>)
    then show ?thesis using f' by (blast intro: keeps_trans finish_closed_keeps)
  qed
qed

end
