(* ===== verification/Session_Runs.thy ===== *)
theory Session_Runs
  imports Session_Invariant
begin

text \<open>
  Runs of an options session: a fresh session, the minutes it is advanced through and the times it is saved and
  restored. Every session of a run passes the validator a restored state must pass.
\<close>

subsection \<open>What a step keeps of a session\<close>

definition keeps_session :: "session \<Rightarrow> session \<Rightarrow> bool" where
  "keeps_session s s' \<longleftrightarrow> ss_setup s' = ss_setup s \<and> ss_open_ms s' = ss_open_ms s \<and> ss_close_ms s' = ss_close_ms s
     \<and> ss_last_minute_ms s' = ss_last_minute_ms s \<and> ss_groups s \<le> ss_groups s'
     \<and> list_all2 keeps_leg (ss_legs s) (ss_legs s')"

lemma keeps_session_refl [simp]: "keeps_session s s"
  by (simp add: keeps_session_def list_all2_refl)

lemma keeps_session_trans: "keeps_session s s' \<Longrightarrow> keeps_session s' s'' \<Longrightarrow> keeps_session s s''"
  by (auto simp: keeps_session_def intro: list_all2_trans [OF keeps_trans, rotated 2])

lemma keeps_legs_inv: "list_all2 keeps_leg ls ls' \<Longrightarrow> list_all leg_inv ls \<Longrightarrow> list_all leg_inv ls'"
  by (induction rule: list_all2_induct) (auto simp: keeps_leg_def)

lemma keeps_legs_setup: "list_all2 keeps_leg ls ls' \<Longrightarrow> map lg_setup ls' = map lg_setup ls"
  by (induction rule: list_all2_induct) (auto simp: keeps_leg_def)

lemma over_legs_keeps:
  assumes "over_legs f s = Inr s'"
    and "\<And>evs l evs' l'. l \<in> set (ss_legs s) \<Longrightarrow> f evs l = Inr (evs', l') \<Longrightarrow> keeps_leg l l'"
  shows "keeps_session s s'"
proof -
  obtain evs legs where "sweep f (ss_events s) (ss_legs s) = Inr (evs, legs)" "s' = s\<lparr>ss_events := evs, ss_legs := legs\<rparr>"
    using assms(1) by (auto simp: over_legs_def bindR_Inr_iff)
  with assms(2) show ?thesis by (auto simp: keeps_session_def intro!: sweep_list_all2)
qed

lemma enter_keeps: "enter mk t s = Inr s' \<Longrightarrow> keeps_session s s'"
  by (auto simp: enter_def split: if_splits intro: over_legs_keeps enter_leg_keeps)

lemma exit_leg_groups:
  "exit_leg ex t (evs, n, g) l = Inr ((evs', n', g'), l') \<Longrightarrow> n \<le> n'"
  by (cases g) (auto simp: exit_leg_def Let_def bindR_Inr_iff split: if_splits option.splits)

lemma exit_time_keeps:
  assumes "exit_time t s = Inr s'" shows "keeps_session s s'"
proof -
  obtain evs n g legs where sw: "sweep (exit_leg (ss_exit_requested s) t) (ss_events s, ss_groups s, None) (ss_legs s)
      = Inr ((evs, n, g), legs)" and s': "s' = s\<lparr>ss_events := evs, ss_groups := n, ss_legs := legs\<rparr>"
    using assms by (auto simp: exit_time_def bindR_Inr_iff)
  have "list_all2 keeps_leg (ss_legs s) legs" by (rule sweep_list_all2 [OF sw]) (rule exit_leg_keeps)
  moreover have "(\<lambda>(_, n', _). ss_groups s \<le> n') (evs, n, g)"
    by (rule sweep_carried [OF sw]) (auto dest!: exit_leg_groups)
  ultimately show ?thesis by (simp add: keeps_session_def s')
qed

lemma read_held_bars_keeps:
  assumes "read_held_bars mk t s = Inr (s', bars)" shows "keeps_session s s'"
proof -
  obtain legs where "sweep (read_leg_bar mk t) [] (ss_legs s) = Inr (bars, legs)" "s' = s\<lparr>ss_legs := legs\<rparr>"
    using assms by (auto simp: read_held_bars_def bindR_Inr_iff)
  then show ?thesis by (auto simp: keeps_session_def intro!: sweep_list_all2 read_leg_bar_keeps)
qed

text \<open>What the loop of \<open>close_with_protection\<close> keeps, one protected leg at a time.\<close>

lemma close_with_protection_invariant:
  assumes "close_with_protection et t grp book leaving s = Inr s'" "I s"
    and "\<And>s i s'. I s \<Longrightarrow> over_legs (protect_leg (cutoff_ms s) grp t i) s = Inr s' \<Longrightarrow> I s'"
  shows "I s'"
proof -
  obtain plan where f: "foldR (\<lambda>s i. over_legs (protect_leg (cutoff_ms s) grp t i) s) s plan = Inr s'"
    using assms(1) by (auto simp: close_with_protection_def bindR_Inr_iff)
  show ?thesis by (rule foldR_invariant [OF f, where I = I]) (use assms(2,3) in auto)
qed

lemma close_with_protection_keeps:
  assumes "close_with_protection et t grp book leaving s = Inr s'" shows "keeps_session s s'"
  by (rule close_with_protection_invariant [OF assms]) (auto intro: keeps_session_trans over_legs_keeps protect_leg_keeps)

lemma stops_step:
  assumes "stops et t bars s = Inr (s', d)" "s' \<noteq> s"
  obtains hit ca evs lv so legs where
    "sweep (stop_leg hit ca (cutoff_ms s) (ss_groups s + 1) t) (ss_events s, [], []) (ss_legs s) = Inr ((evs, lv, so), legs)"
    "s' = s\<lparr>ss_groups := ss_groups s + 1, ss_events := evs, ss_legs := legs\<rparr>
      \<or> (\<exists>book. close_with_protection et t (ss_groups s + 1) book lv
            (s\<lparr>ss_groups := ss_groups s + 1, ss_events := evs, ss_legs := legs\<rparr>) = Inr s')"
  using assms by (fastforce simp: stops_def bindR_Inr_iff Let_def split: if_splits option.splits)

lemma stops_keeps:
  assumes "stops et t bars s = Inr (s', d)" shows "keeps_session s s'"
proof (cases "s' = s")
  case False
  from stops_step [OF assms False] obtain hit ca evs lv so legs where
    sw: "sweep (stop_leg hit ca (cutoff_ms s) (ss_groups s + 1) t) (ss_events s, [], []) (ss_legs s) = Inr ((evs, lv, so), legs)"
    and r: "s' = s\<lparr>ss_groups := ss_groups s + 1, ss_events := evs, ss_legs := legs\<rparr>
      \<or> (\<exists>book. close_with_protection et t (ss_groups s + 1) book lv
            (s\<lparr>ss_groups := ss_groups s + 1, ss_events := evs, ss_legs := legs\<rparr>) = Inr s')" by metis
  have "list_all2 keeps_leg (ss_legs s) legs" by (rule sweep_list_all2 [OF sw]) (rule stop_leg_keeps)
  then have "keeps_session s (s\<lparr>ss_groups := ss_groups s + 1, ss_events := evs, ss_legs := legs\<rparr>)"
    by (simp add: keeps_session_def)
  with r show ?thesis by (auto intro: keeps_session_trans close_with_protection_keeps)
qed simp

lemma flags_keep [simp]: "keeps_session s (s'\<lparr>ss_exit_requested := b\<rparr>) = keeps_session s s'"
  "keeps_session s (s'\<lparr>ss_started := b\<rparr>) = keeps_session s s'"
  "keeps_session s (s'\<lparr>ss_skipped := k\<rparr>) = keeps_session s s'"
  by (simp_all add: keeps_session_def)

lemma advance_rules_keeps:
  "advance_rules sr t bars allow s = Inr s' \<Longrightarrow> keeps_session s s'"
  by (auto simp: advance_rules_def bindR_Inr_iff split: if_splits
      intro: exit_time_keeps stops_keeps keeps_session_trans enter_keeps)

lemma new_decisions_keeps:
  assumes "new_decisions before t allow s = Inr (s', ds)" shows "keeps_session s s'"
proof -
  obtain ds' legs where "sweep (decide_leg before (exit_ms s) t allow) [] (ss_legs s) = Inr (ds', legs)" "s' = s\<lparr>ss_legs := legs\<rparr>"
    using assms by (auto simp: new_decisions_def bindR_Inr_iff)
  then show ?thesis by (auto simp: keeps_session_def intro!: sweep_list_all2 decide_leg_keeps)
qed

subsection \<open>Observed executions\<close>

definition ids_distinct :: "session \<Rightarrow> bool" where
  "ids_distinct s \<longleftrightarrow> distinct (map leg_id (ss_legs s))"

lemma put_leg_all2:
  assumes "distinct (map leg_id ls)" "l \<in> set ls" "leg_id l' = leg_id l" "Q l l'" "\<And>x. Q x x"
  shows "list_all2 Q ls (put_leg l' ls)"
  unfolding put_leg_def list.rel_map
proof (rule list_all2_all_nthI)
  fix i assume i: "i < length ls"
  have "ls ! i = l" if "leg_id (ls ! i) = leg_id l'"
    using that assms(1-3) i by (metis distinct_map inj_onD nth_mem)
  then show "Q (ls ! i) (if leg_id (ls ! i) = leg_id l' then l' else ls ! i)" using assms(4,5) by auto
qed simp

text \<open>The outcome that is observed names a leg, and what is done to that leg.\<close>

lemma observe_execution_fresh:
  assumes "observe_execution sr oc t s = Inr s'" "map_of (ss_observed s) (eo_outcome_id oc) = None"
  obtains l evs l' where "find (\<lambda>l. leg_id l = eo_leg_id oc) (ss_legs s) = Some l"
    and "(if eo_kind oc = Entry_Order then observe_entry else observe_close)
           (ss_exit_requested s) oc t (ss_events s) l = Inr (evs, l')"
    and "\<And>f. eo_fill oc = Some f \<Longrightarrow> \<exists>a. lg_attempt l = Some a \<and> fill_matches l a f t"
    and "s' = s\<lparr>ss_events := evs, ss_legs := put_leg l' (ss_legs s),
           ss_observed := (eo_outcome_id oc, sr_digest sr oc) # ss_observed s\<rparr>"
proof -
  obtain l where l: "find (\<lambda>l. leg_id l = eo_leg_id oc) (ss_legs s) = Some l"
    using assms by (auto simp: observe_execution_def split: option.splits)
  note obs = assms(1) [unfolded observe_execution_def assms(2) l option.case]
  show thesis
    using obs that [OF l] by (auto simp: Let_def bindR_Inr_iff guardR_Inr_iff position_of_Inr split: if_splits option.splits)
qed

lemma observe_execution_step:
  assumes "observe_execution sr oc t s = Inr s'" "s' \<noteq> s"
  obtains l evs l' where "find (\<lambda>l. leg_id l = eo_leg_id oc) (ss_legs s) = Some l"
    and "(if eo_kind oc = Entry_Order then observe_entry else observe_close)
           (ss_exit_requested s) oc t (ss_events s) l = Inr (evs, l')"
    and "\<And>f. eo_fill oc = Some f \<Longrightarrow> \<exists>a. lg_attempt l = Some a \<and> fill_matches l a f t"
    and "s' = s\<lparr>ss_events := evs, ss_legs := put_leg l' (ss_legs s),
           ss_observed := (eo_outcome_id oc, sr_digest sr oc) # ss_observed s\<rparr>"
proof -
  have "map_of (ss_observed s) (eo_outcome_id oc) = None"
    using assms by (auto simp: observe_execution_def split: option.splits if_splits)
  with assms(1) show thesis by (rule observe_execution_fresh) (rule that)
qed

lemma observe_execution_keeps:
  assumes obs: "observe_execution sr oc t s = Inr s'" and ids: "ids_distinct s" and ans: "answers_an_order s oc"
  shows "keeps_session s s'"
proof (cases "s' = s")
  case False
  obtain l evs l' where l: "find (\<lambda>l. leg_id l = eo_leg_id oc) (ss_legs s) = Some l"
    and o: "(if eo_kind oc = Entry_Order then observe_entry else observe_close)
           (ss_exit_requested s) oc t (ss_events s) l = Inr (evs, l')"
    and fits: "\<And>f. eo_fill oc = Some f \<Longrightarrow> \<exists>a. lg_attempt l = Some a \<and> fill_matches l a f t"
    and s': "s' = s\<lparr>ss_events := evs, ss_legs := put_leg l' (ss_legs s),
           ss_observed := (eo_outcome_id oc, sr_digest sr oc) # ss_observed s\<rparr>"
    using observe_execution_step [OF obs False] by metis
  have lin: "l \<in> set (ss_legs s)" "leg_id l = eo_leg_id oc" using l by (auto simp: find_Some_iff)
  have "keeps_leg l l'"
  proof (cases "eo_kind oc = Entry_Order")
    case True
    have "observe_entry (ss_exit_requested s) oc t (ss_events s) l = Inr (evs, l')" using o True by simp
    then show ?thesis
    proof (rule observe_entry_keeps [OF _ fits])
      assume "eo_fill oc = None" "eo_terminal oc" "eo_refusal oc = None" "lg_position l = None"
      then show "lg_phase l = Ph_Ordered"
        using ans True lin by (auto simp: answers_an_order_def list_all_iff)
    qed
  next
    case False
    then have "observe_close (ss_exit_requested s) oc t (ss_events s) l = Inr (evs, l')" using o by simp
    then show ?thesis by (rule observe_close_keeps) (use fits in \<open>auto simp: fill_matches_def\<close>)
  qed
  moreover from this have "leg_id l' = leg_id l" by (simp add: keeps_leg_def leg_id_def)
  ultimately have "list_all2 keeps_leg (ss_legs s) (put_leg l' (ss_legs s))"
    using ids lin(1) by (auto simp: ids_distinct_def intro: put_leg_all2)
  then show ?thesis by (simp add: keeps_session_def s')
qed simp

subsection \<open>A leg before the session starts\<close>

definition idle_leg :: "leg \<Rightarrow> bool" where
  "idle_leg l \<longleftrightarrow> lg_phase l = Ph_Done \<and> lg_attempt l = None \<and> lg_position l = None \<and> lg_entries_filled l = 0"

lemma idle_may_begin: "idle_leg l \<Longrightarrow> may_begin l"
  by (simp add: idle_leg_def may_begin_def)

lemma observe_idle:
  assumes "observe_execution sr oc t s = Inr s'" "list_all idle_leg (ss_legs s)"
  shows "list_all idle_leg (ss_legs s')"
proof (cases "s' = s")
  case False
  obtain l evs l' where l: "find (\<lambda>l. leg_id l = eo_leg_id oc) (ss_legs s) = Some l"
    and o: "(if eo_kind oc = Entry_Order then observe_entry else observe_close)
           (ss_exit_requested s) oc t (ss_events s) l = Inr (evs, l')"
    and fits: "\<And>f. eo_fill oc = Some f \<Longrightarrow> \<exists>a. lg_attempt l = Some a \<and> fill_matches l a f t"
    and s': "s' = s\<lparr>ss_events := evs, ss_legs := put_leg l' (ss_legs s),
           ss_observed := (eo_outcome_id oc, sr_digest sr oc) # ss_observed s\<rparr>"
    using observe_execution_step [OF assms(1) False] by metis
  have i: "idle_leg l" using l assms(2) by (auto simp: find_Some_iff list_all_iff)
  then have nofill: "eo_fill oc = None" using fits by (cases "eo_fill oc") (auto simp: idle_leg_def)
  have "l' = l \<or> l' = l\<lparr>lg_phase := Ph_Done\<rparr>"
    using o i nofill
    by (auto simp: idle_leg_def observe_entry_def observe_close_def drop_entry_def Let_def attempt_of_def
        split: if_splits option.splits)
  with i have "idle_leg l'" by (auto simp: idle_leg_def)
  then show ?thesis using assms(2) by (auto simp: s' put_leg_def list_all_iff)
qed (use assms(2) in simp)

lemma start_session_shape:
  assumes "start_session sr t allow s = Inr s'"
  shows "s' = s\<lparr>ss_started := True, ss_skipped := Some Window_Does_Not_Fit\<rparr> \<or> s' = s\<lparr>ss_started := True\<rparr>
      \<or> s' = s\<lparr>ss_started := True, ss_skipped := Some Underlying_Did_Not_Trade\<rparr>
      \<or> (\<exists>u. over_legs (\<lambda>evs l. begin_leg (sr_market sr) t u (ls_momentum (lg_setup l) \<noteq> None) evs l)
            (s\<lparr>ss_started := True\<rparr>) = Inr s')"
  using assms by (auto simp: start_session_def Let_def split: if_splits option.splits)

lemma start_session_keeps:
  assumes "start_session sr t allow s = Inr s'" "list_all idle_leg (ss_legs s)"
  shows "keeps_session s s'"
proof -
  have begins: "keeps_leg l l'" if "begin_leg mk t u w evs l = Inr (evs', l')" "l \<in> set (ss_legs s)" for mk u w evs l evs' l'
    using that assms(2) begin_leg_shape [OF that(1)] begin_leg_inv [OF that(1)] idle_may_begin
    by (auto simp: keeps_leg_def list_all_iff)
  from start_session_shape [OF assms(1)] show ?thesis
  proof (elim disjE exE)
    fix u assume "over_legs (\<lambda>evs l. begin_leg (sr_market sr) t u (ls_momentum (lg_setup l) \<noteq> None) evs l)
            (s\<lparr>ss_started := True\<rparr>) = Inr s'"
    then have "keeps_session (s\<lparr>ss_started := True\<rparr>) s'" by (rule over_legs_keeps) (use begins in auto)
    then show ?thesis by (simp add: keeps_session_def)
  qed simp_all
qed

subsection \<open>The invariant of a session\<close>

definition session_inv :: "session \<Rightarrow> bool" where
  "session_inv s \<longleftrightarrow> state_describes_its_setup s \<and> list_all leg_inv (ss_legs s) \<and> ids_distinct s
     \<and> (ss_started s \<or> list_all idle_leg (ss_legs s))"

lemma keeps_ids: "keeps_session s s' \<Longrightarrow> ids_distinct s' = ids_distinct s"
proof -
  assume "keeps_session s s'"
  then have "map lg_setup (ss_legs s') = map lg_setup (ss_legs s)" by (simp add: keeps_session_def keeps_legs_setup)
  then have "map ls_leg_id (map lg_setup (ss_legs s')) = map ls_leg_id (map lg_setup (ss_legs s))" by simp
  then show ?thesis by (simp add: ids_distinct_def leg_id_def [abs_def] comp_def)
qed

lemma session_inv_kept:
  assumes "session_inv s" "keeps_session s s'" "ss_started s' \<or> list_all idle_leg (ss_legs s')"
  shows "session_inv s'"
proof -
  have legs: "list_all leg_inv (ss_legs s')" using assms(1,2) keeps_legs_inv by (auto simp: session_inv_def keeps_session_def)
  then have "list_all leg_describes (ss_legs s')" by (auto simp: list_all_iff leg_inv_def)
  moreover have "map lg_setup (ss_legs s') = map lg_setup (ss_legs s)"
    using assms(2) keeps_legs_setup by (simp add: keeps_session_def)
  ultimately have "state_describes_its_setup s'"
    using assms(1,2) by (auto simp: state_describes_its_setup_def session_inv_def keeps_session_def cong: option.case_cong)
  with legs assms keeps_ids [OF assms(2)] show ?thesis by (simp add: session_inv_def)
qed

lemma session_inv_minute:
  assumes "session_inv s" "t mod ms_per_minute = 0" "ss_open_ms s < t" "t \<le> ss_close_ms s"
  shows "session_inv (s\<lparr>ss_last_minute_ms := Some t\<rparr>)"
  using assms by (simp add: session_inv_def state_describes_its_setup_def ids_distinct_def)

text \<open>Each bare terminal outcome of a list answers an order that is out when it is observed.\<close>

fun answers_orders :: "surroundings \<Rightarrow> int \<Rightarrow> execution_outcome list \<Rightarrow> session \<Rightarrow> bool" where
  "answers_orders sr t [] s = True"
| "answers_orders sr t (oc # ocs) s =
     (answers_an_order s oc
      \<and> (case observe_execution sr oc t s of Inl _ \<Rightarrow> True | Inr s' \<Rightarrow> answers_orders sr t ocs s'))"

lemma observe_started: "observe_execution sr oc t s = Inr s' \<Longrightarrow> ss_started s' = ss_started s"
  by (cases "s' = s") (auto elim: observe_execution_step)

lemma observe_all_inv:
  assumes "foldR (\<lambda>s oc. observe_execution sr oc t s) s ocs = Inr s'" "session_inv s" "answers_orders sr t ocs s"
  shows "session_inv s' \<and> keeps_session s s' \<and> ss_started s' = ss_started s"
  using assms
proof (induction ocs arbitrary: s)
  case (Cons oc ocs)
  then obtain s1 where o: "observe_execution sr oc t s = Inr s1" and f: "foldR (\<lambda>s oc. observe_execution sr oc t s) s1 ocs = Inr s'"
    by (auto simp: bindR_Inr_iff)
  have k: "keeps_session s s1" using Cons.prems(2,3) observe_execution_keeps [OF o] by (simp add: session_inv_def)
  have "session_inv s1"
    by (rule session_inv_kept [OF Cons.prems(2) k])
      (use Cons.prems(2) observe_started [OF o] observe_idle [OF o] in \<open>auto simp: session_inv_def\<close>)
  from Cons.IH [OF f this] Cons.prems(3) o have "session_inv s' \<and> keeps_session s1 s' \<and> ss_started s' = ss_started s1" by simp
  with k observe_started [OF o] show ?case by (auto intro: keeps_session_trans)
qed simp

subsection \<open>Advancing keeps the invariant\<close>

lemma enter_started: "enter mk t s = Inr s' \<Longrightarrow> ss_started s' = ss_started s"
  by (auto simp: enter_def over_legs_def bindR_Inr_iff split: if_splits)

lemma close_with_protection_started:
  assumes "close_with_protection et t grp book leaving s = Inr s'" shows "ss_started s' = ss_started s"
  by (rule close_with_protection_invariant [OF assms]) (auto simp: over_legs_def bindR_Inr_iff)

lemma stops_started: "stops et t bars s = Inr (s', d) \<Longrightarrow> ss_started s' = ss_started s"
  by (auto simp: stops_def bindR_Inr_iff Let_def split: if_splits option.splits dest!: close_with_protection_started)

lemma advance_rules_started: "advance_rules sr t bars allow s = Inr s' \<Longrightarrow> ss_started s' = ss_started s"
  by (auto simp: advance_rules_def exit_time_def bindR_Inr_iff split: if_splits dest!: stops_started enter_started)

lemma start_session_started: "start_session sr t allow s = Inr s' \<Longrightarrow> ss_started s'"
  by (auto simp: start_session_def Let_def over_legs_def bindR_Inr_iff split: if_splits option.splits)

lemma new_decisions_started: "new_decisions before t allow s = Inr (s', ds) \<Longrightarrow> ss_started s' = ss_started s"
  by (auto simp: new_decisions_def bindR_Inr_iff)

lemma decide_idle:
  assumes "new_decisions before t allow s = Inr (s', ds)" "list_all idle_leg (ss_legs s)"
  shows "list_all idle_leg (ss_legs s')"
proof -
  obtain ds' legs where sw: "sweep (decide_leg before (exit_ms s) t allow) [] (ss_legs s) = Inr (ds', legs)" and s': "s' = s\<lparr>ss_legs := legs\<rparr>"
    using assms(1) by (auto simp: new_decisions_def bindR_Inr_iff)
  have "idle_leg l'" if "idle_leg l" "decide_leg before (exit_ms s) t allow ds l = Inr (ds', l')" for ds l ds' l'
    using that decide_leg_shape by (fastforce simp: idle_leg_def)
  then show ?thesis using sweep_keeps [OF sw assms(2)] s' by auto
qed

lemma new_decisions_inv:
  assumes "new_decisions before t allow s = Inr (s', ds)" "session_inv s" shows "session_inv s'"
  by (rule session_inv_kept [OF assms(2) new_decisions_keeps [OF assms(1)]])
    (use assms(2) new_decisions_started [OF assms(1)] decide_idle [OF assms(1)] in \<open>auto simp: session_inv_def\<close>)

text \<open>A minute of \<open>advance\<close>: the outcomes, then (for a new minute) the rules, then the decisions.\<close>

definition rules_of_minute :: "surroundings \<Rightarrow> int \<Rightarrow> bool \<Rightarrow> session \<Rightarrow> (session_error, session) result" where
  "rules_of_minute sr t allow s1 =
     (if \<not> ss_started s1 then start_session sr t allow s1
      else if ss_skipped s1 = None
      then bindR (if exit_ms s1 \<le> t then Inr (s1, []) else read_held_bars (sr_market sr) t s1)
             (\<lambda>(s2, bars). advance_rules sr t bars allow s2)
      else Inr s1)"

lemma rules_of_minute_keeps:
  assumes "rules_of_minute sr t allow s = Inr s'" "session_inv s"
  shows "keeps_session s s' \<and> ss_started s'"
proof (cases "ss_started s")
  case False
  then show ?thesis using assms start_session_keeps start_session_started by (auto simp: rules_of_minute_def session_inv_def)
next
  case started: True
  show ?thesis
  proof (cases "ss_skipped s = None \<and> \<not> exit_ms s \<le> t")
    case True
    then obtain s2 bars where r: "read_held_bars (sr_market sr) t s = Inr (s2, bars)" "advance_rules sr t bars allow s2 = Inr s'"
      using assms(1) started by (auto simp: rules_of_minute_def bindR_Inr_iff)
    have "ss_started s2" using r(1) started by (auto simp: read_held_bars_def bindR_Inr_iff)
    with r show ?thesis using advance_rules_started read_held_bars_keeps advance_rules_keeps keeps_session_trans by metis
  next
    case False
    then have "s' = s \<or> advance_rules sr t [] allow s = Inr s'"
      using assms(1) started by (auto simp: rules_of_minute_def split: if_splits)
    then show ?thesis using started advance_rules_started advance_rules_keeps by auto
  qed
qed

lemma advance_cases:
  assumes "advance sr s t ocs allow obs = Inr (s', step)"
  obtains s1 where "t mod ms_per_minute = 0" "ss_open_ms s < t" "t \<le> ss_close_ms s"
    "foldR (\<lambda>s oc. observe_execution sr oc (case obs of None \<Rightarrow> t | Some m \<Rightarrow> m) s) s ocs = Inr s1"
    "\<not> ss_started s1 \<and> s' = s1\<lparr>ss_last_minute_ms := Some t\<rparr>
     \<or> (\<exists>ds. ss_last_minute_ms s1 = Some t \<and> new_decisions (pending_decisions (ss_legs s)) t allow s1 = Inr (s', ds))
     \<or> (\<exists>s2 ds. ss_last_minute_ms s1 \<noteq> Some t \<and> (\<not> ss_started s1 \<longrightarrow> entry_ms s1 \<le> t) \<and> rules_of_minute sr t allow s1 = Inr s2
          \<and> new_decisions (pending_decisions (ss_legs s)) t allow (s2\<lparr>ss_last_minute_ms := Some t\<rparr>) = Inr (s', ds))"
proof -
  have ok: "t mod ms_per_minute = 0" "ss_open_ms s < t" "t \<le> ss_close_ms s"
    using assms by (auto simp: advance_def split: if_splits)
  have "\<not> (case ss_last_minute_ms s of None \<Rightarrow> False | Some m \<Rightarrow> t < m)"
    using assms ok by (auto simp: advance_def)
  note body = assms [unfolded advance_def rules_of_minute_def [symmetric] Let_def, simplified ok this, simplified]
  then obtain s1 where s1: "foldR (\<lambda>s oc. observe_execution sr oc (case obs of None \<Rightarrow> t | Some m \<Rightarrow> m) s) s ocs = Inr s1"
    by (auto simp: bindR_Inr_iff)
  show thesis
    by (rule that [OF ok s1]) (use body s1 in \<open>auto simp: bindR_Inr_iff split: if_splits\<close>)
qed

definition same_day :: "session \<Rightarrow> session \<Rightarrow> bool" where
  "same_day s s' \<longleftrightarrow> ss_setup s' = ss_setup s \<and> ss_open_ms s' = ss_open_ms s \<and> ss_close_ms s' = ss_close_ms s"

lemma keeps_same_day: "keeps_session s s' \<Longrightarrow> same_day s s'"
  by (simp add: keeps_session_def same_day_def)

lemma same_day_minute [simp]: "same_day s (s'\<lparr>ss_last_minute_ms := m\<rparr>) = same_day s s'"
  "same_day (s\<lparr>ss_last_minute_ms := m\<rparr>) s' = same_day s s'"
  by (simp_all add: same_day_def)

lemma same_day_trans: "same_day s s' \<Longrightarrow> same_day s' s'' \<Longrightarrow> same_day s s''"
  by (simp add: same_day_def)

lemma new_decisions_day:
  assumes "new_decisions before t allow s' = Inr (s'', ds)" "session_inv s'" "same_day s s'"
  shows "session_inv s'' \<and> same_day s s''"
  using new_decisions_inv [OF assms(1,2)] same_day_trans [OF assms(3)] keeps_same_day [OF new_decisions_keeps [OF assms(1)]]
  by simp

lemma advance_inv:
  assumes "advance sr s t ocs allow obs = Inr (s', step)" "session_inv s"
    and "answers_orders sr (case obs of None \<Rightarrow> t | Some m \<Rightarrow> m) ocs s"
  shows "session_inv s' \<and> same_day s s'"
  using assms(1)
proof (rule advance_cases)
  fix s1 assume t: "t mod ms_per_minute = 0" "ss_open_ms s < t" "t \<le> ss_close_ms s"
    and "foldR (\<lambda>s oc. observe_execution sr oc (case obs of None \<Rightarrow> t | Some m \<Rightarrow> m) s) s ocs = Inr s1"
    and r: "\<not> ss_started s1 \<and> s' = s1\<lparr>ss_last_minute_ms := Some t\<rparr>
     \<or> (\<exists>ds. ss_last_minute_ms s1 = Some t \<and> new_decisions (pending_decisions (ss_legs s)) t allow s1 = Inr (s', ds))
     \<or> (\<exists>s2 ds. ss_last_minute_ms s1 \<noteq> Some t \<and> (\<not> ss_started s1 \<longrightarrow> entry_ms s1 \<le> t) \<and> rules_of_minute sr t allow s1 = Inr s2
          \<and> new_decisions (pending_decisions (ss_legs s)) t allow (s2\<lparr>ss_last_minute_ms := Some t\<rparr>) = Inr (s', ds))"
  from observe_all_inv [OF this(4) assms(2,3)]
  have s1: "session_inv s1" and k: "keeps_session s s1" by simp_all
  have minute: "session_inv (s2\<lparr>ss_last_minute_ms := Some t\<rparr>)" if "session_inv s2" "keeps_session s1 s2" for s2
    using session_inv_minute [OF that(1) t(1)] t k that(2) by (simp add: keeps_session_def)
  from r show ?thesis
  proof (elim disjE exE conjE)
    fix s2 ds assume "rules_of_minute sr t allow s1 = Inr s2"
      and nd: "new_decisions (pending_decisions (ss_legs s)) t allow (s2\<lparr>ss_last_minute_ms := Some t\<rparr>) = Inr (s', ds)"
    from rules_of_minute_keeps [OF this(1) s1] have s2: "session_inv s2" "keeps_session s1 s2"
      using session_inv_kept [OF s1] by auto
    show ?thesis
      by (rule new_decisions_day [OF nd minute [OF s2]])
        (use keeps_same_day [OF keeps_session_trans [OF k s2(2)]] in simp)
  next
    fix ds assume "new_decisions (pending_decisions (ss_legs s)) t allow s1 = Inr (s', ds)"
    then show ?thesis by (rule new_decisions_day [OF _ s1 keeps_same_day [OF k]])
  next
    assume "s' = s1\<lparr>ss_last_minute_ms := Some t\<rparr>"
    then show ?thesis using minute [OF s1] keeps_same_day [OF k] by simp
  qed
qed

subsection \<open>Runs\<close>

text \<open>
  A session's life: it begins fresh, it is advanced (each time with what the caller's market then knows, and with
  outcomes that answer orders), and it may be saved and restored at any point.
\<close>

inductive session_run :: "backtest_setup \<Rightarrow> market \<Rightarrow> session \<Rightarrow> bool" for su mk where
  fresh: "options_session su mk None = Inr s \<Longrightarrow> session_run su mk s"
| minute: "session_run su mk s \<Longrightarrow> answers_orders sr (case obs of None \<Rightarrow> t | Some m \<Rightarrow> m) ocs s
    \<Longrightarrow> advance sr s t ocs allow obs = Inr (s', step) \<Longrightarrow> session_run su mk s'"
| restored: "session_run su mk s \<Longrightarrow> options_session su mk (Some s) = Inr s' \<Longrightarrow> session_run su mk s'"

lemma setup_limit:
  assumes "setup_ok setup" "l \<in> set (bs_legs setup)" shows "0 \<le> reentry_limit l"
proof -
  have "leg_setup_ok l" using assms by (auto simp: setup_ok_def setup_fields_ok_def list_all_iff)
  then show ?thesis by (auto simp: leg_setup_ok_def reentry_limit_def reentry_ok_def split: option.splits)
qed

lemma fresh_inv:
  assumes "setup_ok setup" "options_session setup mk None = Inr s" shows "session_inv s"
proof -
  have s: "s = fresh_session setup mk" and ok: "state_describes_its_setup (fresh_session setup mk)"
    using assms(2) by (auto simp: options_session_def fresh_session_def split: if_splits)
  have legs: "ss_legs s = map fresh_leg (bs_legs setup)" by (simp add: s fresh_session_def)
  have ids: "distinct (map ls_leg_id (bs_legs setup))"
    using assms(1) by (auto simp: setup_ok_def validate_setup_def every_leg_has_its_own_id_def bindR_Inr_iff guardR_Inr_iff)
  have idle: "list_all idle_leg (ss_legs s)" by (auto simp: legs list_all_iff idle_leg_def fresh_leg_def)
  have "leg_inv (fresh_leg l)" if "l \<in> set (bs_legs setup)" for l
    by (subst leg_inv_idle) (use setup_limit [OF assms(1) that] in \<open>simp_all add: fresh_leg_def\<close>)
  with ok ids idle show ?thesis
    by (simp add: session_inv_def s legs ids_distinct_def list_all_iff fresh_session_def comp_def leg_id_def fresh_leg_def)
qed

lemma restored_inv:
  assumes "options_session setup mk (Some s) = Inr s'" "session_inv s" shows "session_inv s' \<and> same_day s s'"
proof (cases "s' = s")
  case False
  then obtain d n legs where sw: "sweep (repair_leg d) (ss_groups s) (ss_legs s) = Inr (n, legs)"
    and s': "s' = s\<lparr>ss_groups := n, ss_legs := legs\<rparr>"
    using assms(1) by (auto simp: options_session_def bindR_Inr_iff split: if_splits)
  have n: "ss_groups s \<le> n"
    by (rule sweep_carried [OF sw]) (auto simp: repair_leg_def split: if_splits)
  have "list_all2 keeps_leg (ss_legs s) legs" by (rule sweep_list_all2 [OF sw]) (rule repair_leg_keeps)
  then have k: "keeps_session s s'" using n by (simp add: s' keeps_session_def)
  have "ss_started s' \<or> list_all idle_leg (ss_legs s')"
  proof -
    have "list_all idle_leg (ss_legs s) \<Longrightarrow> list_all idle_leg legs"
      by (rule sweep_keeps [OF sw]) (auto simp: repair_leg_def idle_leg_def split: if_splits)
    then show ?thesis using assms(2) by (auto simp: s' session_inv_def)
  qed
  then show ?thesis using session_inv_kept [OF assms(2) k] keeps_same_day [OF k] by simp
qed (use assms(2) in \<open>simp add: same_day_def\<close>)

lemma run_inv:
  assumes "session_run setup mk s" "setup_ok setup"
  shows "session_inv s \<and> same_day (fresh_session setup mk) s"
  using assms(1)
proof (induction rule: session_run.induct)
  case (fresh s)
  then have "s = fresh_session setup mk" by (auto simp: options_session_def fresh_session_def split: if_splits)
  then show ?case using fresh_inv [OF assms(2) fresh] by (simp add: same_day_def)
next
  case (minute s sr obs t ocs allow s' step)
  then show ?case using advance_inv [OF minute.hyps(3)] by (auto simp: same_day_def)
next
  case (restored s s')
  then show ?case using restored_inv by (auto simp: same_day_def)
qed

text \<open>
  C4: whatever session a run reaches, from a validated setup and through any minutes, any markets and any outcomes
  that answer orders, it restores: the validator of a saved state accepts it, so each leg's re-entry counter follows
  its entries, it has entered at most once more than its rule allows, a leg is held exactly when it has a position,
  and that position is one of the contract, side and size it was asked for.
\<close>

theorem run_restores:
  assumes "setup_ok setup" "session_run setup mk s"
  shows "state_describes_its_setup s \<and> (\<exists>s'. options_session setup mk (Some s) = Inr s')"
proof -
  note I = run_inv [OF assms(2,1)]
  have "mk_open_ms mk mod ms_per_minute = 0" "mk_close_ms mk mod ms_per_minute = 0" "map lg_setup (ss_legs s) = bs_legs setup"
    using I by (auto simp: session_inv_def state_describes_its_setup_def same_day_def fresh_session_def)
  moreover obtain n legs where "sweep (repair_leg (case ss_last_minute_ms s of None \<Rightarrow> exit_ms s
      | Some m \<Rightarrow> if m = 0 then exit_ms s else m)) (ss_groups s) (ss_legs s) = Inr (n, legs)"
    using sweep_total [of "ss_legs s" "repair_leg _" "ss_groups s"] by (fastforce simp: repair_leg_def)
  ultimately show ?thesis using I
    by (auto simp: options_session_def session_inv_def same_day_def fresh_session_def)
qed

subsection \<open>A sample day\<close>

definition sample_bar :: minute_bar where
  "sample_bar = \<lparr>mb_close_ms = 900000, mb_open = Finite 2 0, mb_high = Finite 2 0, mb_low = Finite 1 0, mb_close = Finite 1 0\<rparr>"

definition sample_call :: option_contract where
  "sample_call = \<lparr>oc_root = ''SPY'', oc_expiry_ms = 1705698000000, oc_right = Call, oc_strike = 500000\<rparr>"

definition sample_market :: market where
  "sample_market = \<lparr>mk_open_ms = 0, mk_close_ms = 23400000, mk_underlying_close = (\<lambda>_. Some (Finite 500 0)),
     mk_pick = (\<lambda>_ _ _. Picked sample_call 100), mk_option_bar = (\<lambda>_ _. Some sample_bar)\<rparr>"

definition sample_surroundings :: surroundings where
  "sample_surroundings = \<lparr>sr_market = sample_market, sr_digest = eo_outcome_id, sr_et_date = (\<lambda>_. (2024, 1, 19))\<rparr>"

definition sample_day :: "(int \<times> execution_outcome list) list \<Rightarrow> (session_error, session \<times> options_step) result" where
  "sample_day minutes = bindR (options_session sample_setup sample_market None) (\<lambda>s.
     foldR (\<lambda>(s, step) (t, ocs). advance sample_surroundings s t ocs True None) (s, \<lparr>os_decisions = [], os_events = []\<rparr>) minutes)"

definition sample_fill :: "leg_side \<Rightarrow> int \<Rightarrow> fill" where
  "sample_fill side t = \<lparr>fl_leg_id = ''a'', fl_contract = sample_call, fl_side = side, fl_contracts = 2, fl_multiplier = 100,
     fl_bar_close_ms = t, fl_seen = Finite 2 0, fl_filled = Finite 2 0\<rparr>"

definition sample_outcome :: "string \<Rightarrow> order_kind \<Rightarrow> int \<Rightarrow> fill option \<Rightarrow> execution_outcome" where
  "sample_outcome i kind n f = \<lparr>eo_outcome_id = i, eo_leg_id = ''a'', eo_entry_number = n, eo_kind = kind, eo_fill = f,
     eo_terminal = True, eo_fee_usd = Finite 0 0, eo_mark = None, eo_refusal = None, eo_decided_at_ms = None\<rparr>"

text \<open>The sample leg is bought, stopped out, bought again: its second order is out at the third minute.\<close>

definition sample_minutes :: "(int \<times> execution_outcome list) list" where
  "sample_minutes = [(900000, []),
     (960000, [sample_outcome ''1'' Entry_Order 0 (Some (sample_fill Buy 960000))]),
     (1020000, [sample_outcome ''2'' Close_Order 0 (Some (sample_fill Sell 1020000))])]"

lemma sample_day_first: "map_sum id (\<lambda>(s, step). (map lg_phase (ss_legs s), os_decisions step)) (sample_day (take 1 sample_minutes))
  = Inr ([Ph_Ordered], [Open_Leg ''a'' 0 sample_call 2 100 900000 Buy])"
  by code_simp

lemma sample_day_second: "map_sum id (\<lambda>(s, step). (map lg_phase (ss_legs s), os_decisions step)) (sample_day (take 2 sample_minutes))
  = Inr ([Ph_Held], [Close_Leg ''a'' 0 sample_call 2 100 960000 Ex_Stop 1])"
  by code_simp

lemma sample_day_third: "map_sum id (\<lambda>(s, step). (map lg_phase (ss_legs s), os_decisions step)) (sample_day sample_minutes)
  = Inr ([Ph_Ordered], [Open_Leg ''a'' 1 sample_call 2 100 1020000 Buy])"
  by code_simp

lemma filled_answers: "list_all (\<lambda>oc. eo_fill oc \<noteq> None) ocs \<Longrightarrow> answers_orders sr t ocs s"
  by (induction ocs arbitrary: s) (auto simp: answers_an_order_def split: sum.splits)

lemma sample_day_run:
  assumes "sample_day minutes = Inr (s, step)" "list_all (\<lambda>(t, ocs). list_all (\<lambda>oc. eo_fill oc \<noteq> None) ocs) minutes"
  shows "session_run sample_setup sample_market s"
proof -
  obtain s0 where s0: "options_session sample_setup sample_market None = Inr s0"
    and f: "foldR (\<lambda>(s, step) (t, ocs). advance sample_surroundings s t ocs True None) (s0, \<lparr>os_decisions = [], os_events = []\<rparr>) minutes = Inr (s, step)"
    using assms(1) by (auto simp: sample_day_def bindR_Inr_iff)
  have "session_run sample_setup sample_market (fst (s, step))"
  proof (rule foldR_invariant [OF f, where I = "\<lambda>x. session_run sample_setup sample_market (fst x)"])
    show "session_run sample_setup sample_market (fst (s0, \<lparr>os_decisions = [], os_events = []\<rparr>))"
      using session_run.fresh [OF s0] by simp
  next
    fix x y x' assume y: "y \<in> set minutes" and x: "session_run sample_setup sample_market (fst x)"
      and a: "(case x of (s, step) \<Rightarrow> \<lambda>(t, ocs). advance sample_surroundings s t ocs True None) y = Inr x'"
    obtain s1 st t ocs s2 st2 where [simp]: "x = (s1, st)" "y = (t, ocs)" "x' = (s2, st2)" by (cases x; cases y; cases x')
    have "answers_orders sample_surroundings t ocs s1" using assms(2) y by (intro filled_answers) (auto simp: list_all_iff)
    then show "session_run sample_setup sample_market (fst x')"
      using session_run.minute [where obs = None and s = s1 and sr = sample_surroundings and t = t and ocs = ocs and s' = s2] x a by auto
  qed
  then show ?thesis by simp
qed

theorem run_restores_witness:
  "\<exists>s. session_run sample_setup sample_market s \<and> map lg_phase (ss_legs s) = [Ph_Ordered] \<and> state_describes_its_setup s"
proof -
  obtain s step where d: "sample_day sample_minutes = Inr (s, step)" "map lg_phase (ss_legs s) = [Ph_Ordered]"
    using sample_day_third by (cases "sample_day sample_minutes") auto
  have run: "session_run sample_setup sample_market s"
    by (rule sample_day_run [OF d(1)]) (simp add: sample_minutes_def sample_outcome_def)
  show ?thesis
    by (intro exI [of _ s] conjI run d(2) conjunct1 [OF run_restores [OF sample_setup_ok run]])
qed

subsection \<open>Why outcomes must answer orders\<close>

text \<open>
  \<open>observe_entry\<close> refuses a fill for a leg that is not ordered, but does not ask the phase when a bare terminal outcome
  drops an entry: a finished leg whose last attempt waited on momentum is put back to waiting, with no entry left to
  make. It is the reason a run's outcomes are asked to answer orders.
\<close>

lemma late_terminal_revives_a_leg:
  "\<exists>l oc evs l'. leg_inv l \<and> lg_phase l = Ph_Done \<and> lg_entries_filled l = reentry_limit (lg_setup l) + 1
    \<and> eo_fill oc = None \<and> eo_terminal oc \<and> eo_refusal oc = None
    \<and> observe_entry False oc 960000 [] l = Inr (evs, l') \<and> lg_phase l' = Ph_Waiting \<and> \<not> leg_inv l'"
proof -
  define l where "l = (fresh_leg sample_leg)\<lparr>lg_attempt := Some \<lparr>at_contract = sample_call, at_multiplier = 100,
      at_starting_price = Some (Finite 2 0), at_momentum_level = Some (Finite 3 0), at_at_once = False\<rparr>,
      lg_entries_filled := 2, lg_reentries_left := 0\<rparr>"
  define oc where "oc = sample_outcome ''9'' Entry_Order 2 None"
  obtain evs where o: "observe_entry False oc 960000 [] l = Inr (evs, l\<lparr>lg_phase := Ph_Waiting\<rparr>)"
    by (simp add: observe_entry_def l_def oc_def sample_outcome_def drop_entry_def attempt_of_def fresh_leg_def Let_def)
  have "leg_inv l"
    by (subst leg_inv_idle) (simp_all add: l_def fresh_leg_def sample_leg_def reentry_limit_def)
  moreover have "\<not> leg_inv (l\<lparr>lg_phase := Ph_Waiting\<rparr>)"
    by (subst leg_inv_idle) (simp_all add: l_def fresh_leg_def)
  ultimately show ?thesis using o
    by (intro exI [of _ l] exI [of _ oc] exI [of _ evs] exI [of _ "l\<lparr>lg_phase := Ph_Waiting\<rparr>"])
      (simp add: l_def oc_def fresh_leg_def sample_outcome_def sample_leg_def reentry_limit_def)
qed

end
