(* ===== verification/Session_Exit.thy ===== *)
theory Session_Exit
  imports Session_Runs
begin

text \<open>
  The exit time of an options session: the minute that reaches it puts every leg on its way out, and no leg comes
  back after it.
\<close>

subsection \<open>A leg that is winding down\<close>

definition winding :: "leg \<Rightarrow> bool" where
  "winding l \<longleftrightarrow> lg_phase l \<noteq> Ph_Earned
     \<and> (lg_phase l = Ph_Held \<longrightarrow> (case lg_position l of None \<Rightarrow> False | Some p \<Rightarrow> po_close p \<noteq> None))
     \<and> (lg_phase l = Ph_Ordered \<longrightarrow> lg_close_on_fill l \<noteq> None)"

lemma finish_closed_winding:
  assumes "finish_closed True l = Inr l'" "winding l" shows "winding l'"
  using assms by (auto simp: finish_closed_def Let_def bindR_Inr_iff winding_def split: if_splits)

lemma observe_entry_winding:
  assumes "observe_entry True oc t evs l = Inr (evs', l')" "winding l" shows "winding l'"
proof (cases "eo_fill oc")
  case None
  show ?thesis
  proof (cases "lg_position l")
    case (Some p)
    have "l' = l \<or> finish_closed True (l\<lparr>lg_position := Some (p\<lparr>po_entry_terminal := True\<rparr>)\<rparr>) = Inr l'"
      using assms(1) None Some by (auto simp: observe_entry_def bindR_Inr_iff split: if_splits)
    moreover have "winding (l\<lparr>lg_position := Some (p\<lparr>po_entry_terminal := True\<rparr>)\<rparr>)"
      using assms(2) Some by (simp add: winding_def)
    ultimately show ?thesis using assms(2) finish_closed_winding by auto
  next
    case empty: None
    have "l' = l \<or> l' = l\<lparr>lg_phase := Ph_Done\<rparr> \<or> l' = l\<lparr>lg_phase := Ph_Waiting\<rparr>"
      using assms(1) None empty
      by (auto simp: observe_entry_def drop_entry_def Let_def bindR_Inr_iff split: if_splits option.splits)
    then show ?thesis using assms(2) by (auto simp: winding_def)
  qed
next
  case (Some f)
  show ?thesis
  proof (cases "lg_position l")
    case None
    from observe_entry_first [OF assms(1) Some None] obtain a level where o: "lg_phase l = Ph_Ordered"
      and l': "l' = l\<lparr>lg_reentries_left := (if 0 < lg_entries_filled l then lg_reentries_left l - 1
            else lg_reentries_left l), lg_entries_filled := lg_entries_filled l + 1,
          lg_position := Some (first_position t oc f a level l), lg_phase := Ph_Held\<rparr>" by metis
    then show ?thesis using assms(2) by (auto simp: winding_def first_position_def)
  next
    case held: (Some p)
    obtain level where f': "finish_closed True (l\<lparr>lg_position := Some (grown_position oc f level p)\<rparr>) = Inr l'"
      using assms(1) Some held by (auto simp: observe_entry_def grown_position_def bindR_Inr_iff split: if_splits)
    show ?thesis
      by (rule finish_closed_winding [OF f']) (use assms(2) held in \<open>auto simp: winding_def grown_position_def\<close>)
  qed
qed

lemma observe_close_winding:
  assumes "observe_close True oc t evs l = Inr (evs', l')" "winding l" shows "winding l'"
proof (cases "eo_fill oc")
  case (Some f)
  from observe_close_shape [OF assms(1) this] obtain p where p: "lg_position l = Some p"
    and f': "finish_closed True (l\<lparr>lg_position := Some (reduced_position f p)\<rparr>) = Inr l'" by metis
  show ?thesis by (rule finish_closed_winding [OF f']) (use assms(2) p in \<open>auto simp: winding_def reduced_position_def\<close>)
qed (use assms in \<open>simp add: observe_close_def\<close>)

lemma observe_execution_winding:
  assumes "observe_execution sr oc t s = Inr s'" "ss_exit_requested s" "list_all winding (ss_legs s)"
  shows "list_all winding (ss_legs s') \<and> ss_exit_requested s'"
proof (cases "s' = s")
  case False
  obtain l evs l' where l: "find (\<lambda>l. leg_id l = eo_leg_id oc) (ss_legs s) = Some l"
    and o: "(if eo_kind oc = Entry_Order then observe_entry else observe_close)
           (ss_exit_requested s) oc t (ss_events s) l = Inr (evs, l')"
    and s': "s' = s\<lparr>ss_events := evs, ss_legs := put_leg l' (ss_legs s),
           ss_observed := (eo_outcome_id oc, sr_digest sr oc) # ss_observed s\<rparr>"
    using observe_execution_step [OF assms(1) False] by metis
  have "winding l" using l assms(3) by (auto simp: find_Some_iff list_all_iff)
  then have "winding l'"
    using o assms(2) by (cases "eo_kind oc = Entry_Order") (auto dest: observe_entry_winding observe_close_winding)
  then show ?thesis using assms(2,3) by (auto simp: s' put_leg_def list_all_iff)
qed (use assms in simp)

text \<open>After the exit rule a leg waits for nothing either.\<close>

definition leaving_leg :: "leg \<Rightarrow> bool" where
  "leaving_leg l \<longleftrightarrow> winding l \<and> lg_phase l \<noteq> Ph_Waiting"

lemma exit_leg_total:
  assumes "leg_inv l" shows "\<exists>a' l'. exit_leg ex t a l = Inr (a', l') \<and> leaving_leg l'"
proof -
  obtain evs n g where a: "a = (evs, n, g)" by (metis prod_cases3)
  show ?thesis
  proof (cases "lg_phase l = Ph_Held")
    case True
    then obtain p where p: "lg_position l = Some p" using assms by (auto simp: leg_inv_def leg_describes_def)
    show ?thesis by (cases "po_close p"; cases g)
        (use True p in \<open>auto simp: a exit_leg_def position_of_def Let_def leaving_leg_def winding_def\<close>)
  next
    case False
    then show ?thesis by (cases "lg_phase l"; cases g; cases "lg_close_on_fill l")
        (auto simp: a exit_leg_def Let_def leaving_leg_def winding_def)
  qed
qed

lemma exit_leg_leaving:
  assumes "exit_leg ex t a l = Inr (a', l')" "leg_inv l" shows "leaving_leg l'"
  using exit_leg_total [OF assms(2), of ex t a] assms(1) by auto

lemma exit_time_leaving:
  assumes "exit_time t s = Inr s'" "list_all leg_inv (ss_legs s)"
  shows "list_all leaving_leg (ss_legs s')"
proof -
  obtain evs n g legs where sw: "sweep (exit_leg (ss_exit_requested s) t) (ss_events s, ss_groups s, None) (ss_legs s)
      = Inr ((evs, n, g), legs)" and s': "s' = s\<lparr>ss_events := evs, ss_groups := n, ss_legs := legs\<rparr>"
    using assms by (auto simp: exit_time_def bindR_Inr_iff)
  have "list_all2 (\<lambda>_. leaving_leg) (ss_legs s) legs"
    by (rule sweep_list_all2 [OF sw]) (use assms(2) exit_leg_leaving in \<open>auto simp: list_all_iff\<close>)
  then show ?thesis by (auto simp: s' list_all2_conv_all_nth list_all_length)
qed

lemma decide_leg_leaving: "decide_leg before ex t allow ds l = Inr (ds', l') \<Longrightarrow> winding l' = winding l \<and> leaving_leg l' = leaving_leg l"
  by (drule decide_leg_shape) (auto simp: leaving_leg_def winding_def)

lemma new_decisions_leaving:
  assumes "new_decisions before t allow s = Inr (s', ds)"
  shows "list_all winding (ss_legs s) \<Longrightarrow> list_all winding (ss_legs s')"
    "list_all leaving_leg (ss_legs s) \<Longrightarrow> list_all leaving_leg (ss_legs s')"
    "ss_exit_requested s' = ss_exit_requested s"
proof -
  obtain ds' legs where sw: "sweep (decide_leg before (exit_ms s) t allow) [] (ss_legs s) = Inr (ds', legs)" and s': "s' = s\<lparr>ss_legs := legs\<rparr>"
    using assms(1) by (auto simp: new_decisions_def bindR_Inr_iff)
  show "list_all winding (ss_legs s) \<Longrightarrow> list_all winding (ss_legs s')"
    using sweep_keeps [OF sw, of winding] decide_leg_leaving by (auto simp: s')
  show "list_all leaving_leg (ss_legs s) \<Longrightarrow> list_all leaving_leg (ss_legs s')"
    using sweep_keeps [OF sw, of leaving_leg] decide_leg_leaving by (auto simp: s')
  show "ss_exit_requested s' = ss_exit_requested s" by (simp add: s')
qed

subsection \<open>Nothing comes back after the exit\<close>

definition exit_inv :: "session \<Rightarrow> bool" where
  "exit_inv s \<longleftrightarrow> (ss_exit_requested s \<longrightarrow> ss_started s \<and> list_all winding (ss_legs s)
     \<and> (case ss_last_minute_ms s of None \<Rightarrow> False | Some m \<Rightarrow> exit_ms s \<le> m))"

lemma same_exit: "same_day s s' \<Longrightarrow> exit_ms s' = exit_ms s"
  by (simp add: same_day_def exit_ms_def)

lemma observe_exit_flag: "observe_execution sr oc t s = Inr s' \<Longrightarrow> ss_exit_requested s' = ss_exit_requested s"
  by (cases "s' = s") (auto elim: observe_execution_step)

lemma observe_all_winding:
  assumes "foldR (\<lambda>s oc. observe_execution sr oc t s) s ocs = Inr s'"
  shows "ss_exit_requested s' = ss_exit_requested s
    \<and> (ss_exit_requested s \<and> list_all winding (ss_legs s) \<longrightarrow> list_all winding (ss_legs s'))"
  by (rule foldR_invariant [OF assms, where I = "\<lambda>x. ss_exit_requested x = ss_exit_requested s
      \<and> (ss_exit_requested s \<and> list_all winding (ss_legs s) \<longrightarrow> list_all winding (ss_legs x))"])
    (auto dest: observe_exit_flag observe_execution_winding)

lemma close_with_protection_flag:
  assumes "close_with_protection et t grp book leaving s = Inr s'" shows "ss_exit_requested s' = ss_exit_requested s"
  by (rule close_with_protection_invariant [OF assms]) (auto simp: over_legs_def bindR_Inr_iff)

lemma stops_flag: "stops et t bars s = Inr (s', d) \<Longrightarrow> ss_exit_requested s' = ss_exit_requested s"
  by (auto simp: stops_def bindR_Inr_iff Let_def split: if_splits option.splits dest!: close_with_protection_flag)

lemma enter_flag: "enter mk t s = Inr s' \<Longrightarrow> ss_exit_requested s' = ss_exit_requested s"
  by (auto simp: enter_def over_legs_def bindR_Inr_iff split: if_splits)

text \<open>The rules of one minute: before the exit time they request no exit, from it on they leave every leg leaving.\<close>

lemma rules_before_exit:
  assumes "rules_of_minute sr t allow s = Inr s'" "\<not> exit_ms s \<le> t \<or> \<not> ss_started s \<or> ss_skipped s \<noteq> None"
  shows "ss_exit_requested s' = ss_exit_requested s"
proof (cases "ss_started s \<and> ss_skipped s = None")
  case True
  with assms obtain s2 bars where r: "read_held_bars (sr_market sr) t s = Inr (s2, bars)" "advance_rules sr t bars allow s2 = Inr s'"
    by (auto simp: rules_of_minute_def bindR_Inr_iff)
  have x: "ss_exit_requested s2 = ss_exit_requested s" "exit_ms s2 = exit_ms s"
    using r(1) same_exit [OF keeps_same_day [OF read_held_bars_keeps [OF r(1)]]]
    by (auto simp: read_held_bars_def bindR_Inr_iff)
  then have "\<not> exit_ms s2 \<le> t" using assms(2) True by simp
  with r(2) have "ss_exit_requested s' = ss_exit_requested s2"
    by (auto simp: advance_rules_def bindR_Inr_iff split: if_splits dest!: stops_flag enter_flag)
  with x show ?thesis by simp
next
  case False
  then show ?thesis using assms(1)
    by (auto simp: rules_of_minute_def start_session_def over_legs_def bindR_Inr_iff Let_def split: if_splits option.splits)
qed

lemma rules_at_exit:
  assumes "ss_started s" "ss_skipped s = None" "exit_ms s \<le> t" "rules_of_minute sr t allow s = Inr s'"
    and "list_all leg_inv (ss_legs s)"
  shows "list_all leaving_leg (ss_legs s') \<and> ss_exit_requested s'"
  using assms exit_time_leaving by (auto simp: rules_of_minute_def advance_rules_def bindR_Inr_iff)

lemma leaving_winding: "list_all leaving_leg ls \<Longrightarrow> list_all winding ls"
  by (auto simp: leaving_leg_def list_all_iff)

lemma rules_of_minute_exit:
  assumes "rules_of_minute sr t allow s = Inr s'" "session_inv s" "ss_exit_requested s \<Longrightarrow> ss_started s \<and> list_all winding (ss_legs s) \<and> exit_ms s \<le> t"
    and "ss_exit_requested s'"
  shows "ss_started s' \<and> list_all winding (ss_legs s') \<and> exit_ms s \<le> t"
proof (cases "ss_started s \<and> ss_skipped s = None \<and> exit_ms s \<le> t")
  case True
  then show ?thesis
    using rules_at_exit [OF _ _ _ assms(1)] assms(2) rules_of_minute_keeps [OF assms(1,2)] leaving_winding
    by (auto simp: session_inv_def)
next
  case False
  then have "ss_exit_requested s" using rules_before_exit [OF assms(1)] assms(4) by auto
  with assms(3) False have "s' = s" "ss_started s \<and> list_all winding (ss_legs s) \<and> exit_ms s \<le> t"
    using assms(1) by (auto simp: rules_of_minute_def)
  then show ?thesis by simp
qed

lemma advance_exit_inv:
  assumes adv: "advance sr s t ocs allow obs = Inr (s', step)" and inv: "session_inv s" "exit_inv s"
    and ans: "answers_orders sr (case obs of None \<Rightarrow> t | Some m \<Rightarrow> m) ocs s"
  shows "exit_inv s'"
  using adv
proof (rule advance_cases)
  fix s1 assume f: "foldR (\<lambda>s oc. observe_execution sr oc (case obs of None \<Rightarrow> t | Some m \<Rightarrow> m) s) s ocs = Inr s1"
    and r: "\<not> ss_started s1 \<and> s' = s1\<lparr>ss_last_minute_ms := Some t\<rparr>
     \<or> (\<exists>ds. ss_last_minute_ms s1 = Some t \<and> new_decisions (pending_decisions (ss_legs s)) t allow s1 = Inr (s', ds))
     \<or> (\<exists>s2 ds. ss_last_minute_ms s1 \<noteq> Some t \<and> (\<not> ss_started s1 \<longrightarrow> entry_ms s1 \<le> t) \<and> rules_of_minute sr t allow s1 = Inr s2
          \<and> new_decisions (pending_decisions (ss_legs s)) t allow (s2\<lparr>ss_last_minute_ms := Some t\<rparr>) = Inr (s', ds))"
  from observe_all_inv [OF f inv(1) ans]
  have s1: "session_inv s1" and k: "keeps_session s s1" and st: "ss_started s1 = ss_started s" by simp_all
  have lm: "ss_last_minute_ms s1 = ss_last_minute_ms s" and ex: "exit_ms s1 = exit_ms s"
    using k same_exit [OF keeps_same_day [OF k]] by (simp_all add: keeps_session_def)
  have fwd: "case ss_last_minute_ms s of None \<Rightarrow> True | Some m \<Rightarrow> m \<le> t"
    using adv by (auto simp: advance_def split: if_splits option.splits)
  have w1: "exit_inv s1" "ss_exit_requested s1 \<Longrightarrow> ss_started s1 \<and> list_all winding (ss_legs s1) \<and> exit_ms s1 \<le> t"
    using observe_all_winding [OF f] inv(2) st lm ex fwd by (auto simp: exit_inv_def split: option.splits)
  from r show ?thesis
  proof (elim disjE exE conjE)
    fix s2 ds assume ru: "rules_of_minute sr t allow s1 = Inr s2"
      and nd: "new_decisions (pending_decisions (ss_legs s)) t allow (s2\<lparr>ss_last_minute_ms := Some t\<rparr>) = Inr (s', ds)"
    have x2: "exit_ms s2 = exit_ms s1" using same_exit [OF keeps_same_day] rules_of_minute_keeps [OF ru s1] by blast
    have x': "exit_ms s' = exit_ms s1" "ss_last_minute_ms s' = Some t" "ss_started s' = ss_started s2"
      using same_exit [OF keeps_same_day [OF new_decisions_keeps [OF nd]]] new_decisions_keeps [OF nd] x2 new_decisions_started [OF nd]
      by (simp_all add: keeps_session_def exit_ms_def)
    show ?thesis
      using rules_of_minute_exit [OF ru s1 w1(2)] new_decisions_leaving(1,3) [OF nd] x' by (auto simp: exit_inv_def)
  next
    fix ds assume nd: "new_decisions (pending_decisions (ss_legs s)) t allow s1 = Inr (s', ds)"
    have "ss_last_minute_ms s' = ss_last_minute_ms s1" "exit_ms s' = exit_ms s1"
      using new_decisions_keeps [OF nd] same_exit [OF keeps_same_day [OF new_decisions_keeps [OF nd]]] by (simp_all add: keeps_session_def)
    then show ?thesis using w1(1) new_decisions_leaving(1,3) [OF nd] new_decisions_started [OF nd]
      by (auto simp: exit_inv_def cong: option.case_cong)
  next
    assume "\<not> ss_started s1" "s' = s1\<lparr>ss_last_minute_ms := Some t\<rparr>"
    then show ?thesis using w1(2) by (auto simp: exit_inv_def)
  qed
qed

lemma repair_leg_winding: "repair_leg d n l = Inr (n', l') \<Longrightarrow> winding l \<Longrightarrow> winding l'"
  by (auto simp: repair_leg_def winding_def split: if_splits)

lemma run_exit_inv:
  assumes "session_run su mk s" "setup_ok su" shows "exit_inv s"
  using assms(1)
proof (induction rule: session_run.induct)
  case (fresh s)
  then have "s = fresh_session su mk" by (auto simp: options_session_def fresh_session_def split: if_splits)
  then show ?case by (simp add: exit_inv_def fresh_session_def)
next
  case (minute s sr obs t ocs allow s' step)
  then show ?case using advance_exit_inv run_inv [OF minute.hyps(1) assms(2)] by blast
next
  case (restored s s')
  show ?case
  proof (cases "s' = s")
    case False
    then obtain d n legs where sw: "sweep (repair_leg d) (ss_groups s) (ss_legs s) = Inr (n, legs)"
      and s': "s' = s\<lparr>ss_groups := n, ss_legs := legs\<rparr>"
      using restored.hyps(2) by (auto simp: options_session_def bindR_Inr_iff split: if_splits)
    show ?thesis using restored.IH sweep_keeps [OF sw, of winding] repair_leg_winding
      by (auto simp: s' exit_inv_def exit_ms_def cong: option.case_cong)
  qed (use restored.IH in simp)
qed

text \<open>
  C16: in every run, once the exit time has been handled no leg has earned a re-entry, every held leg has its close
  decided, and an order that is still out has the close it will fill into.
\<close>

theorem nothing_comes_back:
  assumes "setup_ok su" "session_run su mk s" "ss_exit_requested s" "l \<in> set (ss_legs s)"
  shows "lg_phase l \<noteq> Ph_Earned
    \<and> (lg_phase l = Ph_Held \<longrightarrow> (\<exists>p c. lg_position l = Some p \<and> po_close p = Some c))
    \<and> (lg_phase l = Ph_Ordered \<longrightarrow> lg_close_on_fill l \<noteq> None)"
  using run_exit_inv [OF assms(2,1)] assms(3,4) by (auto simp: exit_inv_def list_all_iff winding_def split: option.splits)

subsection \<open>The exit minute\<close>

lemma sweep_image:
  assumes "sweep f a ls = Inr (a', ls')" "l \<in> set ls"
  obtains b b' l' where "l' \<in> set ls'" "f b l = Inr (b', l')"
  using assms
proof (induction ls arbitrary: a ls')
  case (Cons x ls)
  then obtain a1 x' ls1 where s: "f a x = Inr (a1, x')" "sweep f a1 ls = Inr (a', ls1)" "ls' = x' # ls1"
    by (auto simp: bindR_Inr_iff)
  show ?case
  proof (cases "l = x")
    case True
    then show ?thesis using Cons.prems(1) s by auto
  next
    case False
    then have "l \<in> set ls" using Cons.prems(3) by simp
    then show ?thesis using Cons.IH [OF _ s(2)] Cons.prems(1) s(3) by auto
  qed
qed simp

lemma sweep_emits:
  assumes "sweep f a ls = Inr (a', ls')" "l \<in> set ls"
    and "\<And>a l a' l'. f a l = Inr (a', l') \<Longrightarrow> set a \<subseteq> set a'"
    and "\<And>a a' l'. f a l = Inr (a', l') \<Longrightarrow> d \<in> set a'"
  shows "d \<in> set a'"
  using assms(1,2)
proof (induction ls arbitrary: a ls')
  case (Cons x ls)
  then obtain a1 x' ls1 where s: "f a x = Inr (a1, x')" "sweep f a1 ls = Inr (a', ls1)" by (auto simp: bindR_Inr_iff)
  have "set a1 \<subseteq> set a'" by (rule sweep_carried [OF s(2), where I = "\<lambda>b. set a1 \<subseteq> set b"]) (use assms(3) in blast)+
  then show ?case using Cons.IH [OF s(2)] Cons.prems(2) s(1) assms(4) by auto
qed simp

lemma decide_leg_grows: "decide_leg before ex t allow ds l = Inr (ds', l') \<Longrightarrow> set ds \<subseteq> set ds'"
proof -
  let ?ds1 = "if lg_phase l = Ph_Ordered \<and> (Entry_Order, leg_id l, lg_entries_filled l, lg_order_decided_at_ms l) \<notin> set before
     then bindR (attempt_of l) (\<lambda>a. Inr (ds @ [Open_Leg (leg_id l) (lg_entries_filled l) (at_contract a)
       (ls_contracts (lg_setup l)) (at_multiplier a) (lg_order_decided_at_ms l) (ls_side (lg_setup l))])) else Inr ds"
  assume d: "decide_leg before ex t allow ds l = Inr (ds', l')"
  then obtain ds1 where ds1: "?ds1 = Inr ds1" by (auto simp: decide_leg_def bindR_Inr_iff simp del: if_split)
  then have "set ds \<subseteq> set ds1" by (cases "lg_attempt l") (auto simp: attempt_of_def split: if_split_asm)
  moreover have "set ds1 \<subseteq> set ds'"
    using d unfolding decide_leg_def ds1 bindR_simps Let_def
    by (cases "lg_position l"; cases "po_close (the (lg_position l))") (simp_all split: if_split_asm, auto)
  ultimately show ?thesis by blast
qed

lemma decide_leg_closes:
  assumes "decide_leg before ex t allow ds l = Inr (ds', l')" "lg_position l = Some p" "po_close p = Some c"
    and "(Close_Order, leg_id l, po_entry_number p, co_decided_at_ms c) \<notin> set before"
  shows "Close_Leg (leg_id l) (po_entry_number p) (at_contract (po_attempt p)) (contracts_held p)
      (fl_multiplier (po_entry p)) (co_decided_at_ms c) (co_reason c) (co_group c) \<in> set ds'"
  using assms by (auto simp: decide_leg_def bindR_Inr_iff Let_def split: if_splits)

lemma decide_leg_cancels:
  assumes "decide_leg before ex t allow ds l = Inr (ds', l')" "lg_phase l = Ph_Ordered" "ex \<le> t"
    and "\<not> lg_entry_cancel_requested l" "lg_position l = None"
  shows "Cancel_Entry (leg_id l) (lg_entries_filled l) t (lg_order_decided_at_ms l) \<in> set ds'"
  using assms by (auto simp: decide_leg_def bindR_Inr_iff Let_def split: if_splits)

lemma decide_leg_total:
  assumes "leg_inv l" shows "\<exists>r. decide_leg before ex t allow ds l = Inr r"
proof -
  have "lg_phase l = Ph_Ordered \<Longrightarrow> \<exists>a. lg_attempt l = Some a" using assms by (auto simp: leg_inv_def leg_describes_def)
  then show ?thesis by (auto simp: decide_leg_def attempt_of_def Let_def)
qed

lemma new_decisions_total:
  assumes "list_all leg_inv (ss_legs s)" shows "\<exists>r. new_decisions before t allow s = Inr r"
proof -
  have "\<exists>r. sweep (decide_leg before (exit_ms s) t allow) [] (ss_legs s) = Inr r"
    by (rule sweep_total) (use decide_leg_total assms in \<open>auto simp: list_all_iff\<close>)
  then show ?thesis by (auto simp: new_decisions_def)
qed

lemma pending_close:
  assumes "(Close_Order, i, n, d) \<in> set (pending_decisions ls)"
  obtains l p c where "l \<in> set ls" "leg_id l = i" "lg_position l = Some p" "po_close p = Some c"
proof -
  have "\<exists>l p c. l \<in> set ls \<and> leg_id l = i \<and> lg_position l = Some p \<and> po_close p = Some c"
    using assms by (auto simp: pending_decisions_def eq_commute [of "Some _"] split: option.splits if_splits)
  then show thesis using that by blast
qed

text \<open>At the exit time, a leg held with no close gets one, and an ordered leg is cancelled.\<close>

lemma exit_leg_held:
  assumes "exit_leg ex t a l = Inr (a', l')" "lg_phase l = Ph_Held" "lg_position l = Some p" "po_close p = None"
  obtains g where "l' = l\<lparr>lg_position := Some (p\<lparr>po_close := Some \<lparr>co_reason = Ex_Exit_Time, co_group = g,
      co_decided_at_ms = t, co_earns_reentry = False\<rparr>\<rparr>)\<rparr>"
proof -
  obtain evs n g where "a = (evs, n, g)" by (metis prod_cases3)
  then show thesis using assms that by (cases g) (auto simp: exit_leg_def position_of_def Let_def)
qed

lemma exit_leg_ordered:
  assumes "exit_leg ex t a l = Inr (a', l')" "lg_phase l = Ph_Ordered"
  obtains x where "l' = l\<lparr>lg_close_on_fill := x\<rparr>"
proof -
  obtain evs n g where a: "a = (evs, n, g)" by (metis prod_cases3)
  show thesis
  proof (cases "lg_close_on_fill l")
    case None
    with assms a show thesis by (cases g) (auto simp: exit_leg_def Let_def intro: that)
  next
    case (Some c)
    then have "l' = l" using assms a by (cases g) (simp_all add: exit_leg_def Let_def)
    also have "\<dots> = l\<lparr>lg_close_on_fill := lg_close_on_fill l\<rparr>" by simp
    finally show thesis by (rule that)
  qed
qed

lemma exit_minute:
  assumes inv: "session_inv s" and st: "ss_started s" "ss_skipped s = None" "exit_ms s \<le> t"
    and t: "t mod ms_per_minute = 0" "ss_open_ms s < t" "t \<le> ss_close_ms s" "\<And>m. ss_last_minute_ms s = Some m \<Longrightarrow> m < t"
  obtains s2 s' ds where "advance sr s t [] allow obs = Inr (s', \<lparr>os_decisions = ds, os_events = drop (length (ss_events s)) (ss_events s')\<rparr>)"
    and "exit_time t s = Inr s2" "new_decisions (pending_decisions (ss_legs s)) t allow
      (s2\<lparr>ss_exit_requested := True, ss_last_minute_ms := Some t\<rparr>) = Inr (s', ds)"
proof -
  have legs: "list_all leg_inv (ss_legs s)" using inv by (simp add: session_inv_def)
  obtain r where "sweep (exit_leg (ss_exit_requested s) t) (ss_events s, ss_groups s, None) (ss_legs s) = Inr r"
    using sweep_total [of "ss_legs s" "exit_leg (ss_exit_requested s) t"] exit_leg_total legs
    by (fastforce simp: list_all_iff)
  then obtain s2 where s2: "exit_time t s = Inr s2" by (cases r; cases "fst r") (auto simp: exit_time_def)
  have "list_all leg_inv (ss_legs s2)"
    using exit_time_keeps [OF s2] legs keeps_legs_inv by (auto simp: keeps_session_def)
  then obtain s' ds where nd: "new_decisions (pending_decisions (ss_legs s)) t allow
      (s2\<lparr>ss_exit_requested := True, ss_last_minute_ms := Some t\<rparr>) = Inr (s', ds)"
    using new_decisions_total [of "s2\<lparr>ss_exit_requested := True, ss_last_minute_ms := Some t\<rparr>"] by fastforce
  have "\<not> (case ss_last_minute_ms s of None \<Rightarrow> False | Some m \<Rightarrow> t < m)" "ss_last_minute_ms s \<noteq> Some t"
    using t(4) by (auto split: option.split dest: less_imp_le)
  then have "advance sr s t [] allow obs = Inr (s', \<lparr>os_decisions = ds, os_events = drop (length (ss_events s)) (ss_events s')\<rparr>)"
    using t(1-3) st s2 nd by (simp add: advance_def advance_rules_def Let_def)
  then show thesis using that s2 nd by blast
qed

lemma exit_minute_decisions:
  assumes inv: "session_inv s" and s2: "exit_time t s = Inr s2" and ex: "exit_ms s \<le> t"
    and nd: "new_decisions (pending_decisions (ss_legs s)) t allow
      (s2\<lparr>ss_exit_requested := True, ss_last_minute_ms := Some t\<rparr>) = Inr (s', ds)" and l: "l \<in> set (ss_legs s)"
  shows "lg_position l = Some p \<Longrightarrow> po_close p = None \<Longrightarrow>
      \<exists>g. Close_Leg (leg_id l) (po_entry_number p) (at_contract (po_attempt p)) (contracts_held p)
        (fl_multiplier (po_entry p)) t Ex_Exit_Time g \<in> set ds"
    and "lg_phase l = Ph_Ordered \<Longrightarrow> \<not> lg_entry_cancel_requested l \<Longrightarrow>
      Cancel_Entry (leg_id l) (lg_entries_filled l) t (lg_order_decided_at_ms l) \<in> set ds"
proof -
  obtain evs n g legs where sw: "sweep (exit_leg (ss_exit_requested s) t) (ss_events s, ss_groups s, None) (ss_legs s)
      = Inr ((evs, n, g), legs)" and s2': "s2 = s\<lparr>ss_events := evs, ss_groups := n, ss_legs := legs\<rparr>"
    using s2 by (auto simp: exit_time_def bindR_Inr_iff)
  obtain ds0 legs' where sd: "sweep (decide_leg (pending_decisions (ss_legs s)) (exit_ms s) t allow) [] legs = Inr (ds0, legs')"
    and ds: "set ds = set ds0"
    using nd by (auto simp: new_decisions_def bindR_Inr_iff s2' exit_ms_def)
  obtain b b' l2 where l2: "l2 \<in> set legs" "exit_leg (ss_exit_requested s) t b l = Inr (b', l2)"
    using sweep_image [OF sw l] by metis
  have inv_l: "leg_inv l" using inv l by (auto simp: session_inv_def list_all_iff)
  {
    assume p: "lg_position l = Some p" "po_close p = None"
    have held: "lg_phase l = Ph_Held" using inv_held [OF inv_l p(1)] .
    obtain g where l2': "l2 = l\<lparr>lg_position := Some (p\<lparr>po_close := Some \<lparr>co_reason = Ex_Exit_Time, co_group = g,
      co_decided_at_ms = t, co_earns_reentry = False\<rparr>\<rparr>)\<rparr>" using exit_leg_held [OF l2(2) held p] by metis
    have "(Close_Order, leg_id l, n', d) \<notin> set (pending_decisions (ss_legs s))" for n' d
    proof
      assume "(Close_Order, leg_id l, n', d) \<in> set (pending_decisions (ss_legs s))"
      then obtain l3 p3 c where "l3 \<in> set (ss_legs s)" "leg_id l3 = leg_id l" "lg_position l3 = Some p3" "po_close p3 = Some c"
        by (rule pending_close)
      moreover from this have "l3 = l" using inv l by (auto simp: session_inv_def ids_distinct_def distinct_map inj_on_def)
      ultimately show False using p by simp
    qed
    then have "Close_Leg (leg_id l) (po_entry_number p) (at_contract (po_attempt p)) (contracts_held p)
        (fl_multiplier (po_entry p)) t Ex_Exit_Time g \<in> set ds0"
      by (intro sweep_emits [OF sd l2(1) decide_leg_grows]) (auto simp: l2' leg_id_def contracts_held_def dest: decide_leg_closes)
    then show "\<exists>g. Close_Leg (leg_id l) (po_entry_number p) (at_contract (po_attempt p)) (contracts_held p)
        (fl_multiplier (po_entry p)) t Ex_Exit_Time g \<in> set ds" using ds by auto
  next
    assume o: "lg_phase l = Ph_Ordered" "\<not> lg_entry_cancel_requested l"
    then have np: "lg_position l = None" using inv_not_held [OF inv_l] by simp
    obtain x where l2': "l2 = l\<lparr>lg_close_on_fill := x\<rparr>" using exit_leg_ordered [OF l2(2) o(1)] by metis
    have "Cancel_Entry (leg_id l) (lg_entries_filled l) t (lg_order_decided_at_ms l) \<in> set ds0"
    proof (rule sweep_emits [OF sd l2(1) decide_leg_grows])
      fix a a' l' assume "decide_leg (pending_decisions (ss_legs s)) (exit_ms s) t allow a l2 = Inr (a', l')"
      from decide_leg_cancels [OF this] show "Cancel_Entry (leg_id l) (lg_entries_filled l) t (lg_order_decided_at_ms l) \<in> set a'"
        using ex o np by (simp add: l2' leg_id_def)
    qed
    then show "Cancel_Entry (leg_id l) (lg_entries_filled l) t (lg_order_decided_at_ms l) \<in> set ds" using ds by simp
  }
qed

text \<open>
  C8: whatever state a session's run has reached, its first minute at or past the exit time succeeds for any market,
  leaves no leg waiting or earned, and asks for everything that is left to end: each held leg that was not closing is
  sent its close for exactly the contracts it holds, and each order that is out is cancelled unless that was asked.
\<close>

theorem exit_minute_winds_down:
  assumes ok: "setup_ok su" "session_run su mk s" and st: "ss_started s" "ss_skipped s = None" "exit_ms s \<le> t"
    and t: "t mod ms_per_minute = 0" "ss_open_ms s < t" "t \<le> ss_close_ms s"
      "case ss_last_minute_ms s of None \<Rightarrow> True | Some m \<Rightarrow> m < t"
  shows "\<exists>s' step. advance sr s t [] allow obs = Inr (s', step) \<and> ss_exit_requested s'
    \<and> list_all leaving_leg (ss_legs s')
    \<and> (\<forall>l \<in> set (ss_legs s). \<forall>p. lg_position l = Some p \<and> po_close p = None \<longrightarrow>
         (\<exists>g. Close_Leg (leg_id l) (po_entry_number p) (at_contract (po_attempt p)) (contracts_held p)
           (fl_multiplier (po_entry p)) t Ex_Exit_Time g \<in> set (os_decisions step)))
    \<and> (\<forall>l \<in> set (ss_legs s). lg_phase l = Ph_Ordered \<and> \<not> lg_entry_cancel_requested l \<longrightarrow>
         Cancel_Entry (leg_id l) (lg_entries_filled l) t (lg_order_decided_at_ms l) \<in> set (os_decisions step))"
proof -
  have inv: "session_inv s" using run_inv [OF ok(2,1)] by simp
  have last: "\<And>m. ss_last_minute_ms s = Some m \<Longrightarrow> m < t" using t(4) by simp
  obtain s2 s' ds where a: "advance sr s t [] allow obs = Inr (s', \<lparr>os_decisions = ds, os_events = drop (length (ss_events s)) (ss_events s')\<rparr>)"
    and s2: "exit_time t s = Inr s2" and nd: "new_decisions (pending_decisions (ss_legs s)) t allow
      (s2\<lparr>ss_exit_requested := True, ss_last_minute_ms := Some t\<rparr>) = Inr (s', ds)"
    using exit_minute [OF inv st t(1-3) last] by metis
  have "list_all leaving_leg (ss_legs s')" "ss_exit_requested s'"
    using new_decisions_leaving(2,3) [OF nd] exit_time_leaving [OF s2] inv by (auto simp: session_inv_def)
  moreover note exit_minute_decisions [OF inv s2 st(3) nd]
  ultimately show ?thesis using a by (intro exI conjI) auto
qed

text \<open>The sample day at its exit: the second order is still out, and is cancelled.\<close>

lemma sample_day_open_order:
  "map_sum id (\<lambda>(s, step). (map (\<lambda>l. (leg_id l, lg_phase l, lg_entry_cancel_requested l, lg_entries_filled l,
      lg_order_decided_at_ms l)) (ss_legs s), ss_started s, ss_skipped s, exit_ms s, ss_open_ms s, ss_close_ms s, ss_last_minute_ms s))
    (sample_day sample_minutes)
   = Inr ([(''a'', Ph_Ordered, False, 1, 1020000)], True, None, 22500000, 0, 23400000, Some 1020000)"
  by code_simp

theorem exit_minute_winds_down_witness:
  "\<exists>s s' step. session_run sample_setup sample_market s
    \<and> advance sample_surroundings s 22500000 [] True None = Inr (s', step)
    \<and> Cancel_Entry ''a'' 1 22500000 1020000 \<in> set (os_decisions step) \<and> list_all leaving_leg (ss_legs s')"
proof -
  obtain s step0 where d: "sample_day sample_minutes = Inr (s, step0)"
    using sample_day_open_order by (cases "sample_day sample_minutes") auto
  have x: "map (\<lambda>l. (leg_id l, lg_phase l, lg_entry_cancel_requested l, lg_entries_filled l,
      lg_order_decided_at_ms l)) (ss_legs s) = [(''a'', Ph_Ordered, False, 1, 1020000)]"
    "ss_started s" "ss_skipped s = None" "exit_ms s = 22500000" "ss_open_ms s = 0" "ss_close_ms s = 23400000"
    "ss_last_minute_ms s = Some 1020000"
    using sample_day_open_order by (simp_all add: d)
  then obtain l where l: "l \<in> set (ss_legs s)" "leg_id l = ''a''" "lg_phase l = Ph_Ordered" "\<not> lg_entry_cancel_requested l"
    "lg_entries_filled l = 1" "lg_order_decided_at_ms l = 1020000" by auto
  have run: "session_run sample_setup sample_market s"
    by (rule sample_day_run [OF d]) (simp add: sample_minutes_def sample_outcome_def)
  have "(22500000::int) mod ms_per_minute = 0" by (simp add: ms_per_minute_def)
  then obtain s' step where s': "advance sample_surroundings s 22500000 [] True None = Inr (s', step)"
    "list_all leaving_leg (ss_legs s')"
    "\<forall>l \<in> set (ss_legs s). lg_phase l = Ph_Ordered \<and> \<not> lg_entry_cancel_requested l \<longrightarrow>
         Cancel_Entry (leg_id l) (lg_entries_filled l) 22500000 (lg_order_decided_at_ms l) \<in> set (os_decisions step)"
    using exit_minute_winds_down [OF sample_setup_ok run x(2,3), of 22500000 sample_surroundings True None]
    by (auto simp: x)
  have "Cancel_Entry ''a'' 1 22500000 1020000 \<in> set (os_decisions step)" using s'(3) l by force
  with s'(1,2) run show ?thesis by (intro exI conjI)
qed

theorem nothing_comes_back_witness:
  "\<exists>s l. session_run sample_setup sample_market s \<and> ss_exit_requested s \<and> l \<in> set (ss_legs s) \<and> lg_phase l = Ph_Ordered
    \<and> lg_close_on_fill l \<noteq> None"
proof -
  have ev: "map_sum id (\<lambda>(s, step). (map lg_phase (ss_legs s), ss_exit_requested s)) (sample_day (sample_minutes @ [(22500000, [])]))
    = Inr ([Ph_Ordered], True)" by code_simp
  then obtain s step where d: "sample_day (sample_minutes @ [(22500000, [])]) = Inr (s, step)"
    by (cases "sample_day (sample_minutes @ [(22500000, [])])") auto
  have run: "session_run sample_setup sample_market s"
    by (rule sample_day_run [OF d]) (simp add: sample_minutes_def sample_outcome_def)
  have s: "map lg_phase (ss_legs s) = [Ph_Ordered]" "ss_exit_requested s" using ev by (simp_all add: d)
  then obtain l where l: "l \<in> set (ss_legs s)" "lg_phase l = Ph_Ordered" by auto
  show ?thesis using nothing_comes_back [OF sample_setup_ok run s(2) l(1)] run s(2) l by (intro exI conjI) auto
qed

end
