(* ===== verification/Session_Delivery.thy ===== *)
theory Session_Delivery
  imports Session_Exit
begin

text \<open>
  What \<open>advance\<close> sends: a minute delivered again sends nothing and changes nothing, and no order to open a leg is
  decided when entries are not allowed or from the exit time on.
\<close>

subsection \<open>A leg whose decisions are sent\<close>

definition own_keys :: "leg \<Rightarrow> pending_key list" where
  "own_keys l = (if lg_phase l = Ph_Ordered then [(Entry_Order, leg_id l, lg_entries_filled l, lg_order_decided_at_ms l)] else [])
     @ (case lg_position l of None \<Rightarrow> []
        | Some p \<Rightarrow> (case po_close p of None \<Rightarrow> []
                     | Some c \<Rightarrow> [(Close_Order, leg_id l, po_entry_number p, co_decided_at_ms c)]))"

lemma pending_own: "pending_decisions ls = concat (map own_keys ls)"
  by (simp add: pending_decisions_def own_keys_def [abs_def])

lemma decide_leg_again:
  assumes "decide_leg before ex t allow ds l = Inr (ds', l')" "set (own_keys l') \<subseteq> set before'"
  shows "decide_leg before' ex t allow ds2 l' = Inr (ds2, l')"
proof -
  define cond where "cond \<longleftrightarrow> (lg_phase l = Ph_Ordered \<or> (case lg_position l of None \<Rightarrow> False | Some p \<Rightarrow> \<not> po_entry_terminal p))
      \<and> \<not> lg_entry_cancel_requested l \<and> (ex \<le> t \<or> lg_position l \<noteq> None \<or> \<not> allow \<or> lg_close_on_fill l \<noteq> None)"
  have "l' = (if cond then l\<lparr>lg_entry_cancel_requested := True\<rparr> else l)"
    using assms(1) unfolding cond_def by (auto simp: decide_leg_def bindR_Inr_iff Let_def split: if_splits)
  moreover have "decide_leg before' ex t allow ds2 l' = Inr (ds2, l')" if "l' = l\<lparr>lg_entry_cancel_requested := True\<rparr>"
    using assms(2) that
    by (cases "lg_position l"; cases "lg_phase l = Ph_Ordered") (auto simp: decide_leg_def own_keys_def Let_def split: option.splits)
  moreover have "decide_leg before' ex t allow ds2 l = Inr (ds2, l)" if "l' = l" "\<not> cond"
    using assms(2) that unfolding cond_def
    by (cases "lg_position l"; cases "lg_phase l = Ph_Ordered") (auto simp: decide_leg_def own_keys_def Let_def split: option.splits)
  ultimately show ?thesis by (auto split: if_splits)
qed

lemma sweep_fixed:
  assumes "\<And>l. l \<in> set ls \<Longrightarrow> f a l = Inr (a, l)" shows "sweep f a ls = Inr (a, ls)"
  using assms by (induction ls) auto

lemma new_decisions_again:
  assumes "new_decisions before t allow s = Inr (s', ds)"
  shows "new_decisions (pending_decisions (ss_legs s')) t allow s' = Inr (s', [])"
proof -
  obtain ds' legs where sw: "sweep (decide_leg before (exit_ms s) t allow) [] (ss_legs s) = Inr (ds', legs)" and s': "s' = s\<lparr>ss_legs := legs\<rparr>"
    using assms(1) by (auto simp: new_decisions_def bindR_Inr_iff)
  have all2: "list_all2 (\<lambda>l l'. \<exists>ds ds'. decide_leg before (exit_ms s) t allow ds l = Inr (ds', l')) (ss_legs s) legs"
    by (rule sweep_list_all2 [OF sw]) auto
  have "sweep (decide_leg (pending_decisions legs) (exit_ms s) t allow) [] legs = Inr ([], legs)"
  proof (intro sweep_fixed)
    fix l' assume l': "l' \<in> set legs"
    then obtain i where "i < length legs" "l' = legs ! i" by (auto simp: in_set_conv_nth)
    with list_all2_nthD2 [OF all2, of i]
    have "\<exists>ds ds'. decide_leg before (exit_ms s) t allow ds (ss_legs s ! i) = Inr (ds', l')" by simp
    then obtain l ds ds' where "decide_leg before (exit_ms s) t allow ds l = Inr (ds', l')" by blast
    then show "decide_leg (pending_decisions legs) (exit_ms s) t allow [] l' = Inr ([], l')"
      by (rule decide_leg_again) (use l' in \<open>auto simp: pending_own\<close>)
  qed
  then show ?thesis by (simp add: new_decisions_def s' exit_ms_def)
qed

lemma new_decisions_idle:
  assumes "list_all idle_leg (ss_legs s)"
  shows "new_decisions before t allow s = Inr (s, [])"
proof -
  have "sweep (decide_leg before (exit_ms s) t allow) [] (ss_legs s) = Inr ([], ss_legs s)"
    by (rule sweep_fixed) (use assms in \<open>auto simp: list_all_iff idle_leg_def decide_leg_def\<close>)
  then show ?thesis by (simp add: new_decisions_def)
qed

subsection \<open>Outcomes that were observed\<close>

definition knows :: "surroundings \<Rightarrow> session \<Rightarrow> execution_outcome \<Rightarrow> bool" where
  "knows sr s oc \<longleftrightarrow> map_of (ss_observed s) (eo_outcome_id oc) = Some (sr_digest sr oc)"

lemma observe_knows:
  assumes "observe_execution sr oc t s = Inr s'"
  shows "knows sr s' oc" "knows sr s oc' \<Longrightarrow> knows sr s' oc'"
proof -
  have "knows sr s' oc \<and> (knows sr s oc' \<longrightarrow> knows sr s' oc')"
  proof (cases "map_of (ss_observed s) (eo_outcome_id oc)")
    case None
    then obtain evs legs where "s' = s\<lparr>ss_events := evs, ss_legs := legs,
        ss_observed := (eo_outcome_id oc, sr_digest sr oc) # ss_observed s\<rparr>"
      using assms by (auto simp: observe_execution_def bindR_Inr_iff Let_def split: option.splits if_splits)
    with None show ?thesis by (auto simp: knows_def)
  next
    case (Some d)
    with assms show ?thesis by (auto simp: observe_execution_def knows_def split: if_splits)
  qed
  then show "knows sr s' oc" "knows sr s oc' \<Longrightarrow> knows sr s' oc'" by auto
qed

lemma observe_all_knows:
  assumes "foldR (\<lambda>s oc. observe_execution sr oc t s) s ocs = Inr s'"
  shows "(\<forall>oc \<in> set ocs. knows sr s' oc) \<and> (\<forall>oc. knows sr s oc \<longrightarrow> knows sr s' oc)"
  using assms
proof (induction ocs arbitrary: s)
  case (Cons oc ocs)
  then obtain s1 where "observe_execution sr oc t s = Inr s1" "foldR (\<lambda>s oc. observe_execution sr oc t s) s1 ocs = Inr s'"
    by (auto simp: bindR_Inr_iff)
  with Cons.IH [OF this(2)] observe_knows show ?case by auto
qed simp

lemma observe_known: "knows sr s oc \<Longrightarrow> observe_execution sr oc t s = Inr s"
  by (simp add: observe_execution_def knows_def)

lemma observe_all_known: "\<forall>oc \<in> set ocs. knows sr s oc \<Longrightarrow> foldR (\<lambda>s oc. observe_execution sr oc t s) s ocs = Inr s"
  by (induction ocs) (simp_all add: observe_known)

lemma over_legs_observed: "over_legs f s = Inr s' \<Longrightarrow> ss_observed s' = ss_observed s"
  by (auto simp: over_legs_def bindR_Inr_iff)

lemma enter_observed: "enter mk t s = Inr s' \<Longrightarrow> ss_observed s' = ss_observed s"
  by (auto simp: enter_def dest: over_legs_observed split: if_splits)

lemma close_with_protection_observed:
  assumes "close_with_protection et t grp book leaving s = Inr s'" shows "ss_observed s' = ss_observed s"
  by (rule close_with_protection_invariant [OF assms]) (auto dest: over_legs_observed)

lemma stops_observed: "stops et t bars s = Inr (s', d) \<Longrightarrow> ss_observed s' = ss_observed s"
  by (auto simp: stops_def bindR_Inr_iff Let_def split: if_splits option.splits dest!: close_with_protection_observed)

lemma rules_of_minute_observed:
  assumes "rules_of_minute sr t allow s = Inr s'" shows "ss_observed s' = ss_observed s"
proof -
  have "ss_observed s2 = ss_observed s1" if "advance_rules sr t bars allow s1 = Inr s2" for bars s1 s2
    using that by (auto simp: advance_rules_def exit_time_def bindR_Inr_iff split: if_splits dest!: stops_observed enter_observed)
  with assms show ?thesis
    by (fastforce simp: rules_of_minute_def start_session_def read_held_bars_def bindR_Inr_iff Let_def
        split: if_splits option.splits dest: over_legs_observed)
qed

subsection \<open>The same minute again\<close>

lemma advance_same_minute:
  assumes "ss_last_minute_ms s = Some t" "t mod ms_per_minute = 0" "ss_open_ms s < t" "t \<le> ss_close_ms s"
    and "\<forall>oc \<in> set ocs. knows sr s oc"
    and "new_decisions (pending_decisions (ss_legs s)) t allow s = Inr (s, [])"
  shows "advance sr s t ocs allow obs = Inr (s, \<lparr>os_decisions = [], os_events = []\<rparr>)"
  using assms(1-4,6) observe_all_known [OF assms(5)] by (simp add: advance_def Let_def)

lemma advance_repeated:
  assumes adv: "advance sr s t ocs allow obs = Inr (s', step)" and inv: "session_inv s"
    and ans: "answers_orders sr (case obs of None \<Rightarrow> t | Some m \<Rightarrow> m) ocs s" and sub: "set ocs' \<subseteq> set ocs"
    and dg: "sr_digest sr' = sr_digest sr"
  shows "advance sr' s' t ocs' allow obs' = Inr (s', \<lparr>os_decisions = [], os_events = []\<rparr>)"
  using adv
proof (rule advance_cases)
  fix s1 assume t: "t mod ms_per_minute = 0" "ss_open_ms s < t" "t \<le> ss_close_ms s"
    and f: "foldR (\<lambda>s oc. observe_execution sr oc (case obs of None \<Rightarrow> t | Some m \<Rightarrow> m) s) s ocs = Inr s1"
    and r: "\<not> ss_started s1 \<and> s' = s1\<lparr>ss_last_minute_ms := Some t\<rparr>
     \<or> (\<exists>ds. ss_last_minute_ms s1 = Some t \<and> new_decisions (pending_decisions (ss_legs s)) t allow s1 = Inr (s', ds))
     \<or> (\<exists>s2 ds. ss_last_minute_ms s1 \<noteq> Some t \<and> (\<not> ss_started s1 \<longrightarrow> entry_ms s1 \<le> t) \<and> rules_of_minute sr t allow s1 = Inr s2
          \<and> new_decisions (pending_decisions (ss_legs s)) t allow (s2\<lparr>ss_last_minute_ms := Some t\<rparr>) = Inr (s', ds))"
  have day: "same_day s s'" using advance_inv [OF adv inv ans] by simp
  have s1: "session_inv s1" using observe_all_inv [OF f inv ans] by simp
  have k1: "knows sr s1 oc" if "oc \<in> set ocs'" for oc using observe_all_knows [OF f] that sub by auto
  have obs_nd: "ss_observed b = ss_observed a" if "new_decisions p t allow a = Inr (b, ds)" for a b p ds
    using that by (auto simp: new_decisions_def bindR_Inr_iff)
  have last_nd: "ss_last_minute_ms b = ss_last_minute_ms a" if "new_decisions p t allow a = Inr (b, ds)" for a b p ds
    using that by (auto simp: new_decisions_def bindR_Inr_iff)
  have goal: ?thesis if "ss_last_minute_ms s' = Some t" "ss_observed s' = ss_observed s1"
      "new_decisions (pending_decisions (ss_legs s')) t allow s' = Inr (s', [])"
    by (rule advance_same_minute [OF that(1) t(1) _ _ _ that(3)]) (use day t k1 that(2) dg in \<open>auto simp: same_day_def knows_def\<close>)
  from r show ?thesis
  proof (elim disjE exE conjE)
    fix ds assume "ss_last_minute_ms s1 = Some t" "new_decisions (pending_decisions (ss_legs s)) t allow s1 = Inr (s', ds)"
    then show ?thesis using goal obs_nd last_nd new_decisions_again by metis
  next
    fix s2 ds assume ru: "rules_of_minute sr t allow s1 = Inr s2"
      and nd: "new_decisions (pending_decisions (ss_legs s)) t allow (s2\<lparr>ss_last_minute_ms := Some t\<rparr>) = Inr (s', ds)"
    show ?thesis
      by (rule goal) (use obs_nd [OF nd] last_nd [OF nd] new_decisions_again [OF nd] rules_of_minute_observed [OF ru] in simp_all)
  next
    assume "\<not> ss_started s1" "s' = s1\<lparr>ss_last_minute_ms := Some t\<rparr>"
    then show ?thesis using goal s1 new_decisions_idle by (simp add: session_inv_def)
  qed
qed

text \<open>
  C12: a completed minute delivered again to the session it produced, with any of the same outcomes and whatever the
  market says by then, changes nothing and sends nothing: no decision and no event.
\<close>

theorem redelivery_is_harmless:
  assumes "setup_ok su" "session_run su mk s" "advance sr s t ocs allow obs = Inr (s', step)"
    and "answers_orders sr (case obs of None \<Rightarrow> t | Some m \<Rightarrow> m) ocs s"
    and "set ocs' \<subseteq> set ocs" "sr_digest sr' = sr_digest sr"
  shows "advance sr' s' t ocs' allow obs' = Inr (s', \<lparr>os_decisions = [], os_events = []\<rparr>)"
  using advance_repeated [OF assms(3) _ assms(4-6)] run_inv [OF assms(2,1)] by simp

lemma sample_close_sent:
  "map_sum id (\<lambda>(s, _). map_sum id (\<lambda>(s', step). os_decisions step)
      (advance sample_surroundings s 960000 [sample_outcome ''1'' Entry_Order 0 (Some (sample_fill Buy 960000))] True None))
    (sample_day (take 1 sample_minutes)) = Inr (Inr [Close_Leg ''a'' 0 sample_call 2 100 960000 Ex_Stop 1])"
  by code_simp

theorem redelivery_is_harmless_witness:
  "\<exists>s s' step. session_run sample_setup sample_market s
    \<and> advance sample_surroundings s 960000 [sample_outcome ''1'' Entry_Order 0 (Some (sample_fill Buy 960000))] True None = Inr (s', step)
    \<and> os_decisions step \<noteq> []
    \<and> advance sample_surroundings s' 960000 [sample_outcome ''1'' Entry_Order 0 (Some (sample_fill Buy 960000))] True None
        = Inr (s', \<lparr>os_decisions = [], os_events = []\<rparr>)"
proof -
  let ?oc = "sample_outcome ''1'' Entry_Order 0 (Some (sample_fill Buy 960000))"
  obtain s st where d: "sample_day (take 1 sample_minutes) = Inr (s, st)"
    using sample_close_sent by (cases "sample_day (take 1 sample_minutes)") auto
  have run: "session_run sample_setup sample_market s"
    by (rule sample_day_run [OF d]) (simp add: sample_minutes_def)
  obtain s' step where a: "advance sample_surroundings s 960000 [?oc] True None = Inr (s', step)" "os_decisions step \<noteq> []"
    using sample_close_sent [unfolded d] by (cases "advance sample_surroundings s 960000 [?oc] True None") auto
  have "answers_orders sample_surroundings 960000 [?oc] s" by (rule filled_answers) (simp add: sample_outcome_def)
  with redelivery_is_harmless [OF sample_setup_ok run a(1), of "[?oc]" sample_surroundings None]
  have "advance sample_surroundings s' 960000 [?oc] True None = Inr (s', \<lparr>os_decisions = [], os_events = []\<rparr>)" by simp
  with run a show ?thesis by (intro exI conjI)
qed

subsection \<open>No new order\<close>

definition no_new_order :: "leg \<Rightarrow> leg \<Rightarrow> bool" where
  "no_new_order l l' \<longleftrightarrow> lg_setup l' = lg_setup l \<and> (lg_phase l' = Ph_Ordered \<longrightarrow> lg_phase l = Ph_Ordered
     \<and> lg_entries_filled l' = lg_entries_filled l \<and> lg_order_decided_at_ms l' = lg_order_decided_at_ms l)"

lemma no_new_order_trans: "no_new_order l l' \<Longrightarrow> no_new_order l' l'' \<Longrightarrow> no_new_order l l''"
  by (auto simp: no_new_order_def)

lemma no_new_order_simps [simp]: "no_new_order l l" "no_new_order l (l\<lparr>lg_position := p\<rparr>)"
  "no_new_order l (l\<lparr>lg_close_on_fill := c\<rparr>)" "no_new_order l (l\<lparr>lg_entry_cancel_requested := b\<rparr>)"
  "no_new_order l (l\<lparr>lg_phase := Ph_Done\<rparr>)"
  by (auto simp: no_new_order_def)

lemma finish_closed_orders: "finish_closed ex l = Inr l' \<Longrightarrow> no_new_order l l'"
  by (auto simp: finish_closed_def Let_def bindR_Inr_iff no_new_order_def split: if_splits)

lemma observe_entry_orders:
  assumes "observe_entry ex oc t evs l = Inr (evs', l')" shows "no_new_order l l'"
proof (cases "\<exists>p. l' = l \<or> finish_closed ex (l\<lparr>lg_position := Some p\<rparr>) = Inr l' \<or> lg_setup l' = lg_setup l \<and> lg_phase l' \<noteq> Ph_Ordered")
  case True
  then obtain p where "l' = l \<or> finish_closed ex (l\<lparr>lg_position := Some p\<rparr>) = Inr l' \<or> lg_setup l' = lg_setup l \<and> lg_phase l' \<noteq> Ph_Ordered" ..
  then show ?thesis
  proof (elim disjE)
    assume "finish_closed ex (l\<lparr>lg_position := Some p\<rparr>) = Inr l'"
    from finish_closed_orders [OF this] show ?thesis by (rule no_new_order_trans [rotated]) simp
  qed (simp_all add: no_new_order_def)
next
  case False
  then show ?thesis using assms
    by (cases "eo_fill oc"; cases "lg_position l")
      (auto simp: observe_entry_def drop_entry_def Let_def bindR_Inr_iff split: if_splits option.splits)
qed

lemma observe_close_orders:
  assumes "observe_close ex oc t evs l = Inr (evs', l')" shows "no_new_order l l'"
proof (cases "eo_fill oc")
  case (Some f)
  from observe_close_shape [OF assms this] obtain p where
    "finish_closed ex (l\<lparr>lg_position := Some (reduced_position f p)\<rparr>) = Inr l'" by metis
  from finish_closed_orders [OF this] show ?thesis by (rule no_new_order_trans [rotated]) simp
qed (use assms in \<open>simp add: observe_close_def\<close>)

lemma exit_leg_orders: "exit_leg ex t a l = Inr (a', l') \<Longrightarrow> no_new_order l l'"
  by (drule exit_leg_shape) auto

lemma order_close_orders: "order_close cutoff reason grp t evs l p = Inr (evs', l') \<Longrightarrow> no_new_order l l'"
  by (auto simp: order_close_def bindR_Inr_iff)

lemma protect_leg_orders: "protect_leg cutoff grp t i evs l = Inr (evs', l') \<Longrightarrow> no_new_order l l'"
  by (auto simp: protect_leg_def bindR_Inr_iff split: if_splits intro: order_close_orders)

lemma stop_leg_orders: "stop_leg hit ca cutoff grp t a l = Inr (a', l') \<Longrightarrow> no_new_order l l'"
  by (drule stop_leg_shape) (auto intro: order_close_orders)

lemma read_leg_bar_orders: "read_leg_bar mk t bars l = Inr (bars', l') \<Longrightarrow> no_new_order l l'"
  by (auto simp: read_leg_bar_def bindR_Inr_iff Let_def split: if_splits option.splits)

definition no_new_orders :: "session \<Rightarrow> session \<Rightarrow> bool" where
  "no_new_orders s s' \<longleftrightarrow> list_all2 no_new_order (ss_legs s) (ss_legs s')"

lemma no_new_orders_simps [simp]: "no_new_orders s s" "no_new_orders s (s'\<lparr>ss_exit_requested := b\<rparr>) = no_new_orders s s'"
  "no_new_orders s (s'\<lparr>ss_started := b\<rparr>) = no_new_orders s s'" "no_new_orders s (s'\<lparr>ss_skipped := k\<rparr>) = no_new_orders s s'"
  "no_new_orders s (s'\<lparr>ss_last_minute_ms := m\<rparr>) = no_new_orders s s'"
  by (simp_all add: no_new_orders_def list_all2_refl)

lemma no_new_orders_trans: "no_new_orders s s' \<Longrightarrow> no_new_orders s' s'' \<Longrightarrow> no_new_orders s s''"
  unfolding no_new_orders_def by (rule list_all2_trans [OF no_new_order_trans])

lemma observe_orders:
  assumes "observe_execution sr oc t s = Inr s'" "ids_distinct s" shows "no_new_orders s s'"
proof (cases "s' = s")
  case False
  obtain l evs l' where l: "find (\<lambda>l. leg_id l = eo_leg_id oc) (ss_legs s) = Some l"
    and o: "(if eo_kind oc = Entry_Order then observe_entry else observe_close)
           (ss_exit_requested s) oc t (ss_events s) l = Inr (evs, l')"
    and s': "s' = s\<lparr>ss_events := evs, ss_legs := put_leg l' (ss_legs s),
           ss_observed := (eo_outcome_id oc, sr_digest sr oc) # ss_observed s\<rparr>"
    using observe_execution_step [OF assms(1) False] by metis
  have n: "no_new_order l l'" using o by (cases "eo_kind oc = Entry_Order") (auto dest: observe_entry_orders observe_close_orders)
  moreover from this have "leg_id l' = leg_id l" by (simp add: no_new_order_def leg_id_def)
  moreover have "l \<in> set (ss_legs s)" using l by (auto simp: find_Some_iff)
  ultimately show ?thesis using assms(2) by (simp add: no_new_orders_def s' ids_distinct_def put_leg_all2)
qed simp

lemma observe_all_orders:
  assumes "foldR (\<lambda>s oc. observe_execution sr oc t s) s ocs = Inr s'" "ids_distinct s"
  shows "no_new_orders s s' \<and> ids_distinct s'"
proof (rule foldR_invariant [OF assms(1), where I = "\<lambda>x. no_new_orders s x \<and> ids_distinct x"])
  fix x oc x' assume x: "no_new_orders s x \<and> ids_distinct x" and o: "observe_execution sr oc t x = Inr x'"
  have "no_new_orders x x'" using observe_orders [OF o] x by simp
  moreover from this have "map leg_id (ss_legs x') = map leg_id (ss_legs x)"
    by (auto simp: no_new_orders_def no_new_order_def leg_id_def list_all2_conv_all_nth intro: nth_equalityI)
  ultimately show "no_new_orders s x' \<and> ids_distinct x'" using x by (auto simp: ids_distinct_def intro: no_new_orders_trans)
qed (use assms(2) in simp)

lemma over_legs_orders:
  assumes "over_legs f s = Inr s'" "\<And>evs l evs' l'. f evs l = Inr (evs', l') \<Longrightarrow> no_new_order l l'"
  shows "no_new_orders s s'"
proof -
  obtain evs legs where "sweep f (ss_events s) (ss_legs s) = Inr (evs, legs)" "s' = s\<lparr>ss_events := evs, ss_legs := legs\<rparr>"
    using assms(1) by (auto simp: over_legs_def bindR_Inr_iff)
  with assms(2) show ?thesis by (auto simp: no_new_orders_def intro!: sweep_list_all2)
qed

lemma exit_time_orders:
  assumes "exit_time t s = Inr s'" shows "no_new_orders s s'"
proof -
  obtain evs n g legs where sw: "sweep (exit_leg (ss_exit_requested s) t) (ss_events s, ss_groups s, None) (ss_legs s)
      = Inr ((evs, n, g), legs)" and s': "s' = s\<lparr>ss_events := evs, ss_groups := n, ss_legs := legs\<rparr>"
    using assms by (auto simp: exit_time_def bindR_Inr_iff)
  have "list_all2 no_new_order (ss_legs s) legs" by (rule sweep_list_all2 [OF sw]) (rule exit_leg_orders)
  then show ?thesis by (simp add: no_new_orders_def s')
qed

lemma close_with_protection_orders:
  assumes "close_with_protection et t grp book leaving s = Inr s'" shows "no_new_orders s s'"
  by (rule close_with_protection_invariant [OF assms]) (auto intro: no_new_orders_trans over_legs_orders protect_leg_orders)

lemma stops_orders:
  assumes "stops et t bars s = Inr (s', d)" shows "no_new_orders s s'"
proof (cases "s' = s")
  case False
  from stops_step [OF assms False] obtain hit ca evs lv so legs where
    sw: "sweep (stop_leg hit ca (cutoff_ms s) (ss_groups s + 1) t) (ss_events s, [], []) (ss_legs s) = Inr ((evs, lv, so), legs)"
    and r: "s' = s\<lparr>ss_groups := ss_groups s + 1, ss_events := evs, ss_legs := legs\<rparr>
      \<or> (\<exists>book. close_with_protection et t (ss_groups s + 1) book lv
            (s\<lparr>ss_groups := ss_groups s + 1, ss_events := evs, ss_legs := legs\<rparr>) = Inr s')"
    by metis
  have "list_all2 no_new_order (ss_legs s) legs" by (rule sweep_list_all2 [OF sw]) (rule stop_leg_orders)
  then have "no_new_orders s (s\<lparr>ss_groups := ss_groups s + 1, ss_events := evs, ss_legs := legs\<rparr>)"
    by (simp add: no_new_orders_def)
  with r show ?thesis by (auto intro: no_new_orders_trans close_with_protection_orders)
qed simp

lemma read_held_bars_orders:
  assumes "read_held_bars mk t s = Inr (s', bars)" shows "no_new_orders s s'"
proof -
  obtain legs where "sweep (read_leg_bar mk t) [] (ss_legs s) = Inr (bars, legs)" "s' = s\<lparr>ss_legs := legs\<rparr>"
    using assms by (auto simp: read_held_bars_def bindR_Inr_iff)
  then show ?thesis by (auto simp: no_new_orders_def intro!: sweep_list_all2 read_leg_bar_orders)
qed

lemma no_entry_at_exit:
  assumes "window_fits (ss_setup s) (ss_open_ms s) (ss_close_ms s)" shows "entry_ms s < exit_ms s"
  using assms by (simp add: window_fits_def entry_ms_def exit_ms_def Let_def)

lemma rules_of_minute_orders:
  assumes "rules_of_minute sr t allow s = Inr s'" "\<not> allow \<or> exit_ms s \<le> t"
  shows "no_new_orders s s'"
proof (cases "ss_started s")
  case False
  then have "start_session sr t allow s = Inr s'" using assms(1) by (simp add: rules_of_minute_def)
  then show ?thesis using assms(2) no_entry_at_exit [of s]
    by (auto simp: start_session_def Let_def entry_ms_def exit_ms_def split: if_splits option.splits)
next
  case started: True
  show ?thesis
  proof (cases "ss_skipped s = None \<and> \<not> exit_ms s \<le> t")
    case True
    then obtain s2 bars where r: "read_held_bars (sr_market sr) t s = Inr (s2, bars)" "advance_rules sr t bars allow s2 = Inr s'"
      using assms(1) started by (auto simp: rules_of_minute_def bindR_Inr_iff)
    have "no_new_orders s2 s'" using r(2) True assms(2)
      by (auto simp: advance_rules_def bindR_Inr_iff split: if_splits intro: exit_time_orders stops_orders)
    with read_held_bars_orders [OF r(1)] show ?thesis by (rule no_new_orders_trans)
  next
    case False
    then have "s' = s \<or> (exit_ms s \<le> t \<and> advance_rules sr t [] allow s = Inr s')"
      using assms(1) started by (auto simp: rules_of_minute_def split: if_splits)
    then show ?thesis
    proof
      assume "exit_ms s \<le> t \<and> advance_rules sr t [] allow s = Inr s'"
      then obtain x where "exit_time t s = Inr x" "s' = x\<lparr>ss_exit_requested := True\<rparr>"
        by (auto simp: advance_rules_def bindR_Inr_iff)
      with exit_time_orders show ?thesis by simp
    qed simp
  qed
qed

fun opens :: "decision \<Rightarrow> bool" where
  "opens (Open_Leg _ _ _ _ _ _ _) = True"
| "opens _ = False"

lemma decide_leg_opens:
  assumes "decide_leg before ex t allow ds l = Inr (ds', l')" "list_all (\<lambda>d. \<not> opens d) ds"
    and "lg_phase l = Ph_Ordered \<Longrightarrow> (Entry_Order, leg_id l, lg_entries_filled l, lg_order_decided_at_ms l) \<in> set before"
  shows "list_all (\<lambda>d. \<not> opens d) ds'"
  using assms by (auto simp: decide_leg_def bindR_Inr_iff Let_def split: if_splits option.splits)

lemma sweep_carried_over:
  assumes "sweep f a ls = Inr (a', ls')" "I a"
    and step: "\<And>a l a' l'. l \<in> set ls \<Longrightarrow> I a \<Longrightarrow> f a l = Inr (a', l') \<Longrightarrow> I a'"
  shows "I a'"
  using assms
proof (induction ls arbitrary: a ls')
  case (Cons l ls)
  then obtain a1 l1 ls1 where f: "f a l = Inr (a1, l1)" "sweep f a1 ls = Inr (a', ls1)" by (auto simp: bindR_Inr_iff)
  have "I a1" using Cons.prems(2,3) f(1) by auto
  with Cons.IH [OF f(2)] Cons.prems(3) show ?case by auto
qed simp

lemma new_decisions_open_nothing:
  assumes "new_decisions (pending_decisions (ss_legs s0)) t allow s = Inr (s', ds)" "no_new_orders s0 s"
  shows "list_all (\<lambda>d. \<not> opens d) ds"
proof -
  obtain ds0 legs where sw: "sweep (decide_leg (pending_decisions (ss_legs s0)) (exit_ms s) t allow) [] (ss_legs s) = Inr (ds0, legs)"
    and ds: "set ds = set ds0" using assms(1) by (auto simp: new_decisions_def bindR_Inr_iff)
  have "(Entry_Order, leg_id l, lg_entries_filled l, lg_order_decided_at_ms l) \<in> set (pending_decisions (ss_legs s0))"
    if l: "l \<in> set (ss_legs s)" "lg_phase l = Ph_Ordered" for l
  proof -
    obtain i where i: "i < length (ss_legs s)" "l = ss_legs s ! i" using l(1) by (auto simp: in_set_conv_nth)
    then have "no_new_order (ss_legs s0 ! i) l" "ss_legs s0 ! i \<in> set (ss_legs s0)"
      using assms(2) by (auto simp: no_new_orders_def list_all2_conv_all_nth)
    with l(2) have "(Entry_Order, leg_id l, lg_entries_filled l, lg_order_decided_at_ms l) \<in> set (own_keys (ss_legs s0 ! i))"
      by (simp add: own_keys_def no_new_order_def leg_id_def)
    with \<open>ss_legs s0 ! i \<in> set (ss_legs s0)\<close> show ?thesis unfolding pending_own by auto
  qed
  note known = this
  have "list_all (\<lambda>d. \<not> opens d) ds0"
  proof (rule sweep_carried_over [OF sw])
    fix a l a' l' assume "l \<in> set (ss_legs s)" "list_all (\<lambda>d. \<not> opens d) a"
      and d: "decide_leg (pending_decisions (ss_legs s0)) (exit_ms s) t allow a l = Inr (a', l')"
    then show "list_all (\<lambda>d. \<not> opens d) a'" by (intro decide_leg_opens [OF d] known)
  qed simp
  with ds show ?thesis by (simp add: list_all_iff)
qed

lemma observe_all_day:
  assumes "foldR (\<lambda>s oc. observe_execution sr oc t s) s ocs = Inr s'" shows "same_day s s'"
proof (rule foldR_invariant [OF assms, where I = "same_day s"])
  fix x oc x' assume "same_day s x" "observe_execution sr oc t x = Inr x'"
  then show "same_day s x'" by (cases "x' = x") (auto simp: same_day_def elim: observe_execution_step)
qed (simp add: same_day_def)

lemma advance_opens_nothing:
  assumes adv: "advance sr s t ocs allow obs = Inr (s', step)" and ids: "ids_distinct s" and no: "\<not> allow \<or> exit_ms s \<le> t"
  shows "list_all (\<lambda>d. \<not> opens d) (os_decisions step)"
proof -
  from adv obtain s1 where f: "foldR (\<lambda>s oc. observe_execution sr oc (case obs of None \<Rightarrow> t | Some m \<Rightarrow> m) s) s ocs = Inr s1"
    by (rule advance_cases) auto
  have s1: "no_new_orders s s1" "exit_ms s1 = exit_ms s"
    using observe_all_orders [OF f ids] same_exit [OF observe_all_day [OF f]] by simp_all
  have guards: "t mod ms_per_minute = 0" "ss_open_ms s < t" "t \<le> ss_close_ms s"
    "\<not> (case ss_last_minute_ms s of None \<Rightarrow> False | Some m \<Rightarrow> t < m)"
    using adv by (auto simp: advance_def split: if_splits)
  note body = adv [unfolded advance_def rules_of_minute_def [symmetric] Let_def, simplified guards f, simplified]
  show ?thesis
  proof (cases "ss_last_minute_ms s1 = Some t")
    case True
    then show ?thesis using body f s1(1) by (auto simp: bindR_Inr_iff dest: new_decisions_open_nothing)
  next
    case False
    show ?thesis
    proof (cases "\<not> ss_started s1 \<and> t < entry_ms s1")
      case True
      then show ?thesis using body f False by auto
    next
      case go: False
      then obtain s2 ds where ru: "rules_of_minute sr t allow s1 = Inr s2"
        and nd: "new_decisions (pending_decisions (ss_legs s)) t allow (s2\<lparr>ss_last_minute_ms := Some t\<rparr>) = Inr (s', ds)"
        and ds: "os_decisions step = ds"
        using body f False by (auto simp: bindR_Inr_iff)
      have "no_new_orders s1 s2" using rules_of_minute_orders [OF ru] no s1(2) by simp
      with s1(1) have "no_new_orders s (s2\<lparr>ss_last_minute_ms := Some t\<rparr>)" by (simp add: no_new_orders_trans)
      with new_decisions_open_nothing [OF nd] ds show ?thesis by simp
    qed
  qed
qed

text \<open>
  C23: in a call that allows no entries, or at or past the exit time, \<open>advance\<close> sends no order to open a leg.
\<close>

theorem no_opening_order:
  assumes "setup_ok su" "session_run su mk s" "advance sr s t ocs allow obs = Inr (s', step)"
    and "\<not> allow \<or> exit_ms s \<le> t"
  shows "list_all (\<lambda>d. \<not> opens d) (os_decisions step)"
  by (rule advance_opens_nothing [OF assms(3) _ assms(4)]) (use run_inv [OF assms(2,1)] in \<open>simp add: session_inv_def\<close>)

theorem no_opening_order_witness:
  "\<exists>s s' step. session_run sample_setup sample_market s
    \<and> advance sample_surroundings s 960000 [sample_outcome ''1'' Entry_Order 0 (Some (sample_fill Buy 960000))] False None = Inr (s', step)
    \<and> os_decisions step \<noteq> [] \<and> list_all (\<lambda>d. \<not> opens d) (os_decisions step)"
proof -
  let ?oc = "sample_outcome ''1'' Entry_Order 0 (Some (sample_fill Buy 960000))"
  have ev: "map_sum id (\<lambda>(s, _). map_sum id (\<lambda>(s', step). os_decisions step) (advance sample_surroundings s 960000 [?oc] False None))
    (sample_day (take 1 sample_minutes)) = Inr (Inr [Close_Leg ''a'' 0 sample_call 2 100 960000 Ex_Stop 1])"
    by code_simp
  then obtain s st where d: "sample_day (take 1 sample_minutes) = Inr (s, st)"
    by (cases "sample_day (take 1 sample_minutes)") auto
  have run: "session_run sample_setup sample_market s"
    by (rule sample_day_run [OF d]) (simp add: sample_minutes_def)
  obtain s' step where a: "advance sample_surroundings s 960000 [?oc] False None = Inr (s', step)" "os_decisions step \<noteq> []"
    using ev [unfolded d] by (cases "advance sample_surroundings s 960000 [?oc] False None") auto
  from no_opening_order [OF sample_setup_ok run a(1)] have "list_all (\<lambda>d. \<not> opens d) (os_decisions step)" by simp
  with run a show ?thesis by (intro exI conjI)
qed

end
