(* ===== verification/Session_Protection.thy ===== *)
theory Session_Protection
  imports Session_Rules Cover_Admission
begin

text \<open>
  The loop of \<open>OptionsSession._close_with_protection\<close>: it asks the cover book again until it has nothing to add. From
  a covered book it always ends, since every round gives up a sold leg that is held, and the bound the model runs it
  under is never passed.
\<close>

lemma without_sold:
  assumes ok: "held_ok standing" "is_covered standing"
    and plan: "\<forall>i\<in>set plan. \<exists>h. holding_of standing i = Some h \<and> h_side h = Sell"
  shows "\<exists>left. without standing plan = Inr left \<and> held_ok left \<and> is_covered left
     \<and> hd_holdings left = left_without standing plan"
proof -
  have "set plan \<subseteq> set (ids (hd_holdings standing))" using plan holding_of_mem [OF ok(1)] by force
  note w = without_Inr [OF ok(1) this]
  have sold: "\<forall>h\<in>set (hd_holdings standing). h_leg_id h \<in> set plan \<longrightarrow> h_side h = Sell"
    using plan holding_of_mem [OF ok(1)] held_ok_inj [OF ok(1)] by (metis inj_on_def)
  have "covered (left_without standing plan)"
    unfolding covered_iff
  proof
    fix k
    have "0 \<le> sum_at (\<lambda>h. cover_kind_of (h_contract h)) signed_contracts k (hd_holdings standing)"
      using ok(2) unfolding is_covered_def covered_iff by blast
    also have "\<dots> \<le> sum_at (\<lambda>h. cover_kind_of (h_contract h)) signed_contracts k (left_without standing plan)"
      by (rule sum_at_drop_sold)
        (use ok(1) sold in \<open>auto simp: signed_contracts_def held_ok_iff list_all_iff holding_ok_def\<close>)
    finally show "0 \<le> sum_at (\<lambda>h. cover_kind_of (h_contract h)) signed_contracts k (left_without standing plan)" .
  qed
  with w show ?thesis by (auto simp: is_covered_def)
qed

lemma protection_plan_rounds:
  assumes ok: "held_ok standing" "is_covered standing"
    and leaving: "\<And>i. i \<in> set leaving \<Longrightarrow> \<exists>h. holding_of standing i = Some h \<and> h_side h = Buy"
    and plan: "distinct plan" "\<forall>i\<in>set plan. \<exists>h. holding_of standing i = Some h \<and> h_side h = Sell"
    and fuel: "length (hd_holdings standing) < fuel + length plan"
  shows "\<exists>more left. protection_plan et_date standing leaving fuel plan = Inr (plan @ more) \<and> distinct (plan @ more)
     \<and> (\<forall>i\<in>set (plan @ more). \<exists>h. holding_of standing i = Some h \<and> h_side h = Sell)
     \<and> without standing (plan @ more) = Inr left \<and> leaving_plan et_date left leaving = Inr []"
  using plan fuel
proof (induction fuel arbitrary: plan)
  case 0
  have "set plan \<subseteq> set (ids (hd_holdings standing))" using "0.prems"(2) holding_of_mem [OF ok(1)] by force
  from card_mono [OF _ this] have "length plan \<le> length (hd_holdings standing)"
    using distinct_card [OF "0.prems"(1)] card_length [of "ids (hd_holdings standing)"] by simp
  with "0.prems"(3) show ?case by simp
next
  case (Suc fuel)
  obtain left where w: "without standing plan = Inr left" "held_ok left" "is_covered left"
    "hd_holdings left = left_without standing plan" using without_sold [OF ok Suc.prems(2)] by blast
  have same: "holding_of left i = Some h \<longleftrightarrow> holding_of standing i = Some h \<and> i \<notin> set plan" for i h
    using holding_of_mem [OF w(2)] holding_of_mem [OF ok(1)] by (auto simp: w(4))
  have bought: "\<exists>h. holding_of left i = Some h \<and> h_side h = Buy" if i: "i \<in> set leaving" for i
  proof -
    obtain h where h: "holding_of standing i = Some h" "h_side h = Buy" using leaving [OF i] by blast
    then have "i \<notin> set plan" using Suc.prems(2) by force
    with h show ?thesis using same by blast
  qed
  from leaving_plan_facts [OF w(2,3) bought, of leaving et_date]
  obtain more where more: "leaving_plan et_date left leaving = Inr more" "distinct more"
    "\<forall>i\<in>set more. \<exists>h. holding_of left i = Some h \<and> h_side h = Sell" by auto
  show ?case
  proof (cases "more = []")
    case True
    then show ?thesis using w(1) more(1) Suc.prems by (intro exI [of _ "[]"] exI [of _ left]) (simp add: bookR_def)
  next
    case False
    have "distinct (plan @ more)" "\<forall>i\<in>set (plan @ more). \<exists>h. holding_of standing i = Some h \<and> h_side h = Sell"
      using Suc.prems(1,2) more(2,3) same by auto
    moreover have "length (hd_holdings standing) < fuel + length (plan @ more)"
      using Suc.prems(3) False by (cases more) auto
    ultimately obtain rest left' where r: "protection_plan et_date standing leaving fuel (plan @ more) = Inr ((plan @ more) @ rest)"
      "distinct ((plan @ more) @ rest)" "\<forall>i\<in>set ((plan @ more) @ rest). \<exists>h. holding_of standing i = Some h \<and> h_side h = Sell"
      "without standing ((plan @ more) @ rest) = Inr left'" "leaving_plan et_date left' leaving = Inr []"
      using Suc.IH [of "plan @ more"] by blast
    have "protection_plan et_date standing leaving (Suc fuel) plan = Inr (plan @ more @ rest)"
      using w(1) more(1) False r(1) by (simp add: bookR_def)
    with r show ?thesis by (intro exI [of _ "more @ rest"] exI [of _ left']) simp
  qed
qed

lemma nothing_to_add:
  assumes ok: "held_ok standing" "is_covered standing"
    and plan: "\<forall>i\<in>set plan. \<exists>h. holding_of standing i = Some h \<and> h_side h = Sell" "without standing plan = Inr left"
    and leaving: "\<And>i. i \<in> set leaving \<Longrightarrow> \<exists>h. holding_of standing i = Some h \<and> h_side h = Buy"
    and more: "leaving_plan et_date left leaving = Inr []"
  shows "\<exists>rest. without left leaving = Inr rest \<and> held_ok rest \<and> is_covered rest"
proof -
  have w: "held_ok left" "is_covered left" "hd_holdings left = left_without standing plan"
    using without_sold [OF ok plan(1)] plan(2) by auto
  have bought: "\<exists>h. holding_of left i = Some h \<and> h_side h = Buy" if i: "i \<in> set leaving" for i
  proof -
    obtain h where h: "holding_of standing i = Some h" "h_side h = Buy" using leaving [OF i] by blast
    then have "i \<notin> set plan" using plan(1) by force
    with h show ?thesis using holding_of_mem [OF w(1)] holding_of_mem [OF ok(1)] by (auto simp: w(3))
  qed
  from leaving_plan_facts [OF w(1,2) bought, of leaving et_date] more
  obtain before where "stands et_date before (left_without left leaving) = Inr True" by auto
  then have "covered (left_without left leaving)" by (simp add: stands_True)
  moreover have "set leaving \<subseteq> set (ids (hd_holdings left))" using bought holding_of_mem [OF w(1)] by force
  ultimately show ?thesis using without_Inr [OF w(1)] by (auto simp: is_covered_def)
qed

text \<open>
  C20: over a covered book, the loop that decides which sold legs are closed with the bought legs that leave always
  ends within one round a holding. It names sold legs that are held, each once; with them gone the book has nothing to
  add, and the leaving legs may all go: what then remains is a well-formed, covered book.
\<close>

theorem protection_plan_ends:
  assumes ok: "held_ok standing" "is_covered standing"
    and leaving: "list_all (\<lambda>i. \<exists>h. holding_of standing i = Some h \<and> h_side h = Buy) leaving"
  shows "\<exists>plan left rest. protection_plan et_date standing leaving (Suc (length (hd_holdings standing))) [] = Inr plan
     \<and> distinct plan \<and> list_all (\<lambda>i. \<exists>h. holding_of standing i = Some h \<and> h_side h = Sell) plan
     \<and> without standing plan = Inr left \<and> leaving_plan et_date left leaving = Inr []
     \<and> without left leaving = Inr rest \<and> held_ok rest \<and> is_covered rest"
proof -
  have bought: "\<exists>h. holding_of standing i = Some h \<and> h_side h = Buy" if "i \<in> set leaving" for i
    using leaving that by (simp add: list_all_iff)
  from protection_plan_rounds [where plan = "[]", OF ok bought, of leaving "Suc (length (hd_holdings standing))" et_date]
  obtain plan left where p: "protection_plan et_date standing leaving (Suc (length (hd_holdings standing))) [] = Inr plan"
    "distinct plan" "\<forall>i\<in>set plan. \<exists>h. holding_of standing i = Some h \<and> h_side h = Sell"
    "without standing plan = Inr left" "leaving_plan et_date left leaving = Inr []" by auto
  obtain rest where "without left leaving = Inr rest" "held_ok rest" "is_covered rest"
    using nothing_to_add [OF ok p(3,4) bought p(5)] by blast
  with p show ?thesis by (auto simp: list_all_iff)
qed

theorem protection_plan_ends_witness:
  "\<exists>plan left rest. protection_plan (\<lambda>_. (2024, 1, 19)) spread_book [''bought''] (Suc (length (hd_holdings spread_book))) [] = Inr plan
     \<and> distinct plan \<and> list_all (\<lambda>i. \<exists>h. holding_of spread_book i = Some h \<and> h_side h = Sell) plan
     \<and> without spread_book plan = Inr left \<and> leaving_plan (\<lambda>_. (2024, 1, 19)) left [''bought''] = Inr []
     \<and> without left [''bought''] = Inr rest \<and> held_ok rest \<and> is_covered rest"
  by (rule protection_plan_ends) (use spread_book_ok in auto)

end
