(* ===== verification/Replay.thy ===== *)
theory Replay
  imports Session_Delivery Session_Protection
begin

text \<open>
  \<open>app/options_backtest/replay.py\<close>, with what it reports (\<open>results.py\<close>) and what it lets be observed
  (\<open>observation.py\<close>): one session replayed minute by minute, its fills simulated from the bars of a market.

  The replay is an \<open>OptionsSession\<close> with cash, trades and money steps: the record \<open>replay\<close> holds a \<open>session\<close>. Its
  loops go through legs of a list made before the loop; a leg's own step is the only one that changes it, so the leg of
  the list is the leg of the session when its turn comes. The fee of a fill is the caller's function and may raise.
  The observer only receives: what it was called with is \<open>rp_observed\<close>, empty when there is none.
\<close>

subsection \<open>What a replay reports\<close>

datatype session_status = Traded | No_Trade | Incomplete | Skipped

datatype trade_exit = Left_By_Fill fill | Left_By_Mark mark

record leg_trade =
  lt_leg_id :: string
  lt_entry_number :: int
  lt_contract :: option_contract
  lt_contracts :: int
  lt_multiplier :: int
  lt_starting_price :: "decimal option"
  lt_momentum_level :: "decimal option"
  lt_stop_level :: "decimal option"
  lt_entry_decided_at_ms :: int
  lt_entry :: fill
  lt_exit_reason :: exit_reason
  lt_exit_group :: int
  lt_exit_decided_at_ms :: int
  lt_exit :: trade_exit
  lt_entry_fee :: decimal
  lt_exit_fee :: decimal
  lt_pnl :: decimal

definition exit_price :: "leg_trade \<Rightarrow> decimal" where
  "exit_price tr = (case lt_exit tr of Left_By_Fill f \<Rightarrow> fl_filled f | Left_By_Mark m \<Rightarrow> ma_price m)"

definition is_sold_leg :: "leg_trade \<Rightarrow> bool" where "is_sold_leg tr \<longleftrightarrow> fl_side (lt_entry tr) = Sell"

definition marked :: "leg_trade \<Rightarrow> bool" where
  "marked tr = (case lt_exit tr of Left_By_Fill _ \<Rightarrow> False | Left_By_Mark _ \<Rightarrow> True)"

datatype fill_group = Opening | Closing

record money_step =
  ms_at :: int
  ms_group :: fill_group
  ms_cash_before :: decimal
  ms_cash_after :: decimal
  ms_collateral_before :: decimal
  ms_collateral_after :: decimal
  ms_obligation_after :: decimal
  ms_bought_back_with_cover_held :: bool

record session_outcome =
  so_status :: session_status
  so_skip_reason :: "skip_reason option"
  so_trades :: "leg_trade list"
  so_events :: "timeline_event list"
  so_cash_change :: decimal
  so_money_steps :: "money_step list"

definition pnl_usd :: "session_outcome \<Rightarrow> (session_error, decimal) result" where
  "pnl_usd so = foldR (\<lambda>total tr. trapR (add_x total (lt_pnl tr))) (Finite 0 0) (so_trades so)"

definition marked_value_usd :: "session_outcome \<Rightarrow> (session_error, decimal) result" where
  "marked_value_usd so = foldR (\<lambda>total tr.
     if marked tr
     then bindR (trapR (order_value (exit_price tr) (lt_multiplier tr) (lt_contracts tr))) (\<lambda>value.
            trapR (add_x total (if is_sold_leg tr then dneg value else value)))
     else Inr total) (Finite 0 0) (so_trades so)"

definition exit_counts :: "session_outcome \<Rightarrow> (exit_reason \<times> int) list" where
  "exit_counts so = tally_on [] lt_exit_reason (\<lambda>_. 1) (so_trades so)"

definition event_counts :: "session_outcome \<Rightarrow> (timeline_kind \<times> int) list" where
  "event_counts so = tally_on [] ev_kind (\<lambda>_. 1) (so_events so)"

subsection \<open>What an observer sees\<close>

record held_mark =
  hm_leg_id :: string
  hm_contract :: option_contract
  hm_signed_contracts :: int
  hm_multiplier :: int
  hm_close :: "decimal option"
  hm_close_pending :: bool

definition held_mark_ok :: "held_mark \<Rightarrow> bool" where
  "held_mark_ok h \<longleftrightarrow> hm_signed_contracts h \<noteq> 0 \<and> 0 < hm_multiplier h
     \<and> (case hm_close h of None \<Rightarrow> True | Some c \<Rightarrow> is_finite c \<and> \<not> dval c \<le> 0)"

record minute_observation =
  mo_at :: int
  mo_cash :: decimal
  mo_collateral :: decimal
  mo_held :: "held_mark list"

definition minute_observation_ok :: "minute_observation \<Rightarrow> bool" where
  "minute_observation_ok o' \<longleftrightarrow> is_instant_ms (mo_at o') \<and> is_finite (mo_cash o') \<and> is_finite (mo_collateral o')
     \<and> \<not> dval (mo_collateral o') < 0 \<and> distinct (map hm_leg_id (mo_held o'))"

definition missing_leg_ids :: "minute_observation \<Rightarrow> string list" where
  "missing_leg_ids o' = map hm_leg_id (filter (\<lambda>h. hm_close h = None) (mo_held o'))"

definition equity_usd :: "minute_observation \<Rightarrow> (session_error, decimal option) result" where
  "equity_usd o' =
     (if missing_leg_ids o' \<noteq> [] then Inr None
      else bindR (foldR (\<lambda>total h. case hm_close h of
                    None \<Rightarrow> Inr total
                  | Some c \<Rightarrow> bindR (trapR (mul_x (whole (hm_signed_contracts h * hm_multiplier h)) c)) (\<lambda>v.
                      trapR (add_x total v))) (Finite 0 0) (mo_held o')) (\<lambda>marks.
           bindR (trapR (add_x (mo_cash o') marks)) (\<lambda>e. Inr (Some e))))"

subsection \<open>The state of a replay\<close>

record replay_world =
  rw_around :: surroundings
  rw_fee_for :: "fill \<Rightarrow> (session_error, decimal) result"
  rw_observing :: bool

record replay =
  rp_session :: session
  rp_cash :: decimal
  rp_trades :: "leg_trade list"
  rp_steps :: "money_step list"
  rp_observed :: "minute_observation list"

abbreviation rp_legs :: "replay \<Rightarrow> leg list" where "rp_legs r \<equiv> ss_legs (rp_session r)"
abbreviation rp_setup :: "replay \<Rightarrow> backtest_setup" where "rp_setup r \<equiv> ss_setup (rp_session r)"
abbreviation world_market :: "replay_world \<Rightarrow> market" where "world_market w \<equiv> sr_market (rw_around w)"
abbreviation world_date :: "replay_world \<Rightarrow> int \<Rightarrow> date" where "world_date w \<equiv> sr_et_date (rw_around w)"

definition rp_sells :: "replay \<Rightarrow> bool" where "rp_sells r = setup_sells (rp_setup r)"

text \<open>A leg of the session put back changed, with the events so far.\<close>

definition with_leg :: "timeline_event list \<Rightarrow> leg \<Rightarrow> replay \<Rightarrow> replay" where
  "with_leg evs l' r = r\<lparr>rp_session := (rp_session r)\<lparr>ss_events := evs, ss_legs := put_leg l' (rp_legs r)\<rparr>\<rparr>"

definition entry_refusal_of :: "opening_refusal \<Rightarrow> bool \<Rightarrow> entry_refusal" where
  "entry_refusal_of refusal cover_did_not_trade =
     (case refusal of
        No_Cover \<Rightarrow> if cover_did_not_trade then Ref_Cover_Did_Not_Trade else Ref_Cover_Not_Yet_Held
      | Other_Side \<Rightarrow> Ref_Other_Side
      | Second_Expiry \<Rightarrow> Ref_Second_Expiry
      | Cash_Short \<Rightarrow> Ref_Cash_Short)"

record taken_entry =
  tk_bar :: minute_bar
  tk_fill :: fill
  tk_fee :: decimal

definition taken_effect :: "taken_entry \<Rightarrow> (session_error, decimal) result" where
  "taken_effect tk = trapR (cash_effect (fl_side (tk_fill tk)) (fl_filled (tk_fill tk)) (fl_multiplier (tk_fill tk))
     (fl_contracts (tk_fill tk)) (tk_fee tk))"

definition is_a_sale_to_open_at_nothing :: "fill \<Rightarrow> bool" where
  "is_a_sale_to_open_at_nothing f \<longleftrightarrow> fl_side f = Sell \<and> dval (fl_filled f) = 0"

definition fill_at ::
  "backtest_setup \<Rightarrow> leg \<Rightarrow> option_contract \<Rightarrow> int \<Rightarrow> leg_side \<Rightarrow> int \<Rightarrow> minute_bar \<Rightarrow> (session_error, fill) result" where
  "fill_at su l contract multiplier side t bar =
     bindR (trapR ((if side = Buy then buy_fill_price else sell_fill_price)
                     (mb_open bar) (bs_slippage_percent su) (bs_price_step su))) (\<lambda>price.
       Inr \<lparr>fl_leg_id = leg_id l, fl_contract = contract, fl_side = side, fl_contracts = ls_contracts (lg_setup l),
            fl_multiplier = multiplier, fl_bar_close_ms = t, fl_seen = mb_open bar, fl_filled = price\<rparr>)"

subsection \<open>What is held, and what it pledges\<close>

definition held_now :: "replay \<Rightarrow> (session_error, held) result" where
  "held_now r = held_by_legs True (rp_legs r)"

definition money_now :: "replay_world \<Rightarrow> replay \<Rightarrow> (session_error, decimal \<times> decimal) result" where
  "money_now w r =
     (if rp_sells r
      then bindR (held_now r) (\<lambda>h. bindR (bookR (collateral (world_date w) h)) (\<lambda>c. Inr (rp_cash r, c)))
      else Inr (rp_cash r, Finite 0 0))"

definition record_step ::
  "replay_world \<Rightarrow> int \<Rightarrow> fill_group \<Rightarrow> decimal \<times> decimal \<Rightarrow> option_contract list \<Rightarrow> replay \<Rightarrow> (session_error, replay) result" where
  "record_step w t grp before bought_back r =
     bindR (if rp_sells r
            then bindR (held_now r) (\<lambda>h.
                 bindR (bookR (collateral (world_date w) h)) (\<lambda>c.
                 bindR (bookR (assignment_obligation h)) (\<lambda>ob.
                   Inr (c, ob, list_ex (\<lambda>b. list_ex (\<lambda>x. h_side x = Buy \<and> covers (h_contract x) b) (hd_holdings h)) bought_back))))
            else Inr (Finite 0 0, Finite 0 0, False)) (\<lambda>(after, obligation, under_cover).
       Inr (r\<lparr>rp_steps := rp_steps r @ [\<lparr>ms_at = t, ms_group = grp, ms_cash_before = fst before,
              ms_cash_after = rp_cash r, ms_collateral_before = snd before, ms_collateral_after = after,
              ms_obligation_after = obligation, ms_bought_back_with_cover_held = under_cover\<rparr>]\<rparr>))"

definition record_trade ::
  "position \<Rightarrow> close_order \<Rightarrow> exit_reason \<Rightarrow> trade_exit \<Rightarrow> decimal \<Rightarrow> replay \<Rightarrow> (session_error, replay) result" where
  "record_trade p c reason leaving exit_fee r =
     (let entry = po_entry p;
          left_at = (case leaving of Left_By_Fill f \<Rightarrow> fl_filled f | Left_By_Mark m \<Rightarrow> ma_price m);
          (bought, sold) = (if fl_side entry = Sell then (left_at, fl_filled entry) else (fl_filled entry, left_at))
      in bindR (trapR (trade_pnl bought sold (fl_multiplier entry) (fl_contracts entry) (po_entry_fee p) exit_fee)) (\<lambda>pnl.
           Inr (r\<lparr>rp_trades := rp_trades r @ [\<lparr>lt_leg_id = fl_leg_id entry, lt_entry_number = po_entry_number p,
             lt_contract = fl_contract entry, lt_contracts = fl_contracts entry, lt_multiplier = fl_multiplier entry,
             lt_starting_price = at_starting_price (po_attempt p), lt_momentum_level = at_momentum_level (po_attempt p),
             lt_stop_level = po_stop_level p, lt_entry_decided_at_ms = po_entry_decided_at_ms p, lt_entry = entry,
             lt_exit_reason = reason, lt_exit_group = co_group c, lt_exit_decided_at_ms = co_decided_at_ms c,
             lt_exit = leaving, lt_entry_fee = po_entry_fee p, lt_exit_fee = exit_fee, lt_pnl = pnl\<rparr>]\<rparr>)))"

subsection \<open>The opening group\<close>

definition ms_text :: "int \<Rightarrow> string" where
  "ms_text t = (if t < 0 then ''-'' else '''') @ show_nat (nat \<bar>t\<bar>)"

definition find_entries ::
  "replay_world \<Rightarrow> int \<Rightarrow> backtest_setup \<Rightarrow> leg list \<Rightarrow> (session_error, (string \<times> taken_entry) list) result" where
  "find_entries w t su ordered =
     foldR (\<lambda>found l.
       bindR (attempt_of l) (\<lambda>a.
         case mk_option_bar (world_market w) (at_contract a) t of
           None \<Rightarrow> Inr found
         | Some bar \<Rightarrow>
             bindR (fill_at su l (at_contract a) (at_multiplier a) (ls_side (lg_setup l)) t bar) (\<lambda>f.
             bindR (if is_a_sale_to_open_at_nothing f then Inr (Finite 0 0) else rw_fee_for w f) (\<lambda>fee.
               Inr (found @ [(leg_id l, \<lparr>tk_bar = bar, tk_fill = f, tk_fee = fee\<rparr>)]))))) [] ordered"

text \<open>The entries that found a bar and would not be sold for nothing, in the order of the legs.\<close>

definition standing_entries :: "(string \<times> taken_entry) list \<Rightarrow> leg list \<Rightarrow> (leg \<times> taken_entry) list" where
  "standing_entries found ordered = List.map_filter (\<lambda>l.
     case map_of found (leg_id l) of
       None \<Rightarrow> None
     | Some e \<Rightarrow> if is_a_sale_to_open_at_nothing (tk_fill e) then None else Some (l, e)) ordered"

definition refused_at_zero :: "(string \<times> taken_entry) list \<Rightarrow> leg list \<Rightarrow> (string \<times> entry_refusal) list" where
  "refused_at_zero found ordered = List.map_filter (\<lambda>l.
     case map_of found (leg_id l) of
       None \<Rightarrow> None
     | Some e \<Rightarrow> if is_a_sale_to_open_at_nothing (tk_fill e) then Some (leg_id l, Ref_Sale_At_Zero) else None) ordered"

definition candidate_of :: "leg \<times> taken_entry \<Rightarrow> (session_error, candidate) result" where
  "candidate_of = (\<lambda>(l, e). bindR (taken_effect e) (\<lambda>effect.
     let c = \<lparr>h_leg_id = leg_id l, h_contract = fl_contract (tk_fill e), h_side = ls_side (lg_setup l),
              h_contracts = fl_contracts (tk_fill e), h_multiplier = fl_multiplier (tk_fill e), cd_cash_effect = effect\<rparr>
     in if candidate_ok c then Inr c else Inl (Session_Book Book_Value_Error)))"

definition judge_opening ::
  "replay_world \<Rightarrow> leg list \<Rightarrow> (string \<times> taken_entry) list \<Rightarrow> replay \<Rightarrow> (session_error, (string \<times> entry_refusal) list) result" where
  "judge_opening w ordered found r =
     (let zero = refused_at_zero found ordered; standing = standing_entries found ordered in
      if \<not> rp_sells r
      then bindR (foldR (\<lambda>total x. bindR (taken_effect (snd x)) (\<lambda>e. trapR (add_x total e))) (Finite 0 0) standing) (\<lambda>effects.
           bindR (trapR (add_x (rp_cash r) effects)) (\<lambda>after.
             Inr (if dval after < 0 then zero @ map (\<lambda>x. (leg_id (fst x), Ref_Cash_Short)) standing else zero)))
      else
        bindR (traverseR candidate_of standing) (\<lambda>candidates.
        bindR (held_now r) (\<lambda>h.
        bindR (bookR (admit_opening (world_date w) h candidates (Some (rp_cash r)) (closing_legs (rp_legs r)))) (\<lambda>adm.
        bindR (traverseR (\<lambda>l. bindR (attempt_of l) (\<lambda>a. Inr (at_contract a)))
                 (filter (\<lambda>l. map_of found (leg_id l) = None \<and> ls_side (lg_setup l) = Buy) ordered)) (\<lambda>dropped.
          Inr (zero @ map (\<lambda>rf. (h_leg_id (rf_candidate rf),
                 entry_refusal_of (rf_reason rf) (list_ex (\<lambda>b. covers b (h_contract (rf_candidate rf))) dropped)))
               (ad_refused adm)))))))"

definition open_entry :: "replay_world \<Rightarrow> int \<Rightarrow> leg \<Rightarrow> taken_entry \<Rightarrow> replay \<Rightarrow> (session_error, replay) result" where
  "open_entry w t l tk r =
     bindR (observe_execution (rw_around w)
       \<lparr>eo_outcome_id = ''entry:'' @ leg_id l @ '':'' @ ms_text (lg_order_decided_at_ms l), eo_leg_id = leg_id l,
        eo_entry_number = lg_entries_filled l, eo_kind = Entry_Order, eo_fill = Some (tk_fill tk), eo_terminal = True,
        eo_fee_usd = tk_fee tk, eo_mark = Some \<lparr>ma_bar_close_ms = t, ma_price = mb_close (tk_bar tk)\<rparr>,
        eo_refusal = None, eo_decided_at_ms = None\<rparr> t (rp_session r)) (\<lambda>s.
     bindR (taken_effect tk) (\<lambda>effect.
     bindR (trapR (add_x (rp_cash r) effect)) (\<lambda>cash.
       Inr (r\<lparr>rp_session := s, rp_cash := cash\<rparr>))))"

definition enter_one ::
  "replay_world \<Rightarrow> int \<Rightarrow> (string \<times> taken_entry) list \<Rightarrow> (string \<times> entry_refusal) list \<Rightarrow> replay \<times> bool \<Rightarrow> leg
    \<Rightarrow> (session_error, replay \<times> bool) result" where
  "enter_one w t found refusals = (\<lambda>(r, filled) l.
     let evs = ss_events (rp_session r) in
     case map_of found (leg_id l) of
       None \<Rightarrow> bindR (drop_entry t evs l) (\<lambda>(evs', l'). Inr (with_leg evs' l' r, filled))
     | Some e \<Rightarrow>
         (case map_of refusals (leg_id l) of
            Some why \<Rightarrow>
              Inr (with_leg (tell (entry_refusal_event why) t l None None (Some (fl_filled (tk_fill e)))
                               (Some (Told_Refusal why)) None evs) (l\<lparr>lg_phase := Ph_Done\<rparr>) r, filled)
          | None \<Rightarrow> bindR (open_entry w t l e r) (\<lambda>r'. Inr (r', True))))"

definition fill_entries :: "replay_world \<Rightarrow> int \<Rightarrow> replay \<Rightarrow> (session_error, replay) result" where
  "fill_entries w t r =
     (let ordered = filter (\<lambda>l. lg_phase l = Ph_Ordered) (rp_legs r) in
      if ordered = [] then Inr r
      else bindR (find_entries w t (rp_setup r) ordered) (\<lambda>found.
           bindR (judge_opening w ordered found r) (\<lambda>refusals.
           bindR (money_now w r) (\<lambda>before.
           bindR (foldR (enter_one w t found refusals) (r, False) ordered) (\<lambda>(r', filled).
             if filled then record_step w t Opening before [] r' else Inr r')))))"

subsection \<open>The closing group\<close>

definition close_leg :: "replay_world \<Rightarrow> int \<Rightarrow> leg \<times> minute_bar \<Rightarrow> replay \<Rightarrow> (session_error, replay) result" where
  "close_leg w t = (\<lambda>(l, bar) r.
     bindR (position_of l) (\<lambda>p.
       case po_close p of
         None \<Rightarrow> Inl Session_Assertion
       | Some c \<Rightarrow>
           let side = (if fl_side (po_entry p) = Sell then Buy else Sell) in
           bindR (fill_at (rp_setup r) l (at_contract (po_attempt p)) (at_multiplier (po_attempt p)) side t bar) (\<lambda>f.
           bindR (rw_fee_for w f) (\<lambda>fee.
           bindR (trapR (cash_effect side (fl_filled f) (fl_multiplier f) (fl_contracts f) fee)) (\<lambda>effect.
           bindR (trapR (add_x (rp_cash r) effect)) (\<lambda>cash.
           bindR (record_trade p c (co_reason c) (Left_By_Fill f) fee (r\<lparr>rp_cash := cash\<rparr>)) (\<lambda>r'.
           bindR (observe_execution (rw_around w)
             \<lparr>eo_outcome_id = ''close:'' @ leg_id l @ '':'' @ ms_text (co_decided_at_ms c), eo_leg_id = leg_id l,
              eo_entry_number = po_entry_number p, eo_kind = Close_Order, eo_fill = Some f, eo_terminal = True,
              eo_fee_usd = fee, eo_mark = None, eo_refusal = None, eo_decided_at_ms = None\<rparr> t (rp_session r')) (\<lambda>s.
             Inr (r'\<lparr>rp_session := s\<rparr>)))))))))"

definition due_closes :: "held_bars \<Rightarrow> leg list \<Rightarrow> (session_error, (leg \<times> minute_bar) list) result" where
  "due_closes bars ls =
     bindR (traverseR (\<lambda>l.
       if lg_phase l \<noteq> Ph_Held then Inr []
       else bindR (position_of l) (\<lambda>p.
         Inr (case bar_of bars (leg_id l) of
                None \<Rightarrow> []
              | Some bar \<Rightarrow> if po_close p \<noteq> None then [(l, bar)] else []))) ls) (\<lambda>due. Inr (concat due))"

text \<open>The sales: each is tried only if the book lets the leg leave what is then held.\<close>

definition sell_one ::
  "replay_world \<Rightarrow> int \<Rightarrow> replay \<times> held option \<times> bool \<Rightarrow> leg \<times> minute_bar \<Rightarrow> (session_error, replay \<times> held option \<times> bool) result" where
  "sell_one w t = (\<lambda>(r, h, closed) x.
     bindR (case h of None \<Rightarrow> Inr True | Some book \<Rightarrow> bookR (may_leave (world_date w) book (leg_id (fst x)))) (\<lambda>may.
       if \<not> may then Inr (r, h, closed)
       else bindR (close_leg w t x r) (\<lambda>r'.
            bindR (case h of None \<Rightarrow> Inr None | Some book \<Rightarrow> bindR (bookR (without book [leg_id (fst x)])) (\<lambda>b. Inr (Some b))) (\<lambda>h'.
              Inr (r', h', True)))))"

definition fill_closes :: "replay_world \<Rightarrow> int \<Rightarrow> held_bars \<Rightarrow> replay \<Rightarrow> (session_error, replay) result" where
  "fill_closes w t bars r =
     bindR (due_closes bars (rp_legs r)) (\<lambda>due.
      if due = [] then Inr r
      else bindR (money_now w r) (\<lambda>before.
        let buy_backs = filter (\<lambda>x. ls_side (lg_setup (fst x)) = Sell) due;
            sales = filter (\<lambda>x. ls_side (lg_setup (fst x)) = Buy) due
        in bindR (traverseR (\<lambda>x. bindR (position_of (fst x)) (\<lambda>p. Inr (at_contract (po_attempt p)))) buy_backs) (\<lambda>bought_back.
           bindR (foldR (\<lambda>r x. close_leg w t x r) r buy_backs) (\<lambda>r1.
           bindR (if rp_sells r1 then bindR (held_now r1) (\<lambda>h. Inr (Some h)) else Inr None) (\<lambda>h.
           bindR (foldR (sell_one w t) (r1, h, buy_backs \<noteq> []) sales) (\<lambda>(r2, _, closed).
             if closed then record_step w t Closing before bought_back r2 else Inr r2))))))"

subsection \<open>A minute, and the whole session\<close>

definition held_marks :: "held_bars \<Rightarrow> leg list \<Rightarrow> (session_error, held_mark list) result" where
  "held_marks bars ls =
     traverseR (\<lambda>l. bindR (position_of l) (\<lambda>p.
       let h = \<lparr>hm_leg_id = leg_id l, hm_contract = fl_contract (po_entry p),
                hm_signed_contracts = fl_contracts (po_entry p) * (if fl_side (po_entry p) = Sell then - 1 else 1),
                hm_multiplier = fl_multiplier (po_entry p), hm_close = map_option mb_close (bar_of bars (leg_id l)),
                hm_close_pending = (po_close p \<noteq> None)\<rparr>
       in if held_mark_ok h then Inr h else Inl Session_Value_Error)) (filter (\<lambda>l. lg_phase l = Ph_Held) ls)"

definition observe_minute :: "replay_world \<Rightarrow> int \<Rightarrow> held_bars \<Rightarrow> replay \<Rightarrow> (session_error, replay) result" where
  "observe_minute w t bars r =
     (if \<not> rw_observing w then Inr r
      else bindR (held_marks bars (rp_legs r)) (\<lambda>marks.
           bindR (money_now w r) (\<lambda>money.
             let o' = \<lparr>mo_at = t, mo_cash = rp_cash r, mo_collateral = snd money, mo_held = marks\<rparr> in
             if minute_observation_ok o' then Inr (r\<lparr>rp_observed := rp_observed r @ [o']\<rparr>) else Inl Session_Value_Error)))"

definition replay_minute :: "replay_world \<Rightarrow> replay \<Rightarrow> int \<Rightarrow> (session_error, replay) result" where
  "replay_minute w r t =
     bindR (fill_entries w t r) (\<lambda>r1.
     bindR (read_held_bars (world_market w) t (rp_session r1)) (\<lambda>(s2, bars).
     bindR (fill_closes w t bars (r1\<lparr>rp_session := s2\<rparr>)) (\<lambda>r3.
     bindR (advance_rules (rw_around w) t bars True (rp_session r3)) (\<lambda>s4.
       observe_minute w t bars (r3\<lparr>rp_session := s4\<rparr>)))))"

text \<open>\<open>range(start, stop, MS_PER_MINUTE)\<close>\<close>

definition minute_range :: "int \<Rightarrow> int \<Rightarrow> int list" where
  "minute_range start stop = map (\<lambda>i. start + int i * ms_per_minute) [0..<nat ((stop - start + ms_per_minute - 1) div ms_per_minute)]"

definition mark_leg :: "int \<Rightarrow> replay \<Rightarrow> leg \<Rightarrow> (session_error, replay) result" where
  "mark_leg close_ms r l =
     (if lg_phase l \<noteq> Ph_Held then Inr r
      else bindR (position_of l) (\<lambda>p.
        case po_close p of
          None \<Rightarrow> Inl Session_Assertion
        | Some c \<Rightarrow>
            let owed = (fl_side (po_entry p) = Sell) in
            bindR (record_trade p c (if owed then Ex_Marked_Not_Bought_Back else Ex_Marked_Not_Sold)
                     (Left_By_Mark (po_last_seen p)) (Finite 0 0) r) (\<lambda>r'.
              Inr (r'\<lparr>rp_session := (rp_session r')\<lparr>ss_events :=
                tell (if owed then Ev_Marked_Not_Bought_Back else Ev_Marked_Not_Sold) close_ms l (Some p)
                  (Some (at_contract (po_attempt p))) (Some (ma_price (po_last_seen p))) None None
                  (ss_events (rp_session r'))\<rparr>\<rparr>))))"

definition mark_what_is_held :: "replay \<Rightarrow> (session_error, replay) result" where
  "mark_what_is_held r = foldR (mark_leg (ss_close_ms (rp_session r))) r (rp_legs r)"

definition outcome_of :: "decimal \<Rightarrow> replay \<Rightarrow> (session_error, session_outcome) result" where
  "outcome_of start_cash r =
     (let trades = sort_key (\<lambda>tr. fl_bar_close_ms (lt_entry tr))
            (sort_key (\<lambda>tr. place (map leg_id (rp_legs r)) (lt_leg_id tr)) (rp_trades r));
          status = (if list_ex marked trades then Incomplete else if trades \<noteq> [] then Traded else No_Trade)
      in bindR (trapR (sub_x (rp_cash r) start_cash)) (\<lambda>change.
           Inr \<lparr>so_status = status, so_skip_reason = None, so_trades = trades, so_events = ss_events (rp_session r),
                so_cash_change = change, so_money_steps = rp_steps r\<rparr>))"

definition skipped_outcome :: "skip_reason \<Rightarrow> session_outcome" where
  "skipped_outcome reason = \<lparr>so_status = Skipped, so_skip_reason = Some reason, so_trades = [], so_events = [],
     so_cash_change = Finite 0 0, so_money_steps = []\<rparr>"

definition observe_minutes :: "replay_world \<Rightarrow> int list \<Rightarrow> replay \<Rightarrow> (session_error, replay) result" where
  "observe_minutes w ts r = (if rw_observing w then foldR (\<lambda>r t. observe_minute w t [] r) r ts else Inr r)"

definition observe_flat_session :: "replay_world \<Rightarrow> replay \<Rightarrow> (session_error, replay) result" where
  "observe_flat_session w r =
     observe_minutes w (minute_range (ss_open_ms (rp_session r)) (ss_close_ms (rp_session r) + ms_per_minute)) r"

definition run_replay :: "replay_world \<Rightarrow> decimal \<Rightarrow> replay \<Rightarrow> (session_error, session_outcome \<times> minute_observation list) result" where
  "run_replay w start_cash r =
     (let s = rp_session r; skip = (\<lambda>r reason. bindR (observe_flat_session w r) (\<lambda>r'. Inr (skipped_outcome reason, rp_observed r'))) in
      if \<not> window_fits (ss_setup s) (ss_open_ms s) (ss_close_ms s) then skip r Window_Does_Not_Fit
      else bindR (start_session (rw_around w) (entry_ms s) True s) (\<lambda>s1.
        let r1 = r\<lparr>rp_session := s1\<rparr> in
        case ss_skipped s1 of
          Some reason \<Rightarrow> skip r1 reason
        | None \<Rightarrow>
            bindR (observe_minutes w (minute_range (ss_open_ms s) (entry_ms s + ms_per_minute)) r1) (\<lambda>r2.
            bindR (foldR (replay_minute w) r2 (minute_range (entry_ms s + ms_per_minute) (ss_close_ms s + ms_per_minute))) (\<lambda>r3.
            bindR (mark_what_is_held r3) (\<lambda>r4.
            bindR (outcome_of start_cash r4) (\<lambda>so. Inr (so, rp_observed r4)))))))"

definition replay_session ::
  "backtest_setup \<Rightarrow> replay_world \<Rightarrow> decimal \<Rightarrow> (session_error, session_outcome \<times> minute_observation list) result" where
  "replay_session su w cash =
     (let mk = world_market w in
      if mk_open_ms mk mod ms_per_minute \<noteq> 0 \<or> mk_close_ms mk mod ms_per_minute \<noteq> 0 then Inl Session_Value_Error
      else bindR (options_session su mk None) (\<lambda>s.
        run_replay w cash \<lparr>rp_session = s, rp_cash = cash, rp_trades = [], rp_steps = [], rp_observed = []\<rparr>))"

end
