(* ===== verification/Replay_Accounts.thy ===== *)
theory Replay_Accounts
  imports Replay Money
begin

text \<open>
  What a replay keeps true of its money: the cash is the starting cash, the profit of the trades that closed, and what
  the entries still held moved. It rests on every simulated execution being observed once, which rests on the outcome
  ids being new: an id names a leg, a kind of order and the minute that decided it.
\<close>

subsection \<open>Outcome ids\<close>

definition entry_id :: "string \<Rightarrow> int \<Rightarrow> string" where "entry_id i d = ''entry:'' @ i @ '':'' @ ms_text d"
definition close_id :: "string \<Rightarrow> int \<Rightarrow> string" where "close_id i d = ''close:'' @ i @ '':'' @ ms_text d"

lemma ms_text_inject: "ms_text d = ms_text e \<longleftrightarrow> d = e"
proof
  assume eq: "ms_text d = ms_text e"
  then have sign: "(d < 0) = (e < 0)"
    using minus_show_nat minus_show_nat [symmetric] by (auto simp: ms_text_def split: if_splits)
  with eq have "show_nat (nat \<bar>d\<bar>) = show_nat (nat \<bar>e\<bar>)" by (auto simp: ms_text_def split: if_splits)
  then have "nat \<bar>d\<bar> = nat \<bar>e\<bar>" by (metis read_show_nat)
  with sign show "d = e" by auto
qed simp

lemma split_at_first:
  "c \<notin> set i \<Longrightarrow> c \<notin> set j \<Longrightarrow> i @ c # x = j @ c # y \<longleftrightarrow> i = j \<and> x = y"
proof (induction i arbitrary: j)
  case Nil
  then show ?case by (cases j) auto
next
  case (Cons a i)
  then show ?case by (cases j) auto
qed

lemma leg_id_no_colon: "leg_id_ok i \<Longrightarrow> CHR '':'' \<notin> set i"
  by (auto simp: leg_id_ok_def list_all_iff leg_id_char_def Let_def)

lemma id_simps:
  assumes "CHR '':'' \<notin> set i" "CHR '':'' \<notin> set j"
  shows "entry_id i d = entry_id j e \<longleftrightarrow> i = j \<and> d = e" "close_id i d = close_id j e \<longleftrightarrow> i = j \<and> d = e"
    "entry_id i d \<noteq> close_id j e" "close_id i d \<noteq> entry_id j e"
  using split_at_first [OF assms] by (auto simp: entry_id_def close_id_def ms_text_inject)

subsection \<open>Orders and closes that are still to be observed\<close>

definition close_fresh :: "string set \<Rightarrow> int \<Rightarrow> string \<Rightarrow> close_order option \<Rightarrow> bool" where
  "close_fresh O' T i c \<longleftrightarrow>
     (case c of None \<Rightarrow> True | Some c \<Rightarrow> co_decided_at_ms c \<le> T \<and> close_id i (co_decided_at_ms c) \<notin> O')"

definition leg_fresh :: "string set \<Rightarrow> int \<Rightarrow> leg \<Rightarrow> bool" where
  "leg_fresh O' T l \<longleftrightarrow>
     (lg_phase l = Ph_Ordered \<longrightarrow> lg_order_decided_at_ms l \<le> T \<and> entry_id (leg_id l) (lg_order_decided_at_ms l) \<notin> O')
     \<and> (case lg_position l of None \<Rightarrow> True | Some p \<Rightarrow> close_fresh O' T (leg_id l) (po_close p))
     \<and> (lg_phase l \<in> {Ph_Ordered, Ph_Waiting} \<longrightarrow> close_fresh O' T (leg_id l) (lg_close_on_fill l))"

definition new_ids :: "string set \<Rightarrow> int \<Rightarrow> string \<Rightarrow> bool" where
  "new_ids O' t i \<longleftrightarrow> entry_id i t \<notin> O' \<and> close_id i t \<notin> O'"

lemma close_fresh_simps [simp]: "close_fresh O' T i None"
  "close_fresh O' T i (Some c) \<longleftrightarrow> co_decided_at_ms c \<le> T \<and> close_id i (co_decided_at_ms c) \<notin> O'"
  by (simp_all add: close_fresh_def)

lemma close_fresh_later: "close_fresh O' T i c \<Longrightarrow> T \<le> t \<Longrightarrow> close_fresh O' t i c"
  by (auto simp: close_fresh_def split: option.splits)

lemma leg_fresh_later: "leg_fresh O' T l \<Longrightarrow> T \<le> t \<Longrightarrow> leg_fresh O' t l"
  by (auto simp: leg_fresh_def close_fresh_later split: option.splits)

subsection \<open>The money a leg's position moved\<close>

definition position_cash :: "position \<Rightarrow> rat" where
  "position_cash p = (if fl_side (po_entry p) = Buy then - 1 else 1)
       * (dval (fl_filled (po_entry p)) * of_int (fl_multiplier (po_entry p)) * of_int (fl_contracts (po_entry p)))
     - dval (po_entry_fee p)"

definition leg_cash :: "leg \<Rightarrow> rat" where
  "leg_cash l = (case lg_position l of None \<Rightarrow> 0 | Some p \<Rightarrow> position_cash p)"

definition replay_position :: "leg \<Rightarrow> position \<Rightarrow> bool" where
  "replay_position l p \<longleftrightarrow> po_entry_terminal p \<and> po_closed_contracts p = 0
     \<and> fl_contracts (po_entry p) = ls_contracts (lg_setup l) \<and> fl_multiplier (po_entry p) = at_multiplier (po_attempt p)
     \<and> is_finite (fl_filled (po_entry p)) \<and> is_finite (po_entry_fee p) \<and> is_finite (ma_price (po_last_seen p))"

definition leg_account :: "leg \<Rightarrow> bool" where
  "leg_account l \<longleftrightarrow> (case lg_position l of None \<Rightarrow> True | Some p \<Rightarrow> replay_position l p)"

text \<open>What the rules keep of a leg's books: they decide, and nothing moves.\<close>

definition same_books :: "leg \<Rightarrow> leg \<Rightarrow> bool" where
  "same_books l l' \<longleftrightarrow> lg_setup l' = lg_setup l \<and> lg_entries_filled l' = lg_entries_filled l
     \<and> (lg_position l' = None \<longleftrightarrow> lg_position l = None) \<and> leg_cash l' = leg_cash l \<and> (leg_account l \<longrightarrow> leg_account l')"

definition decides :: "int \<Rightarrow> leg \<Rightarrow> leg \<Rightarrow> bool" where
  "decides t l l' \<longleftrightarrow> same_books l l'
     \<and> (\<forall>O' T. leg_fresh O' T l \<and> T \<le> t \<and> new_ids O' t (leg_id l) \<longrightarrow> leg_fresh O' t l')"

lemma same_books_refl [simp]: "same_books l l" by (simp add: same_books_def)

lemma same_books_trans: "same_books l l' \<Longrightarrow> same_books l' l'' \<Longrightarrow> same_books l l''"
  by (auto simp: same_books_def)

lemma decides_refl [simp]: "decides t l l"
  by (auto simp: decides_def intro: leg_fresh_later)

lemma decides_trans: "decides t l l' \<Longrightarrow> decides t l' l'' \<Longrightarrow> decides t l l''"
  unfolding decides_def by (metis same_books_def same_books_trans leg_id_def order_refl)

lemma no_position_books:
  assumes "lg_position l = None" "lg_position l' = None" "lg_setup l' = lg_setup l" "lg_entries_filled l' = lg_entries_filled l"
  shows "same_books l l'"
  using assms by (simp add: same_books_def leg_cash_def leg_account_def)

lemma same_position_books:
  assumes "lg_position l' = lg_position l" "lg_setup l' = lg_setup l" "lg_entries_filled l' = lg_entries_filled l"
  shows "same_books l l'"
  using assms by (auto simp: same_books_def leg_cash_def leg_account_def replay_position_def split: option.splits)

text \<open>A position whose close or last mark alone changes.\<close>

lemma position_books:
  assumes "lg_position l = Some p" "l' = l\<lparr>lg_position := Some p'\<rparr>" "p' = p\<lparr>po_close := c\<rparr> \<or> p' = p\<lparr>po_last_seen := m\<rparr> \<and> is_finite (ma_price m)"
  shows "same_books l l'"
  using assms by (auto simp: same_books_def leg_cash_def leg_account_def replay_position_def position_cash_def)

lemma close_decided:
  assumes "lg_position l = Some p" "l' = l\<lparr>lg_position := Some (p\<lparr>po_close := Some c\<rparr>)\<rparr>" "co_decided_at_ms c = t"
  shows "decides t l l'"
proof -
  have "same_books l l'" by (rule position_books [OF assms(1,2), where c = "Some c"]) simp
  moreover have "leg_fresh O' t l'" if "leg_fresh O' T l" "T \<le> t" "new_ids O' t (leg_id l)" for O' T
    using that assms by (auto simp: leg_fresh_def new_ids_def leg_id_def intro: close_fresh_later)
  ultimately show ?thesis by (auto simp: decides_def)
qed

lemma phase_done_decides: "decides t l (l\<lparr>lg_phase := Ph_Done\<rparr>)"
proof -
  have "same_books l (l\<lparr>lg_phase := Ph_Done\<rparr>)" by (rule same_position_books) simp_all
  then show ?thesis
    by (auto simp: decides_def leg_fresh_def leg_id_def close_fresh_later split: option.splits)
qed

lemma close_on_fill_decides:
  assumes "co_decided_at_ms c = t" shows "decides t l (l\<lparr>lg_close_on_fill := Some c\<rparr>)"
proof -
  have "same_books l (l\<lparr>lg_close_on_fill := Some c\<rparr>)" by (rule same_position_books) simp_all
  then show ?thesis using assms
    by (auto simp: decides_def leg_fresh_def leg_id_def new_ids_def close_fresh_later split: option.splits)
qed

lemma order_close_decides:
  assumes "order_close cutoff reason grp t evs l p = Inr (evs', l')" "lg_position l = Some p"
  shows "decides t l l'"
  using assms by (auto simp: order_close_def bindR_Inr_iff intro: close_decided)

lemma protect_leg_decides: "protect_leg cutoff grp t i evs l = Inr (evs', l') \<Longrightarrow> decides t l l'"
  by (auto simp: protect_leg_def bindR_Inr_iff position_of_Inr split: if_splits intro: order_close_decides)

lemma exit_leg_decides: "exit_leg ex t a l = Inr (a', l') \<Longrightarrow> decides t l l'"
  by (drule exit_leg_shape) (auto intro: phase_done_decides close_on_fill_decides close_decided)

lemma stop_leg_decides: "stop_leg hit ca cutoff grp t a l = Inr (a', l') \<Longrightarrow> decides t l l'"
  by (drule stop_leg_shape) (auto intro: phase_done_decides close_on_fill_decides order_close_decides)

lemma begin_leg_decides:
  assumes "begin_leg mk t u wait evs l = Inr (evs', l')" shows "decides t l l'"
proof -
  note S = begin_leg_shape [OF assms]
  have "lg_phase l' = Ph_Ordered \<longrightarrow> lg_order_decided_at_ms l' = t"
    using assms
    by (cases "mk_pick mk (lg_setup l) t u"; cases wait)
      (auto simp: begin_leg_def Let_def bindR_Inr_iff split: option.splits)
  moreover have "same_books l l'" by (rule same_position_books) (use S in auto)
  ultimately show ?thesis using S
    by (auto simp: decides_def leg_fresh_def leg_id_def new_ids_def close_fresh_later split: option.splits)
qed

lemma check_momentum_decides:
  assumes "check_momentum mk t evs l = Inr (evs', l')" "lg_phase l = Ph_Waiting" shows "decides t l l'"
  using check_momentum_shape [OF assms(1)]
proof
  assume l': "l' = l\<lparr>lg_phase := Ph_Ordered, lg_order_decided_at_ms := t\<rparr> \<and> lg_attempt l \<noteq> None"
  have "same_books l l'" by (rule same_position_books) (use l' in auto)
  then show ?thesis using l' assms(2)
    by (auto simp: decides_def leg_fresh_def leg_id_def new_ids_def close_fresh_later split: option.splits)
qed simp

lemma enter_leg_decides: "enter_leg mk t evs l = Inr (evs', l') \<Longrightarrow> decides t l l'"
  by (auto simp: enter_leg_def reenter_def split: if_splits option.splits intro: begin_leg_decides check_momentum_decides)

lemma read_leg_bar_books:
  assumes "read_leg_bar mk t bars l = Inr (bars', l')"
    and "\<And>c t bar. mk_option_bar mk c t = Some bar \<Longrightarrow> is_finite (mb_close bar)"
  shows "same_books l l' \<and> (\<forall>O' T. leg_fresh O' T l' = leg_fresh O' T l)"
proof (cases "l' = l")
  case False
  then obtain p bar where p: "lg_position l = Some p" "mk_option_bar mk (at_contract (po_attempt p)) t = Some bar"
    and l': "l' = l\<lparr>lg_position := Some (p\<lparr>po_last_seen := \<lparr>ma_bar_close_ms = t, ma_price = mb_close bar\<rparr>\<rparr>)\<rparr>"
    using assms(1) by (auto simp: read_leg_bar_def bindR_Inr_iff position_of_Inr Let_def split: if_splits option.splits)
  have "same_books l l'"
    by (rule position_books [OF p(1) l', where m = "\<lparr>ma_bar_close_ms = t, ma_price = mb_close bar\<rparr>"]) (use assms(2) [OF p(2)] in simp)
  then show ?thesis using p(1) l' by (simp add: leg_fresh_def leg_id_def)
qed simp

subsection \<open>The books of a session\<close>

definition observed_ids :: "session \<Rightarrow> string set" where "observed_ids s = set (map fst (ss_observed s))"

definition session_cash :: "session \<Rightarrow> rat" where "session_cash s = (\<Sum>l\<leftarrow>ss_legs s. leg_cash l)"

definition decided_only :: "int \<Rightarrow> session \<Rightarrow> session \<Rightarrow> bool" where
  "decided_only t s s' \<longleftrightarrow> list_all2 (decides t) (ss_legs s) (ss_legs s') \<and> ss_observed s' = ss_observed s"

lemma decided_only_refl [simp]: "decided_only t s s"
  by (simp add: decided_only_def list_all2_refl)

lemma decided_only_trans: "decided_only t s s' \<Longrightarrow> decided_only t s' s'' \<Longrightarrow> decided_only t s s''"
  by (auto simp: decided_only_def intro: list_all2_trans [OF decides_trans])

lemma decided_only_flags [simp]: "decided_only t s (s'\<lparr>ss_exit_requested := b\<rparr>) = decided_only t s s'"
  "decided_only t s (s'\<lparr>ss_started := b\<rparr>) = decided_only t s s'" "decided_only t s (s'\<lparr>ss_skipped := k\<rparr>) = decided_only t s s'"
  by (simp_all add: decided_only_def)

lemma over_legs_decides:
  assumes "over_legs f s = Inr s'" "\<And>evs l evs' l'. f evs l = Inr (evs', l') \<Longrightarrow> decides t l l'"
  shows "decided_only t s s'"
proof -
  obtain evs legs where "sweep f (ss_events s) (ss_legs s) = Inr (evs, legs)" "s' = s\<lparr>ss_events := evs, ss_legs := legs\<rparr>"
    using assms(1) by (auto simp: over_legs_def bindR_Inr_iff)
  with assms(2) show ?thesis by (auto simp: decided_only_def intro!: sweep_list_all2)
qed

lemma stops_decides:
  assumes "stops et t bars s = Inr (s', d)" shows "decided_only t s s'"
proof (cases "s' = s")
  case False
  from stops_step [OF assms False] obtain hit ca evs lv so legs where
    sw: "sweep (stop_leg hit ca (cutoff_ms s) (ss_groups s + 1) t) (ss_events s, [], []) (ss_legs s) = Inr ((evs, lv, so), legs)"
    and r: "s' = s\<lparr>ss_groups := ss_groups s + 1, ss_events := evs, ss_legs := legs\<rparr>
      \<or> (\<exists>book. close_with_protection et t (ss_groups s + 1) book lv
            (s\<lparr>ss_groups := ss_groups s + 1, ss_events := evs, ss_legs := legs\<rparr>) = Inr s')" by metis
  have "list_all2 (decides t) (ss_legs s) legs" by (rule sweep_list_all2 [OF sw]) (rule stop_leg_decides)
  then have first: "decided_only t s (s\<lparr>ss_groups := ss_groups s + 1, ss_events := evs, ss_legs := legs\<rparr>)"
    by (simp add: decided_only_def)
  have "decided_only t s1 s2" if "close_with_protection et t grp book lv s1 = Inr s2" for grp book s1 s2
    by (rule close_with_protection_invariant [OF that, where I = "decided_only t s1"])
      (auto intro: decided_only_trans over_legs_decides protect_leg_decides)
  with r first show ?thesis by (auto intro: decided_only_trans)
qed simp

lemma advance_rules_decides:
  assumes "advance_rules sr t bars allow s = Inr s'" shows "decided_only t s s'"
proof (cases "exit_ms s \<le> t")
  case True
  then obtain x where x: "exit_time t s = Inr x" "s' = x\<lparr>ss_exit_requested := True\<rparr>"
    using assms by (auto simp: advance_rules_def bindR_Inr_iff)
  obtain evs n g legs where sw: "sweep (exit_leg (ss_exit_requested s) t) (ss_events s, ss_groups s, None) (ss_legs s)
      = Inr ((evs, n, g), legs)" and x': "x = s\<lparr>ss_events := evs, ss_groups := n, ss_legs := legs\<rparr>"
    using x(1) by (auto simp: exit_time_def bindR_Inr_iff)
  have "list_all2 (decides t) (ss_legs s) legs" by (rule sweep_list_all2 [OF sw]) (rule exit_leg_decides)
  then show ?thesis by (simp add: x x' decided_only_def)
next
  case False
  then obtain s1 d where "stops (sr_et_date sr) t bars s = Inr (s1, d)" "s' = s1 \<or> enter (sr_market sr) t s1 = Inr s'"
    using assms by (auto simp: advance_rules_def bindR_Inr_iff split: if_splits)
  moreover have "enter (sr_market sr) t s1 = Inr s' \<Longrightarrow> decided_only t s1 s'"
    by (auto simp: enter_def split: if_splits intro: over_legs_decides enter_leg_decides)
  ultimately show ?thesis using stops_decides decided_only_trans by blast
qed

lemma start_session_decides: "start_session sr t allow s = Inr s' \<Longrightarrow> decided_only t s s'"
proof -
  assume "start_session sr t allow s = Inr s'"
  note start_session_shape [OF this]
  moreover have "decided_only t (s\<lparr>ss_started := b\<rparr>) s' = decided_only t s s'" for b by (simp add: decided_only_def)
  ultimately show ?thesis by (auto dest!: over_legs_decides intro: begin_leg_decides)
qed

end
