(* ===== verification/Replay_Books.thy ===== *)
theory Replay_Books
  imports Replay_Accounts
begin

text \<open>
  The books of a replay: the invariant of its minutes, each step's proof that it keeps it, and what it makes of the
  outcome a replayed session reports.
\<close>

subsection \<open>Legs put back\<close>

lemma put_leg_sum:
  fixes f :: "leg \<Rightarrow> rat"
  assumes "distinct (map leg_id ls)" "l \<in> set ls" "leg_id l' = leg_id l"
  shows "(\<Sum>x\<leftarrow>put_leg l' ls. f x) = (\<Sum>x\<leftarrow>ls. f x) - f l + f l'"
  using assms
proof (induction ls)
  case (Cons x ls)
  show ?case
  proof (cases "x = l")
    case True
    with Cons.prems have "leg_id y \<noteq> leg_id l" if "y \<in> set ls" for y using that by (auto simp: image_iff)
    then have "put_leg l' ls = ls" using Cons.prems(3) unfolding put_leg_def by (intro map_idI) auto
    with True Cons.prems(3) show ?thesis by (simp add: put_leg_def)
  next
    case False
    with Cons have "leg_id x \<noteq> leg_id l'" by (auto simp: image_iff)
    with False Cons show ?thesis by (auto simp: put_leg_def)
  qed
qed simp

lemma put_leg_ids: "leg_id l' = leg_id l \<Longrightarrow> map leg_id (put_leg l' ls) = map leg_id ls"
  by (simp add: put_leg_def)

lemma put_leg_mem:
  assumes "distinct (map leg_id ls)" "l \<in> set ls" "leg_id l' = leg_id l"
  shows "x \<in> set (put_leg l' ls) \<longleftrightarrow> x = l' \<or> x \<in> set ls \<and> leg_id x \<noteq> leg_id l"
  using assms by (auto simp: put_leg_def)

lemma find_leg: "distinct (map leg_id ls) \<Longrightarrow> l \<in> set ls \<Longrightarrow> find (\<lambda>x. leg_id x = leg_id l) ls = Some l"
  by (induction ls) (auto simp: image_iff)

subsection \<open>The invariant\<close>

definition trades_of :: "replay \<Rightarrow> string \<Rightarrow> int" where
  "trades_of r i = int (length (filter (\<lambda>tr. lt_leg_id tr = i) (rp_trades r)))"

definition trade_numbers :: "string \<Rightarrow> leg_trade list \<Rightarrow> int list" where
  "trade_numbers i trs = map lt_entry_number (filter (\<lambda>tr. lt_leg_id tr = i) trs)"

definition numbered :: "int list \<Rightarrow> bool" where "numbered ns \<longleftrightarrow> ns = map int [0..<length ns]"

definition trades_count :: "replay \<Rightarrow> leg \<Rightarrow> bool" where
  "trades_count r l \<longleftrightarrow> trades_of r (leg_id l) + (if lg_position l = None then 0 else 1) = lg_entries_filled l
     \<and> numbered (trade_numbers (leg_id l) (rp_trades r))"

lemma numbered_simps [simp]: "numbered []" "numbered (ns @ [int (length ns)]) \<longleftrightarrow> numbered ns"
  by (auto simp: numbered_def)

definition closed_trade :: "leg_trade \<Rightarrow> bool" where
  "closed_trade tr \<longleftrightarrow> is_finite (lt_pnl tr) \<and> \<not> marked tr"

definition ids_named :: "string set \<Rightarrow> int \<Rightarrow> leg list \<Rightarrow> bool" where
  "ids_named O' T ls \<longleftrightarrow> (\<forall>x\<in>O'. \<exists>l\<in>set ls. \<exists>d\<le>T. x = entry_id (leg_id l) d \<or> x = close_id (leg_id l) d)"

definition replay_inv :: "rat \<Rightarrow> int \<Rightarrow> replay \<Rightarrow> bool" where
  "replay_inv start T r \<longleftrightarrow> session_inv (rp_session r) \<and> ss_started (rp_session r) \<and> setup_ok (rp_setup r)
     \<and> list_all leg_account (rp_legs r) \<and> list_all (leg_fresh (observed_ids (rp_session r)) T) (rp_legs r)
     \<and> ids_named (observed_ids (rp_session r)) T (rp_legs r)
     \<and> list_all (trades_count r) (rp_legs r) \<and> list_all closed_trade (rp_trades r)
     \<and> lt_leg_id ` set (rp_trades r) \<subseteq> set (map leg_id (rp_legs r))
     \<and> is_finite (rp_cash r)
     \<and> dval (rp_cash r) = start + (\<Sum>tr\<leftarrow>rp_trades r. dval (lt_pnl tr)) + session_cash (rp_session r)"

lemma inv_ids:
  assumes "replay_inv start T r"
  shows "distinct (map leg_id (rp_legs r))" "\<And>l. l \<in> set (rp_legs r) \<Longrightarrow> CHR '':'' \<notin> set (leg_id l)"
    "\<And>l. l \<in> set (rp_legs r) \<Longrightarrow> leg_inv l"
proof -
  have inv: "session_inv (rp_session r)" "setup_ok (rp_setup r)" using assms by (simp_all add: replay_inv_def)
  have same: "map lg_setup (rp_legs r) = bs_legs (rp_setup r)"
    using inv(1) by (simp add: session_inv_def state_describes_its_setup_def)
  show "distinct (map leg_id (rp_legs r))" using inv(1) by (simp add: session_inv_def ids_distinct_def)
  show "leg_inv l" if "l \<in> set (rp_legs r)" for l using inv(1) that by (simp add: session_inv_def list_all_iff)
  fix l assume "l \<in> set (rp_legs r)"
  then have "lg_setup l \<in> set (map lg_setup (rp_legs r))" by simp
  then have "leg_setup_ok (lg_setup l)"
    using inv(2) unfolding same by (simp add: setup_ok_def setup_fields_ok_def list_all_iff)
  then show "CHR '':'' \<notin> set (leg_id l)" by (simp add: leg_id_no_colon leg_setup_ok_def leg_id_def)
qed

text \<open>Legs that only decided something keep the books.\<close>

lemma decided_sum:
  assumes "list_all2 same_books ls ls'"
  shows "(\<Sum>l\<leftarrow>ls'. leg_cash l) = (\<Sum>l\<leftarrow>ls. leg_cash l)" "map leg_id ls' = map leg_id ls"
    "list_all leg_account ls \<Longrightarrow> list_all leg_account ls'" "list_all (trades_count r) ls \<Longrightarrow> list_all (trades_count r) ls'"
  using assms by (induction rule: list_all2_induct) (auto simp: same_books_def leg_id_def trades_count_def)

lemma same_named: "map leg_id ls' = map leg_id ls \<Longrightarrow> ids_named O' T ls \<Longrightarrow> T \<le> t \<Longrightarrow> ids_named O' t ls'"
proof -
  assume same: "map leg_id ls' = map leg_id ls" and named: "ids_named O' T ls" "T \<le> t"
  have "\<exists>l'\<in>set ls'. leg_id l' = leg_id l" if "l \<in> set ls" for l
  proof -
    have "leg_id l \<in> set (map leg_id ls')" unfolding same using that by simp
    then show ?thesis by auto
  qed
  with named show ?thesis unfolding ids_named_def by (metis order_trans)
qed

lemma replay_inv_session:
  assumes inv: "replay_inv start T r" and s: "session_inv s" "ss_started s" "ss_setup s = rp_setup r"
    and books: "list_all2 same_books (rp_legs r) (ss_legs s)" "ss_observed s = ss_observed (rp_session r)"
    and fresh: "list_all (leg_fresh (observed_ids (rp_session r)) t) (ss_legs s)" "T \<le> t"
  shows "replay_inv start t (r\<lparr>rp_session := s\<rparr>)"
proof -
  note D = decided_sum [OF books(1)]
  have "trades_count (r\<lparr>rp_session := s\<rparr>) = trades_count r" by (auto simp: trades_count_def trades_of_def fun_eq_iff)
  moreover have "observed_ids s = observed_ids (rp_session r)" using books(2) by (simp add: observed_ids_def)
  moreover have "session_cash s = session_cash (rp_session r)" using D(1) by (simp add: session_cash_def)
  ultimately show ?thesis
    using inv s fresh D(3) D(4) [of r] same_named [OF D(2) _ fresh(2)] D(2) by (simp add: replay_inv_def del: set_map)
qed

lemma named_new:
  assumes "ids_named O' T ls" "T < t" "CHR '':'' \<notin> set i" "\<And>l. l \<in> set ls \<Longrightarrow> CHR '':'' \<notin> set (leg_id l)"
  shows "new_ids O' t i"
  using assms by (fastforce simp: ids_named_def new_ids_def id_simps)

lemma replay_inv_decided:
  assumes inv: "replay_inv start T r" and s: "session_inv s" "ss_started s" "ss_setup s = rp_setup r"
    and d: "decided_only t (rp_session r) s" "T < t"
  shows "replay_inv start t (r\<lparr>rp_session := s\<rparr>)"
proof (rule replay_inv_session [OF inv s])
  let ?O = "observed_ids (rp_session r)"
  show "list_all2 same_books (rp_legs r) (ss_legs s)" "ss_observed s = ss_observed (rp_session r)"
    using d(1) by (auto simp: decided_only_def decides_def elim: list_all2_mono)
  have old: "list_all (leg_fresh ?O T) (rp_legs r)" "ids_named ?O T (rp_legs r)" using inv by (simp_all add: replay_inv_def)
  have all2: "list_all2 (decides t) (rp_legs r) (ss_legs s)" using d(1) by (simp add: decided_only_def)
  have "leg_fresh ?O t l'" if l': "l' \<in> set (ss_legs s)" for l'
  proof -
    obtain i where i: "i < length (ss_legs s)" "l' = ss_legs s ! i" using l' by (auto simp: in_set_conv_nth)
    then have len: "i < length (rp_legs r)" using list_all2_lengthD [OF all2] by simp
    then have m: "rp_legs r ! i \<in> set (rp_legs r)" by simp
    have "decides t (rp_legs r ! i) l'" using list_all2_nthD [OF all2 len] i(2) by simp
    moreover have "leg_fresh ?O T (rp_legs r ! i)" using old(1) m by (simp add: list_all_iff)
    moreover have "new_ids ?O t (leg_id (rp_legs r ! i))"
      by (rule named_new [OF old(2) d(2) inv_ids(2) [OF inv m] inv_ids(2) [OF inv]])
    ultimately show ?thesis using less_imp_le [OF d(2)] unfolding decides_def by blast
  qed
  then show "list_all (leg_fresh ?O t) (ss_legs s)" by (simp add: list_all_iff)
qed (use d(2) in simp)

subsection \<open>A leg put back\<close>

lemma put_keeps_session:
  assumes inv: "session_inv s" "ss_started s" and l: "l \<in> set (ss_legs s)" "keeps_leg l l'"
    and s': "s' = s\<lparr>ss_events := evs, ss_legs := put_leg l' (ss_legs s), ss_observed := obs\<rparr>"
  shows "session_inv s'" "ss_started s'"
proof -
  have "leg_id l' = leg_id l" using l(2) by (simp add: keeps_leg_def leg_id_def)
  then have "list_all2 keeps_leg (ss_legs s) (put_leg l' (ss_legs s))"
    using inv(1) l by (intro put_leg_all2) (auto simp: session_inv_def ids_distinct_def)
  then have "keeps_session s s'" by (simp add: s' keeps_session_def)
  then show "session_inv s'" using session_inv_kept [OF inv(1)] inv(2) s' by simp
  show "ss_started s'" using inv(2) s' by simp
qed

lemma fresh_other:
  assumes "leg_fresh O' T x" "CHR '':'' \<notin> set (leg_id x)" "CHR '':'' \<notin> set i" "leg_id x \<noteq> i"
    and "\<And>y. y \<in> X \<Longrightarrow> \<exists>d\<le>T. y = entry_id i d \<or> y = close_id i d"
  shows "leg_fresh (X \<union> O') T x"
proof -
  have "entry_id (leg_id x) d \<notin> X" "close_id (leg_id x) d \<notin> X" for d
    using assms(5) [of "entry_id (leg_id x) d"] assms(5) [of "close_id (leg_id x) d"] assms(4)
    by (auto simp: id_simps [OF assms(2,3)])
  then show ?thesis using assms(1) by (auto simp: leg_fresh_def close_fresh_def split: option.splits)
qed

lemma replay_inv_put:
  assumes inv: "replay_inv start T r" and l: "l \<in> set (rp_legs r)" "lg_setup l' = lg_setup l"
    and s: "session_inv (rp_session r')" "ss_started (rp_session r')" "rp_setup r' = rp_setup r"
    and legs: "rp_legs r' = put_leg l' (rp_legs r)"
    and obs: "observed_ids (rp_session r') = X \<union> observed_ids (rp_session r)"
      "\<And>x. x \<in> X \<Longrightarrow> \<exists>d\<le>T. x = entry_id (leg_id l) d \<or> x = close_id (leg_id l) d"
    and ok: "leg_account l'" "leg_fresh (X \<union> observed_ids (rp_session r)) T l'"
    and trades: "rp_trades r' = rp_trades r @ new" "list_all closed_trade new" "list_all (\<lambda>tr. lt_leg_id tr = leg_id l) new"
      "int (length new) + (if lg_position l' = None then 0 else 1) - (if lg_position l = None then 0 else 1)
         = lg_entries_filled l' - lg_entries_filled l"
      "new = [] \<or> (\<exists>tr. new = [tr] \<and> lt_entry_number tr = trades_of r (leg_id l))"
    and cash: "is_finite (rp_cash r')"
      "dval (rp_cash r') = dval (rp_cash r) + (\<Sum>tr\<leftarrow>new. dval (lt_pnl tr)) + leg_cash l' - leg_cash l"
  shows "replay_inv start T r'"
proof -
  have id: "leg_id l' = leg_id l" using l(2) by (simp add: leg_id_def)
  note ids = inv_ids [OF inv]
  note mem = put_leg_mem [OF ids(1) l(1) id]
  let ?O = "X \<union> observed_ids (rp_session r)"
  have "list_all leg_account (rp_legs r')" using inv ok(1) by (auto simp: legs list_all_iff mem replay_inv_def)
  moreover have "list_all (leg_fresh ?O T) (rp_legs r')"
    using inv ok(2) fresh_other [OF _ ids(2) ids(2) [OF l(1)] _ obs(2)]
    by (auto simp: legs list_all_iff mem replay_inv_def)
  moreover have "ids_named ?O T (rp_legs r')"
  proof -
    have "ids_named ?O T (rp_legs r)" using inv l(1) obs(2) by (fastforce simp: replay_inv_def ids_named_def)
    then show ?thesis using same_named [OF put_leg_ids [OF id] _ order_refl] by (simp add: legs)
  qed
  moreover have "list_all (trades_count r') (rp_legs r')"
  proof -
    have "trades_count r' x" if x: "x \<in> set (rp_legs r')" for x
    proof (cases "leg_id x = leg_id l")
      case True
      then have xl: "x = l'" using x by (simp add: legs mem)
      have "trades_count r l" using inv l(1) by (simp add: replay_inv_def list_all_iff)
      moreover have "filter (\<lambda>tr. lt_leg_id tr = leg_id l) new = new"
        using trades(3) by (simp add: filter_id_conv list_all_iff)
      then have "trades_of r' (leg_id l) = trades_of r (leg_id l) + int (length new)"
        using trades(1) by (simp add: trades_of_def)
      moreover have "numbered (trade_numbers (leg_id l) (rp_trades r')) = numbered (trade_numbers (leg_id l) (rp_trades r))"
        using trades(1,3,5) numbered_simps(2) [of "trade_numbers (leg_id l) (rp_trades r)"]
        by (auto simp: trade_numbers_def trades_of_def)
      ultimately show ?thesis using trades(4) by (simp add: xl id trades_count_def)
    next
      case False
      then have "trades_count r x" using x inv by (auto simp: legs mem replay_inv_def list_all_iff id)
      moreover have "filter (\<lambda>tr. lt_leg_id tr = leg_id x) new = []"
        using trades(3) False by (auto simp: filter_empty_conv list_all_iff)
      ultimately show ?thesis using trades(1) by (simp add: trades_count_def trades_of_def trade_numbers_def)
    qed
    then show ?thesis by (simp add: list_all_iff)
  qed
  moreover have "session_cash (rp_session r') = session_cash (rp_session r) - leg_cash l + leg_cash l'"
    using put_leg_sum [OF ids(1) l(1) id] by (simp add: session_cash_def legs)
  moreover have "lt_leg_id ` set (rp_trades r') \<subseteq> set (map leg_id (rp_legs r'))"
    unfolding legs put_leg_ids [OF id] using inv trades(1,3) l(1) by (auto simp: replay_inv_def list_all_iff)
  ultimately show ?thesis using inv s obs(1) trades(1,2) cash by (simp add: replay_inv_def del: set_map)
qed

text \<open>A step on the legs of some ids leaves the others as they are, so a loop over legs finds each as it was listed.\<close>

definition others :: "string set \<Rightarrow> replay \<Rightarrow> replay \<Rightarrow> bool" where
  "others touched r r' \<longleftrightarrow> rp_setup r' = rp_setup r \<and> (\<forall>x\<in>set (rp_legs r). leg_id x \<notin> touched \<longrightarrow> x \<in> set (rp_legs r'))"

lemma others_refl [simp]: "others touched r r" by (simp add: others_def)

lemma others_put:
  assumes "replay_inv start T r" "l \<in> set (rp_legs r)" "leg_id l' = leg_id l" "rp_legs r' = put_leg l' (rp_legs r)"
    "rp_setup r' = rp_setup r"
  shows "others {leg_id l} r r'"
  using assms by (simp add: others_def put_leg_mem [OF inv_ids(1) [OF assms(1)] assms(2,3)])

lemma fold_legs:
  assumes "foldR g s xs = Inr s'" "replay_inv start T (P s)" "rp_setup (P s) = su"
    and "distinct (map (\<lambda>x. leg_id (K x)) xs)" "\<And>x. x \<in> set xs \<Longrightarrow> K x \<in> set (rp_legs (P s))"
    and step: "\<And>s x s'. g s x = Inr s' \<Longrightarrow> replay_inv start T (P s) \<Longrightarrow> rp_setup (P s) = su \<Longrightarrow> x \<in> set xs \<Longrightarrow>
      K x \<in> set (rp_legs (P s)) \<Longrightarrow> replay_inv start T (P s') \<and> others {leg_id (K x)} (P s) (P s')"
  shows "replay_inv start T (P s') \<and> others ((\<lambda>x. leg_id (K x)) ` set xs) (P s) (P s')"
  using assms
proof (induction xs arbitrary: s)
  case (Cons x xs)
  then obtain s1 where st: "g s x = Inr s1" and rest: "foldR g s1 xs = Inr s'" by (auto simp: bindR_Inr_iff)
  have one: "replay_inv start T (P s1)" "others {leg_id (K x)} (P s) (P s1)"
    using Cons.prems(6) [OF st Cons.prems(2,3)] Cons.prems(5) by simp_all
  have mem: "K y \<in> set (rp_legs (P s1))" if "y \<in> set xs" for y
  proof -
    have "leg_id (K y) \<noteq> leg_id (K x)" using Cons.prems(4) that by (auto simp: image_iff)
    then show ?thesis using one(2) Cons.prems(5) [of y] that by (simp add: others_def)
  qed
  have "replay_inv start T (P s') \<and> others ((\<lambda>x. leg_id (K x)) ` set xs) (P s1) (P s')"
    by (rule Cons.IH [OF rest one(1)]) (use one(2) mem Cons.prems(3,4,6) in \<open>auto simp: others_def\<close>)
  with one(2) show ?case by (auto simp: others_def)
qed simp

subsection \<open>The opening group\<close>

text \<open>The market hands out prices and the fee is an amount: none of them is an infinity or not a number.\<close>

definition world_finite :: "replay_world \<Rightarrow> bool" where
  "world_finite w \<longleftrightarrow>
     (\<forall>c t bar. mk_option_bar (world_market w) c t = Some bar \<longrightarrow> is_finite (mb_open bar) \<and> is_finite (mb_close bar))
     \<and> (\<forall>f fee. rw_fee_for w f = Inr fee \<longrightarrow> is_finite fee)"

lemma fill_at_Inr:
  assumes "fill_at su l contract multiplier side t bar = Inr f" "setup_ok su" "is_finite (mb_open bar)"
  shows "is_finite (fl_filled f)" "fl_leg_id f = leg_id l" "fl_side f = side" "fl_contracts f = ls_contracts (lg_setup l)"
    "fl_multiplier f = multiplier" "fl_contract f = contract" "fl_bar_close_ms f = t"
proof -
  have su: "is_finite (bs_slippage_percent su)" "0 \<le> dval (bs_slippage_percent su)" "dval (bs_slippage_percent su) < 100"
    "is_finite (bs_price_step su)" "0 < dval (bs_price_step su)"
    using assms(2) by (auto simp: setup_ok_def setup_fields_ok_def percent_figure_def positive_figure_def field_figure_def
        dest!: setup_figure_finite)
  note F = fill_prices [OF assms(3) su(1) su(4) su(5) su(2) su(3)]
  obtain price where "trapR ((if side = Buy then buy_fill_price else sell_fill_price)
      (mb_open bar) (bs_slippage_percent su) (bs_price_step su)) = Inr price"
    and f: "f = \<lparr>fl_leg_id = leg_id l, fl_contract = contract, fl_side = side, fl_contracts = ls_contracts (lg_setup l),
      fl_multiplier = multiplier, fl_bar_close_ms = t, fl_seen = mb_open bar, fl_filled = price\<rparr>"
    using assms(1) by (auto simp: fill_at_def bindR_Inr_iff)
  then have "is_finite price" using F by (auto simp: liftR_Inr split: if_splits)
  then show "is_finite (fl_filled f)" "fl_leg_id f = leg_id l" "fl_side f = side" "fl_contracts f = ls_contracts (lg_setup l)"
    "fl_multiplier f = multiplier" "fl_contract f = contract" "fl_bar_close_ms f = t" by (simp_all add: f)
qed

definition entry_found :: "replay_world \<Rightarrow> int \<Rightarrow> backtest_setup \<Rightarrow> leg \<Rightarrow> taken_entry \<Rightarrow> bool" where
  "entry_found w t su l e \<longleftrightarrow> (\<exists>a. lg_attempt l = Some a \<and> mk_option_bar (world_market w) (at_contract a) t = Some (tk_bar e)
     \<and> fill_at su l (at_contract a) (at_multiplier a) (ls_side (lg_setup l)) t (tk_bar e) = Inr (tk_fill e)
     \<and> (tk_fee e = Finite 0 0 \<or> rw_fee_for w (tk_fill e) = Inr (tk_fee e)))"

lemma find_entries_found:
  assumes "find_entries w t su ordered = Inr found" "(i, e) \<in> set found"
  shows "\<exists>l\<in>set ordered. leg_id l = i \<and> entry_found w t su l e"
proof -
  define I where "I fs = (\<forall>x\<in>set fs. \<exists>l\<in>set ordered. leg_id l = fst x \<and> entry_found w t su l (snd x))" for fs
  have "I found"
    by (rule foldR_invariant [OF assms(1) [unfolded find_entries_def]])
      (fastforce simp: I_def entry_found_def bindR_Inr_iff position_of_Inr split: option.splits if_splits)+
  then show ?thesis using assms(2) unfolding I_def by (metis fst_conv snd_conv)
qed

lemma found_of_leg:
  assumes "find_entries w t su ordered = Inr found" "distinct (map leg_id ordered)" "l \<in> set ordered"
    "map_of found (leg_id l) = Some e"
  shows "entry_found w t su l e"
  using find_entries_found [OF assms(1) map_of_SomeD [OF assms(4)]] assms(2,3)
  by (auto simp: distinct_map inj_on_def)

lemma open_entry_books:
  assumes inv: "replay_inv start T r" and w: "world_finite w" and l: "l \<in> set (rp_legs r)" "lg_phase l = Ph_Ordered"
    and e: "entry_found w t (rp_setup r) l e" and o': "open_entry w t l e r = Inr r'"
  shows "replay_inv start T r' \<and> others {leg_id l} r r'"
proof -
  note ids = inv_ids [OF inv]
  let ?id = "entry_id (leg_id l) (lg_order_decided_at_ms l)" and ?O = "observed_ids (rp_session r)"
  define oc where "oc = \<lparr>eo_outcome_id = ?id, eo_leg_id = leg_id l,
    eo_entry_number = lg_entries_filled l, eo_kind = Entry_Order, eo_fill = Some (tk_fill e), eo_terminal = True,
    eo_fee_usd = tk_fee e, eo_mark = Some \<lparr>ma_bar_close_ms = t, ma_price = mb_close (tk_bar e)\<rparr>,
    eo_refusal = None, eo_decided_at_ms = None\<rparr>"
  obtain s effect cash where obs: "observe_execution (rw_around w) oc t (rp_session r) = Inr s"
    and ef: "taken_effect e = Inr effect" and c: "add_x (rp_cash r) effect = Inr cash"
    and r': "r' = r\<lparr>rp_session := s, rp_cash := cash\<rparr>"
    using o' by (auto simp: open_entry_def oc_def entry_id_def bindR_Inr_iff liftR_Inr)
  have fresh: "leg_fresh ?O T l" using inv l(1) by (simp add: replay_inv_def list_all_iff)
  then have new: "?id \<notin> ?O" "lg_order_decided_at_ms l \<le> T" using l(2) by (simp_all add: leg_fresh_def)
  then have none: "map_of (ss_observed (rp_session r)) (eo_outcome_id oc) = None"
    by (simp add: oc_def observed_ids_def map_of_eq_None_iff)
  have n: "lg_position l = None" using inv_not_held [OF ids(3) [OF l(1)]] l(2) by simp
  obtain m evs l' where m: "find (\<lambda>x. leg_id x = eo_leg_id oc) (rp_legs r) = Some m"
    and ob: "(if eo_kind oc = Entry_Order then observe_entry else observe_close)
           (ss_exit_requested (rp_session r)) oc t (ss_events (rp_session r)) m = Inr (evs, l')"
    and s: "s = (rp_session r)\<lparr>ss_events := evs, ss_legs := put_leg l' (rp_legs r),
           ss_observed := (eo_outcome_id oc, sr_digest (rw_around w) oc) # ss_observed (rp_session r)\<rparr>"
    using observe_execution_fresh [OF obs none] by metis
  have "m = l" using m find_leg [OF ids(1) l(1)] by (simp add: oc_def)
  with ob have ob: "observe_entry (ss_exit_requested (rp_session r)) oc t (ss_events (rp_session r)) l = Inr (evs, l')"
    by (simp add: oc_def)
  have fill: "eo_fill oc = Some (tk_fill e)" by (simp add: oc_def)
  obtain a level where a: "lg_attempt l = Some a" and l': "l' = l\<lparr>lg_reentries_left := (if 0 < lg_entries_filled l
      then lg_reentries_left l - 1 else lg_reentries_left l), lg_entries_filled := lg_entries_filled l + 1,
      lg_position := Some (first_position t oc (tk_fill e) a level l), lg_phase := Ph_Held\<rparr>"
    using observe_entry_first [OF ob fill n] by metis
  obtain bar: "mk_option_bar (world_market w) (at_contract a) t = Some (tk_bar e)"
    and f: "fill_at (rp_setup r) l (at_contract a) (at_multiplier a) (ls_side (lg_setup l)) t (tk_bar e) = Inr (tk_fill e)"
    and fee: "tk_fee e = Finite 0 0 \<or> rw_fee_for w (tk_fill e) = Inr (tk_fee e)"
    using e a by (auto simp: entry_found_def)
  have fin: "is_finite (mb_open (tk_bar e))" "is_finite (mb_close (tk_bar e))" "is_finite (tk_fee e)"
    using w bar fee by (auto simp: world_finite_def)
  have "setup_ok (rp_setup r)" using inv by (simp add: replay_inv_def)
  note F = fill_at_Inr [OF f this fin(1)]
  have ce: "is_finite effect" "dval effect = leg_cash l'"
    using ef cash_effect_Inr [OF _ F(1) fin(3)]
    by (auto simp: taken_effect_def liftR_Inr leg_cash_def l' position_cash_def first_position_def oc_def)
  have cf: "is_finite cash \<and> dval cash = dval (rp_cash r) + dval effect"
    using add_x_Inr [OF c _ ce(1)] inv by (simp add: replay_inv_def)
  have keeps: "keeps_session (rp_session r) s"
    by (rule observe_execution_keeps [OF obs])
      (use inv in \<open>auto simp: replay_inv_def session_inv_def answers_an_order_def oc_def\<close>)
  have sinv: "session_inv s" "ss_started s" "ss_setup s = rp_setup r"
    using session_inv_kept [OF _ keeps] inv by (auto simp: replay_inv_def s)
  have "replay_inv start T r'"
  proof (rule replay_inv_put [OF inv l(1), where l' = l' and X = "{?id}" and new = "[]"])
    show "leg_account l'"
      using F fin by (simp add: leg_account_def replay_position_def l' first_position_def oc_def)
    have "close_id i d \<noteq> ?id" if "CHR '':'' \<notin> set i" for i d using id_simps(4) [OF that ids(2) [OF l(1)]] .
    then show "leg_fresh ({?id} \<union> ?O) T l'"
      using fresh l(2) ids(2) [OF l(1)]
      by (auto simp: leg_fresh_def l' first_position_def leg_id_def close_fresh_def split: option.splits)
    show "observed_ids (rp_session r') = {?id} \<union> ?O" by (simp add: r' s observed_ids_def oc_def)
    show "\<exists>d\<le>T. x = entry_id (leg_id l) d \<or> x = close_id (leg_id l) d" if "x \<in> {?id}" for x
      using that new(2) by auto
    show "dval (rp_cash r') = dval (rp_cash r) + (\<Sum>tr\<leftarrow>[]. dval (lt_pnl tr)) + leg_cash l' - leg_cash l"
      using ce cf n by (simp add: r' leg_cash_def)
  qed (use sinv cf n in \<open>simp_all add: r' s l' fun_eq_iff\<close>)
  moreover have "leg_id l' = leg_id l" by (simp add: l' leg_id_def)
  ultimately show ?thesis using others_put [OF inv l(1), of l' r'] sinv(3) by (simp add: r' s)
qed

lemma with_leg_books:
  assumes inv: "replay_inv start T r" and l: "l \<in> set (rp_legs r)" "keeps_leg l l'"
    and l': "lg_position l = None" "lg_position l' = None" "lg_entries_filled l' = lg_entries_filled l"
    and fresh: "leg_fresh (observed_ids (rp_session r)) T l'"
  shows "replay_inv start T (with_leg evs l' r)"
proof (rule replay_inv_put [OF inv l(1), where l' = l' and X = "{}" and new = "[]"])
  have eq: "rp_session (with_leg evs l' r) = (rp_session r)\<lparr>ss_events := evs, ss_legs := put_leg l' (rp_legs r),
      ss_observed := ss_observed (rp_session r)\<rparr>" by (simp add: with_leg_def)
  have s: "session_inv (rp_session r)" "ss_started (rp_session r)" using inv by (simp_all add: replay_inv_def)
  show "session_inv (rp_session (with_leg evs l' r))" "ss_started (rp_session (with_leg evs l' r))"
    by (rule put_keeps_session [OF s l eq])+
  show "leg_account l'" using l'(2) by (simp add: leg_account_def)
qed (use inv l l' fresh in \<open>simp_all add: with_leg_def keeps_leg_def observed_ids_def leg_cash_def replay_inv_def\<close>)

lemma drop_entry_shape:
  "drop_entry t evs l = Inr (evs', l') \<Longrightarrow> l' = l\<lparr>lg_phase := Ph_Done\<rparr> \<or> l' = l\<lparr>lg_phase := Ph_Waiting\<rparr>"
  by (auto simp: drop_entry_def Let_def bindR_Inr_iff split: if_splits)

text \<open>A step of the opening group keeps the books and puts back one leg, so the legs still to come are as they were.\<close>

lemma enter_one_books:
  assumes inv: "replay_inv start T r" and w: "world_finite w" and l: "l \<in> set (rp_legs r)" "lg_phase l = Ph_Ordered"
    and e: "\<And>e. map_of found (leg_id l) = Some e \<Longrightarrow> entry_found w t (rp_setup r) l e"
    and o': "enter_one w t found refusals (r, filled) l = Inr (r', filled')"
  shows "replay_inv start T r' \<and> others {leg_id l} r r'"
proof -
  have fresh: "leg_fresh (observed_ids (rp_session r)) T l" using inv l(1) by (simp add: replay_inv_def list_all_iff)
  have n: "lg_position l = None" using inv_not_held [OF inv_ids(3) [OF inv l(1)]] l(2) by simp
  have idle: "lg_phase l \<noteq> Ph_Held" using l(2) by simp
  have put: ?thesis if "r' = with_leg evs l' r" "l' = l\<lparr>lg_phase := ph\<rparr>" "keeps_leg l l'"
    "leg_fresh (observed_ids (rp_session r)) T l'" for evs l' ph
  proof -
    have "replay_inv start T (with_leg evs l' r)" by (rule with_leg_books [OF inv l(1) that(3) n]) (use n that in simp_all)
    moreover have "leg_id l' = leg_id l" using that(2) by (simp add: leg_id_def)
    ultimately show ?thesis using others_put [OF inv l(1), of l' r'] that(1) by (simp add: with_leg_def)
  qed
  have finished: "leg_fresh (observed_ids (rp_session r)) T (l\<lparr>lg_phase := Ph_Done\<rparr>)"
    using fresh n by (simp add: leg_fresh_def leg_id_def)
  show ?thesis
  proof (cases "map_of found (leg_id l)")
    case None
    then obtain evs l' where d: "drop_entry t (ss_events (rp_session r)) l = Inr (evs, l')" "r' = with_leg evs l' r"
      using o' by (auto simp: enter_one_def Let_def bindR_Inr_iff)
    have "leg_fresh (observed_ids (rp_session r)) T (l\<lparr>lg_phase := Ph_Waiting\<rparr>)"
      using fresh n l(2) by (simp add: leg_fresh_def leg_id_def)
    then show ?thesis using drop_entry_shape [OF d(1)] drop_entry_keeps [OF d(1) l(2)] d(2) finished put by blast
  next
    case (Some e)
    show ?thesis
    proof (cases "map_of refusals (leg_id l)")
      case None
      then have "open_entry w t l e r = Inr r'"
        using o' Some by (auto simp: enter_one_def Let_def bindR_Inr_iff)
      then show ?thesis by (rule open_entry_books [OF inv w l assms(5) [OF Some]])
    next
      case (Some why)
      then obtain evs where "r' = with_leg evs (l\<lparr>lg_phase := Ph_Done\<rparr>) r"
        using o' \<open>map_of found (leg_id l) = Some e\<close> by (auto simp: enter_one_def Let_def)
      then show ?thesis using put [OF _ refl idle_updates_keep(1) [OF idle] finished] by blast
    qed
  qed
qed

lemma enter_all_books:
  assumes all: "foldR (enter_one w t found refusals) (r, filled) ls = Inr (r', filled')" and inv: "replay_inv start T r"
    and w: "world_finite w" and dist: "distinct (map leg_id ls)" and sub: "set ls \<subseteq> {l \<in> set (rp_legs r). lg_phase l = Ph_Ordered}"
    and e: "\<And>l e. l \<in> set ls \<Longrightarrow> map_of found (leg_id l) = Some e \<Longrightarrow> entry_found w t (rp_setup r) l e"
  shows "replay_inv start T r' \<and> rp_setup r' = rp_setup r"
proof -
  have "replay_inv start T (fst (r', filled')) \<and> others (leg_id ` set ls) (fst (r, filled)) (fst (r', filled'))"
  proof (rule fold_legs [OF all, where K = "\<lambda>x. x" and P = fst and su = "rp_setup r"])
    fix x l x' assume st: "enter_one w t found refusals x l = Inr x'" and x: "replay_inv start T (fst x)"
      "rp_setup (fst x) = rp_setup r" "l \<in> set ls" "l \<in> set (rp_legs (fst x))"
    obtain r1 f1 r2 f2 where x': "x = (r1, f1)" "x' = (r2, f2)" by (metis surj_pair)
    show "replay_inv start T (fst x') \<and> others {leg_id l} (fst x) (fst x')"
      using enter_one_books [OF _ w, of start T r1 l found t refusals f1 r2 f2] st x e sub by (auto simp: x')
  qed (use inv dist sub in auto)
  then show ?thesis by (simp add: others_def)
qed

lemma record_step_same:
  "record_step w t grp before bb r = Inr r' \<Longrightarrow> \<exists>steps. r' = r\<lparr>rp_steps := steps\<rparr>"
  by (auto simp: record_step_def bindR_Inr_iff split: if_splits)

lemma steps_inv [simp]:
  "replay_inv start T (r\<lparr>rp_steps := steps\<rparr>) = replay_inv start T r"
  "replay_inv start T (r\<lparr>rp_observed := seen\<rparr>) = replay_inv start T r"
proof -
  have "trades_count (r\<lparr>rp_steps := steps\<rparr>) = trades_count r" "trades_count (r\<lparr>rp_observed := seen\<rparr>) = trades_count r"
    by (auto simp: trades_count_def trades_of_def fun_eq_iff)
  then show "replay_inv start T (r\<lparr>rp_steps := steps\<rparr>) = replay_inv start T r"
    "replay_inv start T (r\<lparr>rp_observed := seen\<rparr>) = replay_inv start T r" by (simp_all add: replay_inv_def)
qed

lemma fill_entries_books:
  assumes inv: "replay_inv start T r" and w: "world_finite w" and f: "fill_entries w t r = Inr r'"
  shows "replay_inv start T r' \<and> rp_setup r' = rp_setup r"
proof (cases "r' = r")
  case False
  define ordered where "ordered = filter (\<lambda>l. lg_phase l = Ph_Ordered) (rp_legs r)"
  obtain found refusals r1 filled where found: "find_entries w t (rp_setup r) ordered = Inr found"
    and all: "foldR (enter_one w t found refusals) (r, False) ordered = Inr (r1, filled)"
    and r': "r' = r1 \<or> (\<exists>before. record_step w t Opening before [] r1 = Inr r')"
    using f False by (fastforce simp: fill_entries_def ordered_def [symmetric] Let_def bindR_Inr_iff split: if_splits)
  have dist: "distinct (map leg_id ordered)" using inv_ids(1) [OF inv] by (auto simp: ordered_def distinct_map inj_on_def)
  have "replay_inv start T r1 \<and> rp_setup r1 = rp_setup r"
    by (rule enter_all_books [OF all inv w dist]) (use found_of_leg [OF found dist] in \<open>auto simp: ordered_def\<close>)
  then show ?thesis using r' by (auto dest!: record_step_same)
qed (use inv in simp)

subsection \<open>The closing group\<close>

definition trade_result :: "position \<Rightarrow> trade_exit \<Rightarrow> rat" where
  "trade_result p leaving = position_cash p + (if fl_side (po_entry p) = Buy then 1 else - 1)
     * (dval (case leaving of Left_By_Fill f \<Rightarrow> fl_filled f | Left_By_Mark m \<Rightarrow> ma_price m)
        * of_int (fl_multiplier (po_entry p)) * of_int (fl_contracts (po_entry p)))"

lemma record_trade_books:
  assumes rec: "record_trade p c reason leaving fee r = Inr r'" and p: "replay_position l p" and fee: "is_finite fee"
    and out: "is_finite (case leaving of Left_By_Fill f \<Rightarrow> fl_filled f | Left_By_Mark m \<Rightarrow> ma_price m)"
  obtains tr where "r' = r\<lparr>rp_trades := rp_trades r @ [tr]\<rparr>" "lt_leg_id tr = fl_leg_id (po_entry p)" "lt_exit tr = leaving"
    "lt_entry tr = po_entry p" "lt_entry_number tr = po_entry_number p" "lt_multiplier tr = fl_multiplier (po_entry p)" "lt_contracts tr = fl_contracts (po_entry p)"
    "is_finite (lt_pnl tr)" "dval (lt_pnl tr) = trade_result p leaving - dval fee"
proof -
  have p': "is_finite (fl_filled (po_entry p))" "is_finite (po_entry_fee p)" using p by (simp_all add: replay_position_def)
  let ?out = "case leaving of Left_By_Fill f \<Rightarrow> fl_filled f | Left_By_Mark m \<Rightarrow> ma_price m"
  obtain pnl where pnl: "trade_pnl (if fl_side (po_entry p) = Sell then ?out else fl_filled (po_entry p))
        (if fl_side (po_entry p) = Sell then fl_filled (po_entry p) else ?out)
        (fl_multiplier (po_entry p)) (fl_contracts (po_entry p)) (po_entry_fee p) fee = Inr pnl"
    and r': "r' = r\<lparr>rp_trades := rp_trades r @ [\<lparr>lt_leg_id = fl_leg_id (po_entry p), lt_entry_number = po_entry_number p,
             lt_contract = fl_contract (po_entry p), lt_contracts = fl_contracts (po_entry p), lt_multiplier = fl_multiplier (po_entry p),
             lt_starting_price = at_starting_price (po_attempt p), lt_momentum_level = at_momentum_level (po_attempt p),
             lt_stop_level = po_stop_level p, lt_entry_decided_at_ms = po_entry_decided_at_ms p, lt_entry = po_entry p,
             lt_exit_reason = reason, lt_exit_group = co_group c, lt_exit_decided_at_ms = co_decided_at_ms c,
             lt_exit = leaving, lt_entry_fee = po_entry_fee p, lt_exit_fee = fee, lt_pnl = pnl\<rparr>]\<rparr>"
    using rec by (auto simp: record_trade_def Let_def bindR_Inr_iff liftR_Inr split: if_splits)
  have "is_finite pnl \<and> dval pnl = trade_result p leaving - dval fee"
    using trade_pnl_Inr [OF pnl _ _ p'(2) fee] p'(1) out
    by (cases "fl_side (po_entry p)") (auto simp: trade_result_def position_cash_def algebra_simps)
  then show thesis by (intro that [OF r']) simp_all
qed

lemma entry_names_leg:
  assumes "leg_inv l" "lg_position l = Some p"
  shows "fl_leg_id (po_entry p) = leg_id l" "po_entry_number p = lg_entries_filled l - 1"
  using assms by (simp_all add: leg_inv_def leg_describes_def position_describes_def leg_id_def)

lemma close_leg_books:
  assumes inv: "replay_inv start T r" and w: "world_finite w" and l: "l \<in> set (rp_legs r)" and bar: "is_finite (mb_open bar)"
    and o': "close_leg w t (l, bar) r = Inr r'"
  shows "replay_inv start T r' \<and> others {leg_id l} r r'"
proof -
  note ids = inv_ids [OF inv]
  let ?O = "observed_ids (rp_session r)"
  obtain p c where p: "lg_position l = Some p" and c: "po_close p = Some c"
    using o' by (auto simp: close_leg_def bindR_Inr_iff position_of_Inr split: option.splits)
  let ?id = "close_id (leg_id l) (co_decided_at_ms c)"
  define side where "side = (if fl_side (po_entry p) = Sell then Buy else Sell)"
  obtain f fee effect cash r1 s where f: "fill_at (rp_setup r) l (at_contract (po_attempt p)) (at_multiplier (po_attempt p)) side t bar = Inr f"
    and fee: "rw_fee_for w f = Inr fee"
    and ef: "cash_effect side (fl_filled f) (fl_multiplier f) (fl_contracts f) fee = Inr effect"
    and cash: "add_x (rp_cash r) effect = Inr cash"
    and rec: "record_trade p c (co_reason c) (Left_By_Fill f) fee (r\<lparr>rp_cash := cash\<rparr>) = Inr r1"
    and obs: "observe_execution (rw_around w) \<lparr>eo_outcome_id = ?id, eo_leg_id = leg_id l,
              eo_entry_number = po_entry_number p, eo_kind = Close_Order, eo_fill = Some f, eo_terminal = True,
              eo_fee_usd = fee, eo_mark = None, eo_refusal = None, eo_decided_at_ms = None\<rparr> t (rp_session r1) = Inr s"
    and r': "r' = r1\<lparr>rp_session := s\<rparr>"
    using o' p c by (auto simp: close_leg_def Let_def side_def [symmetric] close_id_def bindR_Inr_iff position_of_Inr liftR_Inr)
  define oc where "oc = \<lparr>eo_outcome_id = ?id, eo_leg_id = leg_id l,
              eo_entry_number = po_entry_number p, eo_kind = Close_Order, eo_fill = Some f, eo_terminal = True,
              eo_fee_usd = fee, eo_mark = None, eo_refusal = None, eo_decided_at_ms = None\<rparr>"
  have acc: "replay_position l p" using inv l p by (auto simp: replay_inv_def list_all_iff leg_account_def)
  have fin: "is_finite fee" using w fee by (auto simp: world_finite_def)
  have "setup_ok (rp_setup r)" using inv by (simp add: replay_inv_def)
  note F = fill_at_Inr [OF f this bar]
  have lid: "fl_leg_id (po_entry p) = leg_id l"
    by (rule entry_names_leg(1) [OF ids(3) [OF l] p])
  obtain tr where r1: "r1 = r\<lparr>rp_cash := cash, rp_trades := rp_trades r @ [tr]\<rparr>" and tr: "lt_leg_id tr = leg_id l"
      "lt_exit tr = Left_By_Fill f" "is_finite (lt_pnl tr)" "dval (lt_pnl tr) = trade_result p (Left_By_Fill f) - dval fee"
      "lt_entry_number tr = po_entry_number p"
    by (rule record_trade_books [OF rec acc fin]) (use F(1) lid in auto)
  have fresh: "leg_fresh ?O T l" using inv l by (simp add: replay_inv_def list_all_iff)
  then have new: "?id \<notin> ?O" "co_decided_at_ms c \<le> T" using p c by (simp_all add: leg_fresh_def)
  then have none: "map_of (ss_observed (rp_session r)) (eo_outcome_id oc) = None"
    by (simp add: oc_def observed_ids_def map_of_eq_None_iff)
  have obs: "observe_execution (rw_around w) oc t (rp_session r) = Inr s" using obs by (simp add: oc_def r1)
  obtain m evs l' where m: "find (\<lambda>x. leg_id x = eo_leg_id oc) (rp_legs r) = Some m"
    and ob: "(if eo_kind oc = Entry_Order then observe_entry else observe_close)
           (ss_exit_requested (rp_session r)) oc t (ss_events (rp_session r)) m = Inr (evs, l')"
    and s: "s = (rp_session r)\<lparr>ss_events := evs, ss_legs := put_leg l' (rp_legs r),
           ss_observed := (eo_outcome_id oc, sr_digest (rw_around w) oc) # ss_observed (rp_session r)\<rparr>"
    using observe_execution_fresh [OF obs none] by metis
  have "m = l" using m find_leg [OF ids(1) l] by (simp add: oc_def)
  with ob have ob: "observe_close (ss_exit_requested (rp_session r)) oc t (ss_events (rp_session r)) l = Inr (evs, l')"
    by (simp add: oc_def)
  have fill: "eo_fill oc = Some f" by (simp add: oc_def)
  have "finish_closed (ss_exit_requested (rp_session r)) (l\<lparr>lg_position := Some (reduced_position f p)\<rparr>) = Inr l'"
    using observe_close_shape [OF ob fill] p by auto
  then have l': "lg_position l' = None" "lg_setup l' = lg_setup l" "lg_entries_filled l' = lg_entries_filled l"
      "lg_phase l' = Ph_Done \<or> lg_phase l' = Ph_Earned"
    using acc F(4) by (auto simp: finish_closed_def reduced_position_def replay_position_def Let_def bindR_Inr_iff
        position_of_Inr split: if_splits)
  have ce: "is_finite effect" "dval effect = trade_result p (Left_By_Fill f) - dval fee - leg_cash l"
    using cash_effect_Inr [OF ef F(1) fin] F(4,5) acc p
    by (cases "fl_side (po_entry p)"; simp add: side_def trade_result_def leg_cash_def replay_position_def)+
  have cf: "is_finite cash \<and> dval cash = dval (rp_cash r) + dval effect"
    using add_x_Inr [OF cash _ ce(1)] inv by (simp add: replay_inv_def)
  have keeps: "keeps_session (rp_session r) s"
    by (rule observe_execution_keeps [OF obs])
      (use inv in \<open>auto simp: replay_inv_def session_inv_def answers_an_order_def oc_def\<close>)
  have sinv: "session_inv s" "ss_started s" "ss_setup s = rp_setup r"
    using session_inv_kept [OF _ keeps] inv by (auto simp: replay_inv_def s)
  have number: "lt_entry_number tr = trades_of r (leg_id l)"
    using entry_names_leg(2) [OF ids(3) [OF l] p] inv l p tr(5) by (auto simp: replay_inv_def list_all_iff trades_count_def)
  have "replay_inv start T r'"
  proof (rule replay_inv_put [OF inv l l'(2), where X = "{?id}" and new = "[tr]"])
    show "leg_account l'" using l'(1) by (simp add: leg_account_def)
    show "leg_fresh ({?id} \<union> ?O) T l'" using l'(1,4) by (auto simp: leg_fresh_def)
    show "observed_ids (rp_session r') = {?id} \<union> ?O" by (simp add: r' s observed_ids_def oc_def)
    show "\<exists>d\<le>T. x = entry_id (leg_id l) d \<or> x = close_id (leg_id l) d" if "x \<in> {?id}" for x
      using that new(2) by auto
    show "list_all closed_trade [tr]" using tr by (simp add: closed_trade_def marked_def)
    show "dval (rp_cash r') = dval (rp_cash r) + (\<Sum>tr\<leftarrow>[tr]. dval (lt_pnl tr)) + leg_cash l' - leg_cash l"
      using ce cf tr(4) l'(1) by (simp add: r' r1 leg_cash_def)
  qed (use sinv cf p l'(1,3) tr(1) number in \<open>simp_all add: r' r1 s\<close>)
  moreover have "leg_id l' = leg_id l" using l'(2) by (simp add: leg_id_def)
  ultimately show ?thesis using others_put [OF inv l, of l' r'] sinv(3) by (simp add: r' r1 s)
qed

lemma due_closes_facts:
  assumes "due_closes bars ls = Inr due" "distinct (map leg_id ls)"
  shows "\<forall>x\<in>set due. fst x \<in> set ls \<and> bar_of bars (leg_id (fst x)) = Some (snd x)"
    "distinct (map (\<lambda>x. leg_id (fst x)) due)"
proof -
  have "(\<forall>x\<in>set due. fst x \<in> set ls \<and> bar_of bars (leg_id (fst x)) = Some (snd x)) \<and> distinct (map (\<lambda>x. leg_id (fst x)) due)"
    using assms
  proof (induction ls arbitrary: due)
    case (Cons l ls)
    obtain here rest where d: "due = here @ rest" "due_closes bars ls = Inr rest"
      and here: "here = [] \<or> (\<exists>bar. bar_of bars (leg_id l) = Some bar \<and> here = [(l, bar)])"
      using Cons.prems(1) by (auto simp: due_closes_def bindR_Inr_iff split: if_splits option.splits)
    have "leg_id (fst x) \<noteq> leg_id l" if "x \<in> set rest" for x
    proof -
      have "fst x \<in> set ls" using Cons.IH [OF d(2)] Cons.prems(2) that by simp
      then have "leg_id (fst x) \<in> leg_id ` set ls" by (rule imageI)
      moreover have "leg_id l \<notin> leg_id ` set ls" using Cons.prems(2) by simp
      ultimately show ?thesis by metis
    qed
    then show ?case using Cons.IH [OF d(2)] Cons.prems(2) here d(1) by auto
  qed (simp add: due_closes_def)
  then show "\<forall>x\<in>set due. fst x \<in> set ls \<and> bar_of bars (leg_id (fst x)) = Some (snd x)"
    "distinct (map (\<lambda>x. leg_id (fst x)) due)" by simp_all
qed

lemma fill_closes_books:
  assumes inv: "replay_inv start T r" and w: "world_finite w" and f: "fill_closes w t bars r = Inr r'"
    and bars: "\<And>i b. bar_of bars i = Some b \<Longrightarrow> is_finite (mb_open b)"
  shows "replay_inv start T r' \<and> rp_setup r' = rp_setup r"
proof -
  obtain due where due: "due_closes bars (rp_legs r) = Inr due" using f by (auto simp: fill_closes_def bindR_Inr_iff)
  note D = due_closes_facts [OF due inv_ids(1) [OF inv]]
  have open_fin: "is_finite (mb_open (snd x))" if "x \<in> set due" for x using D(1) bars that by blast
  show ?thesis
  proof (cases "due = []")
    case True
    then show ?thesis using f due inv by (simp add: fill_closes_def)
  next
    case False
    define buy_backs sales where "buy_backs = filter (\<lambda>x. ls_side (lg_setup (fst x)) = Sell) due"
      and "sales = filter (\<lambda>x. ls_side (lg_setup (fst x)) = Buy) due"
    obtain r1 h r2 h2 closed where bought: "foldR (\<lambda>r x. close_leg w t x r) r buy_backs = Inr r1"
      and sell: "foldR (sell_one w t) (r1, h, buy_backs \<noteq> []) sales = Inr (r2, h2, closed)"
      and r': "r' = r2 \<or> (\<exists>before bb. record_step w t Closing before bb r2 = Inr r')"
      using f due False
      by (auto simp: fill_closes_def Let_def bindR_Inr_iff buy_backs_def [symmetric] sales_def [symmetric] split: if_splits; blast)
    have sub: "set buy_backs \<subseteq> set due" "set sales \<subseteq> set due" by (auto simp: buy_backs_def sales_def)
    have dist: "distinct (map (\<lambda>x. leg_id (fst x)) buy_backs)" "distinct (map (\<lambda>x. leg_id (fst x)) sales)"
      using D(2) by (simp_all add: buy_backs_def sales_def distinct_map_filter)
    have "replay_inv start T r1 \<and> others ((\<lambda>x. leg_id (fst x)) ` set buy_backs) r r1"
    proof (rule fold_legs [OF bought, where K = fst and P = "\<lambda>r. r" and su = "rp_setup r"])
      fix s x s' assume a: "close_leg w t x s = Inr s'" "replay_inv start T s" "x \<in> set buy_backs" "fst x \<in> set (rp_legs s)"
      have "is_finite (mb_open (snd x))" using open_fin sub(1) a(3) by blast
      from close_leg_books [OF a(2) w a(4) this, of t s'] a(1)
      show "replay_inv start T s' \<and> others {leg_id (fst x)} s s'" by simp
    qed (use inv dist sub D(1) in auto)
    then have one: "replay_inv start T r1" "others ((\<lambda>x. leg_id (fst x)) ` set buy_backs) r r1" by simp_all
    have there: "fst x \<in> set (rp_legs r1)" if x: "x \<in> set sales" for x
    proof -
      have "leg_id (fst x) \<noteq> leg_id (fst y)" if y: "y \<in> set buy_backs" for y
      proof
        assume "leg_id (fst x) = leg_id (fst y)"
        then have "x = y" using D(2) x y sub by (auto simp: distinct_map inj_on_def)
        then show False using x y by (simp add: buy_backs_def sales_def)
      qed
      then have "leg_id (fst x) \<notin> (\<lambda>x. leg_id (fst x)) ` set buy_backs" by blast
      moreover have "fst x \<in> set (rp_legs r)" using D(1) sub(2) x by blast
      ultimately show ?thesis using one(2) by (simp add: others_def)
    qed
    have "replay_inv start T (fst (r2, h2, closed)) \<and> others ((\<lambda>x. leg_id (fst x)) ` set sales) (fst (r1, h, buy_backs \<noteq> [])) (fst (r2, h2, closed))"
    proof (rule fold_legs [OF sell, where K = fst and P = fst and su = "rp_setup r"])
      fix s x s' assume a: "sell_one w t s x = Inr s'" "replay_inv start T (fst s)" "x \<in> set sales" "fst x \<in> set (rp_legs (fst s))"
      then have "fst s' = fst s \<or> close_leg w t x (fst s) = Inr (fst s')"
        by (auto simp: sell_one_def bindR_Inr_iff split: prod.splits if_splits option.splits)
      moreover have "is_finite (mb_open (snd x))" using open_fin sub(2) a(3) by blast
      ultimately show "replay_inv start T (fst s') \<and> others {leg_id (fst x)} (fst s) (fst s')"
        using close_leg_books [OF a(2) w a(4), of "snd x" t "fst s'"] a(2) by auto
    qed (use one dist there in \<open>auto simp: others_def\<close>)
    then show ?thesis using one(2) r' by (auto simp: others_def dest!: record_step_same)
  qed
qed

subsection \<open>A minute\<close>

lemma held_bars_read:
  assumes "read_held_bars mk t s = Inr (s', bars)" "bar_of bars i = Some b"
  shows "\<exists>c. mk_option_bar mk c t = Some b"
proof -
  obtain legs where sw: "sweep (read_leg_bar mk t) [] (ss_legs s) = Inr (bars, legs)"
    using assms(1) by (auto simp: read_held_bars_def bindR_Inr_iff)
  have "\<forall>i b. bar_of bars i = Some b \<longrightarrow> (\<exists>c. mk_option_bar mk c t = Some b)"
    by (rule sweep_carried [OF sw])
      (auto simp: bar_of_def read_leg_bar_def bindR_Inr_iff Let_def update_conv' split: if_splits option.splits)
  then show ?thesis using assms(2) by blast
qed

lemma read_held_bars_inv:
  assumes inv: "replay_inv start T r" and w: "world_finite w" and r': "read_held_bars (world_market w) t (rp_session r) = Inr (s', bars)"
  shows "replay_inv start T (r\<lparr>rp_session := s'\<rparr>) \<and> ss_setup s' = rp_setup r"
proof -
  obtain legs where sw: "sweep (read_leg_bar (world_market w) t) [] (rp_legs r) = Inr (bars, legs)"
    and s': "s' = (rp_session r)\<lparr>ss_legs := legs\<rparr>"
    using r' by (auto simp: read_held_bars_def bindR_Inr_iff)
  let ?O = "observed_ids (rp_session r)"
  have step: "same_books l l' \<and> (\<forall>O' T. leg_fresh O' T l' = leg_fresh O' T l)"
    if "read_leg_bar (world_market w) t b l = Inr (b', l')" for b l b' l'
    by (rule read_leg_bar_books [OF that]) (use w in \<open>auto simp: world_finite_def\<close>)
  have books: "list_all2 same_books (rp_legs r) legs" by (rule sweep_list_all2 [OF sw]) (use step in blast)
  have fresh: "list_all (leg_fresh ?O T) legs"
    by (rule sweep_keeps [OF sw]) (use inv step in \<open>auto simp: replay_inv_def\<close>)
  have keeps: "keeps_session (rp_session r) s'" by (rule read_held_bars_keeps [OF r'])
  have "session_inv s'" using session_inv_kept [OF _ keeps] inv by (auto simp: replay_inv_def s')
  then show ?thesis
    using replay_inv_session [OF inv, of s' T] books fresh inv by (auto simp: s' replay_inv_def)
qed

lemma advance_rules_replay:
  assumes inv: "replay_inv start T r" "T < t" and a: "advance_rules (rw_around w) t bars allow (rp_session r) = Inr s'"
  shows "replay_inv start t (r\<lparr>rp_session := s'\<rparr>) \<and> ss_setup s' = rp_setup r"
proof -
  have k: "keeps_session (rp_session r) s'" by (rule advance_rules_keeps [OF a])
  have st: "ss_started s'" using advance_rules_started [OF a] inv by (simp add: replay_inv_def)
  have s: "session_inv s'" using session_inv_kept [OF _ k] st inv by (simp add: replay_inv_def)
  have su: "ss_setup s' = rp_setup r" using k by (simp add: keeps_session_def)
  show ?thesis using replay_inv_decided [OF inv(1) s st su advance_rules_decides [OF a] inv(2)] su by simp
qed

lemma observe_minute_same: "observe_minute w t bars r = Inr r' \<Longrightarrow> \<exists>seen. r' = r\<lparr>rp_observed := seen\<rparr>"
  by (auto simp: observe_minute_def Let_def bindR_Inr_iff split: if_splits intro: exI [of _ "rp_observed r"])

lemma observe_minutes_same:
  assumes "observe_minutes w ts r = Inr r'" shows "\<exists>seen. r' = r\<lparr>rp_observed := seen\<rparr>"
proof (cases "rw_observing w")
  case True
  then have "foldR (\<lambda>r t. observe_minute w t [] r) r ts = Inr r'" using assms by (simp add: observe_minutes_def)
  then show ?thesis
    by (rule foldR_invariant [where I = "\<lambda>x. \<exists>seen. x = r\<lparr>rp_observed := seen\<rparr>"])
      (auto intro: exI [of _ "rp_observed r"] dest!: observe_minute_same)
next
  case False
  then show ?thesis using assms by (auto simp: observe_minutes_def intro: exI [of _ "rp_observed r"])
qed

lemma replay_minute_books:
  assumes inv: "replay_inv start T r" "T < t" and w: "world_finite w" and m: "replay_minute w r t = Inr r'"
  shows "replay_inv start t r' \<and> rp_setup r' = rp_setup r"
proof -
  obtain r1 s2 bars r3 s4 where f: "fill_entries w t r = Inr r1"
    and rd: "read_held_bars (world_market w) t (rp_session r1) = Inr (s2, bars)"
    and c: "fill_closes w t bars (r1\<lparr>rp_session := s2\<rparr>) = Inr r3"
    and a: "advance_rules (rw_around w) t bars True (rp_session r3) = Inr s4"
    and o': "observe_minute w t bars (r3\<lparr>rp_session := s4\<rparr>) = Inr r'"
    using m by (auto simp: replay_minute_def bindR_Inr_iff)
  have 1: "replay_inv start T r1 \<and> rp_setup r1 = rp_setup r" by (rule fill_entries_books [OF inv(1) w f])
  have fin: "is_finite (mb_open b)" if "bar_of bars i = Some b" for i b
    using held_bars_read [OF rd that] w unfolding world_finite_def by blast
  from 1 have 2: "replay_inv start T (r1\<lparr>rp_session := s2\<rparr>) \<and> ss_setup s2 = rp_setup r1"
    using read_held_bars_inv [OF _ w rd] by blast
  have 3: "replay_inv start T r3 \<and> rp_setup r3 = ss_setup s2"
    using fill_closes_books [OF conjunct1 [OF 2] w c fin] by simp
  then have 4: "replay_inv start t (r3\<lparr>rp_session := s4\<rparr>) \<and> ss_setup s4 = rp_setup r3"
    using advance_rules_replay [OF _ inv(2) a] by blast
  obtain seen where "r' = r3\<lparr>rp_session := s4\<rparr>\<lparr>rp_observed := seen\<rparr>" using observe_minute_same [OF o'] by blast
  then show ?thesis using 1 2 3 4 by simp
qed

lemma replay_minutes_books:
  assumes "foldR (replay_minute w) r ts = Inr r'" "replay_inv start T r" "world_finite w"
    "sorted_wrt (<) ts" "\<And>t. t \<in> set ts \<Longrightarrow> T < t"
  shows "\<exists>T'. replay_inv start T' r' \<and> rp_setup r' = rp_setup r"
  using assms
proof (induction ts arbitrary: r T)
  case (Cons t ts)
  then obtain r1 where m: "replay_minute w r t = Inr r1" and rest: "foldR (replay_minute w) r1 ts = Inr r'"
    by (auto simp: bindR_Inr_iff)
  have one: "replay_inv start t r1 \<and> rp_setup r1 = rp_setup r"
    by (rule replay_minute_books [OF Cons.prems(2) _ Cons.prems(3) m]) (use Cons.prems(5) in simp)
  then show ?case using Cons.IH [OF rest _ Cons.prems(3), of t] Cons.prems(4) by simp
qed auto

lemma minute_range_sorted: "sorted_wrt (<) (minute_range a b)"
  by (simp add: minute_range_def sorted_wrt_map sorted_wrt_iff_nth_less ms_per_minute_def)

lemma minute_range_after: "t \<in> set (minute_range a b) \<Longrightarrow> a \<le> t"
  by (auto simp: minute_range_def ms_per_minute_def)

subsection \<open>The end of the session\<close>

text \<open>What a marked trade's exit is worth: a bought leg's mark counts for the run, a sold leg's against it.\<close>

definition marked_worth :: "leg_trade \<Rightarrow> rat" where
  "marked_worth tr = (if marked tr
     then (if is_sold_leg tr then - 1 else 1) * (dval (exit_price tr) * of_int (lt_multiplier tr) * of_int (lt_contracts tr)) else 0)"

definition sound_trade :: "leg_trade \<Rightarrow> bool" where
  "sound_trade tr \<longleftrightarrow> is_finite (lt_pnl tr) \<and> (marked tr \<longrightarrow> is_finite (exit_price tr))"

text \<open>The legs \<open>ls\<close> are marked on top of the trades of \<open>r\<close>.\<close>

definition marks_added :: "replay \<Rightarrow> leg list \<Rightarrow> replay \<Rightarrow> bool" where
  "marks_added r ls r' \<longleftrightarrow> (\<exists>new. rp_trades r' = rp_trades r @ new \<and> rp_cash r' = rp_cash r \<and> rp_legs r' = rp_legs r
     \<and> rp_setup r' = rp_setup r \<and> list_all sound_trade new
     \<and> (\<Sum>tr\<leftarrow>new. dval (lt_pnl tr)) = (\<Sum>l\<leftarrow>ls. leg_cash l) + (\<Sum>tr\<leftarrow>new. marked_worth tr)
     \<and> map (\<lambda>tr. (lt_leg_id tr, lt_entry_number tr)) new
         = map (\<lambda>l. (leg_id l, lg_entries_filled l - 1)) (filter (\<lambda>l. lg_position l \<noteq> None) ls))"

lemma mark_leg_added:
  assumes m: "mark_leg close_ms r l = Inr r'" and inv: "leg_inv l" and acc: "leg_account l"
  shows "marks_added r [l] r'"
proof (cases "lg_position l")
  case None
  then show ?thesis using m inv_held [OF inv] by (auto simp: mark_leg_def marks_added_def leg_cash_def bindR_Inr_iff position_of_Inr split: if_splits)
next
  case (Some p)
  have held: "lg_phase l = Ph_Held" by (rule inv_held [OF inv Some])
  have pos: "replay_position l p" using acc Some by (simp add: leg_account_def)
  obtain c reason r1 evs where rec: "record_trade p c reason (Left_By_Mark (po_last_seen p)) (Finite 0 0) r = Inr r1"
    and r': "r' = r1\<lparr>rp_session := (rp_session r1)\<lparr>ss_events := evs\<rparr>\<rparr>"
    using m held Some by (auto simp: mark_leg_def Let_def bindR_Inr_iff position_of_Inr split: option.splits)
  obtain tr where tr: "r1 = r\<lparr>rp_trades := rp_trades r @ [tr]\<rparr>" "lt_leg_id tr = fl_leg_id (po_entry p)"
    "lt_exit tr = Left_By_Mark (po_last_seen p)" "lt_entry tr = po_entry p" "lt_entry_number tr = po_entry_number p"
    "lt_multiplier tr = fl_multiplier (po_entry p)" "lt_contracts tr = fl_contracts (po_entry p)"
    "is_finite (lt_pnl tr)" "dval (lt_pnl tr) = trade_result p (Left_By_Mark (po_last_seen p)) - dval (Finite 0 0)"
    by (rule record_trade_books [OF rec pos]) (use pos in \<open>auto simp: replay_position_def\<close>)
  have worth: "marked_worth tr = trade_result p (Left_By_Mark (po_last_seen p)) - position_cash p"
    using tr by (cases "fl_side (po_entry p)") (simp_all add: marked_worth_def trade_result_def marked_def is_sold_leg_def exit_price_def)
  have "sound_trade tr" using tr pos by (simp add: sound_trade_def exit_price_def replay_position_def)
  then show ?thesis
    using tr worth Some entry_names_leg [OF inv Some] by (auto simp: marks_added_def r' leg_cash_def intro!: exI [of _ "[tr]"])
qed

lemma marks_added_trans: "marks_added r ls r' \<Longrightarrow> marks_added r' ls' r'' \<Longrightarrow> marks_added r (ls @ ls') r''"
proof -
  assume "marks_added r ls r'" "marks_added r' ls' r''"
  then obtain new new' where n: "rp_trades r' = rp_trades r @ new" "rp_cash r' = rp_cash r" "rp_legs r' = rp_legs r"
     "rp_setup r' = rp_setup r" "list_all sound_trade new"
     "(\<Sum>tr\<leftarrow>new. dval (lt_pnl tr)) = (\<Sum>l\<leftarrow>ls. leg_cash l) + (\<Sum>tr\<leftarrow>new. marked_worth tr)"
     "map (\<lambda>tr. (lt_leg_id tr, lt_entry_number tr)) new
        = map (\<lambda>l. (leg_id l, lg_entries_filled l - 1)) (filter (\<lambda>l. lg_position l \<noteq> None) ls)"
    and n': "rp_trades r'' = rp_trades r' @ new'" "rp_cash r'' = rp_cash r'" "rp_legs r'' = rp_legs r'"
     "rp_setup r'' = rp_setup r'" "list_all sound_trade new'"
     "(\<Sum>tr\<leftarrow>new'. dval (lt_pnl tr)) = (\<Sum>l\<leftarrow>ls'. leg_cash l) + (\<Sum>tr\<leftarrow>new'. marked_worth tr)"
     "map (\<lambda>tr. (lt_leg_id tr, lt_entry_number tr)) new'
        = map (\<lambda>l. (leg_id l, lg_entries_filled l - 1)) (filter (\<lambda>l. lg_position l \<noteq> None) ls')"
    unfolding marks_added_def by blast
  show ?thesis unfolding marks_added_def by (rule exI [of _ "new @ new'"]) (use n n' in simp)
qed

lemma marks_added_all:
  assumes "foldR (mark_leg close_ms) r ls = Inr r'" "list_all leg_inv ls" "list_all leg_account ls"
  shows "marks_added r ls r'"
  using assms
proof (induction ls arbitrary: r)
  case Nil
  then show ?case by (simp add: marks_added_def)
next
  case (Cons l ls)
  then obtain r1 where "mark_leg close_ms r l = Inr r1" "foldR (mark_leg close_ms) r1 ls = Inr r'"
    by (auto simp: bindR_Inr_iff)
  then show ?case using Cons marks_added_trans [OF mark_leg_added] by fastforce
qed

lemma started_fresh:
  assumes su: "setup_ok su" and s: "options_session su mk None = Inr s"
    and st: "start_session sr (entry_ms s) True s = Inr s1" and cash: "is_finite cash"
  shows "replay_inv (dval cash) (entry_ms s) \<lparr>rp_session = s1, rp_cash = cash, rp_trades = [], rp_steps = [], rp_observed = []\<rparr>"
    "ss_setup s1 = su"
proof -
  define r where "r = \<lparr>rp_session = s\<lparr>ss_started := True\<rparr>, rp_cash = cash, rp_trades = [], rp_steps = [], rp_observed = []\<rparr>"
  have eq: "s = fresh_session su mk" using s by (auto simp: options_session_def fresh_session_def split: if_splits)
  have legs: "ss_legs s = map fresh_leg (bs_legs su)" by (simp add: eq fresh_session_def)
  have idle: "list_all idle_leg (ss_legs s)" by (auto simp: legs list_all_iff idle_leg_def fresh_leg_def)
  have inv: "session_inv s" by (rule fresh_inv [OF su s])
  then have inv0: "session_inv (s\<lparr>ss_started := True\<rparr>)"
    by (simp add: session_inv_def state_describes_its_setup_def ids_distinct_def cong: option.case_cong)
  have "leg_account l" "leg_fresh O' T l" "trades_count r l" "leg_cash l = 0" if "idle_leg l" for l O' T
    using that by (simp_all add: idle_leg_def leg_account_def leg_fresh_def trades_count_def trades_of_def trade_numbers_def
        leg_cash_def r_def)
  then have all: "list_all leg_account (rp_legs r)" "list_all (leg_fresh {} (entry_ms s - 1)) (rp_legs r)"
    "list_all (trades_count r) (rp_legs r)" "map leg_cash (rp_legs r) = map (\<lambda>_. 0) (rp_legs r)"
    using idle by (auto simp: r_def list_all_iff)
  have "session_cash (rp_session r) = sum_list (map (\<lambda>_. 0) (rp_legs r))"
    using arg_cong [OF all(4), of sum_list] by (simp only: session_cash_def)
  then have zero: "session_cash (rp_session r) = 0" by simp
  have "observed_ids (rp_session r) = {}" by (simp add: r_def observed_ids_def eq fresh_session_def)
  moreover have "session_inv (rp_session r)" "ss_started (rp_session r)" "rp_setup r = su" "rp_cash r = cash" "rp_trades r = []"
    using inv0 by (simp_all add: r_def) (simp add: eq fresh_session_def)
  ultimately have "replay_inv (dval cash) (entry_ms s - 1) r"
    using su cash all(1-3) zero by (simp add: replay_inv_def ids_named_def)
  have k: "keeps_session s s1" by (rule start_session_keeps [OF st idle])
  have started: "ss_started s1" by (rule start_session_started [OF st])
  have s1: "session_inv s1" using session_inv_kept [OF inv k] started by simp
  have "decided_only (entry_ms s) (s\<lparr>ss_started := True\<rparr>) s1"
    using start_session_decides [OF st] by (simp add: decided_only_def)
  with \<open>replay_inv (dval cash) (entry_ms s - 1) r\<close> have "replay_inv (dval cash) (entry_ms s) (r\<lparr>rp_session := s1\<rparr>)"
    using replay_inv_decided [of "dval cash" "entry_ms s - 1" r s1 "entry_ms s"] s1 started k
    by (simp add: r_def keeps_session_def)
  then show "replay_inv (dval cash) (entry_ms s) \<lparr>rp_session = s1, rp_cash = cash, rp_trades = [], rp_steps = [], rp_observed = []\<rparr>"
    by (simp add: r_def)
  show "ss_setup s1 = su" using k by (simp add: keeps_session_def eq fresh_session_def)
qed

text \<open>A replayed session was skipped, or its minutes kept the books up to the marks and the outcome.\<close>

lemma replay_session_cases:
  assumes run: "replay_session su w cash = Inr (so, seen)" and su: "setup_ok su" and w: "world_finite w" and cash: "is_finite cash"
  obtains (skipped) reason where "so = skipped_outcome reason"
  | (ran) T r r' where "replay_inv (dval cash) T r" "rp_setup r = su" "mark_what_is_held r = Inr r'" "outcome_of cash r' = Inr so"
proof -
  obtain s where s: "options_session su (world_market w) None = Inr s"
    and rr: "run_replay w cash \<lparr>rp_session = s, rp_cash = cash, rp_trades = [], rp_steps = [], rp_observed = []\<rparr> = Inr (so, seen)"
    using run by (auto simp: replay_session_def Let_def bindR_Inr_iff split: if_splits)
  show thesis
  proof (cases "so_status so = Skipped")
    case True
    have "so_status so \<noteq> Skipped" if "outcome_of c x = Inr so" for c x
      using that by (auto simp: outcome_of_def Let_def bindR_Inr_iff split: if_splits)
    then obtain reason where "so = skipped_outcome reason"
      using rr True by (auto simp: run_replay_def Let_def bindR_Inr_iff split: if_splits option.splits)
    then show thesis by (rule skipped)
  next
    case False
    have no: "so \<noteq> skipped_outcome reason" for reason using False by (auto simp: skipped_outcome_def)
    obtain s1 r2 r3 r4 where st: "start_session (rw_around w) (entry_ms s) True s = Inr s1"
      and o': "observe_minutes w (minute_range (ss_open_ms s) (entry_ms s + ms_per_minute))
        \<lparr>rp_session = s1, rp_cash = cash, rp_trades = [], rp_steps = [], rp_observed = []\<rparr> = Inr r2"
      and m: "foldR (replay_minute w) r2 (minute_range (entry_ms s + ms_per_minute) (ss_close_ms s + ms_per_minute)) = Inr r3"
      and e: "mark_what_is_held r3 = Inr r4" "outcome_of cash r4 = Inr so"
      using rr no by (auto simp: run_replay_def Let_def bindR_Inr_iff no split: if_splits option.splits)
    note I = started_fresh [OF su s st cash]
    obtain obs where r2: "r2 = \<lparr>rp_session = s1, rp_cash = cash, rp_trades = [], rp_steps = [], rp_observed = []\<rparr>\<lparr>rp_observed := obs\<rparr>"
      using observe_minutes_same [OF o'] by blast
    have "replay_inv (dval cash) (entry_ms s) r2" unfolding r2 steps_inv by (rule I(1))
    moreover have "entry_ms s < t" if "t \<in> set (minute_range (entry_ms s + ms_per_minute) (ss_close_ms s + ms_per_minute))" for t
      using minute_range_after [OF that] by (simp add: ms_per_minute_def)
    ultimately obtain T where T: "replay_inv (dval cash) T r3" "rp_setup r3 = rp_setup r2"
      using replay_minutes_books [OF m _ w minute_range_sorted] by blast
    have "rp_setup r3 = su" using T(2) I(2) by (simp add: r2)
    then show thesis by (rule ran [OF T(1) _ e])
  qed
qed

lemma outcome_facts:
  assumes inv: "replay_inv start T r" and m: "mark_what_is_held r = Inr r'" and out: "outcome_of cash r' = Inr so" and cash: "is_finite cash"
  obtains new where "mset (so_trades so) = mset (rp_trades r @ new)" "marks_added r (rp_legs r) r'" "rp_trades r' = rp_trades r @ new"
    "is_finite (so_cash_change so)" "dval (so_cash_change so) = dval (rp_cash r) - dval cash"
proof -
  have "marks_added r (rp_legs r) r'"
    by (rule marks_added_all [OF m [unfolded mark_what_is_held_def]]) (use inv in \<open>auto simp: replay_inv_def session_inv_def\<close>)
  moreover then obtain new where n: "rp_trades r' = rp_trades r @ new" "rp_cash r' = rp_cash r"
    unfolding marks_added_def by blast
  moreover obtain change where ch: "sub_x (rp_cash r') cash = Inr change" "so_cash_change so = change"
    "mset (so_trades so) = mset (rp_trades r')"
    using out by (auto simp: outcome_of_def Let_def bindR_Inr_iff liftR_Inr)
  moreover have "is_finite change \<and> dval change = dval (rp_cash r) - dval cash"
    using sub_x_Inr [OF ch(1) _ cash] inv n(2) by (simp add: replay_inv_def)
  ultimately show thesis using that [of new] by simp
qed

end
