(* ===== verification/Replay_Outcome.thy ===== *)
theory Replay_Outcome
  imports Replay_Books
begin

text \<open>
  What a replayed session's outcome says: its profit is the cash that moved and what its marks are worth, and its trades
  are the entries of each leg, numbered from nought and no more than its setup allows.
\<close>

subsection \<open>Evaluating a replay\<close>

text \<open>The text of an instant, computed on integers: the natural numbers of \<open>show_nat\<close> are unary for the evaluator.\<close>

function show_digits :: "int \<Rightarrow> string" where
  "show_digits k = (if k < 10 then [digit_char (nat k)] else show_digits (k div 10) @ [digit_char (nat (k mod 10))])"
  by auto
termination by (relation "measure nat") auto

declare show_digits.simps [simp del]

lemma show_digits_nat: "0 \<le> k \<Longrightarrow> show_digits k = show_nat (nat k)"
proof (induction k rule: show_digits.induct)
  case (1 k)
  show ?case
  proof (cases "k < 10")
    case False
    then have "show_digits k = show_nat (nat (k div 10)) @ [digit_char (nat (k mod 10))]"
      using 1 by (simp add: show_digits.simps [of k])
    then show ?thesis using False 1(2) by (simp add: show_nat.simps [of "nat k"] nat_div_distrib nat_mod_distrib)
  qed (use 1(2) in \<open>simp add: show_digits.simps [of k] show_nat.simps [of "nat k"]\<close>)
qed

lemma ms_text_digits [code]: "ms_text t = (if t < 0 then ''-'' else '''') @ show_digits \<bar>t\<bar>"
  by (simp add: ms_text_def show_digits_nat)

subsection \<open>The figures of an outcome\<close>

lemma sum_add_x:
  assumes "foldR (\<lambda>total x. trapR (add_x total (f x))) z xs = Inr p" "is_finite z" "\<And>x. x \<in> set xs \<Longrightarrow> is_finite (f x)"
  shows "is_finite p \<and> dval p = dval z + (\<Sum>x\<leftarrow>xs. dval (f x))"
  using assms
proof (induction xs arbitrary: z)
  case (Cons x xs)
  then obtain z1 where z1: "add_x z (f x) = Inr z1" and rest: "foldR (\<lambda>total x. trapR (add_x total (f x))) z1 xs = Inr p"
    by (auto simp: bindR_Inr_iff liftR_Inr)
  have "is_finite z1 \<and> dval z1 = dval z + dval (f x)" using add_x_Inr [OF z1 Cons.prems(2)] Cons.prems(3) by simp
  then show ?case using Cons.IH [OF rest] Cons.prems(3) by simp
qed simp

lemma pnl_usd_sum:
  assumes "pnl_usd so = Inr p" "list_all sound_trade (so_trades so)"
  shows "dval p = (\<Sum>tr\<leftarrow>so_trades so. dval (lt_pnl tr))"
  using sum_add_x [OF assms(1) [unfolded pnl_usd_def]] assms(2) by (auto simp: list_all_iff sound_trade_def)

lemma marked_value_sum:
  assumes "marked_value_usd so = Inr m" "list_all sound_trade (so_trades so)"
  shows "dval m = (\<Sum>tr\<leftarrow>so_trades so. marked_worth tr)"
proof -
  let ?f = "\<lambda>total tr. if marked tr
     then bindR (trapR (order_value (exit_price tr) (lt_multiplier tr) (lt_contracts tr))) (\<lambda>value.
            trapR (add_x total (if is_sold_leg tr then dneg value else value)))
     else Inr total"
  have step: "is_finite z' \<and> dval z' = dval z + marked_worth tr"
    if st: "?f z tr = Inr z'" "is_finite z" "sound_trade tr" for z tr z'
  proof (cases "marked tr")
    case True
    then obtain v where v: "order_value (exit_price tr) (lt_multiplier tr) (lt_contracts tr) = Inr v"
      and a: "add_x z (if is_sold_leg tr then dneg v else v) = Inr z'"
      using st(1) by (auto simp: bindR_Inr_iff liftR_Inr)
    have "is_finite v \<and> dval v = dval (exit_price tr) * of_int (lt_multiplier tr) * of_int (lt_contracts tr)"
      using order_value_Inr [OF v] True st(3) by (simp add: sound_trade_def)
    then show ?thesis using add_x_Inr [OF a st(2)] True by (simp add: marked_worth_def split: if_splits)
  qed (use st in \<open>simp add: marked_worth_def\<close>)
  have "is_finite m \<and> dval m = dval z + (\<Sum>tr\<leftarrow>trs. marked_worth tr)"
    if "foldR ?f z trs = Inr m" "is_finite z" "list_all sound_trade trs" for z trs
    using that
  proof (induction trs arbitrary: z)
    case (Cons tr trs)
    then obtain z1 where z1: "?f z tr = Inr z1" and rest: "foldR ?f z1 trs = Inr m" by (auto simp only: foldR.simps bindR_Inr_iff)
    show ?case using step [OF z1 Cons.prems(2)] Cons.IH [OF rest] Cons.prems(3) by simp
  qed simp
  from this [OF assms(1) [unfolded marked_value_usd_def] _ assms(2)] show ?thesis by simp
qed

lemma sum_list_mset_eq:
  fixes f :: "leg_trade \<Rightarrow> rat"
  shows "mset xs = mset ys \<Longrightarrow> (\<Sum>x\<leftarrow>xs. f x) = (\<Sum>x\<leftarrow>ys. f x)"
  by (metis mset_map sum_mset_sum_list)

lemma replayed_trades:
  assumes run: "replay_session su w cash = Inr (so, seen)" "setup_ok su" "world_finite w" "is_finite cash"
  shows "list_all sound_trade (so_trades so) \<and> is_finite (so_cash_change so)
    \<and> (\<Sum>tr\<leftarrow>so_trades so. dval (lt_pnl tr)) = dval (so_cash_change so) + (\<Sum>tr\<leftarrow>so_trades so. marked_worth tr)"
  using run
proof (cases rule: replay_session_cases)
  case (skipped reason)
  then show ?thesis by (simp add: skipped_outcome_def)
next
  case (ran T r r')
  obtain new where n: "mset (so_trades so) = mset (rp_trades r @ new)" "marks_added r (rp_legs r) r'" "rp_trades r' = rp_trades r @ new"
    and ch: "is_finite (so_cash_change so)" "dval (so_cash_change so) = dval (rp_cash r) - dval cash"
    by (rule outcome_facts [OF ran(1,3,4) assms(4)])
  have new: "list_all sound_trade new"
    "(\<Sum>tr\<leftarrow>new. dval (lt_pnl tr)) = session_cash (rp_session r) + (\<Sum>tr\<leftarrow>new. marked_worth tr)"
    using n(2,3) by (auto simp: marks_added_def session_cash_def)
  have old: "list_all closed_trade (rp_trades r)"
    "dval (rp_cash r) = dval cash + (\<Sum>tr\<leftarrow>rp_trades r. dval (lt_pnl tr)) + session_cash (rp_session r)"
    using ran(1) by (simp_all add: replay_inv_def)
  have "map marked_worth (rp_trades r) = map (\<lambda>_. 0) (rp_trades r)"
    using old(1) by (auto simp: list_all_iff closed_trade_def marked_worth_def)
  then have none: "(\<Sum>tr\<leftarrow>rp_trades r. marked_worth tr) = 0" by (metis sum_list_0)
  have "list_all sound_trade (rp_trades r)" using old(1) by (auto simp: list_all_iff closed_trade_def sound_trade_def)
  then have "list_all sound_trade (so_trades so)"
    using new(1) mset_eq_setD [OF n(1)] by (auto simp: list_all_iff)
  moreover have "(\<Sum>tr\<leftarrow>so_trades so. dval (lt_pnl tr)) = dval (so_cash_change so) + (\<Sum>tr\<leftarrow>so_trades so. marked_worth tr)"
    using sum_list_mset_eq [OF n(1)] new(2) old(2) none ch(2) by simp
  ultimately show ?thesis using ch(1) by simp
qed



subsection \<open>A session replayed\<close>

text \<open>Two bought calls, one sold again at the close and one whose last minute has no bar, so that it is marked.\<close>

definition day_leg :: "string \<Rightarrow> leg_setup" where
  "day_leg i = \<lparr>ls_leg_id = i, ls_side = Buy, ls_right = Call, ls_contracts = 2, ls_expiry = Same_Day,
     ls_strike = At_The_Money, ls_stop_loss = None, ls_momentum = None, ls_reentry = None\<rparr>"

definition day_setup :: backtest_setup where
  "day_setup = \<lparr>bs_underlying = ''SPY'',
     bs_entry = \<lparr>st_anchor = Open_Anchor, st_offset_ms = 60000\<rparr>,
     bs_exit = \<lparr>st_anchor = Close_Anchor, st_offset_ms = 60000\<rparr>, bs_no_reentry_after = None,
     bs_square_off = Partial, bs_legs = [day_leg ''a'', day_leg ''b''], bs_slippage_percent = Finite 0 0,
     bs_price_step = Finite 1 0, bs_fees = Not_Charged, bs_starting_cash = Finite 10000 0\<rparr>"

definition day_market :: market where
  "day_market = \<lparr>mk_open_ms = 0, mk_close_ms = 240000, mk_underlying_close = (\<lambda>_. Some (Finite 475 0)),
     mk_pick = (\<lambda>l _ _. Picked (book_call (if ls_leg_id l = ''a'' then 475000 else 480000)) 100),
     mk_option_bar = (\<lambda>c t. if oc_strike c = 480000 \<and> t = 240000 then None else Some \<lparr>mb_close_ms = t, mb_open = Finite (if t = 240000 then 3 else 2) 0,
        mb_high = Finite 4 0, mb_low = Finite 1 0, mb_close = Finite 4 0\<rparr>)\<rparr>"

definition day_world :: replay_world where
  "day_world = \<lparr>rw_around = \<lparr>sr_market = day_market, sr_digest = eo_outcome_id, sr_et_date = (\<lambda>_. (2024, 1, 19))\<rparr>,
     rw_fee_for = (\<lambda>f. Inr (Finite 1 0)), rw_observing = False\<rparr>"

lemma day_replayed:
  "(case replay_session day_setup day_world (Finite 10000 0) of
      Inr (so, _) \<Rightarrow> map marked (so_trades so) = [False, True] \<and> trade_numbers ''a'' (so_trades so) = [0]
        \<and> so_cash_change so = Finite (- 203) 0
        \<and> pnl_usd so = Inr (Finite 597 0) \<and> marked_value_usd so = Inr (Finite 800 0)
    | Inl _ \<Rightarrow> False)"
  by code_simp

lemma day_setup_ok: "setup_ok day_setup"
  by (simp add: setup_ok_def setup_fields_ok_def day_setup_def day_leg_def session_time_ok_def ms_per_day_def
      ms_per_minute_def max_legs_def leg_setup_ok_def leg_id_ok_def leg_id_char_def max_contracts_def positive_figure_def
      percent_figure_def field_figure_def setup_figure_def strip_def trail.simps digits_def show_nat.simps stop_leaves_something_def reentry_has_momentum_def
      underlying_ok_def validate_setup_def every_leg_has_its_own_id_def the_window_can_hold_a_trade_def
      reentry_rules_can_be_reached_def stop_can_close_def sold_covered_by_bought_def contracts_of_def
      one_expiry_rule_when_selling_def setup_sells_def)

lemma day_world_finite: "world_finite day_world"
  by (simp add: world_finite_def day_world_def day_market_def is_finite_def split: if_splits)

text \<open>
  C5: the profit of a replayed session is the cash that moved plus what its marked legs are worth at their marks, a sold
  leg's mark counted against it: exactly, for every session the replay returns, whether legs were closed, marked,
  re-entered, refused or never entered. The figures \<open>pnl_usd\<close> and \<open>marked_value_usd\<close> are those sums.
\<close>

theorem profit_is_cash_and_marks:
  assumes "replay_session su w cash = Inr (so, seen)" "setup_ok su" "world_finite w" "is_finite cash"
    and "pnl_usd so = Inr pnl" "marked_value_usd so = Inr marks"
  shows "is_finite (so_cash_change so) \<and> dval pnl = dval (so_cash_change so) + dval marks
    \<and> dval pnl = (\<Sum>tr\<leftarrow>so_trades so. dval (lt_pnl tr))"
  using replayed_trades [OF assms(1-4)] pnl_usd_sum [OF assms(5)] marked_value_sum [OF assms(6)] by simp

theorem profit_is_cash_and_marks_witness:
  "\<exists>so seen. replay_session day_setup day_world (Finite 10000 0) = Inr (so, seen) \<and> map marked (so_trades so) = [False, True]
     \<and> (597 :: rat) = dval (so_cash_change so) + 800"
proof -
  obtain so seen where so: "replay_session day_setup day_world (Finite 10000 0) = Inr (so, seen)" "map marked (so_trades so) = [False, True]"
    "pnl_usd so = Inr (Finite 597 0)" "marked_value_usd so = Inr (Finite 800 0)"
    using day_replayed by (cases "replay_session day_setup day_world (Finite 10000 0)") auto
  have "is_finite (Finite 10000 0)" by simp
  from profit_is_cash_and_marks [OF so(1) day_setup_ok day_world_finite this so(3,4)] so(1,2) show ?thesis by auto
qed



end
