(* ===== verification/Capital_Evidence.thy ===== *)
theory Capital_Evidence
  imports Replay_Outcome
begin

text \<open>
  \<open>app/options_backtest/capital_evidence.py\<close>: how far the cash provably carried a run, read from the money steps of its
  replayed sessions. Amounts are subtracted in the exact context of the fills; \<open>max\<close> and \<open>min\<close> keep the first of
  equal figures, as Python's do.
\<close>

subsection \<open>Errors of a run\<close>

datatype run_error =
    Run_Value_Error
  | Run_Trap fill_error
  | Run_Session session_error

definition exactR :: "(fill_error, 'a) result \<Rightarrow> (run_error, 'a) result" where
  "exactR m = (case m of Inl e \<Rightarrow> Inl (Run_Trap e) | Inr x \<Rightarrow> Inr x)"
definition replayR :: "(session_error, 'a) result \<Rightarrow> (run_error, 'a) result" where
  "replayR m = (case m of Inl e \<Rightarrow> Inl (Run_Session e) | Inr x \<Rightarrow> Inr x)"

lemma run_Inr [result_simps]: "exactR m = Inr x \<longleftrightarrow> m = Inr x" "replayR m' = Inr y \<longleftrightarrow> m' = Inr y"
  by (cases m; cases m'; simp add: exactR_def replayR_def)+

definition dmax :: "decimal \<Rightarrow> decimal \<Rightarrow> decimal" where "dmax a b = (if dval a < dval b then b else a)"
definition dmin :: "decimal \<Rightarrow> decimal \<Rightarrow> decimal" where "dmin a b = (if dval b < dval a then b else a)"

subsection \<open>What a session says of its money\<close>

datatype capital_invalid_kind = Unfunded_Close | Position_Marked

record capital_invalid_event =
  ci_kind :: capital_invalid_kind
  ci_session_open_ms :: int
  ci_at_ms :: "int option"
  ci_free_cash_after :: "decimal option"

record capital_session =
  cs_session_open_ms :: int
  cs_status :: session_status
  cs_money_steps :: "money_step list"
  cs_refused_for_cash_at_ms :: "int list"

definition of_outcome :: "int \<Rightarrow> session_outcome \<Rightarrow> (run_error, capital_session) result" where
  "of_outcome session_open_ms so =
     (if so_trades so \<noteq> [] \<and> so_money_steps so = [] then Inl Run_Value_Error
      else Inr \<lparr>cs_session_open_ms = session_open_ms, cs_status = so_status so, cs_money_steps = so_money_steps so,
        cs_refused_for_cash_at_ms = map ev_at_ms (filter (\<lambda>e. ev_kind e = Ev_Entry_Refused_For_Cash) (so_events so))\<rparr>)"

record capital_evidence =
  ce_sessions_tested :: nat
  ce_sessions_funded_continuously :: nat
  ce_ended_by :: "capital_invalid_event option"
  ce_most_collateral_held :: decimal
  ce_cash_needed :: decimal
  ce_cash_needed_is_incomplete :: bool
  ce_least_free_cash :: decimal
  ce_largest_assignment_obligation :: decimal
  ce_closes_relied_on_own_relief :: nat

subsection \<open>The first event\<close>

record evidence_end =
  en_session_at :: nat
  en_step_at :: nat
  en_event :: capital_invalid_event

definition is_unfunded :: "money_step \<Rightarrow> bool" where
  "is_unfunded st \<longleftrightarrow> ms_group st = Closing \<and> dval (ms_cash_after st) < dval (ms_collateral_after st)"

definition relied_on_its_own_relief :: "money_step \<Rightarrow> (run_error, bool) result" where
  "relied_on_its_own_relief st =
     (if ms_group st \<noteq> Closing \<or> \<not> ms_bought_back_with_cover_held st then Inr False
      else bindR (exactR (sub_x (ms_cash_before st) (ms_cash_after st))) (\<lambda>cost.
           bindR (exactR (sub_x (ms_cash_before st) (ms_collateral_before st))) (\<lambda>free.
             Inr (dval free < dval cost))))"

text \<open>The first unfunded step of a session, by its place.\<close>

fun first_unfunded :: "nat \<Rightarrow> money_step list \<Rightarrow> (nat \<times> money_step) option" where
  "first_unfunded k [] = None"
| "first_unfunded k (st # sts) = (if is_unfunded st then Some (k, st) else first_unfunded (Suc k) sts)"

fun first_event_from :: "nat \<Rightarrow> capital_session list \<Rightarrow> (run_error, evidence_end option) result" where
  "first_event_from n [] = Inr None"
| "first_event_from n (s # ss) =
     (case first_unfunded 0 (cs_money_steps s) of
        Some (k, st) \<Rightarrow>
          bindR (exactR (sub_x (ms_cash_after st) (ms_collateral_after st))) (\<lambda>free_after.
            Inr (Some \<lparr>en_session_at = n, en_step_at = k, en_event = \<lparr>ci_kind = Unfunded_Close,
              ci_session_open_ms = cs_session_open_ms s, ci_at_ms = Some (ms_at st), ci_free_cash_after = Some free_after\<rparr>\<rparr>))
      | None \<Rightarrow>
          if cs_status s = Incomplete
          then Inr (Some \<lparr>en_session_at = n, en_step_at = length (cs_money_steps s), en_event = \<lparr>ci_kind = Position_Marked,
            ci_session_open_ms = cs_session_open_ms s, ci_at_ms = None, ci_free_cash_after = None\<rparr>\<rparr>)
          else first_event_from (Suc n) ss)"

definition first_capital_invalid_event :: "capital_session list \<Rightarrow> (run_error, evidence_end option) result" where
  "first_capital_invalid_event ss = first_event_from 0 ss"

subsection \<open>The stretch and its figures\<close>

fun stretch_from :: "nat \<Rightarrow> capital_session list \<Rightarrow> evidence_end option \<Rightarrow> money_step list \<times> nat" where
  "stretch_from n [] stop = ([], 0)"
| "stretch_from n (s # ss) stop =
     (let (steps, refused) = stretch_from (Suc n) ss stop;
          whole = (cs_money_steps s @ steps, length (cs_refused_for_cash_at_ms s) + refused)
      in case stop of
           None \<Rightarrow> whole
         | Some e \<Rightarrow>
             if en_session_at e < n then ([], 0)
             else if n = en_session_at e
             then (take (en_step_at e) (cs_money_steps s) @ steps,
                   length (filter (\<lambda>t. case ci_at_ms (en_event e) of None \<Rightarrow> True | Some cutoff \<Rightarrow> t \<le> cutoff)
                             (cs_refused_for_cash_at_ms s)) + refused)
             else whole)"

definition stretch :: "capital_session list \<Rightarrow> evidence_end option \<Rightarrow> money_step list \<times> nat" where
  "stretch ss stop = stretch_from 0 ss stop"

definition cash_needed :: "decimal \<Rightarrow> money_step list \<Rightarrow> (run_error, decimal) result" where
  "cash_needed starting_cash steps =
     foldR (\<lambda>needed st. bindR (exactR (sub_x (ms_cash_after st) starting_cash)) (\<lambda>flow.
       bindR (exactR (sub_x (ms_collateral_after st) flow)) (\<lambda>x. Inr (dmax needed x)))) (Finite 0 0) steps"

definition free_cash_seen :: "decimal \<Rightarrow> money_step list \<Rightarrow> (run_error, decimal list) result" where
  "free_cash_seen starting_cash steps =
     foldR (\<lambda>seen st. bindR (exactR (sub_x (ms_cash_before st) (ms_collateral_before st))) (\<lambda>before.
       bindR (exactR (sub_x (ms_cash_after st) (ms_collateral_after st))) (\<lambda>after.
         Inr (seen @ [before, after])))) [starting_cash] steps"

definition evidence_of :: "capital_session list \<Rightarrow> decimal \<Rightarrow> (run_error, capital_evidence) result" where
  "evidence_of sessions starting_cash =
     bindR (first_capital_invalid_event sessions) (\<lambda>stop.
       let every_step = concat (map cs_money_steps sessions);
           (steps, refused) = stretch sessions stop
       in bindR (cash_needed starting_cash steps) (\<lambda>needed.
          bindR (free_cash_seen starting_cash every_step) (\<lambda>seen.
          bindR (traverseR relied_on_its_own_relief every_step) (\<lambda>relied.
            Inr \<lparr>ce_sessions_tested = length sessions,
              ce_sessions_funded_continuously = (case stop of None \<Rightarrow> length sessions | Some e \<Rightarrow> en_session_at e),
              ce_ended_by = map_option en_event stop,
              ce_most_collateral_held = fold (\<lambda>st m. dmax m (ms_collateral_after st)) every_step (Finite 0 0),
              ce_cash_needed = needed, ce_cash_needed_is_incomplete = (0 < refused),
              ce_least_free_cash = fold (\<lambda>x m. dmin m x) (tl seen) (hd seen),
              ce_largest_assignment_obligation = fold (\<lambda>st m. dmax m (ms_obligation_after st)) every_step (Finite 0 0),
              ce_closes_relied_on_own_relief = length (filter id relied)\<rparr>))))"

subsection \<open>What the evidence says\<close>

definition step_finite :: "money_step \<Rightarrow> bool" where
  "step_finite st \<longleftrightarrow> is_finite (ms_cash_before st) \<and> is_finite (ms_cash_after st)
     \<and> is_finite (ms_collateral_before st) \<and> is_finite (ms_collateral_after st)"

text \<open>A session the cash carried whole: no closing group left it short and nothing stayed open at its end.\<close>

definition carried_whole :: "capital_session \<Rightarrow> bool" where
  "carried_whole s \<longleftrightarrow> \<not> list_ex is_unfunded (cs_money_steps s) \<and> cs_status s \<noteq> Incomplete"

lemma first_unfunded_None: "first_unfunded k sts = None \<longleftrightarrow> \<not> list_ex is_unfunded sts"
  by (induction sts arbitrary: k) auto

lemma first_unfunded_Some:
  "first_unfunded k sts = Some (i, st) \<Longrightarrow>
     k \<le> i \<and> i - k < length sts \<and> st = sts ! (i - k) \<and> is_unfunded st \<and> \<not> list_ex is_unfunded (take (i - k) sts)"
proof (induction sts arbitrary: k)
  case (Cons x sts)
  show ?case
  proof (cases "is_unfunded x")
    case False
    then have "first_unfunded (Suc k) sts = Some (i, st)" using Cons.prems by simp
    note IH = Cons.IH [OF this]
    then have "Suc k \<le> i" by blast
    then have "i - k = Suc (i - Suc k)" by arith
    with IH False show ?thesis by auto
  qed (use Cons.prems in auto)
qed simp

lemma first_unfunded_take:
  "first_unfunded k sts = Some (i, st) \<Longrightarrow> take (i - k) sts = takeWhile (\<lambda>st. \<not> is_unfunded st) sts"
proof (induction sts arbitrary: k)
  case (Cons x sts)
  show ?case
  proof (cases "is_unfunded x")
    case False
    then have rest: "first_unfunded (Suc k) sts = Some (i, st)" using Cons.prems by simp
    with first_unfunded_Some [OF this] have "i - k = Suc (i - Suc k)" by arith
    with Cons.IH [OF rest] False show ?thesis by simp
  qed (use Cons.prems in auto)
qed simp

lemma first_event_None: "first_event_from n ss = Inr None \<Longrightarrow> list_all carried_whole ss"
  by (induction ss arbitrary: n)
    (auto simp: carried_whole_def bindR_Inr_iff first_unfunded_None split: option.splits if_splits)

lemma first_event_Some:
  assumes "first_event_from n ss = Inr (Some e)"
  obtains j where "en_session_at e = n + j" "j < length ss" "list_all carried_whole (take j ss)" "\<not> carried_whole (ss ! j)"
    "ci_session_open_ms (en_event e) = cs_session_open_ms (ss ! j)"
    "take (en_step_at e) (cs_money_steps (ss ! j)) = takeWhile (\<lambda>st. \<not> is_unfunded st) (cs_money_steps (ss ! j))"
    "ci_kind (en_event e) = (if list_ex is_unfunded (cs_money_steps (ss ! j)) then Unfunded_Close else Position_Marked)"
  using assms
proof (induction ss arbitrary: n thesis)
  case (Cons s ss)
  show ?case
  proof (cases "first_unfunded 0 (cs_money_steps s)")
    case (Some x)
    obtain k st where x: "x = (k, st)" by (cases x)
    with first_unfunded_Some [of 0 "cs_money_steps s" k st] first_unfunded_take [of 0 "cs_money_steps s" k st] Some
    have st: "k < length (cs_money_steps s)" "is_unfunded (cs_money_steps s ! k)"
      "take k (cs_money_steps s) = takeWhile (\<lambda>st. \<not> is_unfunded st) (cs_money_steps s)" by auto
    then have "list_ex is_unfunded (cs_money_steps s)" by (auto simp: list_ex_iff)
    then show thesis using Cons.prems Some x st by (auto simp: bindR_Inr_iff carried_whole_def)
  next
    case None
    then have none: "\<not> list_ex is_unfunded (cs_money_steps s)" by (simp add: first_unfunded_None)
    show thesis
    proof (cases "cs_status s = Incomplete")
      case True
      have "cs_money_steps s = takeWhile (\<lambda>st. \<not> is_unfunded st) (cs_money_steps s)"
        using none by (simp add: eq_commute [of "cs_money_steps s"] list_ex_iff)
      then show thesis using Cons.prems None none True by (auto simp: carried_whole_def)
    next
      case False
      then have "first_event_from (Suc n) ss = Inr (Some e)" using Cons.prems(2) None by simp
      then obtain j where j: "en_session_at e = Suc n + j" "j < length ss" "list_all carried_whole (take j ss)" "\<not> carried_whole (ss ! j)"
        "ci_session_open_ms (en_event e) = cs_session_open_ms (ss ! j)"
        "take (en_step_at e) (cs_money_steps (ss ! j)) = takeWhile (\<lambda>st. \<not> is_unfunded st) (cs_money_steps (ss ! j))"
        "ci_kind (en_event e) = (if list_ex is_unfunded (cs_money_steps (ss ! j)) then Unfunded_Close else Position_Marked)"
        using Cons.IH by blast
      have "carried_whole s" using none False by (simp add: carried_whole_def)
      then show thesis using Cons.prems(1) [of "Suc j"] j by simp
    qed
  qed
qed simp

text \<open>The money steps of the sessions before a place, and of the session at it those before its first unfunded one.\<close>

definition steps_before :: "nat \<Rightarrow> capital_session list \<Rightarrow> money_step list" where
  "steps_before n ss = concat (map cs_money_steps (take n ss))
     @ (if n < length ss then takeWhile (\<lambda>st. \<not> is_unfunded st) (cs_money_steps (ss ! n)) else [])"

lemma stretch_None: "fst (stretch_from n ss None) = concat (map cs_money_steps ss)"
  by (induction ss arbitrary: n) (simp_all add: Let_def case_prod_unfold)

lemma stretch_past: "en_session_at e < n \<Longrightarrow> stretch_from n ss (Some e) = ([], 0)"
  by (cases ss) (simp_all add: Let_def case_prod_unfold)

lemma stretch_Some:
  "en_session_at e = n + j \<Longrightarrow> j < length ss
    \<Longrightarrow> take (en_step_at e) (cs_money_steps (ss ! j)) = takeWhile (\<lambda>st. \<not> is_unfunded st) (cs_money_steps (ss ! j))
    \<Longrightarrow> fst (stretch_from n ss (Some e)) = steps_before j ss"
proof (induction ss arbitrary: n j)
  case (Cons s ss)
  show ?case
  proof (cases j)
    case 0
    then show ?thesis using Cons.prems stretch_past [of e "Suc n" ss] by (simp add: steps_before_def)
  next
    case (Suc i)
    then have "fst (stretch_from (Suc n) ss (Some e)) = steps_before i ss" using Cons by simp
    then show ?thesis using Cons.prems Suc by (simp add: steps_before_def Let_def case_prod_unfold)
  qed
qed simp

lemma dval_dmax: "dval (dmax a b) \<le> x \<longleftrightarrow> dval a \<le> x \<and> dval b \<le> x"
  by (auto simp: dmax_def)

lemma cash_needed_least:
  assumes "cash_needed start steps = Inr needed" "is_finite start" "list_all step_finite steps"
  shows "dval needed \<le> S \<longleftrightarrow> 0 \<le> S
     \<and> (\<forall>st\<in>set steps. dval (ms_collateral_after st) \<le> S + (dval (ms_cash_after st) - dval start))"
proof -
  let ?f = "\<lambda>needed st. bindR (exactR (sub_x (ms_cash_after st) start)) (\<lambda>flow.
       bindR (exactR (sub_x (ms_collateral_after st) flow)) (\<lambda>x. Inr (dmax needed x)))"
  have "dval needed \<le> S \<longleftrightarrow> dval z \<le> S
     \<and> (\<forall>st\<in>set steps. dval (ms_collateral_after st) \<le> S + (dval (ms_cash_after st) - dval start))"
    if "foldR ?f z steps = Inr needed" "list_all step_finite steps" for z steps
    using that
  proof (induction steps arbitrary: z)
    case (Cons st steps)
    then obtain flow x where f: "sub_x (ms_cash_after st) start = Inr flow" "sub_x (ms_collateral_after st) flow = Inr x"
      and rest: "foldR ?f (dmax z x) steps = Inr needed" by (auto simp: bindR_Inr_iff run_Inr)
    have fin: "is_finite (ms_cash_after st)" "is_finite (ms_collateral_after st)"
      using Cons.prems(2) by (simp_all add: step_finite_def)
    note flow = sub_x_Inr [OF f(1) fin(1) assms(2)]
    note x = sub_x_Inr [OF f(2) fin(2) conjunct1 [OF flow]]
    show ?case using Cons.IH [OF rest] Cons.prems(2) flow x by (auto simp: dval_dmax algebra_simps)
  qed simp
  from this [OF assms(1) [unfolded cash_needed_def] assms(3)] show ?thesis by simp
qed

lemma evidence_parts:
  assumes "evidence_of ss start = Inr ev"
  obtains stop where "first_capital_invalid_event ss = Inr stop" "cash_needed start (fst (stretch ss stop)) = Inr (ce_cash_needed ev)"
    "ce_sessions_funded_continuously ev = (case stop of None \<Rightarrow> length ss | Some e \<Rightarrow> en_session_at e)"
    "ce_ended_by ev = map_option en_event stop"
  using assms by (auto simp: evidence_of_def Let_def bindR_Inr_iff case_prod_unfold)

text \<open>
  C14: capital evidence is what the money steps prove. The sessions counted as funded are exactly the ones before the
  first that left a closing group short of the collateral it then held, or ended with a position marked; the run has no
  such session exactly when nothing ended its evidence. And the cash needed is the least amount of starting cash that,
  with the cash flows of the recorded path, carries the collateral after every money step before that event.
\<close>

theorem evidence_exact:
  assumes "evidence_of ss start = Inr ev" "is_finite start" "list_all (\<lambda>s. list_all step_finite (cs_money_steps s)) ss"
  shows "list_all carried_whole (take (ce_sessions_funded_continuously ev) ss)
    \<and> (if ce_sessions_funded_continuously ev < length ss
       then \<not> carried_whole (ss ! ce_sessions_funded_continuously ev) \<and> ce_ended_by ev \<noteq> None
       else ce_sessions_funded_continuously ev = length ss \<and> ce_ended_by ev = None)
    \<and> (\<forall>S. dval (ce_cash_needed ev) \<le> S \<longleftrightarrow> 0 \<le> S
        \<and> (\<forall>st\<in>set (steps_before (ce_sessions_funded_continuously ev) ss).
             dval (ms_collateral_after st) \<le> S + (dval (ms_cash_after st) - dval start)))"
proof -
  obtain stop where stop: "first_capital_invalid_event ss = Inr stop"
    and needed: "cash_needed start (fst (stretch ss stop)) = Inr (ce_cash_needed ev)"
    and N: "ce_sessions_funded_continuously ev = (case stop of None \<Rightarrow> length ss | Some e \<Rightarrow> en_session_at e)"
    and ended: "ce_ended_by ev = map_option en_event stop"
    by (rule evidence_parts [OF assms(1)])
  have fin: "list_all step_finite (steps_before n ss)" for n
    using assms(3) by (auto simp: steps_before_def list_all_iff dest!: in_set_takeD set_takeWhileD intro: nth_mem)
  show ?thesis
  proof (cases stop)
    case None
    have all: "list_all carried_whole ss" using stop None first_event_None by (simp add: first_capital_invalid_event_def)
    have steps: "fst (stretch ss stop) = steps_before (length ss) ss" by (simp add: stretch_def None stretch_None steps_before_def)
    show ?thesis using cash_needed_least [OF needed [unfolded steps] assms(2) fin] all None N ended by simp
  next
    case (Some e)
    obtain j where j: "en_session_at e = 0 + j" "j < length ss" "list_all carried_whole (take j ss)" "\<not> carried_whole (ss ! j)"
      "take (en_step_at e) (cs_money_steps (ss ! j)) = takeWhile (\<lambda>st. \<not> is_unfunded st) (cs_money_steps (ss ! j))"
      using first_event_Some [of 0 ss e] stop Some by (auto simp: first_capital_invalid_event_def)
    have steps: "fst (stretch ss stop) = steps_before j ss" by (simp add: stretch_def Some stretch_Some [OF j(1,2,5)])
    show ?thesis using cash_needed_least [OF needed [unfolded steps] assms(2) fin] j Some N ended by simp
  qed
qed

text \<open>Two sessions: one that opens and closes within its cash, and one whose buy-back leaves it short.\<close>

definition sample_step :: "fill_group \<Rightarrow> int \<Rightarrow> int \<Rightarrow> int \<Rightarrow> money_step" where
  "sample_step g before after held = \<lparr>ms_at = 60000, ms_group = g, ms_cash_before = Finite before 0, ms_cash_after = Finite after 0,
     ms_collateral_before = Finite 0 0, ms_collateral_after = Finite held 0, ms_obligation_after = Finite 0 0,
     ms_bought_back_with_cover_held = False\<rparr>"

definition sample_sessions :: "capital_session list" where
  "sample_sessions =
     [\<lparr>cs_session_open_ms = 0, cs_status = Traded,
       cs_money_steps = [sample_step Opening 1000 700 400, sample_step Closing 700 900 0], cs_refused_for_cash_at_ms = []\<rparr>,
      \<lparr>cs_session_open_ms = 86400000, cs_status = Traded,
       cs_money_steps = [sample_step Opening 900 950 500, sample_step Closing 950 450 500], cs_refused_for_cash_at_ms = []\<rparr>]"

lemma sample_evidence:
  "(case evidence_of sample_sessions (Finite 1000 0) of
      Inr ev \<Rightarrow> ce_sessions_funded_continuously ev = 1 \<and> ce_cash_needed ev = Finite 700 0
        \<and> ce_least_free_cash ev = Finite (- 50) 0
    | Inl _ \<Rightarrow> False)"
  by code_simp

theorem evidence_exact_witness:
  "\<exists>ev. evidence_of sample_sessions (Finite 1000 0) = Inr ev \<and> ce_ended_by ev \<noteq> None \<and> ce_cash_needed ev = Finite 700 0
     \<and> \<not> carried_whole (sample_sessions ! 1)"
proof -
  obtain ev where ev: "evidence_of sample_sessions (Finite 1000 0) = Inr ev" "ce_sessions_funded_continuously ev = 1"
    "ce_cash_needed ev = Finite 700 0"
    using sample_evidence by (cases "evidence_of sample_sessions (Finite 1000 0)") auto
  have fin: "is_finite (Finite 1000 0)" "list_all (\<lambda>s. list_all step_finite (cs_money_steps s)) sample_sessions"
    by (simp_all add: sample_sessions_def sample_step_def step_finite_def)
  have "length sample_sessions = 2" by (simp add: sample_sessions_def)
  then show ?thesis using evidence_exact [OF ev(1) fin] ev by auto
qed

end
