(* ===== verification/Replay_Reads.thy ===== *)
theory Replay_Reads
  imports Replay_Outcome
begin

text \<open>
  What a replay reads of its market. Two markets that answer alike for the contracts in play, and for the picks a leg can
  be asked for, give the same replay: the same outcome, the same observations, the same error. A leg is asked for a
  pick at the entry time, and after it at a minute before the exit time at which the underlying traded, when it has a
  re-entry rule; the contracts in play are the ones such a pick came to.
\<close>

subsection \<open>The contracts in play\<close>

definition in_play :: "leg \<Rightarrow> option_contract set" where
  "in_play l = set_option (map_option at_contract (lg_attempt l))
     \<union> set_option (map_option (\<lambda>p. at_contract (po_attempt p)) (lg_position l))"

definition tame :: "leg \<Rightarrow> leg \<Rightarrow> bool" where
  "tame l l' \<longleftrightarrow> lg_setup l' = lg_setup l \<and> in_play l' \<subseteq> in_play l"

lemma tame_refl [simp]: "tame l l"
  by (simp add: tame_def)

lemma tame_trans: "tame l l' \<Longrightarrow> tame l' l'' \<Longrightarrow> tame l l''"
  by (auto simp: tame_def)

lemma tame_updates [simp]:
  "tame l (l\<lparr>lg_phase := ph\<rparr>)" "tame l (l\<lparr>lg_close_on_fill := c\<rparr>)" "tame l (l\<lparr>lg_position := None\<rparr>)"
  "tame l (l\<lparr>lg_phase := ph, lg_position := None\<rparr>)" "tame l (l\<lparr>lg_phase := ph, lg_order_decided_at_ms := d\<rparr>)"
  by (auto simp: tame_def in_play_def)

lemma tame_position:
  "lg_position l = Some p \<Longrightarrow> po_attempt p' = po_attempt p \<Longrightarrow> tame l (l\<lparr>lg_position := Some p'\<rparr>)"
  by (auto simp: tame_def in_play_def)

lemma finish_closed_tame: "finish_closed ex l = Inr l' \<Longrightarrow> tame l l'"
  by (auto simp: finish_closed_def bindR_Inr_iff Let_def split: if_splits)

lemma order_close_tame:
  "order_close cutoff reason grp t evs l p = Inr (evs', l') \<Longrightarrow> lg_position l = Some p \<Longrightarrow> tame l l'"
  by (auto simp: order_close_def bindR_Inr_iff tame_position)

lemma protect_leg_tame: "protect_leg cutoff grp t i evs l = Inr (evs', l') \<Longrightarrow> tame l l'"
  by (auto simp: protect_leg_def bindR_Inr_iff position_of_Inr order_close_tame split: if_splits)

lemma exit_leg_tame: "exit_leg ex t a l = Inr (a', l') \<Longrightarrow> tame l l'"
  by (auto simp: exit_leg_def Let_def bindR_Inr_iff position_of_Inr tame_position case_prod_unfold
      split: if_splits option.splits)

lemma stop_leg_tame: "stop_leg hit ca cutoff grp t a l = Inr (a', l') \<Longrightarrow> tame l l'"
  by (auto simp: stop_leg_def Let_def bindR_Inr_iff position_of_Inr order_close_tame case_prod_unfold
      split: if_splits option.splits)

lemma read_leg_bar_tame: "read_leg_bar mk t bars l = Inr (bars', l') \<Longrightarrow> tame l l'"
  by (auto simp: read_leg_bar_def Let_def bindR_Inr_iff position_of_Inr tame_position split: if_splits option.splits)

lemma drop_entry_tame: "drop_entry t evs l = Inr (evs', l') \<Longrightarrow> tame l l'"
  by (auto simp: drop_entry_def Let_def bindR_Inr_iff split: if_splits)

lemma check_momentum_tame: "check_momentum mk t evs l = Inr (evs', l') \<Longrightarrow> tame l l'"
  using check_momentum_shape by fastforce

lemma finish_position_tame:
  assumes "finish_closed ex (l\<lparr>lg_position := Some p'\<rparr>) = Inr l'" "lg_position l = Some p" "po_attempt p' = po_attempt p"
  shows "tame l l'"
  using tame_trans [OF tame_position [OF assms(2,3)] finish_closed_tame [OF assms(1)]] .

lemma observe_close_tame: "observe_close ex oc t evs l = Inr (evs', l') \<Longrightarrow> tame l l'"
  by (auto simp: observe_close_def Let_def bindR_Inr_iff position_of_Inr elim!: finish_position_tame
      split: option.splits if_splits)

lemma observe_entry_tame: "observe_entry ex oc t evs l = Inr (evs', l') \<Longrightarrow> tame l l'"
proof (cases "eo_fill oc"; cases "lg_position l")
  fix f assume f: "eo_fill oc = Some f" "lg_position l = None" "observe_entry ex oc t evs l = Inr (evs', l')"
  obtain a level where "lg_attempt l = Some a"
    "l' = l\<lparr>lg_reentries_left := (if 0 < lg_entries_filled l then lg_reentries_left l - 1 else lg_reentries_left l),
       lg_entries_filled := lg_entries_filled l + 1,
       lg_position := Some (first_position t oc f a level l), lg_phase := Ph_Held\<rparr>"
    by (rule observe_entry_first [OF f(3,1,2)])
  then show "tame l l'" by (simp add: tame_def in_play_def first_position_def)
qed (auto simp: observe_entry_def Let_def bindR_Inr_iff elim!: finish_position_tame drop_entry_tame
      split: option.splits if_splits)


subsection \<open>Markets that answer alike\<close>

text \<open>The picks a leg of the setup can be asked for: at the entry time, or for a re-entry.\<close>

definition asks :: "backtest_setup \<Rightarrow> market \<Rightarrow> leg_setup \<Rightarrow> int \<Rightarrow> decimal \<Rightarrow> bool" where
  "asks su mk l t price \<longleftrightarrow>
     (let entry = time_at (bs_entry su) (mk_open_ms mk) (mk_close_ms mk);
          ended = time_at (bs_exit su) (mk_open_ms mk) (mk_close_ms mk)
      in l \<in> set (bs_legs su) \<and> mk_underlying_close mk t = Some price
         \<and> (t = entry \<or> entry < t \<and> t < ended \<and> (t - entry) mod ms_per_minute = 0 \<and> ls_reentry l \<noteq> None))"

text \<open>A session the replay does not skip.\<close>

definition trades_on :: "backtest_setup \<Rightarrow> market \<Rightarrow> bool" where
  "trades_on su mk \<longleftrightarrow> window_fits su (mk_open_ms mk) (mk_close_ms mk)
     \<and> mk_underlying_close mk (time_at (bs_entry su) (mk_open_ms mk) (mk_close_ms mk)) \<noteq> None"

definition answers_alike :: "backtest_setup \<Rightarrow> option_contract set \<Rightarrow> market \<Rightarrow> market \<Rightarrow> bool" where
  "answers_alike su needed mk mk' \<longleftrightarrow>
     mk_open_ms mk' = mk_open_ms mk \<and> mk_close_ms mk' = mk_close_ms mk
     \<and> (window_fits su (mk_open_ms mk) (mk_close_ms mk) \<longrightarrow> mk_underlying_close mk' = mk_underlying_close mk)
     \<and> (trades_on su mk \<longrightarrow>
          (\<forall>c t. c \<in> needed \<longrightarrow> mk_option_bar mk' c t = mk_option_bar mk c t)
          \<and> (\<forall>l t price. asks su mk l t price \<longrightarrow> mk_pick mk' l t price = mk_pick mk l t price
               \<and> (\<forall>c m. mk_pick mk l t price = Picked c m \<longrightarrow> c \<in> needed)))"

text \<open>A leg of the setup all of whose contracts are needed ones, and a session of such legs.\<close>

definition leg_within :: "backtest_setup \<Rightarrow> option_contract set \<Rightarrow> leg \<Rightarrow> bool" where
  "leg_within su needed l \<longleftrightarrow> lg_setup l \<in> set (bs_legs su) \<and> in_play l \<subseteq> needed"

definition kept_within :: "backtest_setup \<Rightarrow> option_contract set \<Rightarrow> market \<Rightarrow> session \<Rightarrow> bool" where
  "kept_within su needed mk s \<longleftrightarrow> ss_setup s = su \<and> ss_open_ms s = mk_open_ms mk \<and> ss_close_ms s = mk_close_ms mk
     \<and> list_all (leg_within su needed) (ss_legs s)"

lemma tame_within: "tame l l' \<Longrightarrow> leg_within su needed l \<Longrightarrow> leg_within su needed l'"
  by (auto simp: tame_def leg_within_def)

lemma sweep_cong:
  "(\<And>a l. l \<in> set ls \<Longrightarrow> f a l = g a l) \<Longrightarrow> sweep f a ls = sweep g a ls"
  by (induction ls arbitrary: a) (auto simp: bindR_def split: sum.splits)

lemma over_legs_cong:
  "(\<And>evs l. l \<in> set (ss_legs s) \<Longrightarrow> f evs l = g evs l) \<Longrightarrow> over_legs f s = over_legs g s"
  by (simp add: over_legs_def cong: sweep_cong)

lemma sweep_within:
  assumes "sweep f a ls = Inr (a', ls')" "list_all (leg_within su needed) ls"
    "\<And>a l a' l'. f a l = Inr (a', l') \<Longrightarrow> tame l l'"
  shows "list_all (leg_within su needed) ls'"
  using sweep_keeps [OF assms(1,2)] tame_within assms(3) by blast

lemma begin_leg_alike:
  assumes "answers_alike su needed mk mk'" "trades_on su mk" "asks su mk (lg_setup l) t u"
  shows "begin_leg mk' t u wait evs l = begin_leg mk t u wait evs l"
    "leg_within su needed l \<Longrightarrow> begin_leg mk t u wait evs l = Inr (evs', l') \<Longrightarrow> leg_within su needed l'"
proof -
  have pick: "mk_pick mk' (lg_setup l) t u = mk_pick mk (lg_setup l) t u"
    "\<And>c m. mk_pick mk (lg_setup l) t u = Picked c m \<Longrightarrow> c \<in> needed"
    and bar: "\<And>c. c \<in> needed \<Longrightarrow> mk_option_bar mk' c t = mk_option_bar mk c t"
    using assms by (auto simp: answers_alike_def)
  show "begin_leg mk' t u wait evs l = begin_leg mk t u wait evs l"
    using pick bar by (cases "mk_pick mk (lg_setup l) t u") (simp_all add: begin_leg_def Let_def)
  assume l: "leg_within su needed l" "begin_leg mk t u wait evs l = Inr (evs', l')"
  show "leg_within su needed l'"
  proof (cases "mk_pick mk (lg_setup l) t u")
    case (Picked c m)
    have "lg_position l' = lg_position l" "lg_setup l' = lg_setup l" using begin_leg_shape [OF l(2)] by simp_all
    moreover have "lg_attempt l' = lg_attempt l \<or> (\<exists>a. lg_attempt l' = Some a \<and> at_contract a = c)"
      using l(2) Picked by (cases "mk_option_bar mk c t"; cases "ls_momentum (lg_setup l)")
        (auto simp: begin_leg_def Let_def bindR_Inr_iff split: if_splits)
    ultimately show ?thesis using l(1) pick(2) [OF Picked] by (auto simp: leg_within_def in_play_def)
  next
    case (Pick_Refused why detail)
    then have "tame l l'" using l(2) by (auto simp: begin_leg_def Let_def tame_def in_play_def)
    then show ?thesis using tame_within l(1) by blast
  qed
qed


subsection \<open>The rules of a minute\<close>

lemma kept_within_flags [simp]:
  "kept_within su needed mk (s\<lparr>ss_exit_requested := b\<rparr>) = kept_within su needed mk s"
  "kept_within su needed mk (s\<lparr>ss_started := b\<rparr>) = kept_within su needed mk s"
  "kept_within su needed mk (s\<lparr>ss_skipped := k\<rparr>) = kept_within su needed mk s"
  "kept_within su needed mk (s\<lparr>ss_events := evs\<rparr>) = kept_within su needed mk s"
  by (simp_all add: kept_within_def)

lemma over_legs_within:
  assumes "over_legs f s = Inr s'" "kept_within su needed mk s"
    and "\<And>evs l evs' l'. leg_within su needed l \<Longrightarrow> f evs l = Inr (evs', l') \<Longrightarrow> leg_within su needed l'"
  shows "kept_within su needed mk s'"
proof -
  obtain evs legs where "sweep f (ss_events s) (ss_legs s) = Inr (evs, legs)" "s' = s\<lparr>ss_events := evs, ss_legs := legs\<rparr>"
    using assms(1) by (auto simp: over_legs_def bindR_Inr_iff)
  with assms(2) sweep_keeps [of f _ _ _ legs "leg_within su needed"] assms(3) show ?thesis by (auto simp: kept_within_def)
qed

lemma close_with_protection_within:
  assumes "close_with_protection et t grp book leaving s = Inr s'" "kept_within su needed mk s"
  shows "kept_within su needed mk s'"
  by (rule close_with_protection_invariant [OF assms(1), where I = "kept_within su needed mk", OF assms(2)])
    (auto elim!: over_legs_within intro: tame_within protect_leg_tame)

lemma stops_within:
  assumes "stops et t bars s = Inr (s', d)" "kept_within su needed mk s" shows "kept_within su needed mk s'"
proof (cases "s' = s")
  case False
  from stops_step [OF assms(1) False] obtain hit ca evs lv so legs where
    sw: "sweep (stop_leg hit ca (cutoff_ms s) (ss_groups s + 1) t) (ss_events s, [], []) (ss_legs s) = Inr ((evs, lv, so), legs)"
    and r: "s' = s\<lparr>ss_groups := ss_groups s + 1, ss_events := evs, ss_legs := legs\<rparr>
      \<or> (\<exists>book. close_with_protection et t (ss_groups s + 1) book lv
            (s\<lparr>ss_groups := ss_groups s + 1, ss_events := evs, ss_legs := legs\<rparr>) = Inr s')" by metis
  have "list_all (leg_within su needed) legs"
    by (rule sweep_within [OF sw _ stop_leg_tame]) (use assms(2) in \<open>simp add: kept_within_def\<close>)
  then have "kept_within su needed mk (s\<lparr>ss_groups := ss_groups s + 1, ss_events := evs, ss_legs := legs\<rparr>)"
    using assms(2) by (simp add: kept_within_def)
  with r show ?thesis using close_with_protection_within by blast
qed (use assms(2) in simp)

lemma exit_time_within:
  assumes "exit_time t s = Inr s'" "kept_within su needed mk s" shows "kept_within su needed mk s'"
proof -
  obtain evs n g legs where sw: "sweep (exit_leg (ss_exit_requested s) t) (ss_events s, ss_groups s, None) (ss_legs s)
      = Inr ((evs, n, g), legs)" and s': "s' = s\<lparr>ss_events := evs, ss_groups := n, ss_legs := legs\<rparr>"
    using assms(1) by (auto simp: exit_time_def bindR_Inr_iff)
  show ?thesis using sweep_within [OF sw _ exit_leg_tame] assms(2) by (simp add: kept_within_def s')
qed

lemma read_held_bars_within:
  assumes "read_held_bars mk0 t s = Inr (s', bars)" "kept_within su needed mk s" shows "kept_within su needed mk s'"
proof -
  obtain legs where sw: "sweep (read_leg_bar mk0 t) [] (ss_legs s) = Inr (bars, legs)" "s' = s\<lparr>ss_legs := legs\<rparr>"
    using assms(1) by (auto simp: read_held_bars_def bindR_Inr_iff)
  show ?thesis using sweep_within [OF sw(1) _ read_leg_bar_tame] assms(2) by (simp add: kept_within_def sw(2))
qed

lemma read_held_bars_alike:
  assumes "answers_alike su needed mk mk'" "trades_on su mk" "kept_within su needed mk s"
  shows "read_held_bars mk' t s = read_held_bars mk t s"
proof -
  have bar: "mk_option_bar mk' c t = mk_option_bar mk c t" if "c \<in> needed" for c
    using assms(1,2) that by (auto simp: answers_alike_def)
  have "read_leg_bar mk' t bars l = read_leg_bar mk t bars l" if "l \<in> set (ss_legs s)" for bars l
  proof (cases "lg_position l")
    case (Some p)
    then have "at_contract (po_attempt p) \<in> needed"
      using assms(3) that by (auto simp: kept_within_def list_all_iff leg_within_def in_play_def)
    with Some bar show ?thesis by (simp add: read_leg_bar_def position_of_def)
  qed (simp add: read_leg_bar_def position_of_def)
  then show ?thesis by (simp add: read_held_bars_def cong: sweep_cong)
qed

text \<open>A minute at which entries are tried: after the entry time and before the exit time, on a whole minute from it.\<close>

definition entering_minute :: "session \<Rightarrow> int \<Rightarrow> bool" where
  "entering_minute s t \<longleftrightarrow> entry_ms s < t \<and> t < exit_ms s \<and> (t - entry_ms s) mod ms_per_minute = 0"

lemma enter_leg_alike:
  assumes "answers_alike su needed mk mk'" "trades_on su mk" "kept_within su needed mk s"
    "entering_minute s t" "leg_within su needed l"
  shows "enter_leg mk' t evs l = enter_leg mk t evs l"
    "enter_leg mk t evs l = Inr (evs', l') \<Longrightarrow> leg_within su needed l'"
proof -
  have same: "mk_underlying_close mk' = mk_underlying_close mk" "\<And>c. c \<in> needed \<Longrightarrow> mk_option_bar mk' c t = mk_option_bar mk c t"
    using assms(1,2) by (auto simp: answers_alike_def trades_on_def)
  have ask: "asks su mk (lg_setup l) t u" if "mk_underlying_close mk t = Some u" "ls_reentry (lg_setup l) \<noteq> None" for u
    using that assms(3-5) by (auto simp: asks_def kept_within_def entering_minute_def entry_ms_def exit_ms_def leg_within_def)
  have again: "reenter mk' t evs l = reenter mk t evs l"
  proof (cases "ls_reentry (lg_setup l)")
    case (Some rule)
    then show ?thesis using same(1) begin_leg_alike(1) [OF assms(1,2) ask]
      by (simp add: reenter_def split: option.split)
  qed (simp add: reenter_def)
  have "check_momentum mk' t evs l = check_momentum mk t evs l"
  proof (cases "lg_attempt l")
    case (Some a)
    then have "at_contract a \<in> needed" using assms(5) by (auto simp: leg_within_def in_play_def)
    with Some same(2) show ?thesis by (simp add: check_momentum_def attempt_of_def split: option.split)
  qed (simp add: check_momentum_def attempt_of_def)
  with again show "enter_leg mk' t evs l = enter_leg mk t evs l" by (simp add: enter_leg_def)
  have begun: "leg_within su needed l'" if "reenter mk t evs l = Inr (evs', l')"
    using that begin_leg_alike(2) [OF assms(1,2) ask assms(5)] assms(5)
    by (cases "ls_reentry (lg_setup l)") (auto simp: reenter_def split: option.splits)
  assume "enter_leg mk t evs l = Inr (evs', l')"
  then show "leg_within su needed l'"
    using begun tame_within [OF check_momentum_tame assms(5)] assms(5) by (auto simp: enter_leg_def split: if_splits)
qed

lemma enter_alike:
  assumes "answers_alike su needed mk mk'" "trades_on su mk" "kept_within su needed mk s"
    "entering_minute s t"
  shows "enter mk' t s = enter mk t s" "enter mk t s = Inr s' \<Longrightarrow> kept_within su needed mk s'"
proof -
  have "list_all (leg_within su needed) (ss_legs s)" using assms(3) by (simp add: kept_within_def)
  then show "enter mk' t s = enter mk t s"
    using enter_leg_alike(1) [OF assms] by (simp add: enter_def over_legs_def list_all_iff cong: sweep_cong)
  assume "enter mk t s = Inr s'"
  then show "kept_within su needed mk s'"
    using over_legs_within [OF _ assms(3) enter_leg_alike(2) [OF assms]] assms(3) by (auto simp: enter_def split: if_splits)
qed

lemma advance_rules_alike:
  assumes "answers_alike su needed (sr_market sr) mk'" "trades_on su (sr_market sr)"
    "kept_within su needed (sr_market sr) s" "entry_ms s < t" "(t - entry_ms s) mod ms_per_minute = 0"
  shows "advance_rules (sr\<lparr>sr_market := mk'\<rparr>) t bars allow s = advance_rules sr t bars allow s"
    "advance_rules sr t bars allow s = Inr s' \<Longrightarrow> kept_within su needed (sr_market sr) s'"
proof -
  have stopped: "kept_within su needed (sr_market sr) s1 \<and> (t < exit_ms s \<longrightarrow> entering_minute s1 t)"
    if "stops (sr_et_date sr) t bars s = Inr (s1, d)" for s1 d
    using stops_within [OF that assms(3)] assms(3-5)
    by (auto simp: entering_minute_def entry_ms_def exit_ms_def kept_within_def)
  show "advance_rules (sr\<lparr>sr_market := mk'\<rparr>) t bars allow s = advance_rules sr t bars allow s"
    using enter_alike(1) [OF assms(1,2)] stopped
    by (auto simp: advance_rules_def bindR_def split: sum.split)
  assume "advance_rules sr t bars allow s = Inr s'"
  then show "kept_within su needed (sr_market sr) s'"
    using stopped exit_time_within [OF _ assms(3)]
    by (auto simp: advance_rules_def bindR_Inr_iff split: if_splits intro: enter_alike(2) [OF assms(1,2)])
qed

subsection \<open>The replay\<close>

definition with_market :: "market \<Rightarrow> replay_world \<Rightarrow> replay_world" where
  "with_market mk w = w\<lparr>rw_around := (rw_around w)\<lparr>sr_market := mk\<rparr>\<rparr>"

lemma with_market_simps [simp]:
  "world_market (with_market mk w) = mk" "world_date (with_market mk w) = world_date w"
  "rw_fee_for (with_market mk w) = rw_fee_for w" "rw_observing (with_market mk w) = rw_observing w"
  "rw_around (with_market mk w) = (rw_around w)\<lparr>sr_market := mk\<rparr>"
  by (simp_all add: with_market_def)

lemma market_fields:
  "sr_et_date (sr\<lparr>sr_market := mk\<rparr>) = sr_et_date sr" "sr_digest (sr\<lparr>sr_market := mk\<rparr>) = sr_digest sr"
  by simp_all

text \<open>What does not read the market.\<close>

lemma market_not_read [simp]:
  "observe_execution (sr\<lparr>sr_market := mk\<rparr>) oc t s = observe_execution sr oc t s"
  "money_now (with_market mk w) r = money_now w r"
  "record_step (with_market mk w) t grp before bb r = record_step w t grp before bb r"
  "judge_opening (with_market mk w) ordered found r = judge_opening w ordered found r"
  "observe_minute (with_market mk w) t bars r = observe_minute w t bars r"
  "observe_minutes (with_market mk w) ts r = observe_minutes w ts r"
  "observe_flat_session (with_market mk w) r = observe_flat_session w r"
proof -
  show oe: "observe_execution (sr\<lparr>sr_market := mk\<rparr>) oc t s = observe_execution sr oc t s" for sr oc t s
    unfolding observe_execution_def market_fields ..
  show mn: "money_now (with_market mk w) r = money_now w r" for r unfolding money_now_def with_market_simps market_fields ..
  show "record_step (with_market mk w) t grp before bb r = record_step w t grp before bb r" unfolding record_step_def with_market_simps market_fields ..
  show "judge_opening (with_market mk w) ordered found r = judge_opening w ordered found r" unfolding judge_opening_def with_market_simps market_fields ..
  show om: "observe_minute (with_market mk w) t bars r = observe_minute w t bars r" for t bars r
    unfolding observe_minute_def mn with_market_simps market_fields ..
  show os: "observe_minutes (with_market mk w) ts r = observe_minutes w ts r" for ts r unfolding observe_minutes_def om with_market_simps market_fields ..
  show "observe_flat_session (with_market mk w) r = observe_flat_session w r" unfolding observe_flat_session_def os ..
qed

lemma fills_do_not_read [simp]:
  "open_entry (with_market mk w) t l tk r = open_entry w t l tk r"
  "enter_one (with_market mk w) t found refusals = enter_one w t found refusals"
  "close_leg (with_market mk w) t x r = close_leg w t x r"
  "fill_closes (with_market mk w) t bars r = fill_closes w t bars r"
proof -
  show oe: "open_entry (with_market mk w) t l tk r = open_entry w t l tk r" for t l tk r unfolding open_entry_def with_market_simps market_fields market_not_read ..
  show "enter_one (with_market mk w) t found refusals = enter_one w t found refusals"
    unfolding enter_one_def oe ..
  show cl: "close_leg (with_market mk w) t x r = close_leg w t x r" for t x r unfolding close_leg_def with_market_simps market_fields market_not_read ..
  have sold: "sell_one (with_market mk w) t = sell_one w t" unfolding sell_one_def cl with_market_simps market_fields ..
  show "fill_closes (with_market mk w) t bars r = fill_closes w t bars r"
    unfolding fill_closes_def cl sold market_not_read ..
qed

text \<open>What changes no contract in play.\<close>

lemma put_leg_within:
  "leg_within su needed l' \<Longrightarrow> list_all (leg_within su needed) ls \<Longrightarrow> list_all (leg_within su needed) (put_leg l' ls)"
  by (auto simp: put_leg_def list_all_iff)

lemma observe_execution_within:
  assumes "observe_execution sr oc t s = Inr s'" "kept_within su needed mk s" shows "kept_within su needed mk s'"
proof (cases "s' = s")
  case False
  from observe_execution_step [OF assms(1) False] obtain l evs l' where l: "find (\<lambda>l. leg_id l = eo_leg_id oc) (ss_legs s) = Some l"
    and o': "(if eo_kind oc = Entry_Order then observe_entry else observe_close) (ss_exit_requested s) oc t (ss_events s) l = Inr (evs, l')"
    and s': "s' = s\<lparr>ss_events := evs, ss_legs := put_leg l' (ss_legs s),
           ss_observed := (eo_outcome_id oc, sr_digest sr oc) # ss_observed s\<rparr>" by metis
  have "l \<in> set (ss_legs s)" using l by (auto simp: find_Some_iff)
  then have "leg_within su needed l" using assms(2) by (simp add: kept_within_def list_all_iff)
  moreover have "tame l l'" using o' by (auto split: if_splits intro: observe_entry_tame observe_close_tame)
  ultimately show ?thesis using assms(2) tame_within put_leg_within by (auto simp: kept_within_def s')
qed (use assms(2) in simp)

abbreviation replay_within :: "backtest_setup \<Rightarrow> option_contract set \<Rightarrow> market \<Rightarrow> replay \<Rightarrow> bool" where
  "replay_within su needed mk r \<equiv> kept_within su needed mk (rp_session r)"

lemma with_leg_within:
  "leg_within su needed l \<Longrightarrow> replay_within su needed mk r \<Longrightarrow> replay_within su needed mk (with_leg evs l r)"
  by (simp add: with_leg_def kept_within_def put_leg_within)

lemma enter_one_within:
  assumes "enter_one w t found refusals (r, b) l = Inr (r', b')" "leg_within su needed l" "replay_within su needed mk r"
  shows "replay_within su needed mk r'"
proof (cases "map_of found (leg_id l)")
  case None
  then show ?thesis using assms tame_within [OF drop_entry_tame]
    by (auto simp: enter_one_def bindR_Inr_iff intro!: with_leg_within)
next
  case (Some e)
  show ?thesis
  proof (cases "map_of refusals (leg_id l)")
    case None
    then show ?thesis using assms Some
      by (auto simp: enter_one_def open_entry_def bindR_Inr_iff liftR_Inr intro: observe_execution_within)
  next
    case (Some why)
    have "leg_within su needed (l\<lparr>lg_phase := Ph_Done\<rparr>)" by (rule tame_within [OF _ assms(2)]) simp
    then show ?thesis using assms(1,3) Some \<open>map_of found (leg_id l) = _\<close>
      by (auto simp: enter_one_def intro!: with_leg_within)
  qed
qed

lemma fill_entries_within:
  assumes "fill_entries w t r = Inr r'" "replay_within su needed mk r"
  shows "replay_within su needed mk r'"
proof -
  let ?ordered = "filter (\<lambda>l. lg_phase l = Ph_Ordered) (rp_legs r)"
  have ordered: "leg_within su needed l" if "l \<in> set ?ordered" for l
    using that assms(2) by (auto simp: kept_within_def list_all_iff)
  show ?thesis
  proof (cases "?ordered = []")
    case False
    then obtain found refusals before r1 filled where
      f: "foldR (enter_one w t found refusals) (r, False) ?ordered = Inr (r1, filled)"
      and r': "(if filled then record_step w t Opening before [] r1 else Inr r1) = Inr r'"
      using assms(1) by (auto simp: fill_entries_def Let_def bindR_Inr_iff)
    have "(\<lambda>(r, _). replay_within su needed mk r) (r1, filled)"
      by (rule foldR_invariant [OF f]) (use assms(2) ordered enter_one_within in \<open>auto simp: case_prod_unfold\<close>)
    moreover have "rp_session r' = rp_session r1"
      using r' by (auto simp: record_step_def bindR_Inr_iff split: if_splits)
    ultimately show ?thesis by simp
  qed (use assms in \<open>simp add: fill_entries_def\<close>)
qed


lemma record_trade_session: "record_trade p c reason leaving fee r = Inr r' \<Longrightarrow> rp_session r' = rp_session r"
  by (auto simp: record_trade_def Let_def case_prod_unfold bindR_Inr_iff)

lemma close_leg_within:
  assumes "close_leg w t x r = Inr r'" "replay_within su needed mk r"
  shows "replay_within su needed mk r'"
  using assms
  by (cases x) (auto simp: close_leg_def Let_def bindR_Inr_iff position_of_Inr
      split: option.splits elim!: observe_execution_within dest!: record_trade_session)

lemma fill_closes_within:
  assumes "fill_closes w t bars r = Inr r'" "replay_within su needed mk r"
  shows "replay_within su needed mk r'"
proof -
  obtain due where due: "due_closes bars (rp_legs r) = Inr due" using assms(1) by (auto simp: fill_closes_def bindR_Inr_iff)
  show ?thesis
  proof (cases "due = []")
    case False
    let ?buys = "filter (\<lambda>x. ls_side (lg_setup (fst x)) = Sell) due"
      and ?sales = "filter (\<lambda>x. ls_side (lg_setup (fst x)) = Buy) due"
    obtain before bb r1 h r2 h2 closed where
      buys: "foldR (\<lambda>r x. close_leg w t x r) r ?buys = Inr r1"
      and sales: "foldR (sell_one w t) (r1, h, ?buys \<noteq> []) ?sales = Inr (r2, h2, closed)"
      and r': "(if closed then record_step w t Closing before bb r2 else Inr r2) = Inr r'"
      using assms(1) due False by (auto simp: fill_closes_def Let_def bindR_Inr_iff)
    have r1: "replay_within su needed mk r1"
      by (rule foldR_invariant [OF buys, where I = "replay_within su needed mk", OF assms(2)]) (rule close_leg_within)
    have "(\<lambda>(r, _). replay_within su needed mk r) (r2, h2, closed)"
      by (rule foldR_invariant [OF sales])
        (use r1 in \<open>auto simp: sell_one_def case_prod_unfold bindR_Inr_iff split: if_splits intro: close_leg_within\<close>)
    moreover have "rp_session r' = rp_session r2"
      using r' by (auto simp: record_step_def bindR_Inr_iff split: if_splits)
    ultimately show ?thesis by simp
  qed (use assms due in \<open>simp add: fill_closes_def\<close>)
qed

lemma foldR_cong_on:
  "(\<And>z x. x \<in> set xs \<Longrightarrow> f z x = g z x) \<Longrightarrow> foldR f z xs = foldR g z xs"
  by (induction xs arbitrary: z) (auto simp: bindR_def split: sum.split)

lemma find_entries_alike:
  assumes "answers_alike su needed (world_market w) mk'" "trades_on su (world_market w)"
    "\<And>l. l \<in> set ordered \<Longrightarrow> leg_within su needed l"
  shows "find_entries (with_market mk' w) t su0 ordered = find_entries w t su0 ordered"
proof -
  have bar: "mk_option_bar mk' c t = mk_option_bar (world_market w) c t" if "c \<in> needed" for c
    using assms(1,2) that by (auto simp: answers_alike_def)
  show ?thesis
    unfolding find_entries_def with_market_simps
  proof (rule foldR_cong_on, goal_cases)
    case (1 found l)
    then have "attempt_of l = Inr a \<Longrightarrow> at_contract a \<in> needed" for a
      using assms(3) by (auto simp: leg_within_def in_play_def attempt_of_def split: option.splits)
    with bar show ?case by (cases "attempt_of l") simp_all
  qed
qed

lemma replay_minute_alike:
  assumes "answers_alike su needed (world_market w) mk'" "trades_on su (world_market w)"
    "replay_within su needed (world_market w) r" "entry_ms (rp_session r) < t" "(t - entry_ms (rp_session r)) mod ms_per_minute = 0"
  shows "replay_minute (with_market mk' w) r t = replay_minute w r t"
    "replay_minute w r t = Inr r' \<Longrightarrow> replay_within su needed (world_market w) r'"
proof -
  let ?ok = "replay_within su needed (world_market w)"
  have entry: "entry_ms s = entry_ms (rp_session r)" if "kept_within su needed (world_market w) s" for s
    using that assms(3) by (simp add: entry_ms_def kept_within_def)
  have entries: "fill_entries (with_market mk' w) t r = fill_entries w t r"
    unfolding fill_entries_def fills_do_not_read market_not_read
    using find_entries_alike [OF assms(1,2), of "filter (\<lambda>l. lg_phase l = Ph_Ordered) (rp_legs r)"] assms(3)
    by (simp add: kept_within_def list_all_iff Let_def)
  note read = read_held_bars_alike [OF assms(1,2)]
  note rules = advance_rules_alike [OF assms(1,2)]
  have mid: "?ok r1" "kept_within su needed (world_market w) s2" "?ok r3"
    if "fill_entries w t r = Inr r1" "read_held_bars (world_market w) t (rp_session r1) = Inr (s2, bars)"
      "fill_closes w t bars (r1\<lparr>rp_session := s2\<rparr>) = Inr r3" for r1 s2 bars r3
  proof -
    show r1: "?ok r1" by (rule fill_entries_within [OF that(1) assms(3)])
    show s2: "kept_within su needed (world_market w) s2" by (rule read_held_bars_within [OF that(2) r1])
    show "?ok r3" by (rule fill_closes_within [OF that(3)]) (use s2 in simp)
  qed
  show "replay_minute (with_market mk' w) r t = replay_minute w r t"
  proof (cases "fill_entries w t r")
    case (Inr r1)
    have r1: "?ok r1" by (rule fill_entries_within [OF Inr assms(3)])
    show ?thesis
    proof (cases "read_held_bars (world_market w) t (rp_session r1)")
      case (Inr sb)
      obtain s2 bars where sb: "sb = (s2, bars)" by (cases sb)
      note held = Inr [unfolded sb]
      show ?thesis
      proof (cases "fill_closes w t bars (r1\<lparr>rp_session := s2\<rparr>)")
        case (Inr r3)
        note r3 = mid(3) [OF \<open>fill_entries w t r = Inr r1\<close> held Inr]
        then show ?thesis using rules(1) [OF r3] entry [OF r3] assms(4,5)
          by (simp add: replay_minute_def entries read [OF r1] \<open>fill_entries w t r = Inr r1\<close> held Inr)
      qed (simp add: replay_minute_def entries read [OF r1] \<open>fill_entries w t r = Inr r1\<close> held)
    qed (simp add: replay_minute_def entries read [OF r1] \<open>fill_entries w t r = Inr r1\<close>)
  qed (simp add: replay_minute_def entries)
  assume "replay_minute w r t = Inr r'"
  then obtain r1 s2 bars r3 s4 where steps: "fill_entries w t r = Inr r1"
      "read_held_bars (world_market w) t (rp_session r1) = Inr (s2, bars)"
      "fill_closes w t bars (r1\<lparr>rp_session := s2\<rparr>) = Inr r3"
    and s4: "advance_rules (rw_around w) t bars True (rp_session r3) = Inr s4"
    and r': "observe_minute w t bars (r3\<lparr>rp_session := s4\<rparr>) = Inr r'"
    by (auto simp: replay_minute_def bindR_Inr_iff)
  note r3 = mid(3) [OF steps]
  have "kept_within su needed (world_market w) s4" using rules(2) [OF r3 _ _ s4] entry [OF r3] assms(4,5) by simp
  moreover have "rp_session r' = s4"
    using r' by (auto simp: observe_minute_def Let_def bindR_Inr_iff split: if_splits)
  ultimately show "?ok r'" by simp
qed


subsection \<open>The session\<close>

lemma foldR_cong_invariant:
  assumes "I z" "\<And>z x. x \<in> set xs \<Longrightarrow> I z \<Longrightarrow> f z x = g z x"
    "\<And>z x z'. x \<in> set xs \<Longrightarrow> I z \<Longrightarrow> g z x = Inr z' \<Longrightarrow> I z'"
  shows "foldR f z xs = foldR g z xs"
  using assms
proof (induction xs arbitrary: z)
  case (Cons x xs)
  show ?case
  proof (cases "g z x")
    case (Inr z1)
    have "foldR f z1 xs = foldR g z1 xs"
      by (rule Cons.IH [OF Cons.prems(3) [OF _ Cons.prems(1) Inr]]) (simp, use Cons.prems(2) in simp, metis Cons.prems(3) list.set_intros(2))
    then show ?thesis using Cons.prems(1,2) Inr by simp
  qed (use Cons.prems(1,2) in simp)
qed simp

lemma start_session_alike:
  assumes "answers_alike su needed (sr_market sr) mk'" "trades_on su (sr_market sr)"
    "kept_within su needed (sr_market sr) s" "t = entry_ms s"
  shows "start_session (sr\<lparr>sr_market := mk'\<rparr>) t allow s = start_session sr t allow s"
    "start_session sr t allow s = Inr s' \<Longrightarrow> kept_within su needed (sr_market sr) s'"
proof -
  have same: "mk_underlying_close mk' = mk_underlying_close (sr_market sr)"
    using assms(1,2) by (simp add: answers_alike_def trades_on_def)
  have ask: "asks su (sr_market sr) (lg_setup l) t u"
    if "mk_underlying_close (sr_market sr) t = Some u" "leg_within su needed l" for l u
    using that assms(3,4) by (auto simp: asks_def kept_within_def entry_ms_def leg_within_def)
  have legs: "leg_within su needed l" if "l \<in> set (ss_legs s)" for l
    using that assms(3) by (simp add: kept_within_def list_all_iff)
  have begun: "over_legs (\<lambda>evs l. begin_leg mk' t u (ls_momentum (lg_setup l) \<noteq> None) evs l) (s\<lparr>ss_started := True\<rparr>)
      = over_legs (\<lambda>evs l. begin_leg (sr_market sr) t u (ls_momentum (lg_setup l) \<noteq> None) evs l) (s\<lparr>ss_started := True\<rparr>)"
    if "mk_underlying_close (sr_market sr) t = Some u" for u
  proof -
    have "begin_leg mk' t u wait evs l = begin_leg (sr_market sr) t u wait evs l" if "l \<in> set (ss_legs s)" for wait evs l
      by (rule begin_leg_alike(1) [OF assms(1,2) ask]) (use legs that \<open>mk_underlying_close (sr_market sr) t = Some u\<close> in auto)
    then show ?thesis by (intro over_legs_cong) auto
  qed
  show "start_session (sr\<lparr>sr_market := mk'\<rparr>) t allow s = start_session sr t allow s"
    using begun by (cases "mk_underlying_close (sr_market sr) t") (auto simp: start_session_def Let_def same)
  assume st: "start_session sr t allow s = Inr s'"
  show "kept_within su needed (sr_market sr) s'"
  proof (cases "mk_underlying_close (sr_market sr) t")
    case (Some u)
    have "kept_within su needed (sr_market sr) s2"
      if "over_legs (\<lambda>evs l. begin_leg (sr_market sr) t u (ls_momentum (lg_setup l) \<noteq> None) evs l) (s\<lparr>ss_started := True\<rparr>) = Inr s2" for s2
      by (rule over_legs_within [OF that])
        (use assms(3) begin_leg_alike(2) [OF assms(1,2) ask [OF Some]] in auto)
    with st assms(3) Some show ?thesis by (auto simp: start_session_def Let_def split: if_splits)
  qed (use st assms(3) in \<open>auto simp: start_session_def Let_def split: if_splits\<close>)
qed

lemma replay_reads_alike:
  assumes "answers_alike su needed (world_market w) mk'"
  shows "replay_session su (with_market mk' w) cash = replay_session su w cash"
proof -
  let ?mk = "world_market w"
  have ends: "mk_open_ms mk' = mk_open_ms ?mk" "mk_close_ms mk' = mk_close_ms ?mk"
    using assms by (simp_all add: answers_alike_def)
  have opened: "options_session su mk' None = options_session su ?mk None"
    by (simp add: options_session_def ends fresh_session_def)
  have run: "run_replay (with_market mk' w) cash r = run_replay w cash r"
    if s: "options_session su ?mk None = Inr s" and r: "rp_session r = s" for s r
  proof (cases "trades_on su ?mk")
    case True
    have fresh: "s = fresh_session su ?mk" using s by (auto simp: options_session_def fresh_session_def split: if_splits)
    have kept: "kept_within su needed ?mk s"
      by (auto simp: fresh kept_within_def fresh_session_def list_all_iff leg_within_def fresh_leg_def in_play_def)
    note start = start_session_alike [OF assms True kept refl]
    have entry: "entry_ms s' = entry_ms s" if "kept_within su needed ?mk s'" for s'
      using that kept by (simp add: entry_ms_def kept_within_def)
    have minutes: "foldR (replay_minute (with_market mk' w)) r2 (minute_range (entry_ms s + ms_per_minute) e)
        = foldR (replay_minute w) r2 (minute_range (entry_ms s + ms_per_minute) e)" if "replay_within su needed ?mk r2" for r2 e
    proof (rule foldR_cong_invariant [where I = "replay_within su needed ?mk", OF that])
      fix z t assume t: "t \<in> set (minute_range (entry_ms s + ms_per_minute) e)" and z: "replay_within su needed ?mk z"
      have late: "entry_ms (rp_session z) < t" "(t - entry_ms (rp_session z)) mod ms_per_minute = 0"
        using t entry [OF z] by (auto simp: minute_range_def ms_per_minute_def)
      show "replay_minute (with_market mk' w) z t = replay_minute w z t"
        by (rule replay_minute_alike(1) [OF assms True z late])
      show "replay_within su needed ?mk z'" if "replay_minute w z t = Inr z'" for z'
        by (rule replay_minute_alike(2) [OF assms True z late that])
    qed
    have before: "foldR (replay_minute (with_market mk' w)) r2 (minute_range (entry_ms s + ms_per_minute) e)
        = foldR (replay_minute w) r2 (minute_range (entry_ms s + ms_per_minute) e)"
      if "start_session (rw_around w) (entry_ms s) True s = Inr s1"
        "observe_minutes w ts (r\<lparr>rp_session := s1\<rparr>) = Inr r2" for s1 ts r2 e
      using minutes start(2) [OF that(1)] observe_minutes_same [OF that(2)] by auto
    have fold: "bindR (observe_minutes w ts (r\<lparr>rp_session := s1\<rparr>)) (\<lambda>r2.
          bindR (foldR (replay_minute (with_market mk' w)) r2 (minute_range (entry_ms s + ms_per_minute) e)) k)
        = bindR (observe_minutes w ts (r\<lparr>rp_session := s1\<rparr>)) (\<lambda>r2.
          bindR (foldR (replay_minute w) r2 (minute_range (entry_ms s + ms_per_minute) e)) k)"
      if "start_session (rw_around w) (entry_ms s) True s = Inr s1" for s1 ts e k
      using before [OF that] by (cases "observe_minutes w ts (r\<lparr>rp_session := s1\<rparr>)") simp_all
    show ?thesis
    proof (cases "start_session (rw_around w) (entry_ms s) True s")
      case (Inr s1)
      show ?thesis
        unfolding run_replay_def Let_def r with_market_simps market_not_read start(1) Inr bindR_simps fold [OF Inr] ..
    qed (simp add: run_replay_def Let_def r start(1))
  next
    case False
    have fields: "ss_setup s = su" "ss_open_ms s = mk_open_ms ?mk" "ss_close_ms s = mk_close_ms ?mk"
      using s by (auto simp: options_session_def fresh_session_def split: if_splits)
    show ?thesis
    proof (cases "window_fits su (mk_open_ms ?mk) (mk_close_ms ?mk)")
      case True
      have started: "entry_ms (s\<lparr>ss_started := True\<rparr>) = entry_ms s" by (simp add: entry_ms_def)
      have "mk_underlying_close mk' = mk_underlying_close ?mk" "mk_underlying_close ?mk (entry_ms s) = None"
        using assms True False by (auto simp: answers_alike_def trades_on_def entry_ms_def fields)
      then show ?thesis using True
        by (simp add: run_replay_def Let_def r fields start_session_def started)
    qed (simp add: run_replay_def Let_def r fields)
  qed
  show ?thesis
    using run by (cases "options_session su ?mk None") (simp_all add: replay_session_def Let_def ends opened)
qed

end
