(* ===== verification/Picking.thy ===== *)
theory Picking
  imports Session_State "HOL-Library.Product_Lexorder"
begin

text \<open>
  \<open>app/options_backtest/picking.py\<close> and \<open>app/options_backtest/sessions.py\<close>: which option contract the rules of a
  leg come to on a past date's listing.

  The exchange calendar is data outside the repository: the sessions from one date to another, both included and
  oldest first, are the parameter \<open>sessions_between\<close>. Dates are the triples of \<open>Option_Contract\<close> in their
  lexicographic order; \<open>ordinal\<close> is \<open>date.toordinal\<close>, which \<open>weekday\<close> and the difference of two dates
  read. The words of a refusal are the parameter \<open>words\<close>. A price that is a \<open>Decimal\<close> is the type's; strikes are
  whole thousandths of a dollar and the money is compared with them exactly.
\<close>

subsection \<open>Dates and the calendar\<close>

definition days_before_year :: "nat \<Rightarrow> int" where
  "days_before_year y = (let k = int y - 1 in k * 365 + k div 4 - k div 100 + k div 400)"

definition ordinal :: "date \<Rightarrow> int" where
  "ordinal = (\<lambda>(y, m, d). days_before_year y + (\<Sum>i\<leftarrow>[1..<m]. int (days_in_month y i)) + int d)"

definition weekday :: "date \<Rightarrow> nat" where "weekday day = nat ((ordinal day + 6) mod 7)"

definition day_before :: "date \<Rightarrow> date" where
  "day_before = (\<lambda>(y, m, d). if 1 < d then (y, m, d - 1)
     else if 1 < m then (y, m - 1, days_in_month y (m - 1)) else (y - 1, 12, 31))"

definition day_after :: "date \<Rightarrow> date" where
  "day_after = (\<lambda>(y, m, d). if d < days_in_month y m then (y, m, d + 1)
     else if m < 12 then (y, m + 1, 1) else (y + 1, 1, 1))"

type_synonym calendar = "date \<Rightarrow> date \<Rightarrow> date list"

definition sessions_of_week :: "calendar \<Rightarrow> date \<Rightarrow> date list" where
  "sessions_of_week sessions_between day =
     (let monday = (day_before ^^ weekday day) day in sessions_between monday ((day_after ^^ 6) monday))"

definition is_session :: "calendar \<Rightarrow> date \<Rightarrow> bool" where
  "is_session sessions_between day \<longleftrightarrow> day \<in> set (sessions_of_week sessions_between day)"

definition ends_its_week :: "calendar \<Rightarrow> date \<Rightarrow> bool" where
  "ends_its_week sessions_between day \<longleftrightarrow>
     (let week = sessions_of_week sessions_between day in week \<noteq> [] \<and> last week = day)"

subsection \<open>A listing\<close>

record listed_contract =
  ld_contract :: option_contract
  ld_multiplier :: int
  ld_standard :: bool

definition is_pickable :: "listed_contract \<Rightarrow> bool" where
  "is_pickable ld \<longleftrightarrow> ld_standard ld \<and> ld_multiplier ld = standard_multiplier"

record listing =
  ln_underlying :: string
  ln_as_of :: date
  ln_contracts :: "listed_contract list"
  ln_complete :: bool

datatype pick_error =
    Pick_Price_Not_Positive
  | Pick_Listing_Of_Another_Date
  | Pick_Not_An_Expiry contract_error
  | Pick_Key_Error

subsection \<open>The expiry a rule means\<close>

definition expiry_means :: "calendar \<Rightarrow> expiry_rule \<Rightarrow> date \<Rightarrow> date \<Rightarrow> bool" where
  "expiry_means sessions_between rule trading_date day =
     (case rule of
        Same_Day \<Rightarrow> day = trading_date
      | This_Week \<Rightarrow> ends_its_week sessions_between day
      | Min_Days n \<Rightarrow> n \<le> ordinal day - ordinal trading_date)"

definition expiry_for :: "calendar \<Rightarrow> expiry_rule \<Rightarrow> date list \<Rightarrow> date \<Rightarrow> date option" where
  "expiry_for sessions_between rule dates trading_date =
     (let ahead = sort (remdups (filter (\<lambda>day. trading_date \<le> day) dates))
      in find (expiry_means sessions_between rule trading_date) ahead)"

subsection \<open>The strike a rule means\<close>

definition require_a_price :: "decimal \<Rightarrow> (pick_error, unit) result" where
  "require_a_price price = guardR (is_finite price \<and> 0 < dval price) Pick_Price_Not_Positive"

text \<open>\<open>bisect.bisect_left\<close>: the place of the first item that is not below \<open>x\<close>, by halving.\<close>

function bisect_between :: "int list \<Rightarrow> rat \<Rightarrow> nat \<Rightarrow> nat \<Rightarrow> nat" where
  "bisect_between xs x lo hi =
     (if lo < hi
      then let mid = (lo + hi) div 2
           in if of_int (xs ! mid) < x then bisect_between xs x (mid + 1) hi else bisect_between xs x lo mid
      else lo)"
  by pat_completeness auto
termination by (relation "measure (\<lambda>(xs, x, lo, hi). hi - lo)") auto

declare bisect_between.simps [simp del]

definition bisect_left :: "int list \<Rightarrow> rat \<Rightarrow> nat" where
  "bisect_left xs x = bisect_between xs x 0 (length xs)"

definition the_money :: "int list \<Rightarrow> decimal \<Rightarrow> nat" where
  "the_money ladder price =
     (let money = dval price * 1000; above = bisect_left ladder money
      in if above = 0 then 0
         else if above = length ladder then above - 1
         else if money - of_int (ladder ! (above - 1)) \<le> of_int (ladder ! above) - money then above - 1 else above)"

definition strike_on :: "strike_rule \<Rightarrow> int list \<Rightarrow> decimal \<Rightarrow> int option" where
  "strike_on rule ladder price =
     (let steps = (case rule of At_The_Money \<Rightarrow> 0 | Steps_From_The_Money n \<Rightarrow> n);
          spot = int (the_money ladder price) + steps
      in if 0 \<le> spot \<and> spot < int (length ladder) then Some (ladder ! nat spot) else None)"

definition strike_for :: "strike_rule \<Rightarrow> int list \<Rightarrow> decimal \<Rightarrow> (pick_error, int option) result" where
  "strike_for rule strikes price =
     bindR (require_a_price price) (\<lambda>_.
       let ladder = sort (remdups strikes) in if ladder = [] then Inr None else Inr (strike_on rule ladder price))"

subsection \<open>A pick, in two steps\<close>

type_synonym strike_ladder = "(int \<times> listed_contract) list"

text \<open>
  \<open>_by_expiry\<close>: by expiry date and then by strike, the first contract listed at a strike kept. An expiry that is no
  anchor instant is refused by \<open>option_expiry_date\<close>.
\<close>

definition by_expiry ::
  "(date \<Rightarrow> int) \<Rightarrow> (int \<Rightarrow> date) \<Rightarrow> listed_contract list \<Rightarrow> (pick_error, (date \<times> strike_ladder) list) result" where
  "by_expiry anchor et_date lds =
     foldR (\<lambda>grouped ld.
       bindR (case option_expiry_date anchor et_date (oc_expiry_ms (ld_contract ld)) of
                Inl e \<Rightarrow> Inl (Pick_Not_An_Expiry e) | Inr d \<Rightarrow> Inr d) (\<lambda>d.
         let ladder = (case map_of grouped d of None \<Rightarrow> [] | Some k \<Rightarrow> k);
             k = oc_strike (ld_contract ld)
         in Inr (AList.update d (if map_of ladder k = None then AList.update k ld ladder else ladder) grouped))) [] lds"

record prepared_leg =
  pg_leg :: leg_setup
  pg_expiry :: date
  pg_ladder :: strike_ladder

datatype preparation = Prepared prepared_leg | Not_Prepared pick_refusal

definition pick_at :: "(pick_refusal \<Rightarrow> string) \<Rightarrow> prepared_leg \<Rightarrow> decimal \<Rightarrow> (pick_error, pick_answer) result" where
  "pick_at words pg price =
     bindR (require_a_price price) (\<lambda>_.
       case strike_on (ls_strike (pg_leg pg)) (sort (map fst (pg_ladder pg))) price of
         None \<Rightarrow> Inr (Pick_Refused Strike_Not_Listed (words Strike_Not_Listed))
       | Some k \<Rightarrow>
           (case map_of (pg_ladder pg) k of
              None \<Rightarrow> Inl Pick_Key_Error
            | Some chosen \<Rightarrow> Inr (Picked (ld_contract chosen) (ld_multiplier chosen))))"

definition require_the_listings_date :: "listing \<Rightarrow> date \<Rightarrow> (pick_error, unit) result" where
  "require_the_listings_date shown trading_date = guardR (ln_as_of shown = trading_date) Pick_Listing_Of_Another_Date"

definition no_expiry ::
  "calendar \<Rightarrow> (date \<Rightarrow> int) \<Rightarrow> (int \<Rightarrow> date) \<Rightarrow> leg_setup \<Rightarrow> listed_contract list \<Rightarrow> date list \<Rightarrow> date
    \<Rightarrow> (pick_error, pick_refusal) result" where
  "no_expiry sessions_between anchor et_date l of_its_right standard_dates trading_date =
     bindR (by_expiry anchor et_date (filter (\<lambda>ld. \<not> is_pickable ld) of_its_right)) (\<lambda>others.
       Inr (if expiry_for sessions_between (ls_expiry l) (standard_dates @ map fst others) trading_date \<noteq> None
            then Not_Standard else Expiry_Not_Listed))"

definition prepare_leg ::
  "calendar \<Rightarrow> (date \<Rightarrow> int) \<Rightarrow> (int \<Rightarrow> date) \<Rightarrow> leg_setup \<Rightarrow> listing \<Rightarrow> date \<Rightarrow> (pick_error, preparation) result" where
  "prepare_leg sessions_between anchor et_date l shown trading_date =
     bindR (require_the_listings_date shown trading_date) (\<lambda>_.
       if \<not> ln_complete shown then Inr (Not_Prepared Chain_Incomplete)
       else
         let of_its_right = filter (\<lambda>ld. oc_root (ld_contract ld) = ln_underlying shown
               \<and> oc_right (ld_contract ld) = ls_right l) (ln_contracts shown)
         in bindR (by_expiry anchor et_date (filter is_pickable of_its_right)) (\<lambda>standard.
            case expiry_for sessions_between (ls_expiry l) (map fst standard) trading_date of
              None \<Rightarrow> bindR (no_expiry sessions_between anchor et_date l of_its_right (map fst standard) trading_date)
                        (\<lambda>why. Inr (Not_Prepared why))
            | Some expiry \<Rightarrow>
                if \<not> is_session sessions_between expiry then Inr (Not_Prepared Expiry_Not_A_Session)
                else (case map_of standard expiry of
                        None \<Rightarrow> Inl Pick_Key_Error
                      | Some ladder \<Rightarrow> Inr (Prepared \<lparr>pg_leg = l, pg_expiry = expiry, pg_ladder = ladder\<rparr>))))"

definition pick_prepared :: "(pick_refusal \<Rightarrow> string) \<Rightarrow> preparation \<Rightarrow> decimal \<Rightarrow> (pick_error, pick_answer) result" where
  "pick_prepared words prepared price =
     (case prepared of Not_Prepared why \<Rightarrow> Inr (Pick_Refused why (words why)) | Prepared pg \<Rightarrow> pick_at words pg price)"

definition pick_contract ::
  "calendar \<Rightarrow> (date \<Rightarrow> int) \<Rightarrow> (int \<Rightarrow> date) \<Rightarrow> (pick_refusal \<Rightarrow> string) \<Rightarrow> leg_setup \<Rightarrow> listing \<Rightarrow> date \<Rightarrow> decimal
    \<Rightarrow> (pick_error, pick_answer) result" where
  "pick_contract sessions_between anchor et_date words l shown trading_date price =
     bindR (require_the_listings_date shown trading_date) (\<lambda>_.
     bindR (require_a_price price) (\<lambda>_.
     bindR (prepare_leg sessions_between anchor et_date l shown trading_date) (\<lambda>prepared.
       pick_prepared words prepared price)))"

subsection \<open>What a pick comes to\<close>

lemma bisect_between_place:
  assumes "lo \<le> hi" "hi \<le> length xs" "sorted xs"
    and "\<And>i. i < lo \<Longrightarrow> of_int (xs ! i) < x" "\<And>i. hi \<le> i \<Longrightarrow> i < length xs \<Longrightarrow> x \<le> of_int (xs ! i)"
  shows "bisect_between xs x lo hi \<le> length xs
    \<and> (\<forall>i<bisect_between xs x lo hi. of_int (xs ! i) < x)
    \<and> (\<forall>i. bisect_between xs x lo hi \<le> i \<longrightarrow> i < length xs \<longrightarrow> x \<le> of_int (xs ! i))"
  using assms
proof (induction xs x lo hi rule: bisect_between.induct)
  case (1 xs x lo hi)
  let ?mid = "(lo + hi) div 2"
  show ?case
  proof (cases "lo < hi")
    case True
    have mono: "rat_of_int (xs ! i) \<le> of_int (xs ! j)" if "i \<le> j" "j < length xs" for i j
      using sorted_nth_mono [OF 1(5) that] by simp
    have mid: "?mid < hi" "lo \<le> ?mid" using True by auto
    show ?thesis
    proof (cases "of_int (xs ! ?mid) < x")
      case below: True
      have "of_int (xs ! i) < x" if "i < ?mid + 1" for i
        using mono [of i ?mid] that below mid(1) 1(4) by linarith
      from 1(1) [OF True refl below _ 1(4,5) this 1(7)] mid(1)
      show ?thesis using True below by (simp add: bisect_between.simps [of xs x lo hi] Let_def)
    next
      case False
      have "x \<le> of_int (xs ! i)" if "?mid \<le> i" "i < length xs" for i
        using mono [OF that] False by linarith
      from 1(2) [OF True refl False mid(2) _ 1(5,6) this] mid(1) 1(4)
      show ?thesis using True False by (simp add: bisect_between.simps [of xs x lo hi] Let_def)
    qed
  next
    case False
    then have "bisect_between xs x lo hi = lo" by (simp add: bisect_between.simps [of xs x lo hi])
    then show ?thesis using False 1(3-) by auto
  qed
qed

lemma bisect_left_place:
  assumes "sorted xs"
  shows "bisect_left xs x \<le> length xs" "i < bisect_left xs x \<Longrightarrow> of_int (xs ! i) < x"
    "bisect_left xs x \<le> i \<Longrightarrow> i < length xs \<Longrightarrow> x \<le> of_int (xs ! i)"
  using bisect_between_place [of 0 "length xs" xs x] assms by (auto simp: bisect_left_def)

text \<open>The money is the nearest strike, and every other is farther, or as far and above it.\<close>

definition nearer :: "rat \<Rightarrow> int \<Rightarrow> int \<Rightarrow> bool" where
  "nearer money k k' \<longleftrightarrow> \<bar>of_int k - money\<bar> < \<bar>of_int k' - money\<bar> \<or> \<bar>of_int k - money\<bar> = \<bar>of_int k' - money\<bar> \<and> k < k'"

lemma the_money_nearest:
  assumes "sorted xs" "distinct xs" "xs \<noteq> []"
  shows "the_money xs price < length xs
    \<and> (\<forall>i<length xs. i \<noteq> the_money xs price \<longrightarrow> nearer (dval price * 1000) (xs ! the_money xs price) (xs ! i))"
proof -
  let ?m = "dval price * 1000" and ?b = "bisect_left xs (dval price * 1000)"
  note b = bisect_left_place [OF assms(1), where x = ?m]
  have mono: "rat_of_int (xs ! i) < of_int (xs ! j)" if "i < j" "j < length xs" for i j
    using sorted_nth_mono [OF assms(1), of i j] nth_eq_iff_index_eq [OF assms(2), of i j] that by (simp add: order.strict_iff_order)
  have up: "nearer ?m (xs ! i) (xs ! j)" if "i < j" "j < length xs" "?m \<le> of_int (xs ! i)" for i j
    using mono [OF that(1,2)] that(3) by (simp add: nearer_def)
  have down: "nearer ?m (xs ! i) (xs ! j)" if "j < i" "i < length xs" "of_int (xs ! i) < ?m" for i j
    using mono [OF that(1,2)] that(3) by (simp add: nearer_def)
  consider (first) "?b = 0" | (past) "?b \<noteq> 0" "?b = length xs" | (mid) "?b \<noteq> 0" "?b < length xs"
    using b(1) by linarith
  then show ?thesis
  proof cases
    case first
    then show ?thesis using up [of 0] b(3) [of 0] assms(3) by (simp add: the_money_def Let_def)
  next
    case past
    have "nearer ?m (xs ! (length xs - 1)) (xs ! i)" if "i < length xs" "i \<noteq> length xs - 1" for i
      using down [of i "length xs - 1"] that b(2) [of "length xs - 1"] past by simp
    then show ?thesis using past assms(3) by (simp add: the_money_def Let_def)
  next
    case mid
    let ?lo = "xs ! (?b - 1)" and ?hi = "xs ! ?b"
    have lo: "of_int ?lo < ?m" "?m \<le> of_int ?hi" "rat_of_int ?lo < of_int ?hi"
      using b(2) [of "?b - 1"] b(3) [of ?b] mono [of "?b - 1" ?b] mid by simp_all
    have below: "nearer ?m ?lo (xs ! i) \<or> i = ?b - 1" if "i < ?b" for i
      using down [of i "?b - 1"] that lo mid by linarith
    have above: "nearer ?m ?hi (xs ! i) \<or> i = ?b" if "\<not> i < ?b" "i < length xs" for i
      using up [of ?b i] that lo mid by linarith
    have chain: "nearer ?m a b \<Longrightarrow> nearer ?m b c \<Longrightarrow> nearer ?m a c" for a b c
      by (auto simp: nearer_def)
    show ?thesis
    proof (cases "?m - of_int ?lo \<le> of_int ?hi - ?m")
      case True
      then have near: "nearer ?m ?lo ?hi" using lo by (auto simp: nearer_def)
      have at_lo: "the_money xs price = ?b - 1" using True mid by (simp add: the_money_def Let_def)
      have "nearer ?m ?lo (xs ! i)" if "i < length xs" "i \<noteq> ?b - 1" for i
        using below [of i] above [of i] chain [OF near, of "xs ! i"] near that by blast
      then show ?thesis unfolding at_lo using mid by auto
    next
      case False
      then have near: "nearer ?m ?hi ?lo" using lo by (auto simp: nearer_def)
      have at_hi: "the_money xs price = ?b" using False mid by (simp add: the_money_def Let_def)
      have "nearer ?m ?hi (xs ! i)" if "i < length xs" "i \<noteq> ?b" for i
        using below [of i] above [of i] chain [OF near, of "xs ! i"] near that by blast
      then show ?thesis unfolding at_hi using mid by auto
    qed
  qed
qed

lemma card_below:
  assumes "sorted xs" "distinct xs" "i < length xs"
  shows "card {x \<in> set xs. x < xs ! i} = i"
proof -
  have "x \<in> set (take i xs) \<longleftrightarrow> x \<in> set xs \<and> x < xs ! i" for x
  proof
    assume "x \<in> set (take i xs)"
    then obtain j where "j < i" "x = xs ! j" "j < length xs" by (auto simp: in_set_conv_nth)
    then show "x \<in> set xs \<and> x < xs ! i"
      using sorted_nth_mono [OF assms(1), of j i] nth_eq_iff_index_eq [OF assms(2), of j i] assms(3) by fastforce
  next
    assume x: "x \<in> set xs \<and> x < xs ! i"
    then obtain j where j: "x = xs ! j" "j < length xs" by (auto simp: in_set_conv_nth)
    with x sorted_nth_mono [OF assms(1), of i j] have "j < i" by force
    with j show "x \<in> set (take i xs)" by (auto simp: in_set_conv_nth)
  qed
  then have "{x \<in> set xs. x < xs ! i} = set (take i xs)" by blast
  then show ?thesis using distinct_card [OF distinct_take [OF assms(2), of i]] assms(3) by simp
qed

lemma strike_on_place:
  "strike_on rule xs price = Some k \<longleftrightarrow>
     (\<exists>i<length xs. k = xs ! i \<and> int i = int (the_money xs price)
        + (case rule of At_The_Money \<Rightarrow> 0 | Steps_From_The_Money n \<Rightarrow> n))"
proof -
  let ?at = "int (the_money xs price) + (case rule of At_The_Money \<Rightarrow> 0 | Steps_From_The_Money n \<Rightarrow> n)"
  have place: "(\<exists>i<length xs. k = xs ! i \<and> int i = z) \<longleftrightarrow> 0 \<le> z \<and> z < int (length xs) \<and> k = xs ! nat z" for z
    by (auto intro: exI [of _ "nat z"])
  show ?thesis unfolding place by (auto simp: strike_on_def Let_def)
qed

text \<open>
  C28: a strike rule means what it says of the strikes listed, whatever their order and repeats. At the money is the one
  strike nearest the underlying's price, the lower of two as near; and \<open>n\<close> steps from it is the strike with \<open>n\<close> more
  listed strikes below it than the money has, and none when no strike has that many.
\<close>

theorem strike_for_exact:
  assumes "is_finite price" "0 < dval price" "strikes \<noteq> []"
  shows "\<exists>money\<in>set strikes.
      (\<forall>k\<in>set strikes - {money}. \<bar>of_int money - dval price * 1000\<bar> < \<bar>of_int k - dval price * 1000\<bar>
          \<or> \<bar>of_int money - dval price * 1000\<bar> = \<bar>of_int k - dval price * 1000\<bar> \<and> money < k)
    \<and> strike_for At_The_Money strikes price = Inr (Some money)
    \<and> (\<forall>n k. strike_for (Steps_From_The_Money n) strikes price = Inr (Some k) \<longleftrightarrow>
        k \<in> set strikes \<and> int (card {x \<in> set strikes. x < k}) = int (card {x \<in> set strikes. x < money}) + n)"
proof -
  let ?xs = "sort (remdups strikes)"
  have xs: "sorted ?xs" "distinct ?xs" "?xs \<noteq> []" "set ?xs = set strikes" using assms(3) by (simp_all flip: set_empty)
  note m = the_money_nearest [OF xs(1-3), of price]
  let ?p = "the_money ?xs price"
  have strike: "strike_for rule strikes price = Inr (strike_on rule ?xs price)" for rule
    using assms(1,2) xs(3) by (simp add: strike_for_def require_a_price_def result_simps)
  have money: "?xs ! ?p \<in> set strikes" using m xs(4) nth_mem by blast
  moreover have "\<bar>of_int (?xs ! ?p) - dval price * 1000\<bar> < \<bar>of_int k - dval price * 1000\<bar>
      \<or> \<bar>of_int (?xs ! ?p) - dval price * 1000\<bar> = \<bar>of_int k - dval price * 1000\<bar> \<and> ?xs ! ?p < k"
    if "k \<in> set strikes - {?xs ! ?p}" for k
  proof -
    from that xs(4) have "k \<in> set ?xs" by blast
    then obtain i where i: "i < length ?xs" "k = ?xs ! i" unfolding in_set_conv_nth by blast
    with that have "i \<noteq> ?p" by blast
    with m i show ?thesis unfolding nearer_def by blast
  qed
  moreover have "strike_for At_The_Money strikes price = Inr (Some (?xs ! ?p))"
    unfolding strike strike_on_place [THEN iffD2, OF exI, of ?p] using m by (simp add: strike_on_def)
  moreover have "strike_for (Steps_From_The_Money n) strikes price = Inr (Some k) \<longleftrightarrow>
      k \<in> set strikes \<and> int (card {x \<in> set strikes. x < k}) = int (card {x \<in> set strikes. x < ?xs ! ?p}) + n" for n k
  proof -
    have p: "card {x \<in> set strikes. x < ?xs ! ?p} = ?p" using card_below [OF xs(1,2)] m xs(4) by metis
    have "strike_for (Steps_From_The_Money n) strikes price = Inr (Some k) \<longleftrightarrow>
        (\<exists>i<length ?xs. k = ?xs ! i \<and> int i = int ?p + n)" by (simp add: strike strike_on_place)
    also have "\<dots> \<longleftrightarrow> (\<exists>i<length ?xs. k = ?xs ! i \<and> int (card {x \<in> set strikes. x < k}) = int ?p + n)"
      using card_below [OF xs(1,2), unfolded xs(4)] by (intro ex_cong1) auto
    also have "\<dots> \<longleftrightarrow> k \<in> set strikes \<and> int (card {x \<in> set strikes. x < k}) = int ?p + n"
      using xs(4) by (metis in_set_conv_nth)
    finally show ?thesis by (simp add: p)
  qed
  ultimately show ?thesis by blast
qed

theorem strike_for_exact_witness:
  "strike_for At_The_Money [480000, 470000, 475000, 470000] (Finite 4775 (- 1)) = Inr (Some 475000)
   \<and> (\<exists>money. strike_for At_The_Money [480000, 470000, 475000, 470000] (Finite 4775 (- 1)) = Inr (Some money)
        \<and> strike_for (Steps_From_The_Money (- 1)) [480000, 470000, 475000, 470000] (Finite 4775 (- 1)) = Inr (Some 470000)
        \<and> card {x \<in> {480000, 470000, 475000 :: int}. x < money} = 1)"
proof -
  let ?xs = "[480000, 470000, 475000, 470000] :: int list" and ?price = "Finite 4775 (- 1)"
  have price: "is_finite ?price" "0 < dval ?price" by code_simp+
  have run: "strike_for At_The_Money ?xs ?price = Inr (Some 475000)"
    "strike_for (Steps_From_The_Money (- 1)) ?xs ?price = Inr (Some 470000)" by code_simp+
  have "?xs \<noteq> []" by simp
  from strike_for_exact [OF price this]
  obtain money where m: "strike_for At_The_Money ?xs ?price = Inr (Some money)"
    and steps: "\<forall>n k. strike_for (Steps_From_The_Money n) ?xs ?price = Inr (Some k) \<longleftrightarrow>
        k \<in> set ?xs \<and> int (card {x \<in> set ?xs. x < k}) = int (card {x \<in> set ?xs. x < money}) + n"
    unfolding bex_simps Bex_def by (elim exE conjE)
  have step: "int (card {x \<in> set ?xs. x < 470000}) = int (card {x \<in> set ?xs. x < money}) + - 1"
    using steps [rule_format, of "- 1" 470000] run(2) by (rule iffD1 [THEN conjunct2])
  have none: "{x \<in> set ?xs. x < 470000} = {}" by auto
  have "{x \<in> {480000, 470000, 475000 :: int}. x < money} = {x \<in> set ?xs. x < money}" by auto
  moreover have "card {x \<in> set ?xs. x < money} = 1" using step unfolding none by simp
  ultimately show ?thesis using run m by (intro conjI exI [of _ money]) (assumption | simp only:)+
qed

end
