(* ===== verification/Session_Needs.thy ===== *)
theory Session_Needs
  imports Replay_Reads Picking
begin

text \<open>
  \<open>app/options_backtest/needs.py\<close> and \<open>app/options_backtest/session_market.py\<close>: the contracts a session could
  read, and the market built from what was loaded for them.

  The session window of a date is the calendar's, the parameter \<open>window\<close>. A question a \<open>DayMarket\<close> raises on is an
  \<open>Inl\<close>. The market a replay is given must answer every question: \<open>as_market\<close> puts what the arbitrary
  \<open>unanswered\<close> says in the place of a raise, so that a replay that does not depend on \<open>unanswered\<close> is one that
  never asked such a question. The picks a \<open>DayMarket\<close> keeps by leg are the same picks made anew.
\<close>

subsection \<open>Bars by their close\<close>

datatype market_error =
    Bars_Malformed
  | Market_Value_Error
  | Contract_Day_Not_Loaded option_contract
  | Market_Not_To_Be_Asked
  | Market_Pick pick_error

definition pickR :: "(pick_error, 'a) result \<Rightarrow> (market_error, 'a) result" where
  "pickR m = (case m of Inl e \<Rightarrow> Inl (Market_Pick e) | Inr x \<Rightarrow> Inr x)"

lemma pickR_Inr [result_simps]: "pickR m = Inr x \<longleftrightarrow> m = Inr x"
  by (cases m) (simp_all add: pickR_def)

definition price_above_zero :: "decimal \<Rightarrow> bool" where "price_above_zero d \<longleftrightarrow> is_finite d \<and> 0 < dval d"

fun bars_from ::
  "(int \<Rightarrow> date) \<Rightarrow> date \<Rightarrow> int option \<Rightarrow> minute_bar list \<Rightarrow> (market_error, (int \<times> minute_bar) list) result" where
  "bars_from et_date trading_date previous [] = Inr []"
| "bars_from et_date trading_date previous (bar # bars) =
     (let t = mb_close_ms bar in
      if t mod ms_per_minute \<noteq> 0 then Inl Bars_Malformed
      else if et_date t \<noteq> trading_date then Inl Bars_Malformed
      else if (case previous of None \<Rightarrow> False | Some p \<Rightarrow> t \<le> p) then Inl Bars_Malformed
      else if \<not> list_all price_above_zero [mb_open bar, mb_high bar, mb_low bar, mb_close bar] then Inl Bars_Malformed
      else bindR (bars_from et_date trading_date (Some t) bars) (\<lambda>rest. Inr ((t, bar) # rest)))"

definition bars_by_close ::
  "(int \<Rightarrow> date) \<Rightarrow> date \<Rightarrow> minute_bar list \<Rightarrow> (market_error, (int \<times> minute_bar) list) result" where
  "bars_by_close et_date trading_date bars = bars_from et_date trading_date None bars"

subsection \<open>The market of a day\<close>

record loaded_day =
  dm_trading_date :: date
  dm_open_ms :: int
  dm_close_ms :: int
  dm_listing :: listing
  dm_underlying :: "(int \<times> decimal) list"
  dm_options :: "(option_contract \<times> (int \<times> minute_bar) list) list"

definition make_day ::
  "(date \<Rightarrow> int \<times> int) \<Rightarrow> (int \<Rightarrow> date) \<Rightarrow> date \<Rightarrow> minute_bar list \<Rightarrow> listing
    \<Rightarrow> (option_contract \<times> minute_bar list) list \<Rightarrow> (market_error, loaded_day) result" where
  "make_day window et_date trading_date underlying shown option_days =
     (if ln_as_of shown \<noteq> trading_date then Inl Market_Value_Error
      else bindR (bars_by_close et_date trading_date underlying) (\<lambda>bars.
           bindR (traverseR (\<lambda>(c, days). bindR (bars_by_close et_date trading_date days) (\<lambda>k. Inr (c, k))) option_days) (\<lambda>options.
             Inr \<lparr>dm_trading_date = trading_date, dm_open_ms = fst (window trading_date),
                  dm_close_ms = snd (window trading_date), dm_listing = shown,
                  dm_underlying = map (\<lambda>(t, bar). (t, mb_close bar)) bars, dm_options = options\<rparr>)))"

definition day_underlying_close :: "loaded_day \<Rightarrow> int \<Rightarrow> decimal option" where
  "day_underlying_close d t = map_of (dm_underlying d) t"

definition day_pick ::
  "calendar \<Rightarrow> (date \<Rightarrow> int) \<Rightarrow> (int \<Rightarrow> date) \<Rightarrow> (pick_refusal \<Rightarrow> string) \<Rightarrow> loaded_day \<Rightarrow> leg_setup \<Rightarrow> int \<Rightarrow> decimal
    \<Rightarrow> (market_error, pick_answer) result" where
  "day_pick sessions_between anchor et_date words d l t price =
     (if t mod ms_per_minute \<noteq> 0 \<or> \<not> (dm_open_ms d < t \<and> t \<le> dm_close_ms d) then Inl Market_Value_Error
      else bindR (pickR (prepare_leg sessions_between anchor et_date l (dm_listing d) (dm_trading_date d))) (\<lambda>prepared.
             pickR (pick_prepared words prepared price)))"

definition day_option_bar :: "loaded_day \<Rightarrow> option_contract \<Rightarrow> int \<Rightarrow> (market_error, minute_bar option) result" where
  "day_option_bar d c t =
     (case map_of (dm_options d) c of None \<Rightarrow> Inl (Contract_Day_Not_Loaded c) | Some bars \<Rightarrow> Inr (map_of bars t))"

record unanswered =
  ua_underlying :: "int \<Rightarrow> decimal option"
  ua_pick :: "leg_setup \<Rightarrow> int \<Rightarrow> decimal \<Rightarrow> pick_answer"
  ua_bar :: "option_contract \<Rightarrow> int \<Rightarrow> minute_bar option"

definition answered :: "'a \<Rightarrow> (market_error, 'a) result \<Rightarrow> 'a" where
  "answered otherwise m = (case m of Inl _ \<Rightarrow> otherwise | Inr x \<Rightarrow> x)"

definition as_market ::
  "calendar \<Rightarrow> (date \<Rightarrow> int) \<Rightarrow> (int \<Rightarrow> date) \<Rightarrow> (pick_refusal \<Rightarrow> string) \<Rightarrow> unanswered \<Rightarrow> loaded_day \<Rightarrow> market" where
  "as_market sessions_between anchor et_date words ua d =
     \<lparr>mk_open_ms = dm_open_ms d, mk_close_ms = dm_close_ms d, mk_underlying_close = day_underlying_close d,
      mk_pick = (\<lambda>l t price. answered (ua_pick ua l t price) (day_pick sessions_between anchor et_date words d l t price)),
      mk_option_bar = (\<lambda>c t. answered (ua_bar ua c t) (day_option_bar d c t))\<rparr>"

text \<open>The market of a session the window skips: every question raises.\<close>

definition window_only_market :: "(date \<Rightarrow> int \<times> int) \<Rightarrow> unanswered \<Rightarrow> date \<Rightarrow> market" where
  "window_only_market window ua trading_date =
     \<lparr>mk_open_ms = fst (window trading_date), mk_close_ms = snd (window trading_date),
      mk_underlying_close = (\<lambda>t. answered (ua_underlying ua t) (Inl Market_Not_To_Be_Asked)),
      mk_pick = (\<lambda>l t price. answered (ua_pick ua l t price) (Inl Market_Not_To_Be_Asked)),
      mk_option_bar = (\<lambda>c t. answered (ua_bar ua c t) (Inl Market_Not_To_Be_Asked))\<rparr>"

subsection \<open>What a session needs\<close>

record session_needs =
  sn_skip_reason :: "skip_reason option"
  sn_contracts :: "option_contract list"

definition can_come_back :: "backtest_setup \<Rightarrow> leg_setup \<Rightarrow> bool" where
  "can_come_back su l \<longleftrightarrow> ls_reentry l \<noteq> None \<and> stop_can_close su l"

definition picked_contracts :: "pick_answer list \<Rightarrow> option_contract list" where
  "picked_contracts answers = List.map_filter (\<lambda>a. case a of Picked c _ \<Rightarrow> Some c | Pick_Refused _ _ \<Rightarrow> None) answers"

definition leg_needs ::
  "(pick_refusal \<Rightarrow> string) \<Rightarrow> decimal list \<Rightarrow> preparation \<Rightarrow> (pick_error, option_contract list) result" where
  "leg_needs words prices prepared =
     (case prepared of
        Not_Prepared _ \<Rightarrow> Inr []
      | Prepared pg \<Rightarrow> bindR (traverseR (pick_at words pg) prices) (\<lambda>answers. Inr (picked_contracts answers)))"

definition session_needs_of ::
  "calendar \<Rightarrow> (date \<Rightarrow> int) \<Rightarrow> (int \<Rightarrow> date) \<Rightarrow> (pick_refusal \<Rightarrow> string) \<Rightarrow> backtest_setup \<Rightarrow> date \<Rightarrow> int \<Rightarrow> int
    \<Rightarrow> minute_bar list \<Rightarrow> listing \<Rightarrow> (pick_error, session_needs) result" where
  "session_needs_of sessions_between anchor et_date words su trading_date session_open session_close underlying shown =
     (if \<not> window_fits su session_open session_close
      then Inr \<lparr>sn_skip_reason = Some Window_Does_Not_Fit, sn_contracts = []\<rparr>
      else
        let entry = time_at (bs_entry su) session_open session_close;
            ended = time_at (bs_exit su) session_open session_close;
            closes = fold (\<lambda>b. AList.update (mb_close_ms b) (mb_close b)) underlying []
        in case map_of closes entry of
             None \<Rightarrow> Inr \<lparr>sn_skip_reason = Some Underlying_Did_Not_Trade, sn_contracts = []\<rparr>
           | Some entry_price \<Rightarrow>
               let later = map snd (filter (\<lambda>(t, _). entry < t \<and> t < ended) closes)
               in bindR (traverseR (\<lambda>l.
                    bindR (prepare_leg sessions_between anchor et_date l shown trading_date) (\<lambda>prepared.
                      leg_needs words (entry_price # (if can_come_back su l then later else [])) prepared)) (bs_legs su))
                    (\<lambda>cs. Inr \<lparr>sn_skip_reason = None, sn_contracts = remdups (concat cs)\<rparr>))"

subsection \<open>The needs are enough\<close>

lemma bars_from_facts:
  "bars_from et_date td previous bars = Inr ks \<Longrightarrow>
     ks = map (\<lambda>b. (mb_close_ms b, b)) bars \<and> distinct (map mb_close_ms bars)
     \<and> (\<forall>b\<in>set bars. (case previous of None \<Rightarrow> True | Some p \<Rightarrow> p < mb_close_ms b))
     \<and> list_all (\<lambda>b. list_all price_above_zero [mb_open b, mb_high b, mb_low b, mb_close b]) bars"
proof (induction bars arbitrary: previous ks)
  case (Cons b bars)
  then obtain rest where rest: "bars_from et_date td (Some (mb_close_ms b)) bars = Inr rest" "ks = (mb_close_ms b, b) # rest"
    and b: "case previous of None \<Rightarrow> True | Some p \<Rightarrow> p < mb_close_ms b"
      "list_all price_above_zero [mb_open b, mb_high b, mb_low b, mb_close b]"
    by (auto simp: Let_def bindR_Inr_iff not_le split: if_splits option.splits)
  from Cons.IH [OF rest(1)] rest(2) b show ?case by (auto split: option.splits)
qed simp

lemma update_new: "k \<notin> fst ` set al \<Longrightarrow> AList.update k v al = al @ [(k, v)]"
  by (induction al) auto

lemma closes_of_bars:
  "distinct (map mb_close_ms bars) \<Longrightarrow> mb_close_ms ` set bars \<inter> fst ` set al = {} \<Longrightarrow>
     fold (\<lambda>b. AList.update (mb_close_ms b) (mb_close b)) bars al = al @ map (\<lambda>b. (mb_close_ms b, mb_close b)) bars"
  by (induction bars arbitrary: al) (auto simp: update_new)

lemma make_day_Inr:
  assumes "make_day window et_date td underlying shown option_days = Inr d"
  shows "dm_trading_date d = td \<and> dm_open_ms d = fst (window td) \<and> dm_close_ms d = snd (window td) \<and> dm_listing d = shown
    \<and> dm_underlying d = fold (\<lambda>b. AList.update (mb_close_ms b) (mb_close b)) underlying []
    \<and> map fst (dm_options d) = map fst option_days"
proof -
  obtain bars options where bars: "bars_from et_date td None underlying = Inr bars"
    and options: "traverseR (\<lambda>(c, days). bindR (bars_by_close et_date td days) (\<lambda>k. Inr (c, k))) option_days = Inr options"
    and d: "d = \<lparr>dm_trading_date = td, dm_open_ms = fst (window td), dm_close_ms = snd (window td), dm_listing = shown,
      dm_underlying = map (\<lambda>(t, bar). (t, mb_close bar)) bars, dm_options = options\<rparr>"
    using assms by (auto simp: make_day_def bars_by_close_def bindR_Inr_iff split: if_splits)
  have "map fst options = map fst option_days" using options
    by (induction option_days arbitrary: options) (auto simp: bindR_Inr_iff)
  moreover have "fold (\<lambda>b. AList.update (mb_close_ms b) (mb_close b)) underlying [] = map (\<lambda>(t, bar). (t, mb_close bar)) bars"
    using bars_from_facts [OF bars] closes_of_bars [of underlying "[]"] by simp
  ultimately show ?thesis by (simp add: d)
qed

lemma traverseR_mem:
  "traverseR f xs = Inr ys \<Longrightarrow> x \<in> set xs \<Longrightarrow> \<exists>y\<in>set ys. f x = Inr y"
  by (induction xs arbitrary: ys) (auto simp: bindR_Inr_iff)

lemma leg_needs_pick:
  assumes "leg_needs words prices prepared = Inr cs" "price \<in> set prices"
  shows "\<exists>answer. pick_prepared words prepared price = Inr answer \<and> (\<forall>c m. answer = Picked c m \<longrightarrow> c \<in> set cs)"
proof (cases prepared)
  case (Prepared pg)
  then obtain answers where a: "traverseR (pick_at words pg) prices = Inr answers" "cs = picked_contracts answers"
    using assms(1) by (auto simp: leg_needs_def bindR_Inr_iff)
  from traverseR_mem [OF a(1) assms(2)] obtain answer where "answer \<in> set answers" "pick_at words pg price = Inr answer" by blast
  then show ?thesis using Prepared a(2) by (force simp: pick_prepared_def picked_contracts_def map_filter_def)
qed (simp add: pick_prepared_def)

text \<open>Every pick a leg can be asked for is answered, with a contract the needs name.\<close>

lemma asked_picks_needed:
  assumes su: "setup_ok su"
    and needs: "session_needs_of cal anchor et_date words su td (fst (window td)) (snd (window td)) underlying shown = Inr needs"
    and day: "make_day window et_date td underlying shown option_days = Inr d"
    and whole: "fst (window td) mod ms_per_minute = 0" "snd (window td) mod ms_per_minute = 0"
    and trades: "trades_on su (as_market cal anchor et_date words ua d)"
    and ask: "asks su (as_market cal anchor et_date words ua d) l t price"
  shows "\<exists>answer. day_pick cal anchor et_date words d l t price = Inr answer
    \<and> (\<forall>c m. answer = Picked c m \<longrightarrow> c \<in> set (sn_contracts needs))"
proof -
  let ?open = "fst (window td)" and ?close = "snd (window td)"
  define entry where "entry = time_at (bs_entry su) ?open ?close"
  define ended where "ended = time_at (bs_exit su) ?open ?close"
  define closes where "closes = fold (\<lambda>b. AList.update (mb_close_ms b) (mb_close b)) underlying []"
  note d = make_day_Inr [OF day]
  have fits: "window_fits su ?open ?close" using trades d by (simp add: trades_on_def as_market_def)
  obtain first where first: "map_of closes entry = Some first"
    using trades d by (auto simp: trades_on_def as_market_def day_underlying_close_def entry_def closes_def)
  have l: "l \<in> set (bs_legs su)" "map_of closes t = Some price"
    "t = entry \<or> entry < t \<and> t < ended \<and> (t - entry) mod ms_per_minute = 0 \<and> ls_reentry l \<noteq> None"
    using ask d by (auto simp: asks_def as_market_def day_underlying_close_def entry_def ended_def closes_def Let_def)
  let ?later = "map snd (filter (\<lambda>(t, _). entry < t \<and> t < ended) closes)"
  let ?prices = "\<lambda>l. first # (if can_come_back su l then ?later else [])"
  obtain cs where cs: "traverseR (\<lambda>l. bindR (prepare_leg cal anchor et_date l shown td) (\<lambda>prepared.
      leg_needs words (?prices l) prepared)) (bs_legs su) = Inr cs" "sn_contracts needs = remdups (concat cs)"
    using needs fits first by (auto simp: session_needs_of_def Let_def bindR_Inr_iff entry_def [symmetric]
        ended_def [symmetric] closes_def [symmetric])
  from traverseR_mem [OF cs(1) l(1)] obtain c where c: "c \<in> set cs"
    "bindR (prepare_leg cal anchor et_date l shown td) (leg_needs words (?prices l)) = Inr c" by auto
  then obtain prepared where p: "prepare_leg cal anchor et_date l shown td = Inr prepared" "leg_needs words (?prices l) prepared = Inr c"
    by (auto simp: bindR_Inr_iff)
  have price: "price \<in> set (?prices l)"
  proof (cases "t = entry")
    case False
    have "stop_can_close su l" if "ls_reentry l \<noteq> None"
      using su l(1) that by (auto simp: setup_ok_def validate_setup_def bindR_Inr_iff reentry_rules_can_be_reached_def
          find_None_iff split: option.splits)
    then have "can_come_back su l" using False l(3) by (auto simp: can_come_back_def)
    moreover have "(t, price) \<in> set closes" by (rule map_of_SomeD [OF l(2)])
    ultimately show ?thesis using False l(3) by force
  qed (use l(2) first in simp)
  have offsets: "st_offset_ms (bs_entry su) mod ms_per_minute = 0"
    using su by (simp add: setup_ok_def setup_fields_ok_def session_time_ok_def)
  have entry0: "entry mod ms_per_minute = 0"
    using whole offsets by (auto simp: entry_def time_at_def mod_add_eq [symmetric] mod_diff_eq [symmetric])
  have bounds: "?open < entry" "entry < ended" "ended \<le> ?close"
    using fits by (auto simp: window_fits_def Let_def entry_def ended_def ms_per_minute_def)
  have "ms_per_minute dvd (t - entry)" using l(3) by auto
  then have "ms_per_minute dvd t" using dvd_add [of ms_per_minute "t - entry" entry] entry0 by (simp add: mod_eq_0_iff_dvd)
  then have at: "t mod ms_per_minute = 0" "?open < t" "t \<le> ?close" using l(3) bounds by auto
  from leg_needs_pick [OF p(2) price] obtain answer where
    "pick_prepared words prepared price = Inr answer" "\<forall>c' m. answer = Picked c' m \<longrightarrow> c' \<in> set c" by blast
  then show ?thesis using at d p(1) c(1) cs(2) by (auto simp: day_pick_def result_simps pickR_def)
qed

text \<open>
  C2: what a session needs is enough for its replay. When the option days a market was built from hold every contract
  \<open>session_needs\<close> named, the replay over that market never asks a question the market raises on: it does not depend on
  what would be answered in the place of a raise. Its outcome, its observations and its errors are those of the market
  alone, at any slippage, starting cash, fees and with or without an observer.
\<close>

theorem needs_are_enough:
  assumes "setup_ok su"
    and "session_needs_of cal anchor et_date words su td (fst (window td)) (snd (window td)) underlying shown = Inr needs"
    and "make_day window et_date td underlying shown option_days = Inr d"
    and "set (sn_contracts needs) \<subseteq> fst ` set option_days"
  shows "replay_session su (with_market (as_market cal anchor et_date words ua d) w) cash
    = replay_session su (with_market (as_market cal anchor et_date words ua' d) w) cash"
proof (cases "fst (window td) mod ms_per_minute = 0 \<and> snd (window td) mod ms_per_minute = 0")
  case True
  let ?mk = "as_market cal anchor et_date words ua d" and ?mk' = "as_market cal anchor et_date words ua' d"
  have picks: "mk_pick ?mk' l t price = mk_pick ?mk l t price \<and> (\<forall>c m. mk_pick ?mk l t price = Picked c m \<longrightarrow> c \<in> set (sn_contracts needs))"
    if "trades_on su ?mk" "asks su ?mk l t price" for l t price
    using asked_picks_needed [OF assms(1-3) _ _ that] True by (auto simp: as_market_def answered_def)
  have bars: "mk_option_bar ?mk' c t = mk_option_bar ?mk c t" if "c \<in> set (sn_contracts needs)" for c t
  proof -
    have "c \<in> set (map fst option_days)" using that assms(4) by auto
    then have "c \<in> set (map fst (dm_options d))" using make_day_Inr [OF assms(3)] by simp
    then obtain k where "map_of (dm_options d) c = Some k" by (auto simp: map_of_eq_None_iff dest!: map_of_is_SomeI) (metis not_None_eq map_of_eq_None_iff image_eqI fst_conv)
    then show ?thesis by (simp add: as_market_def day_option_bar_def answered_def)
  qed
  have "answers_alike su (set (sn_contracts needs)) ?mk ?mk'"
    using picks bars by (simp add: answers_alike_def) (simp add: as_market_def)
  then have "replay_session su (with_market ?mk' (with_market ?mk w)) cash = replay_session su (with_market ?mk w) cash"
    by (intro replay_reads_alike) simp
  then show ?thesis by (simp add: with_market_def)
next
  case False
  then show ?thesis using make_day_Inr [OF assms(3)] by (auto simp: replay_session_def Let_def as_market_def)
qed

definition needs_calendar :: calendar where "needs_calendar = (\<lambda>_ _. [(2024, 1, 18), (2024, 1, 19)])"

definition needs_bar :: "int \<Rightarrow> minute_bar" where
  "needs_bar t = \<lparr>mb_close_ms = t, mb_open = Finite 475 0, mb_high = Finite 476 0, mb_low = Finite 474 0, mb_close = Finite 475 0\<rparr>"

definition needs_listing :: listing where
  "needs_listing = \<lparr>ln_underlying = ''SPY'', ln_as_of = (2024, 1, 19),
     ln_contracts = map (\<lambda>k. \<lparr>ld_contract = book_call k, ld_multiplier = 100, ld_standard = True\<rparr>) [480000, 475000],
     ln_complete = True\<rparr>"

abbreviation needs_of_the_day :: "(pick_error, session_needs) result" where
  "needs_of_the_day \<equiv> session_needs_of needs_calendar (\<lambda>_. oc_expiry_ms (book_call 1)) (\<lambda>_. (2024, 1, 19)) (\<lambda>_. [])
     day_setup (2024, 1, 19) 0 240000 [needs_bar 60000, needs_bar 120000] needs_listing"

abbreviation made_day :: "(market_error, loaded_day) result" where
  "made_day \<equiv> make_day (\<lambda>_. (0, 240000)) (\<lambda>_. (2024, 1, 19)) (2024, 1, 19) [needs_bar 60000, needs_bar 120000]
     needs_listing [(book_call 475000, [needs_bar 120000])]"

lemma needs_evaluated:
  "(case needs_of_the_day of Inr needs \<Rightarrow> sn_skip_reason needs = None \<and> sn_contracts needs = [book_call 475000] | Inl _ \<Rightarrow> False)"
  by code_simp

lemma day_evaluated: "(case made_day of Inr d \<Rightarrow> dm_close_ms d = 240000 | Inl _ \<Rightarrow> False)"
  by code_simp

theorem needs_are_enough_witness:
  "\<exists>needs d. needs_of_the_day = Inr needs \<and> sn_contracts needs = [book_call 475000] \<and> made_day = Inr d
     \<and> (\<forall>ua ua'. replay_session day_setup (with_market (as_market needs_calendar (\<lambda>_. oc_expiry_ms (book_call 1))
             (\<lambda>_. (2024, 1, 19)) (\<lambda>_. []) ua d) day_world) (Finite 10000 0)
         = replay_session day_setup (with_market (as_market needs_calendar (\<lambda>_. oc_expiry_ms (book_call 1))
             (\<lambda>_. (2024, 1, 19)) (\<lambda>_. []) ua' d) day_world) (Finite 10000 0))"
proof -
  obtain needs where needs: "needs_of_the_day = Inr needs" "sn_contracts needs = [book_call 475000]"
    using needs_evaluated by (cases needs_of_the_day) auto
  obtain d where d: "made_day = Inr d" using day_evaluated by (cases made_day) auto
  have needs': "session_needs_of needs_calendar (\<lambda>_. oc_expiry_ms (book_call 1)) (\<lambda>_. (2024, 1, 19)) (\<lambda>_. [])
     day_setup (2024, 1, 19) (fst (0, 240000)) (snd (0, 240000)) [needs_bar 60000, needs_bar 120000] needs_listing = Inr needs"
    using needs(1) by simp
  have "set (sn_contracts needs) \<subseteq> fst ` set [(book_call 475000, [needs_bar 120000])]" using needs(2) by simp
  from needs_are_enough [OF day_setup_ok needs' d this] needs d show ?thesis by blast
qed

end
