(* ===== verification/Option_Fees.thy ===== *)
theory Option_Fees
  imports Money Requirement Session_State
begin

text \<open>
  \<open>app/broker/alpaca/regulatory_fees.py\<close>, \<open>app/broker/alpaca/option_fees.py\<close> and
  \<open>app/options_backtest/fees.py\<close>: the pass-through fees of a fill, how a day settles them, and the fee a setup's policy
  charges for one fill.

  New York midnight of a date as an instant is the parameter \<open>midnight\<close>. \<open>getattr(fees, name)\<close> is \<open>accrual name\<close>. A
  product in the money context is checked by \<open>money_ctx\<close>; with its \<open>Inexact\<close> trap off a sum is rounded half even to
  the context's digits (\<open>round_digits\<close>), and \<open>quantize\<close> raises when its result has more digits than the context. The
  stock fees are taken in the caller's own decimal context, the parameter \<open>ambient\<close>, of \<open>ambient_digits\<close> digits.
\<close>

subsection \<open>Rates\<close>

datatype fee_component = Fee_Sec | Fee_Taf | Fee_Cat | Fee_Orf | Fee_Occ

datatype fee_error =
    Fill_Not_Priced
  | Fee_Multiplier_Refused
  | Fee_Trapped
  | Rate_Not_Pinned "fee_component list"
  | Fee_Rate_Not_Published date "fee_component list"
  | Fee_Missing

type_synonym 'r rate_table = "(int \<times> 'r) list"

definition in_force :: "'r rate_table \<Rightarrow> int \<Rightarrow> 'r option" where
  "in_force table t = fold (\<lambda>(from, v) latest. if from \<le> t then Some v else latest) table None"

record taf_rate =
  tf_per_share :: decimal
  tf_cap_per_trade :: decimal

definition sec_per_dollar_table :: "(date \<Rightarrow> int) \<Rightarrow> decimal rate_table" where
  "sec_per_dollar_table midnight =
     [(midnight (2024, 5, 22), Finite 278 (- 7)), (midnight (2025, 5, 14), Finite 0 0),
      (midnight (2026, 4, 4), Finite 206 (- 7))]"

definition taf_per_share_table :: "(date \<Rightarrow> int) \<Rightarrow> taf_rate rate_table" where
  "taf_per_share_table midnight =
     [(midnight (2024, 1, 1), \<lparr>tf_per_share = Finite 166 (- 6), tf_cap_per_trade = Finite 830 (- 2)\<rparr>),
      (midnight (2026, 1, 1), \<lparr>tf_per_share = Finite 195 (- 6), tf_cap_per_trade = Finite 979 (- 2)\<rparr>),
      (midnight (2026, 10, 1), \<lparr>tf_per_share = Finite 0 0, tf_cap_per_trade = Finite 0 0\<rparr>),
      (midnight (2027, 1, 1), \<lparr>tf_per_share = Finite 195 (- 6), tf_cap_per_trade = Finite 979 (- 2)\<rparr>),
      (midnight (2029, 1, 1), \<lparr>tf_per_share = Finite 232 (- 6), tf_cap_per_trade = Finite 1161 (- 2)\<rparr>),
      (midnight (2030, 1, 1), \<lparr>tf_per_share = Finite 240 (- 6), tf_cap_per_trade = Finite 1205 (- 2)\<rparr>),
      (midnight (2031, 1, 1), \<lparr>tf_per_share = Finite 249 (- 6), tf_cap_per_trade = Finite 1250 (- 2)\<rparr>)]"

definition cat_per_share_table :: "(date \<Rightarrow> int) \<Rightarrow> decimal rate_table" where
  "cat_per_share_table midnight = [(midnight (2026, 9, 1), Finite 3 (- 6))]"

definition taf_per_contract_table :: "(date \<Rightarrow> int) \<Rightarrow> decimal rate_table" where
  "taf_per_contract_table midnight =
     [(midnight (2026, 1, 1), Finite 329 (- 5)), (midnight (2026, 10, 1), Finite 3 (- 3)),
      (midnight (2027, 1, 1), Finite 329 (- 5)), (midnight (2029, 1, 1), Finite 390 (- 5)),
      (midnight (2030, 1, 1), Finite 404 (- 5)), (midnight (2031, 1, 1), Finite 420 (- 5))]"

definition orf_per_contract_table :: "(date \<Rightarrow> int) \<Rightarrow> decimal rate_table" where
  "orf_per_contract_table midnight =
     [(midnight (2026, 2, 12), Finite 2375 (- 5)), (midnight (2026, 4, 9), Finite 2295 (- 5)),
      (midnight (2026, 7, 1), Finite 15 (- 3))]"

definition occ_per_contract_table :: "(date \<Rightarrow> int) \<Rightarrow> decimal rate_table" where
  "occ_per_contract_table midnight = [(midnight (2026, 2, 12), Finite 25 (- 3))]"

definition cat_per_equivalent_share_table :: "(date \<Rightarrow> int) \<Rightarrow> decimal rate_table" where
  "cat_per_equivalent_share_table midnight = [(midnight (2026, 7, 1), Finite 3 (- 6))]"

record regulatory_rates =
  rr_sec_per_dollar :: "decimal option"
  rr_taf_per_share :: "decimal option"
  rr_taf_cap_per_trade :: "decimal option"
  rr_cat_per_share :: "decimal option"

definition stock_rates_for :: "(date \<Rightarrow> int) \<Rightarrow> int \<Rightarrow> regulatory_rates" where
  "stock_rates_for midnight t =
     (let taf = in_force (taf_per_share_table midnight) t in
      \<lparr>rr_sec_per_dollar = in_force (sec_per_dollar_table midnight) t,
       rr_taf_per_share = map_option tf_per_share taf, rr_taf_cap_per_trade = map_option tf_cap_per_trade taf,
       rr_cat_per_share = in_force (cat_per_share_table midnight) t\<rparr>)"

record option_rates =
  or_sec_per_dollar :: "decimal option"
  or_taf_per_contract :: "decimal option"
  or_cat_per_equivalent_share :: "decimal option"
  or_orf_per_contract :: "decimal option"
  or_occ_per_contract :: "decimal option"

definition option_rates_for :: "(date \<Rightarrow> int) \<Rightarrow> int \<Rightarrow> option_rates" where
  "option_rates_for midnight t =
     \<lparr>or_sec_per_dollar = rr_sec_per_dollar (stock_rates_for midnight t),
      or_taf_per_contract = in_force (taf_per_contract_table midnight) t,
      or_cat_per_equivalent_share = in_force (cat_per_equivalent_share_table midnight) t,
      or_orf_per_contract = in_force (orf_per_contract_table midnight) t,
      or_occ_per_contract = in_force (occ_per_contract_table midnight) t\<rparr>"

subsection \<open>What a fill accrues\<close>

record fill_fees =
  ff_sec :: "decimal option"
  ff_taf :: "decimal option"
  ff_cat :: "decimal option"

record option_fill_fees = fill_fees +
  ff_orf :: "decimal option"
  ff_occ :: "decimal option"

definition option_components :: "fee_component list" where
  "option_components = [Fee_Sec, Fee_Taf, Fee_Cat, Fee_Orf, Fee_Occ]"
definition stock_components :: "fee_component list" where "stock_components = [Fee_Sec, Fee_Taf, Fee_Cat]"

fun accrual :: "fee_component \<Rightarrow> option_fill_fees \<Rightarrow> decimal option" where
  "accrual Fee_Sec a = ff_sec a"
| "accrual Fee_Taf a = ff_taf a"
| "accrual Fee_Cat a = ff_cat a"
| "accrual Fee_Orf a = ff_orf a"
| "accrual Fee_Occ a = ff_occ a"

definition unpinned :: "option_fill_fees \<Rightarrow> fee_component list" where
  "unpinned a = filter (\<lambda>c. accrual c a = None) option_components"

definition feeR :: "(Money.money_error, 'a) result \<Rightarrow> (fee_error, 'a) result" where
  "feeR m = (case m of Inl _ \<Rightarrow> Inl Fee_Trapped | Inr x \<Rightarrow> Inr x)"

text \<open>A product of factors, each step in the money context; none when the rate is not pinned.\<close>

fun money_product :: "decimal \<Rightarrow> decimal list \<Rightarrow> (fee_error, decimal) result" where
  "money_product a [] = Inr a"
| "money_product a (b # bs) = bindR (feeR (money_ctx (dmul a b))) (\<lambda>c. money_product c bs)"

definition accrued :: "decimal list \<Rightarrow> decimal option \<Rightarrow> (fee_error, decimal option) result" where
  "accrued factors rate =
     (case rate of None \<Rightarrow> Inr None
      | Some r \<Rightarrow> bindR (money_product (hd factors) (tl factors @ [r])) (\<lambda>d. Inr (Some d)))"

definition fees_for_option_fill ::
  "(date \<Rightarrow> int) \<Rightarrow> int \<Rightarrow> leg_side \<Rightarrow> decimal \<Rightarrow> decimal \<Rightarrow> int \<Rightarrow> (fee_error, option_fill_fees) result" where
  "fees_for_option_fill midnight t side contracts premium multiplier =
     (case (normalize_money (PyDecimal contracts), normalize_money (PyDecimal premium)) of
        (Inr _, Inr _) \<Rightarrow>
          if dval contracts \<le> 0 \<or> dval premium \<le> 0 \<or> dval contracts \<noteq> of_int \<lfloor>dval contracts\<rfloor> then Inl Fill_Not_Priced
          else (case contract_multiplier (PyInt multiplier) of
            Inl _ \<Rightarrow> Inl Fee_Multiplier_Refused
          | Inr shares \<Rightarrow>
              let rates = option_rates_for midnight t in
              bindR (accrued [contracts, whole shares] (or_cat_per_equivalent_share rates)) (\<lambda>cat.
              bindR (accrued [contracts] (or_orf_per_contract rates)) (\<lambda>orf.
              bindR (accrued [contracts] (or_occ_per_contract rates)) (\<lambda>occ.
                if side \<noteq> Sell
                then Inr \<lparr>ff_sec = Some (Finite 0 0), ff_taf = Some (Finite 0 0), ff_cat = cat, ff_orf = orf, ff_occ = occ\<rparr>
                else bindR (accrued [contracts, premium, whole shares] (or_sec_per_dollar rates)) (\<lambda>sec.
                     bindR (accrued [contracts] (or_taf_per_contract rates)) (\<lambda>taf.
                       Inr \<lparr>ff_sec = sec, ff_taf = taf, ff_cat = cat, ff_orf = orf, ff_occ = occ\<rparr>))))))
      | _ \<Rightarrow> Inl Fill_Not_Priced)"

text \<open>A stock fill, in the caller's context.\<close>

definition fees_for_fill ::
  "(decimal \<Rightarrow> (fee_error, decimal) result) \<Rightarrow> (date \<Rightarrow> int) \<Rightarrow> int \<Rightarrow> leg_side \<Rightarrow> decimal \<Rightarrow> decimal
    \<Rightarrow> (fee_error, fill_fees) result" where
  "fees_for_fill ambient midnight t side quantity price =
     (if dval quantity \<le> 0 \<or> dval price \<le> 0 then Inl Fill_Not_Priced
      else
        let rates = stock_rates_for midnight t;
            times = (\<lambda>rate. case rate of None \<Rightarrow> Inr None | Some r \<Rightarrow> bindR (ambient (dmul quantity r)) (\<lambda>d. Inr (Some d)))
        in bindR (times (rr_cat_per_share rates)) (\<lambda>cat.
           if side \<noteq> Sell then Inr \<lparr>ff_sec = Some (Finite 0 0), ff_taf = Some (Finite 0 0), ff_cat = cat\<rparr>
           else bindR (case rr_sec_per_dollar rates of None \<Rightarrow> Inr None
                       | Some r \<Rightarrow> bindR (ambient (dmul quantity price)) (\<lambda>v. bindR (ambient (dmul v r)) (\<lambda>d. Inr (Some d)))) (\<lambda>sec.
                bindR (case (rr_taf_per_share rates, rr_taf_cap_per_trade rates) of
                         (Some r, Some cap) \<Rightarrow> bindR (ambient (dmul quantity r)) (\<lambda>d. Inr (Some (if dval cap < dval d then cap else d)))
                       | _ \<Rightarrow> Inr None) (\<lambda>taf.
                  Inr \<lparr>ff_sec = sec, ff_taf = taf, ff_cat = cat\<rparr>))))"

subsection \<open>Settling a day\<close>

definition round_digits :: "nat \<Rightarrow> decimal \<Rightarrow> decimal" where
  "round_digits prec d =
     (case d of
        Finite c e \<Rightarrow>
          (let n = digits c
           in if n \<le> prec then d else Finite (half_even_div c (10 ^ (n - prec))) (e + int (n - prec)))
      | _ \<Rightarrow> d)"

definition ceil_cents :: "nat \<Rightarrow> decimal \<Rightarrow> (fee_error, decimal) result" where
  "ceil_cents prec amount =
     bindR (feeR (integral_ceiling (dmul amount (Finite 100 0)))) (\<lambda>cents.
       if prec < digits cents then Inl Fee_Trapped else Inr (Finite cents (- 2)))"

definition component_sum :: "(decimal \<Rightarrow> decimal) \<Rightarrow> ('f \<Rightarrow> decimal option) \<Rightarrow> 'f list \<Rightarrow> decimal" where
  "component_sum rounded name fills =
     fold (\<lambda>a total. rounded (dadd total (case name a of None \<Rightarrow> Finite 0 0 | Some d \<Rightarrow> d))) fills (Finite 0 0)"

definition settle_components ::
  "(decimal \<Rightarrow> decimal) \<Rightarrow> nat \<Rightarrow> (fee_component \<Rightarrow> 'f \<Rightarrow> decimal option) \<Rightarrow> fee_component list \<Rightarrow> 'f list
    \<Rightarrow> (fee_error, (fee_component \<times> decimal) list) result" where
  "settle_components rounded prec name components fills =
     (let missing = filter (\<lambda>c. list_ex (\<lambda>a. name c a = None) fills) components in
      if missing \<noteq> [] then Inl (Rate_Not_Pinned missing)
      else traverseR (\<lambda>c. bindR (ceil_cents prec (component_sum rounded (name c) fills)) (\<lambda>d. Inr (c, d))) components)"

record option_session_fees =
  of_sec :: decimal
  of_taf :: decimal
  of_cat :: decimal
  of_orf :: decimal
  of_occ :: decimal

definition day_total :: "option_session_fees \<Rightarrow> (fee_error, decimal) result" where
  "day_total day =
     bindR (feeR (money_ctx (dadd (of_sec day) (of_taf day)))) (\<lambda>a.
     bindR (feeR (money_ctx (dadd a (of_cat day)))) (\<lambda>b.
     bindR (feeR (money_ctx (dadd b (of_orf day)))) (\<lambda>c.
       feeR (money_ctx (dadd c (of_occ day))))))"

definition settled :: "(fee_component \<times> decimal) list \<Rightarrow> fee_component \<Rightarrow> (fee_error, decimal) result" where
  "settled found c = (case map_of found c of None \<Rightarrow> Inl Fee_Missing | Some d \<Rightarrow> Inr d)"

definition settle_option_session :: "option_fill_fees list \<Rightarrow> (fee_error, option_session_fees) result" where
  "settle_option_session fills =
     bindR (settle_components (round_digits money_precision) money_precision accrual option_components fills) (\<lambda>found.
     bindR (ceil_cents money_precision (Finite 0 0)) (\<lambda>nothing.
     bindR (foldR (\<lambda>occ a. case ff_occ a of None \<Rightarrow> Inl Fee_Missing
              | Some d \<Rightarrow> bindR (ceil_cents money_precision d) (\<lambda>x. Inr (round_digits money_precision (dadd occ x))))
              nothing fills) (\<lambda>occ.
     bindR (settled found Fee_Sec) (\<lambda>sec. bindR (settled found Fee_Taf) (\<lambda>taf.
     bindR (settled found Fee_Cat) (\<lambda>cat. bindR (settled found Fee_Orf) (\<lambda>orf.
       Inr \<lparr>of_sec = sec, of_taf = taf, of_cat = cat, of_orf = orf, of_occ = occ\<rparr>)))))))"

definition settle_session ::
  "(decimal \<Rightarrow> decimal) \<Rightarrow> nat \<Rightarrow> fill_fees list \<Rightarrow> (fee_error, (fee_component \<times> decimal) list) result" where
  "settle_session rounded ambient_digits fills =
     settle_components rounded ambient_digits
       (\<lambda>c a. case c of Fee_Sec \<Rightarrow> ff_sec a | Fee_Taf \<Rightarrow> ff_taf a | _ \<Rightarrow> ff_cat a) stock_components fills"

definition option_fee_provision_cents :: "option_fill_fees list \<Rightarrow> (fee_error, int) result" where
  "option_fee_provision_cents fills =
     bindR (settle_option_session fills) (\<lambda>day.
     bindR (day_total day) (\<lambda>total.
     bindR (feeR (money_ctx (dmul total (Finite 100 0)))) (\<lambda>cents.
       feeR (if dval cents < 0 then integral_ceiling cents else integral_floor cents))))"

definition entry_fee_provision_cents ::
  "(date \<Rightarrow> int) \<Rightarrow> resolved_structure \<Rightarrow> (string \<times> leg_quote) list \<Rightarrow> entry_size \<Rightarrow> int \<Rightarrow> (fee_error, int) result" where
  "entry_fee_provision_cents midnight structure quotes sz t =
     bindR (traverseR (\<lambda>l. case map_of quotes (rl_id l) of
              None \<Rightarrow> Inl Fee_Missing
            | Some q \<Rightarrow> fees_for_option_fill midnight t (if rl_position l = Long then Buy else Sell)
                (whole (es_units sz * rl_ratio l)) (if rl_position l = Long then lq_ask q else lq_bid q) (es_multiplier sz))
              structure) option_fee_provision_cents"

subsection \<open>The fee of a policy\<close>

definition unpublished_fee_types :: "(date \<Rightarrow> int) \<Rightarrow> date \<Rightarrow> (fee_error, fee_component list) result" where
  "unpublished_fee_types midnight trading_date =
     bindR (traverseR (\<lambda>side. fees_for_option_fill midnight (midnight trading_date) side (Finite 1 0) (Finite 1 0) 100) [Buy, Sell])
       (\<lambda>samples. Inr (filter (\<lambda>c. list_ex (\<lambda>a. c \<in> set (unpinned a)) samples) option_components))"

definition estimated_fees_available :: "(date \<Rightarrow> int) \<Rightarrow> date \<Rightarrow> (fee_error, bool) result" where
  "estimated_fees_available midnight trading_date =
     bindR (unpublished_fee_types midnight trading_date) (\<lambda>missing. Inr (missing = []))"

text \<open>The accruals of a fill of the replay: at a price of nothing the model is asked at another, and SEC is nothing.\<close>

definition fill_accruals :: "(date \<Rightarrow> int) \<Rightarrow> fill \<Rightarrow> (fee_error, option_fill_fees) result" where
  "fill_accruals midnight f =
     (let at_nothing = (dval (fl_filled f) = 0) in
      bindR (fees_for_option_fill midnight (fl_bar_close_ms f) (fl_side f) (whole (fl_contracts f))
               (if at_nothing then Finite 1 0 else fl_filled f) (fl_multiplier f)) (\<lambda>a.
        Inr (if at_nothing \<and> ff_sec a \<noteq> None then a\<lparr>ff_sec := Some (Finite 0 0)\<rparr> else a)))"

definition estimated_fee :: "(date \<Rightarrow> int) \<Rightarrow> (int \<Rightarrow> date) \<Rightarrow> fill \<Rightarrow> (fee_error, decimal) result" where
  "estimated_fee midnight et_date f =
     bindR (fill_accruals midnight f) (\<lambda>a.
       if unpinned a \<noteq> [] then Inl (Fee_Rate_Not_Published (et_date (fl_bar_close_ms f)) (unpinned a))
       else foldR (\<lambda>total c. case accrual c a of None \<Rightarrow> Inl Fee_Missing
              | Some d \<Rightarrow> bindR (ceil_cents exact_digits d) (\<lambda>x. Inr (round_digits exact_digits (dadd total x))))
              (Finite 0 0) option_components)"

definition fee_for_policy ::
  "(date \<Rightarrow> int) \<Rightarrow> (int \<Rightarrow> date) \<Rightarrow> fee_policy \<Rightarrow> fill \<Rightarrow> (fee_error, decimal) result" where
  "fee_for_policy midnight et_date policy f =
     (case policy of
        Not_Charged \<Rightarrow> Inr (Finite 0 0)
      | Per_Contract each \<Rightarrow> (case mul_x each (whole (fl_contracts f)) of Inl _ \<Rightarrow> Inl Fee_Trapped | Inr d \<Rightarrow> Inr d)
      | Estimated \<Rightarrow> estimated_fee midnight et_date f)"

subsection \<open>What is priced exactly\<close>

lemma feeR_Inr [result_simps]: "feeR m = Inr x \<longleftrightarrow> m = Inr x"
  by (cases m) (simp_all add: feeR_def)

lemma in_force_mem: "in_force table t = Some v \<Longrightarrow> v \<in> snd ` set table"
proof -
  have "fold (\<lambda>(from, v) latest. if from \<le> t then Some v else latest) table latest = Some v
      \<Longrightarrow> latest = Some v \<or> v \<in> snd ` set table" for latest
  proof (induction table arbitrary: latest)
    case (Cons x table)
    then show ?case using Cons.IH [of "if fst x \<le> t then Some (snd x) else latest"]
      by (auto simp: case_prod_unfold split: if_splits)
  qed simp
  then show "in_force table t = Some v \<Longrightarrow> v \<in> snd ` set table" by (auto simp: in_force_def)
qed

text \<open>A rate, and a figure a fill can carry: not negative, of few decimals and few digits.\<close>

definition small :: "nat \<Rightarrow> nat \<Rightarrow> decimal \<Rightarrow> bool" where
  "small k n d \<longleftrightarrow> fits d k n \<and> 0 \<le> dval d"

lemma rates_small:
  "pred_option (small 7 6) (or_sec_per_dollar (option_rates_for midnight t))"
  "pred_option (small 7 6) (or_taf_per_contract (option_rates_for midnight t))"
  "pred_option (small 7 6) (or_cat_per_equivalent_share (option_rates_for midnight t))"
  "pred_option (small 7 6) (or_orf_per_contract (option_rates_for midnight t))"
  "pred_option (small 7 6) (or_occ_per_contract (option_rates_for midnight t))"
proof -
  have table: "pred_option (small 7 6) (in_force table t)" if "list_all (\<lambda>r. small 7 6 (snd r)) table" for table
    using that in_force_mem [of table t] by (cases "in_force table t") (auto simp: list_all_iff)
  have "list_all (\<lambda>r. small 7 6 (snd r)) (sec_per_dollar_table midnight)"
    "list_all (\<lambda>r. small 7 6 (snd r)) (taf_per_contract_table midnight)"
    "list_all (\<lambda>r. small 7 6 (snd r)) (cat_per_equivalent_share_table midnight)"
    "list_all (\<lambda>r. small 7 6 (snd r)) (orf_per_contract_table midnight)"
    "list_all (\<lambda>r. small 7 6 (snd r)) (occ_per_contract_table midnight)"
    by (simp_all add: sec_per_dollar_table_def taf_per_contract_table_def cat_per_equivalent_share_table_def
        orf_per_contract_table_def occ_per_contract_table_def small_def fits_def)
  note table [OF this(1)] table [OF this(2)] table [OF this(3)] table [OF this(4)] table [OF this(5)]
  then show "pred_option (small 7 6) (or_sec_per_dollar (option_rates_for midnight t))"
    "pred_option (small 7 6) (or_taf_per_contract (option_rates_for midnight t))"
    "pred_option (small 7 6) (or_cat_per_equivalent_share (option_rates_for midnight t))"
    "pred_option (small 7 6) (or_orf_per_contract (option_rates_for midnight t))"
    "pred_option (small 7 6) (or_occ_per_contract (option_rates_for midnight t))"
    by (simp_all add: option_rates_for_def stock_rates_for_def Let_def)
qed

lemma small_mono: "small k n d \<Longrightarrow> n + j \<le> m \<Longrightarrow> small (k + j) m d"
  by (auto simp: small_def intro: fits_mono)

lemma small_mul: "small k n a \<Longrightarrow> small j m b \<Longrightarrow> small (k + j) (n + m) (dmul a b)"
  using fits_finite [of a] fits_finite [of b] by (auto simp: small_def dval_dmul intro: fits_mul)

lemma small_add: "small k n a \<Longrightarrow> small k n b \<Longrightarrow> small k (Suc n) (dadd a b)"
  using fits_finite [of a] fits_finite [of b] by (auto simp: small_def dval_dadd intro: fits_add)

lemma small_whole: "0 \<le> n \<Longrightarrow> n < 10 ^ j \<Longrightarrow> small 0 j (whole n)"
  by (simp add: small_def whole_def fits_def)

text \<open>A fill of the replay: up to a million contracts of a multiplier up to a million, at a price of few digits.\<close>

definition ordinary_fill :: "fill \<Rightarrow> bool" where
  "ordinary_fill f \<longleftrightarrow> 0 < fl_contracts f \<and> fl_contracts f < 10 ^ 7 \<and> fl_multiplier f < 10 ^ 7 \<and> small 20 40 (fl_filled f)"

lemma money_product_small:
  "money_product a bs = Inr d \<Longrightarrow> small k n a \<Longrightarrow> list_all2 (\<lambda>b (j, m). small j m b) bs sizes
    \<Longrightarrow> small (k + sum_list (map fst sizes)) (n + sum_list (map snd sizes)) d"
proof (induction bs arbitrary: a k n sizes)
  case (Cons b bs)
  then obtain j m rest where s: "sizes = (j, m) # rest" "small j m b" "list_all2 (\<lambda>b (j, m). small j m b) bs rest"
    by (auto simp: list_all2_Cons1)
  have "money_ctx x = Inr y \<Longrightarrow> y = x" for x y by (auto simp: money_ctx_def ctx_exact_def split: decimal.splits sum.splits if_splits)
  then have "money_product (dmul a b) bs = Inr d" using Cons.prems(1) by (auto simp: bindR_Inr_iff result_simps)
  from Cons.IH [OF this small_mul [OF Cons.prems(2) s(2)] s(3)] show ?case by (simp add: s(1) add.assoc)
qed simp

lemma accrued_small:
  assumes "accrued (a # factors) rate = Inr d" "pred_option (small 7 6) rate" "small 0 7 a"
    "list_all2 (\<lambda>b (j, m). small j m b) factors sizes"
  shows "pred_option (small (sum_list (map fst sizes) + 7) (7 + sum_list (map snd sizes) + 6)) d"
proof (cases rate)
  case (Some r)
  then obtain x where x: "money_product a (factors @ [r]) = Inr x" "d = Some x"
    using assms(1) by (auto simp: accrued_def bindR_Inr_iff)
  have "list_all2 (\<lambda>b (j, m). small j m b) (factors @ [r]) (sizes @ [(7, 6)])"
    using assms(2,4) Some by (simp add: list_all2_appendI)
  from money_product_small [OF x(1) assms(3) this] show ?thesis by (simp add: x(2) add.assoc)
qed (use assms(1) in \<open>simp add: accrued_def\<close>)

lemma pred_small_mono: "pred_option (small k n) x \<Longrightarrow> n + j \<le> m \<Longrightarrow> pred_option (small (k + j) m) x"
  by (cases x) (auto intro: small_mono)

lemma fill_accruals_small:
  assumes "fill_accruals midnight f = Inr a" "ordinary_fill f"
  shows "pred_option (small 27 60) (accrual c a)"
proof -
  let ?n = "whole (fl_contracts f)" and ?m = "whole (fl_multiplier f)"
  let ?p = "if dval (fl_filled f) = 0 then Finite 1 0 else fl_filled f"
  obtain a0 where a0: "fees_for_option_fill midnight (fl_bar_close_ms f) (fl_side f) ?n ?p (fl_multiplier f) = Inr a0"
    and a: "a = (if dval (fl_filled f) = 0 \<and> ff_sec a0 \<noteq> None then a0\<lparr>ff_sec := Some (Finite 0 0)\<rparr> else a0)"
    using assms(1) by (auto simp: fill_accruals_def Let_def bindR_Inr_iff)
  have m: "0 < fl_multiplier f" using a0
    by (auto simp: fees_for_option_fill_def contract_multiplier_def split: sum.splits if_splits)
  have n: "small 0 7 ?n" and mm: "small 0 7 ?m" using assms(2) m by (auto simp: ordinary_fill_def intro!: small_whole)
  have one: "small 0 1 (Finite 1 0)" by (simp add: small_def fits_def)
  have p: "small 20 40 ?p" using assms(2) small_mono [OF one, of 20 40] by (simp add: ordinary_fill_def)
  have zero: "small 27 60 (Finite 0 0)" by (simp add: small_def fits_def)
  note cat = accrued_small [OF _ _ n, where factors = "[?m]" and sizes = "[(0, 7)]"]
  note per = accrued_small [OF _ _ n, where factors = "[]" and sizes = "[]"]
  note sec = accrued_small [OF _ _ n, where factors = "[?p, ?m]" and sizes = "[(20, 40), (0, 7)]"]
  have up: "pred_option (small 7 20) x \<Longrightarrow> pred_option (small 27 60) x"
    "pred_option (small 7 13) x \<Longrightarrow> pred_option (small 27 60) x"
    "pred_option (small 27 60) x \<Longrightarrow> pred_option (small 27 60) x" for x
    using pred_small_mono [of 7 20 x 20 60] pred_small_mono [of 7 13 x 20 60] by simp_all
  have "pred_option (small 27 60) (accrual c a0)"
    using a0 rates_small [of midnight "fl_bar_close_ms f"] cat per sec up p mm zero
    by (cases c) (auto simp: fees_for_option_fill_def Let_def bindR_Inr_iff contract_multiplier_def
        split: sum.splits if_splits)
  then show ?thesis using zero by (cases c) (auto simp: a)
qed


subsection \<open>A day settled, and the same fills estimated\<close>

lemma finite_dadd: "is_finite a \<Longrightarrow> is_finite b \<Longrightarrow> is_finite (dadd a b)"
  by (cases a; cases b) (auto simp: is_finite_def Let_def)

lemma fits_bound: "fits d k n \<Longrightarrow> \<bar>dval d\<bar> * 10 ^ k < 10 ^ n"
proof -
  assume "fits d k n"
  then obtain c e where d: "d = Finite c e" "- int k \<le> e" "\<bar>c\<bar> * 10 ^ nat (e + int k) < 10 ^ n" by (auto simp: fits_def)
  have p: "(10 :: rat) powi e * 10 ^ k = 10 ^ nat (e + int k)"
    using d(2) by (simp add: power_int_add flip: power_int_of_nat)
  have "\<bar>dval d\<bar> * 10 ^ k = of_int \<bar>c\<bar> * (10 powi e * 10 ^ k)" by (simp add: d(1) abs_mult)
  also have "\<dots> = of_int (\<bar>c\<bar> * 10 ^ nat (e + int k))" by (simp only: p) simp
  also have "\<dots> < of_int (10 ^ n)" using d(3) by (simp only: of_int_less_iff)
  finally show ?thesis by simp
qed

lemma round_small: "fits d k n \<Longrightarrow> n \<le> prec \<Longrightarrow> 0 < prec \<Longrightarrow> round_digits prec d = d"
proof -
  assume n: "fits d k n" "n \<le> prec" "0 < prec"
  then obtain c e where d: "d = Finite c e" "\<bar>c\<bar> * 10 ^ nat (e + int k) < 10 ^ n" by (auto simp: fits_def)
  have "\<bar>c\<bar> * 1 \<le> \<bar>c\<bar> * 10 ^ nat (e + int k)" by (intro mult_left_mono) auto
  then have "\<bar>c\<bar> < 10 ^ prec" using d(2) power10_less [of c n prec] n(2) by linarith
  then have "digits c \<le> prec" using digits_le n(3) by blast
  then show ?thesis by (simp add: round_digits_def d(1) Let_def)
qed

definition cents_up :: "decimal \<Rightarrow> rat" where "cents_up d = of_int \<lceil>dval d * 100\<rceil> / 100"

lemma ceil_cents_finite: "ceil_cents prec d = Inr x \<Longrightarrow> is_finite x"
  by (auto simp: ceil_cents_def bindR_Inr_iff is_finite_def split: if_splits)

lemma ceil_cents_small:
  assumes "ceil_cents prec d = Inr x" "small 27 n d" "27 \<le> n"
  shows "small 2 (n - 24) x \<and> dval x = cents_up d"
proof -
  have d: "is_finite d" "0 \<le> dval d" using assms(2) by (auto simp: small_def dest: fits_finite)
  have fin: "is_finite (dmul d (Finite 100 0))" using d(1) by (cases d) (auto simp: is_finite_def)
  have "dval (dmul d (Finite 100 0)) = dval d * 100" using d(1) by (simp add: dval_dmul is_finite_def)
  moreover obtain c e where "dmul d (Finite 100 0) = Finite c e" using fin by (auto simp: is_finite_def split: decimal.splits)
  ultimately have "integral_ceiling (dmul d (Finite 100 0)) = Inr \<lceil>dval d * 100\<rceil>" using integral_ceiling_value by metis
  with assms(1) have x: "x = Finite \<lceil>dval d * 100\<rceil> (- 2)"
    by (auto simp: ceil_cents_def feeR_def split: if_splits)
  have "\<bar>dval d\<bar> * 10 ^ 27 < 10 ^ n" using fits_bound [of d 27 n] assms(2) by (simp add: small_def)
  also have "(10 :: rat) ^ n = 10 ^ (n - 27) * 10 ^ 27"
    using power_add [of "10 :: rat" "n - 27" 27] assms(3) by (simp only: le_add_diff_inverse2)
  finally have "dval d < 10 ^ (n - 27)" using d(2) by (simp only: mult_less_cancel_right_pos zero_less_power zero_less_numeral abs_of_nonneg)
  then have "dval d * 100 < of_int (100 * 10 ^ (n - 27))" by simp
  then have "\<lceil>dval d * 100\<rceil> \<le> 100 * 10 ^ (n - 27)" by (simp only: ceiling_le_iff less_imp_le)
  also have "\<dots> < 10 ^ 3 * 10 ^ (n - 27)" by simp
  also have "\<dots> = 10 ^ (n - 24)"
    using power_add [of "10 :: int" 3 "n - 27"] assms(3) by (simp only: add_diff_assoc) simp
  finally have "\<lceil>dval d * 100\<rceil> < 10 ^ (n - 24)" .
  moreover have "0 \<le> \<lceil>dval d * 100\<rceil>" using d(2) by (simp add: le_ceiling_iff)
  moreover have "dval x = cents_up d" by (simp add: x cents_up_def power_int_def power_divide)
  moreover have "0 \<le> dval x" using \<open>dval x = cents_up d\<close> \<open>0 \<le> \<lceil>dval d * 100\<rceil>\<close>
    by (simp only: cents_up_def)
  ultimately show ?thesis by (simp add: x small_def fits_def)
qed

lemma fold_round_sum:
  assumes "list_all (\<lambda>x. small k n (g x)) xs" "small k (n + j) z" "n + j + length xs \<le> prec" "0 < prec"
  shows "small k (n + j + length xs) (fold (\<lambda>x total. round_digits prec (dadd total (g x))) xs z)
    \<and> dval (fold (\<lambda>x total. round_digits prec (dadd total (g x))) xs z) = dval z + (\<Sum>x\<leftarrow>xs. dval (g x))"
  using assms
proof (induction xs arbitrary: z j)
  case (Cons x xs)
  have gx: "small k (n + j) (g x)" using small_mono [of k n "g x" 0 "n + j"] Cons.prems(1) by simp
  have add: "small k (n + Suc j) (dadd z (g x))" using small_add [OF Cons.prems(2) gx] by simp
  have same: "round_digits prec (dadd z (g x)) = dadd z (g x)"
    by (rule round_small [of _ k "n + Suc j"]) (use add Cons.prems(3,4) in \<open>auto simp: small_def\<close>)
  have "dval (dadd z (g x)) = dval z + dval (g x)"
    using Cons.prems(2) gx by (auto simp: small_def dval_dadd dest!: fits_finite)
  with Cons.IH [of "Suc j" "dadd z (g x)"] Cons.prems add same show ?case by simp
qed simp

lemma ceiling_sum:
  fixes xs :: "rat list"
  assumes "xs \<noteq> []"
  shows "\<lceil>sum_list xs\<rceil> \<le> (\<Sum>x\<leftarrow>xs. \<lceil>x\<rceil>) \<and> (\<Sum>x\<leftarrow>xs. \<lceil>x\<rceil>) \<le> \<lceil>sum_list xs\<rceil> + int (length xs - 1)"
  using assms
proof (induction xs rule: list_nonempty_induct)
  case (cons x xs)
  have "\<lceil>x + sum_list xs\<rceil> \<le> \<lceil>x\<rceil> + \<lceil>sum_list xs\<rceil>" "\<lceil>x\<rceil> + \<lceil>sum_list xs\<rceil> \<le> \<lceil>x + sum_list xs\<rceil> + 1"
    by linarith+
  moreover have "int (length xs - 1) = int (length xs) - 1" using cons(1) by (cases xs) auto
  ultimately show ?case using cons(2) by simp
qed simp

text \<open>The loops that round each accrual up and add the cents.\<close>

abbreviation add_cents_up ::
  "nat \<Rightarrow> ('x \<Rightarrow> decimal option) \<Rightarrow> decimal \<Rightarrow> 'x \<Rightarrow> (fee_error, decimal) result" where
  "add_cents_up prec h sofar x \<equiv> (case h x of None \<Rightarrow> Inl Fee_Missing
     | Some d \<Rightarrow> bindR (ceil_cents prec d) (\<lambda>y. Inr (round_digits prec (dadd sofar y))))"

lemma cents_up_sum:
  assumes "foldR (add_cents_up prec h) z xs = Inr res" "\<forall>x\<in>set xs. pred_option (small 27 60) (h x)"
    "small 2 (36 + j) z" "36 + j + length xs \<le> prec"
  shows "small 2 (36 + j + length xs) res \<and> dval res = dval z + (\<Sum>x\<leftarrow>xs. cents_up (the (h x)))"
  using assms
proof (induction xs arbitrary: z j)
  case (Cons x xs)
  then obtain d y where d: "h x = Some d" "ceil_cents prec d = Inr y"
    and rest: "foldR (add_cents_up prec h) (round_digits prec (dadd z y)) xs = Inr res"
    by (auto simp: bindR_Inr_iff split: option.splits)
  have y: "small 2 36 y" "dval y = cents_up d" using ceil_cents_small [OF d(2), of 60] Cons.prems(2) d(1) by auto
  have wide: "small 2 (36 + j) y" using small_mono [OF y(1), of 0 "36 + j"] by simp
  have add: "small 2 (36 + Suc j) (dadd z y)" using small_add [OF Cons.prems(3) wide] by simp
  have same: "round_digits prec (dadd z y) = dadd z y"
    by (rule round_small [of _ 2 "36 + Suc j"]) (use add Cons.prems(4) in \<open>auto simp: small_def\<close>)
  have "dval (dadd z y) = dval z + dval y"
    using Cons.prems(3) y(1) by (auto simp: small_def dval_dadd dest!: fits_finite)
  with Cons.IH [of "dadd z y" "Suc j"] rest same add Cons.prems y(2) d(1) show ?case by (simp add: algebra_simps)
qed simp

definition every_cents_up :: "option_fill_fees \<Rightarrow> rat" where
  "every_cents_up a = (\<Sum>c\<leftarrow>option_components. cents_up (the (accrual c a)))"

lemma estimated_fee_value:
  assumes "estimated_fee midnight et_date f = Inr fee" "fill_accruals midnight f = Inr a" "ordinary_fill f"
  shows "dval fee = every_cents_up a"
proof -
  have "foldR (add_cents_up exact_digits (\<lambda>c. accrual c a)) (Finite 0 0) option_components = Inr fee"
    using assms(1,2) by (auto simp: estimated_fee_def split: if_splits)
  moreover have "small 2 (36 + 0) (Finite 0 0)" by (simp add: small_def fits_def)
  ultimately show ?thesis
    using cents_up_sum [of exact_digits "\<lambda>c. accrual c a" "Finite 0 0" option_components fee 0]
      fill_accruals_small [OF assms(2,3)] by (simp add: every_cents_up_def option_components_def exact_digits_def)
qed

lemma estimated_fees_sum:
  assumes "traverseR (fill_accruals midnight) fs = Inr accruals" "traverseR (estimated_fee midnight et_date) fs = Inr fees"
    "list_all ordinary_fill fs"
  shows "(\<Sum>x\<leftarrow>fees. dval x) = (\<Sum>a\<leftarrow>accruals. every_cents_up a) \<and> length accruals = length fs
    \<and> (\<forall>a\<in>set accruals. \<forall>c. pred_option (small 27 60) (accrual c a))"
  using assms
  by (induction fs arbitrary: accruals fees)
    (auto simp: bindR_Inr_iff estimated_fee_value fill_accruals_small)

lemma component_settled:
  assumes "ceil_cents money_precision (component_sum (round_digits money_precision) (accrual c) accruals) = Inr x"
    "\<forall>a\<in>set accruals. pred_option (small 27 60) (accrual c a) \<and> accrual c a \<noteq> None" "length accruals \<le> 1000"
  shows "dval x = of_int \<lceil>\<Sum>a\<leftarrow>accruals. dval (the (accrual c a)) * 100\<rceil> / 100"
proof -
  let ?g = "\<lambda>a. case accrual c a of None \<Rightarrow> Finite 0 0 | Some d \<Rightarrow> d"
  have g: "list_all (\<lambda>a. small 27 60 (?g a)) accruals" "map (\<lambda>a. dval (?g a)) accruals = map (\<lambda>a. dval (the (accrual c a))) accruals"
    using assms(2) by (auto simp: list_all_iff split: option.splits)
  have zero: "small 27 (60 + 0) (Finite 0 0)" by (simp add: small_def fits_def)
  from fold_round_sum [OF g(1) zero, of money_precision] assms(3)
  have s: "small 27 (60 + length accruals) (component_sum (round_digits money_precision) (accrual c) accruals)"
    "dval (component_sum (round_digits money_precision) (accrual c) accruals) = (\<Sum>a\<leftarrow>accruals. dval (the (accrual c a)))"
    by (simp_all add: component_sum_def money_precision_def g(2))
  from ceil_cents_small [OF assms(1) s(1)] show ?thesis by (simp add: cents_up_def s(2) sum_list_mult_const)
qed

text \<open>
  C11: the estimate leans high by cents, and never low. Priced fill by fill, ordinary fills cost at least what the fee model
  settles their day for, and at most four cents more for each fill after the first: one for each of SEC, TAF, CAT and
  ORF, which the day rounds up once and the replay rounds up at each fill.
\<close>

theorem estimate_leans_high:
  assumes "list_all ordinary_fill fs" "fs \<noteq> []" "length fs \<le> 1000"
    and "traverseR (fill_accruals midnight) fs = Inr accruals"
    and "settle_option_session accruals = Inr day" "day_total day = Inr charged"
    and "traverseR (estimated_fee midnight et_date) fs = Inr fees"
  shows "dval charged \<le> (\<Sum>x\<leftarrow>fees. dval x) \<and> (\<Sum>x\<leftarrow>fees. dval x) \<le> dval charged + of_nat (4 * (length fs - 1)) / 100"
proof -
  note sums = estimated_fees_sum [OF assms(4,7,1)]
  let ?R = "round_digits money_precision" and ?p = money_precision
  have pinned: "\<forall>c\<in>set option_components. \<forall>a\<in>set accruals. accrual c a \<noteq> None"
    and parts: "ceil_cents ?p (component_sum ?R (accrual Fee_Sec) accruals) = Inr (of_sec day)"
      "ceil_cents ?p (component_sum ?R (accrual Fee_Taf) accruals) = Inr (of_taf day)"
      "ceil_cents ?p (component_sum ?R (accrual Fee_Cat) accruals) = Inr (of_cat day)"
      "ceil_cents ?p (component_sum ?R (accrual Fee_Orf) accruals) = Inr (of_orf day)"
    and occ: "\<exists>nothing. ceil_cents ?p (Finite 0 0) = Inr nothing \<and> foldR (add_cents_up ?p ff_occ) nothing accruals = Inr (of_occ day)"
    using assms(5)
    by (auto simp: settle_option_session_def settle_components_def option_components_def settled_def bindR_Inr_iff Let_def
        list_ex_iff split: if_splits)
  define up where "up = (\<lambda>c. \<Sum>a\<leftarrow>accruals. cents_up (the (accrual c a)))"
  define once where "once = (\<lambda>c. of_int \<lceil>\<Sum>a\<leftarrow>accruals. dval (the (accrual c a)) * 100\<rceil> / (100 :: rat))"
  have each: "\<forall>a\<in>set accruals. pred_option (small 27 60) (accrual c a) \<and> accrual c a \<noteq> None"
    if "c \<in> set option_components" for c using sums pinned that by blast
  have few: "length accruals \<le> 1000" using sums assms(3) by simp
  have four: "dval (of_sec day) = once Fee_Sec" "dval (of_taf day) = once Fee_Taf" "dval (of_cat day) = once Fee_Cat"
    "dval (of_orf day) = once Fee_Orf"
    using parts [THEN component_settled, OF each few] by (simp_all add: once_def option_components_def)
  obtain free where free: "ceil_cents ?p (Finite 0 0) = Inr free"
    and loop: "foldR (add_cents_up ?p (accrual Fee_Occ)) free accruals = Inr (of_occ day)" using occ by auto
  have zero: "small 27 60 (Finite 0 0)" by (simp add: small_def fits_def)
  have n0: "small 2 (36 + 0) free" "dval free = 0"
    using ceil_cents_small [OF free zero] by (simp_all add: cents_up_def)
  have occ: "small 2 (36 + length accruals) (of_occ day)" "dval (of_occ day) = up Fee_Occ"
    using cents_up_sum [OF loop _ n0(1)] each [of Fee_Occ] few
    by (auto simp: up_def n0(2) money_precision_def option_components_def)
  have same: "money_ctx x = Inr y \<Longrightarrow> y = x" for x y
    by (auto simp: money_ctx_def ctx_exact_def split: decimal.splits sum.splits if_splits)
  have "is_finite (of_sec day)" "is_finite (of_taf day)" "is_finite (of_cat day)" "is_finite (of_orf day)" "is_finite (of_occ day)"
    using parts [THEN ceil_cents_finite] occ(1) by (simp_all add: small_def) (metis fits_finite)
  then have charged: "dval charged = once Fee_Sec + once Fee_Taf + once Fee_Cat + once Fee_Orf + up Fee_Occ"
    using assms(6) four occ(2) by (auto simp: day_total_def bindR_Inr_iff feeR_Inr dval_dadd finite_dadd dest!: same)
  have "accruals \<noteq> []" using sums assms(2) by auto
  then have between: "once c \<le> up c \<and> up c \<le> once c + of_nat (length fs - 1) / 100" for c
  proof -
    let ?xs = "map (\<lambda>a. dval (the (accrual c a)) * 100) accruals"
    have up: "up c = of_int (\<Sum>x\<leftarrow>?xs. \<lceil>x\<rceil>) / 100"
      unfolding up_def cents_up_def by (induction accruals) (simp_all add: add_divide_distrib)
    have "of_int \<lceil>sum_list ?xs\<rceil> \<le> (of_int (\<Sum>x\<leftarrow>?xs. \<lceil>x\<rceil>) :: rat)"
      "of_int (\<Sum>x\<leftarrow>?xs. \<lceil>x\<rceil>) \<le> (of_int (\<lceil>sum_list ?xs\<rceil> + int (length ?xs - 1)) :: rat)"
      using ceiling_sum [of ?xs] \<open>accruals \<noteq> []\<close> by (simp_all only: of_int_le_iff) simp_all
    then show ?thesis using sums by (simp add: up once_def)
  qed
  have "(\<Sum>a\<leftarrow>accruals. every_cents_up a) = up Fee_Sec + up Fee_Taf + up Fee_Cat + up Fee_Orf + up Fee_Occ"
    unfolding up_def every_cents_up_def option_components_def by (simp add: sum_list_addf add.assoc)
  then show ?thesis using sums charged between [of Fee_Sec] between [of Fee_Taf] between [of Fee_Cat] between [of Fee_Orf]
    by (simp add: of_nat_mult)
qed

definition fee_day :: "date \<Rightarrow> int" where "fee_day = (\<lambda>(y, m, d). 400 * y + 32 * m + d)"

definition fee_sample :: "leg_side \<Rightarrow> int \<Rightarrow> decimal \<Rightarrow> fill" where
  "fee_sample side n price =
     \<lparr>fl_leg_id = ''a'', fl_contract = \<lparr>oc_root = ''SPY'', oc_expiry_ms = 0, oc_right = Call, oc_strike = 500000\<rparr>,
      fl_side = side, fl_contracts = n, fl_multiplier = 100, fl_bar_close_ms = fee_day (2026, 7, 15),
      fl_seen = price, fl_filled = price\<rparr>"

definition sample_fills :: "fill list" where
  "sample_fills = [fee_sample Sell 1 (Finite 123 (- 2)), fee_sample Buy 2 (Finite 45 (- 2))]"

definition sample_accruals :: "option_fill_fees list" where
  "sample_accruals =
     [\<lparr>ff_sec = Some (Finite 2533800 (- 9)), ff_taf = Some (Finite 329 (- 5)), ff_cat = Some (Finite 300 (- 6)),
       ff_orf = Some (Finite 15 (- 3)), ff_occ = Some (Finite 25 (- 3))\<rparr>,
      \<lparr>ff_sec = Some (Finite 0 0), ff_taf = Some (Finite 0 0), ff_cat = Some (Finite 600 (- 6)),
       ff_orf = Some (Finite 30 (- 3)), ff_occ = Some (Finite 50 (- 3))\<rparr>]"

definition sample_day_fees :: option_session_fees where
  "sample_day_fees = \<lparr>of_sec = Finite 1 (- 2), of_taf = Finite 1 (- 2), of_cat = Finite 1 (- 2), of_orf = Finite 5 (- 2),
     of_occ = Finite 8 (- 2)\<rparr>"

lemma samples_ordinary: "list_all ordinary_fill sample_fills"
  by (simp add: sample_fills_def fee_sample_def ordinary_fill_def small_def fits_def)

lemma sample_rates:
  "option_rates_for fee_day (fee_day (2026, 7, 15)) =
     \<lparr>or_sec_per_dollar = Some (Finite 206 (- 7)), or_taf_per_contract = Some (Finite 329 (- 5)),
      or_cat_per_equivalent_share = Some (Finite 3 (- 6)), or_orf_per_contract = Some (Finite 15 (- 3)),
      or_occ_per_contract = Some (Finite 25 (- 3))\<rparr>"
  by (simp add: option_rates_for_def stock_rates_for_def in_force_def sec_per_dollar_table_def taf_per_share_table_def
      taf_per_contract_table_def orf_per_contract_table_def occ_per_contract_table_def cat_per_share_table_def
      cat_per_equivalent_share_table_def fee_day_def)

text \<open>Figures of at most a hundred digits pass the contexts unchanged, which is how the sample is worked.\<close>

lemma hundred_digits:
  assumes "\<bar>c\<bar> < 10 ^ 100"
  shows "money_ctx (Finite c e) = Inr (Finite c e)" "round_digits money_precision (Finite c e) = Finite c e"
    "round_digits exact_digits (Finite c e) = Finite c e" "\<not> money_precision < digits c" "\<not> exact_digits < digits c"
proof -
  have d: "digits c \<le> 100" using assms by (intro digits_le) simp_all
  then show "\<not> money_precision < digits c" "\<not> exact_digits < digits c" by (simp_all add: money_precision_def exact_digits_def)
  then show "round_digits money_precision (Finite c e) = Finite c e" "round_digits exact_digits (Finite c e) = Finite c e"
    by (simp_all add: round_digits_def Let_def)
  show "money_ctx (Finite c e) = Inr (Finite c e)"
    by (rule money_ctx_ok, rule power10_less [OF assms]) (simp add: money_precision_def)
qed

lemmas sample_evals = fill_accruals_def fees_for_option_fill_def accrued_def sample_rates normalize_money_def
  contract_multiplier_def whole_def fee_sample_def hundred_digits feeR_def Let_def powi_neg
  adjusted_def digits_def show_nat.simps digit_char_def trail.simps strip_def

lemma samples_accrued: "traverseR (fill_accruals fee_day) sample_fills = Inr sample_accruals"
  by (simp add: sample_fills_def sample_accruals_def sample_evals)

lemma samples_settled:
  "settle_option_session sample_accruals = Inr sample_day_fees" "day_total sample_day_fees = Inr (Finite 16 (- 2))"
  by (simp_all add: sample_accruals_def sample_day_fees_def settle_option_session_def settle_components_def
      option_components_def component_sum_def ceil_cents_def integral_ceiling_def settled_def day_total_def hundred_digits
      feeR_def Let_def)

lemma samples_priced:
  "traverseR (estimated_fee fee_day (\<lambda>_. (2026, 7, 15))) sample_fills = Inr [Finite 8 (- 2), Finite 9 (- 2)]"
proof -
  have each: "fill_accruals fee_day (fee_sample Sell 1 (Finite 123 (- 2))) = Inr (sample_accruals ! 0)"
    "fill_accruals fee_day (fee_sample Buy 2 (Finite 45 (- 2))) = Inr (sample_accruals ! 1)"
    using samples_accrued by (auto simp: sample_fills_def sample_accruals_def bindR_Inr_iff)
  then show ?thesis
    by (simp add: sample_fills_def estimated_fee_def sample_accruals_def unpinned_def option_components_def
        ceil_cents_def integral_ceiling_def hundred_digits feeR_def)
qed

theorem estimate_leans_high_witness:
  "\<exists>charged fees. traverseR (fill_accruals fee_day) sample_fills = Inr sample_accruals
    \<and> bindR (settle_option_session sample_accruals) day_total = Inr charged
    \<and> traverseR (estimated_fee fee_day (\<lambda>_. (2026, 7, 15))) sample_fills = Inr fees
    \<and> charged = Finite 16 (- 2) \<and> dval charged \<le> (\<Sum>x\<leftarrow>fees. dval x)
    \<and> (\<Sum>x\<leftarrow>fees. dval x) \<le> dval charged + of_nat (4 * (length sample_fills - 1)) / 100"
proof -
  have few: "sample_fills \<noteq> []" "length sample_fills \<le> 1000" by (simp_all add: sample_fills_def)
  note leans = estimate_leans_high [OF samples_ordinary few samples_accrued samples_settled samples_priced]
  show ?thesis
    by (rule exI [of _ "Finite 16 (- 2)"], rule exI [of _ "[Finite 8 (- 2), Finite 9 (- 2)]"])
      (intro conjI samples_accrued samples_priced refl conjunct1 [OF leans] conjunct2 [OF leans],
        simp only: samples_settled bindR_def sum.case)
qed

end
