(* ===== verification/Run_Results.thy ===== *)
theory Run_Results
  imports Capital_Evidence Session_Needs Option_Fees
begin

text \<open>
  \<open>app/options_backtest/data.py\<close>, \<open>session_result.py\<close> and \<open>cash_ladder.py\<close>: what a run reads and the pins it
  keeps, one session of a run as it is kept, and the levels of the cash ladder.

  The data of a run is the parameter \<open>run_data\<close>, a function for each question. A set of decimals keeps, of equal figures,
  the one that came first (\<open>value_set\<close>); a dictionary with decimal keys is an association list in the order of insertion,
  searched by value. \<open>int\<close> of an amount above zero is its floor.
\<close>

subsection \<open>What a run reads\<close>

datatype member_state = Member_Captured | Member_Confirmed_Empty

record member_ref =
  mr_container_sha256 :: string
  mr_member_sha256 :: string
  mr_listing_sha256 :: string
  mr_recipe :: string
  mr_data_root_id :: string
  mr_state :: member_state

definition is_sha256 :: "string \<Rightarrow> bool" where
  "is_sha256 s \<longleftrightarrow> length s = 64 \<and> list_all (\<lambda>c. c \<in> set ''0123456789abcdef'') s"

definition member_ref_ok :: "member_ref \<Rightarrow> bool" where
  "member_ref_ok r \<longleftrightarrow> list_all is_sha256 [mr_container_sha256 r, mr_member_sha256 r, mr_listing_sha256 r, mr_recipe r]
     \<and> mr_data_root_id r \<noteq> ''''"

record 'v captured =
  cp_value :: 'v
  cp_sha256 :: string
  cp_reference :: "member_ref option"

definition captured_ok :: "'v captured \<Rightarrow> bool" where
  "captured_ok c \<longleftrightarrow> is_sha256 (cp_sha256 c)"

record run_data =
  rd_underlying_day :: "date \<Rightarrow> minute_bar list captured option"
  rd_listing :: "date \<Rightarrow> listing captured option"
  rd_option_day :: "option_contract \<Rightarrow> date \<Rightarrow> minute_bar list captured option"

subsection \<open>A session as it is kept\<close>

record pinned_day =
  pd_contract :: option_contract
  pd_sha256 :: string
  pd_reference :: "member_ref option"

record session_pins =
  pn_underlying_sha256 :: "string option"
  pn_listing_sha256 :: "string option"
  pn_option_days :: "pinned_day list"

record session_result =
  sx_open_ms :: int
  sx_close_ms :: int
  sx_cash_before :: decimal
  sx_outcome :: session_outcome
  sx_cash_after :: decimal
  sx_pins :: session_pins

definition sx_trading_date :: "(int \<Rightarrow> date) \<Rightarrow> session_result \<Rightarrow> date" where
  "sx_trading_date et_date sx = et_date (sx_open_ms sx)"

definition sx_status :: "session_result \<Rightarrow> session_status" where "sx_status sx = so_status (sx_outcome sx)"

definition sx_pnl :: "session_result \<Rightarrow> (run_error, decimal) result" where
  "sx_pnl sx = replayR (pnl_usd (sx_outcome sx))"

definition trade_fees :: "leg_trade \<Rightarrow> (run_error, decimal) result" where
  "trade_fees tr = exactR (add_x (lt_entry_fee tr) (lt_exit_fee tr))"

definition sx_fees :: "session_result \<Rightarrow> (run_error, decimal) result" where
  "sx_fees sx = foldR (\<lambda>total tr. bindR (trade_fees tr) (\<lambda>fee. exactR (add_x total fee))) (Finite 0 0) (so_trades (sx_outcome sx))"

subsection \<open>The cash ladder\<close>

record cash_level =
  cl_multiple :: decimal
  cl_starting_cash :: decimal
  cl_is_setups_own :: bool
  cl_entries_filled :: nat
  cl_entries_refused_for_cash :: nat
  cl_net_profit :: decimal
  cl_capital_evidence :: capital_evidence

definition value_set :: "decimal list \<Rightarrow> decimal list" where
  "value_set ds = fold (\<lambda>d kept. if list_ex (\<lambda>k. dval k = dval d) kept then kept else kept @ [d]) ds []"

definition default_cash_ladder :: "decimal list" where
  "default_cash_ladder = [Finite 5 (- 1), Finite 1 0, Finite 2 0, Finite 4 0]"

definition setups_own :: decimal where "setups_own = Finite 1 0"
definition one_cent :: decimal where "one_cent = Finite 1 (- 2)"

definition down_to_the_cent :: "decimal \<Rightarrow> (run_error, decimal) result" where
  "down_to_the_cent amount =
     bindR (exactR (mul_x amount (Finite 100 0))) (\<lambda>cents. exactR (held_exactly (Finite \<lfloor>dval cents\<rfloor> (- 2))))"

definition level_cash :: "decimal \<Rightarrow> decimal \<Rightarrow> (run_error, decimal) result" where
  "level_cash starting_cash multiple =
     bindR (if dval multiple = dval setups_own then Inr starting_cash
            else bindR (exactR (mul_x starting_cash multiple)) down_to_the_cent) (\<lambda>cash.
       if dval cash < dval one_cent then Inl Run_Value_Error else Inr cash)"

definition add_level :: "decimal \<Rightarrow> (decimal \<times> decimal) list \<Rightarrow> decimal \<Rightarrow> (run_error, (decimal \<times> decimal) list) result" where
  "add_level starting_cash levels multiple =
     bindR (level_cash starting_cash multiple) (\<lambda>cash.
       Inr (if list_ex (\<lambda>(c, _). dval c = dval cash) levels then levels else levels @ [(cash, multiple)]))"

definition ladder_levels :: "decimal \<Rightarrow> decimal list \<Rightarrow> (run_error, (decimal \<times> decimal) list) result" where
  "ladder_levels starting_cash multiples =
     (let wanted = value_set (multiples @ [setups_own]) in
      if list_ex (\<lambda>m. \<not> (is_finite m \<and> 0 < dval m)) wanted then Inl Run_Value_Error
      else foldR (add_level starting_cash) [] (sort_key dval wanted))"

subsection \<open>Sets of figures\<close>

lemma value_set_facts:
  "dval ` set (value_set ds) = dval ` set ds \<and> set (value_set ds) \<subseteq> set ds \<and> distinct (map dval (value_set ds))"
proof -
  let ?f = "\<lambda>d kept. if list_ex (\<lambda>k. dval k = dval d) kept then kept else kept @ [d]"
  have "dval ` set (fold ?f ds kept) = dval ` set kept \<union> dval ` set ds \<and> set (fold ?f ds kept) \<subseteq> set kept \<union> set ds
    \<and> distinct (map dval (fold ?f ds kept))" if "distinct (map dval kept)" for kept
    using that
  proof (induction ds arbitrary: kept)
    case (Cons d ds)
    show ?case
    proof (cases "list_ex (\<lambda>k. dval k = dval d) kept")
      case True
      then have "dval d \<in> dval ` set kept" by (auto simp: list_ex_iff image_iff) (metis)
      with Cons True show ?thesis by (auto simp: insert_absorb)
    next
      case False
      then have "dval d \<notin> dval ` set kept" by (auto simp: list_ex_iff)
      then have "distinct (map dval (kept @ [d]))" using Cons.prems by simp
      with Cons.IH [OF this] False show ?thesis by auto
    qed
  qed simp
  from this [of "[]"] show ?thesis by (simp add: value_set_def)
qed

lemma sorted_values: "sorted_wrt (\<lambda>a b. dval a < dval b) (sort_key dval (value_set ds))"
proof -
  have "distinct (map dval (sort_key dval (value_set ds)))" using value_set_facts [of ds]
    by (simp add: distinct_map)
  then have "sorted_wrt (<) (map dval (sort_key dval (value_set ds)))" by (simp add: strict_sorted_iff)
  then show ?thesis by (simp add: sorted_wrt_map)
qed

subsection \<open>The levels are the floors\<close>

definition whole_cents_of :: "decimal \<Rightarrow> decimal \<Rightarrow> int" where
  "whole_cents_of start m = \<lfloor>dval m * dval start * 100\<rfloor>"

lemma cents_of_setup:
  assumes "setup_figure 14 2 start" obtains k where "is_finite start" "dval start * 100 = of_int k"
proof -
  obtain c' e' c e where d: "start = Finite c' e'" "strip c' e' = Finite c e" "- 2 \<le> e"
    using assms by (auto simp: setup_figure_def split: decimal.splits)
  have "dval start = dval (Finite c e)" using dval_strip [of c' e'] by (simp add: d(1,2))
  then have "dval start * 100 = of_int c * 10 powi (e + 2)"
    using power_int_add [of "10 :: rat" e 2] by (simp add: power_int_def)
  also have "\<dots> = of_int (c * 10 ^ nat (e + 2))" using d(3) by (simp add: power_int_def)
  finally have "dval start * 100 = of_int (c * 10 ^ nat (e + 2))" .
  moreover have "is_finite start" by (simp add: d(1) is_finite_def)
  ultimately show thesis using that by blast
qed

lemma pos_finite: "0 < dval d \<Longrightarrow> is_finite d"
  by (cases d) (simp_all add: is_finite_def)

lemma level_cash_Inr:
  assumes "level_cash start m = Inr c" "is_finite start" "dval start * 100 = of_int k" "is_finite m"
  shows "dval c = of_int (whole_cents_of start m) / 100 \<and> 1 / 100 \<le> dval c \<and> (dval m = 1 \<longrightarrow> c = start)"
proof -
  have least: "1 / 100 \<le> dval c"
    using assms(1) by (auto simp: level_cash_def bindR_Inr_iff one_cent_def power_int_def power_divide split: if_splits)
  show ?thesis
  proof (cases "dval m = 1")
    case True
    then have "c = start" using assms(1) by (auto simp: level_cash_def setups_own_def bindR_Inr_iff split: if_splits)
    then show ?thesis using least assms(3) True by (simp add: whole_cents_of_def mult.assoc)
  next
    case False
    then obtain a x where a: "mul_x start m = Inr a" "mul_x a (Finite 100 0) = Inr x"
      and c: "held_exactly (Finite \<lfloor>dval x\<rfloor> (- 2)) = Inr c"
      using assms(1) by (auto simp: level_cash_def setups_own_def down_to_the_cent_def bindR_Inr_iff run_Inr split: if_splits)
    have fin: "is_finite (Finite i j)" for i j by (simp add: is_finite_def)
    note a' = mul_x_Inr [OF a(1) assms(2,4)]
    note x' = mul_x_Inr [OF a(2) conjunct1 [OF a'] fin]
    have "dval x = dval m * dval start * 100" using a' x' by (simp add: mult_ac)
    moreover have "c = Finite \<lfloor>dval x\<rfloor> (- 2)" by (rule held_exactly_Inr [OF fin c])
    ultimately show ?thesis using least False by (simp add: whole_cents_of_def power_int_def power_divide)
  qed
qed

lemma levels_added:
  assumes "foldR (add_level start) levels ms = Inr res" "is_finite start" "dval start * 100 = of_int k" "0 < dval start"
    and "sorted_wrt (\<lambda>a b. dval a < dval b) ms" "list_all is_finite ms"
    and "sorted_wrt (\<lambda>(c, _) (c', _). dval c < dval c') levels"
    and "\<forall>(c, m)\<in>set levels. dval c = of_int (whole_cents_of start m) / 100 \<and> (dval m = 1 \<longrightarrow> c = start) \<and> m \<in> M \<and> (\<forall>m'\<in>set ms. dval m < dval m')"
    and "set ms \<subseteq> M"
  shows "sorted_wrt (\<lambda>(c, _) (c', _). dval c < dval c') res \<and> set levels \<subseteq> set res
    \<and> (\<forall>(c, m)\<in>set res. dval c = of_int (whole_cents_of start m) / 100 \<and> (dval m = 1 \<longrightarrow> c = start) \<and> m \<in> M)
    \<and> (\<forall>m\<in>set ms. \<exists>(c, m')\<in>set res. dval m' \<le> dval m \<and> dval c = of_int (whole_cents_of start m) / 100 \<and> 1 / 100 \<le> dval c)"
  using assms
proof (induction ms arbitrary: levels)
  case (Cons m ms)
  from Cons.prems(1) have "bindR (add_level start levels m) (\<lambda>l. foldR (add_level start) l ms) = Inr res" by simp
  then obtain l where l: "add_level start levels m = Inr l" "foldR (add_level start) l ms = Inr res"
    unfolding bindR_Inr_iff by blast
  then obtain c where c: "level_cash start m = Inr c"
    and rest: "foldR (add_level start) (if list_ex (\<lambda>(c', _). dval c' = dval c) levels then levels else levels @ [(c, m)]) ms = Inr res"
    unfolding add_level_def bindR_Inr_iff by blast
  have "is_finite m" using Cons.prems(6) by simp
  note facts = level_cash_Inr [OF c Cons.prems(2,3) this]
  have below: "dval c' \<le> dval c" if "(c', m') \<in> set levels" for c' m'
  proof -
    have "dval m' < dval m" "dval c' = of_int (whole_cents_of start m') / 100" using Cons.prems(8) that by auto
    moreover then have "whole_cents_of start m' \<le> whole_cents_of start m"
      unfolding whole_cents_of_def using Cons.prems(4) by (intro floor_mono) (simp add: mult_right_mono)
    ultimately show ?thesis using facts by (simp add: divide_right_mono)
  qed
  let ?next = "if list_ex (\<lambda>(c', _). dval c' = dval c) levels then levels else levels @ [(c, m)]"
  have next_sorted: "sorted_wrt (\<lambda>(c, _) (c', _). dval c < dval c') ?next"
    using Cons.prems(7) below by (fastforce simp: sorted_wrt_append list_ex_iff order_less_le)
  have next_levels: "\<forall>(c, x)\<in>set ?next. dval c = of_int (whole_cents_of start x) / 100 \<and> (dval x = 1 \<longrightarrow> c = start) \<and> x \<in> M \<and> (\<forall>m'\<in>set ms. dval x < dval m')"
    using Cons.prems(5,8,9) facts by auto
  obtain c' m' where here: "(c', m') \<in> set ?next" "dval m' \<le> dval m" "dval c' = dval c"
  proof (cases "list_ex (\<lambda>(c', _). dval c' = dval c) levels")
    case True
    then obtain c' m' where "(c', m') \<in> set levels" "dval c' = dval c" by (auto simp: list_ex_iff)
    moreover then have "dval m' \<le> dval m" using Cons.prems(8) by (auto intro: less_imp_le)
    ultimately show thesis using that True by auto
  next
    case False
    then show thesis by (intro that [of c m]) auto
  qed
  have ms: "sorted_wrt (\<lambda>a b. dval a < dval b) ms" "list_all is_finite ms" "set ms \<subseteq> M" using Cons.prems(5,6,9) by auto
  note IH = Cons.IH [OF rest Cons.prems(2-4) ms(1,2) next_sorted next_levels ms(3)]
  have "set levels \<subseteq> set ?next" by auto
  moreover have "(c', m') \<in> set res" using IH here(1) by blast
  ultimately show ?case using IH here(2,3) facts by (simp only: list.set ball_simps insert_iff) auto
qed simp

text \<open>
  C19: the cash levels are what the ladder says they are. Each multiple asked for has a level whose cash is that multiple
  of the setup's cash rounded down to the cent, and at least a cent; the levels go up in cash and hold each cash once,
  under the smallest multiple that comes to it; and the setup's own cash is always among them, unrounded, as multiple one.
\<close>

theorem ladder_levels_exact:
  assumes "ladder_levels start multiples = Inr levels" "setup_figure 14 2 start" "0 < dval start"
  shows "sorted_wrt (\<lambda>(c, _) (c', _). dval c < dval c') levels
    \<and> (\<exists>m. (start, m) \<in> set levels \<and> dval m = 1)
    \<and> (\<forall>(c, m)\<in>set levels. m \<in> set (setups_own # multiples) \<and> dval c = of_int \<lfloor>dval m * dval start * 100\<rfloor> / 100)
    \<and> (\<forall>m\<in>set multiples. is_finite m \<and> 0 < dval m
        \<and> (\<exists>(c, m')\<in>set levels. dval m' \<le> dval m \<and> dval c = of_int \<lfloor>dval m * dval start * 100\<rfloor> / 100 \<and> 1 / 100 \<le> dval c))"
proof -
  let ?wanted = "value_set (multiples @ [setups_own])"
  obtain k where start: "is_finite start" "dval start * 100 = of_int k" by (rule cents_of_setup [OF assms(2)])
  have ok: "\<forall>m\<in>set ?wanted. is_finite m \<and> 0 < dval m" and run: "foldR (add_level start) [] (sort_key dval ?wanted) = Inr levels"
    using assms(1) by (auto simp: ladder_levels_def Let_def list_ex_iff split: if_splits)
  have "list_all is_finite (sort_key dval ?wanted)" using ok by (simp add: list_all_iff)
  from levels_added [OF run start assms(3) sorted_values this, of "set ?wanted"]
  have L: "sorted_wrt (\<lambda>(c, _) (c', _). dval c < dval c') levels"
    "\<forall>(c, m)\<in>set levels. dval c = of_int (whole_cents_of start m) / 100 \<and> (dval m = 1 \<longrightarrow> c = start) \<and> m \<in> set ?wanted"
    "\<forall>m\<in>set ?wanted. \<exists>(c, m')\<in>set levels. dval m' \<le> dval m \<and> dval c = of_int (whole_cents_of start m) / 100 \<and> 1 / 100 \<le> dval c"
    by auto
  have same: "dval ` set ?wanted = dval ` set (setups_own # multiples)" "set ?wanted \<subseteq> set (setups_own # multiples)"
    using value_set_facts [of "multiples @ [setups_own]"] by auto
  have each: "0 < dval m \<and> (\<exists>(c, m')\<in>set levels. dval m' \<le> dval m \<and> dval c = of_int (whole_cents_of start m) / 100 \<and> 1 / 100 \<le> dval c)"
    if "m \<in> set (setups_own # multiples)" for m
  proof -
    have "dval m \<in> dval ` set ?wanted" using that same(1) by blast
    then obtain w where w: "w \<in> set ?wanted" "dval w = dval m" by auto
    from bspec [OF L(3) w(1)] bspec [OF ok w(1)] show ?thesis unfolding whole_cents_of_def w(2) by blast
  qed
  have "\<exists>m. (start, m) \<in> set levels \<and> dval m = 1"
  proof -
    from each [of setups_own] obtain c m where l: "(c, m) \<in> set levels" "dval m \<le> 1" "dval c = of_int (whole_cents_of start setups_own) / 100"
      by (auto simp: setups_own_def)
    have own: "whole_cents_of start setups_own = k" using start(2) by (simp add: whole_cents_of_def setups_own_def)
    have "\<not> dval m < 1"
    proof
      assume "dval m < 1"
      then have "dval m * (dval start * 100) < dval start * 100" using assms(3) by simp
      then have "whole_cents_of start m < k" using start(2) by (simp add: whole_cents_of_def floor_less_iff mult.assoc)
      then show False using L(2) l own by auto
    qed
    then show ?thesis using L(2) l by auto
  qed
  moreover have "is_finite m" if "m \<in> set multiples" for m
    using each [of m] that pos_finite by simp
  ultimately show ?thesis using L(1,2) each same(2) by (auto simp: whole_cents_of_def)
qed

lemma sample_levels:
  "ladder_levels (Finite 101 (- 2)) [Finite 2 0, Finite 5 (- 1)]
     = Inr [(Finite 50 (- 2), Finite 5 (- 1)), (Finite 101 (- 2), Finite 1 0), (Finite 202 (- 2), Finite 2 0)]"
proof -
  have halves: "\<lfloor>101 / 2 :: rat\<rfloor> = 50" by (simp add: floor_eq_iff)
  show ?thesis
    by (simp add: ladder_levels_def value_set_def setups_own_def one_cent_def is_finite_def powi_neg add_level_def level_cash_def
        down_to_the_cent_def exactR_def mul_x_def held_exactly_def ctx_exact_def strip_def trail.simps digits_def show_nat.simps
        exact_digits_def halves Let_def)
qed

theorem ladder_levels_exact_witness:
  "\<exists>levels. ladder_levels (Finite 101 (- 2)) [Finite 2 0, Finite 5 (- 1)] = Inr levels
    \<and> length levels = 3 \<and> sorted_wrt (\<lambda>(c, _) (c', _). dval c < dval c') levels
    \<and> (\<exists>m. (Finite 101 (- 2), m) \<in> set levels \<and> dval m = 1)"
proof -
  have "setup_figure 14 2 (Finite 101 (- 2))" "0 < dval (Finite 101 (- 2))"
    by (simp_all add: setup_figure_def strip_def trail.simps digits_def show_nat.simps)
  from ladder_levels_exact [OF sample_levels this] sample_levels show ?thesis by (simp add: setups_own_def)
qed

end
