(* ===== verification/Statistics.thy ===== *)
theory Statistics
  imports Run_Results
begin

text \<open>
  \<open>app/options_backtest/statistics.py\<close> and \<open>run_stamps.py\<close>: what an owner reads of a run. Sums are in the exact
  context of the fills; a \<open>Fraction\<close> is a rational, and \<open>round\<close> of one is to the nearest whole number, half to even
  (\<open>half_even_div\<close>). \<open>Run_Value_Error\<close> also stands for an assertion and for a division by zero. \<open>Ratio.exact\<close>, the
  quotient when it ends, is left out.
\<close>

subsection \<open>Ratios\<close>

record ratio =
  rt_numerator :: decimal
  rt_denominator :: decimal

definition make_ratio :: "decimal \<Rightarrow> decimal \<Rightarrow> (run_error, ratio) result" where
  "make_ratio n d = (if 0 < dval d then Inr \<lparr>rt_numerator = n, rt_denominator = d\<rparr> else Inl Run_Value_Error)"

definition round_half_even :: "rat \<Rightarrow> int" where
  "round_half_even q = half_even_div (fst (quotient_of q)) (snd (quotient_of q))"

definition rounded_to_6_places :: "ratio \<Rightarrow> (run_error, decimal) result" where
  "rounded_to_6_places r =
     exactR (held_exactly (Finite (round_half_even (dval (rt_numerator r) / dval (rt_denominator r) * 10 ^ 6)) (- 6)))"

definition percent_1_place :: "ratio \<Rightarrow> (run_error, decimal) result" where
  "percent_1_place r =
     exactR (held_exactly (Finite (round_half_even (dval (rt_numerator r) * 1000 / dval (rt_denominator r))) (- 1)))"

subsection \<open>Sums and counts\<close>

definition sum_x :: "decimal list \<Rightarrow> (run_error, decimal) result" where
  "sum_x amounts = foldR (\<lambda>total d. exactR (add_x total d)) (Finite 0 0) amounts"

definition counts :: "'a list \<Rightarrow> 'a list \<Rightarrow> ('a \<times> nat) list" where
  "counts members seen = map (\<lambda>m. (m, count_list seen m)) members"

definition pick_reason_of :: "timeline_event \<Rightarrow> (run_error, pick_refusal) result" where
  "pick_reason_of e = (case ev_reason e of Some (Told_Pick p) \<Rightarrow> Inr p | _ \<Rightarrow> Inl Run_Value_Error)"
definition refusal_reason_of :: "timeline_event \<Rightarrow> (run_error, entry_refusal) result" where
  "refusal_reason_of e = (case ev_reason e of Some (Told_Refusal r) \<Rightarrow> Inr r | _ \<Rightarrow> Inl Run_Value_Error)"

definition wins_losses_even :: "leg_trade list \<Rightarrow> nat \<times> nat \<times> nat" where
  "wins_losses_even trades =
     fold (\<lambda>tr (won, lost, even). if 0 < dval (lt_pnl tr) then (won + 1, lost, even)
        else if dval (lt_pnl tr) < 0 then (won, lost + 1, even) else (won, lost, even + 1)) trades (0, 0, 0)"

definition fill_slippage :: "fill \<Rightarrow> (run_error, decimal) result" where
  "fill_slippage f =
     bindR (exactR (sub_x (fl_filled f) (fl_seen f))) (\<lambda>gap.
     bindR (exactR (held_exactly (if dval gap < 0 then dneg gap else gap))) (\<lambda>size.
     bindR (exactR (mul_x size (whole (fl_multiplier f)))) (\<lambda>x. exactR (mul_x x (whole (fl_contracts f))))))"

definition slippage_paid :: "leg_trade \<Rightarrow> (run_error, decimal) result" where
  "slippage_paid tr =
     foldR (\<lambda>paid f. bindR (fill_slippage f) (\<lambda>x. exactR (add_x paid x))) (Finite 0 0)
       (lt_entry tr # (case lt_exit tr of Left_By_Fill f \<Rightarrow> [f] | Left_By_Mark _ \<Rightarrow> []))"

subsection \<open>Days, equity and drawdowns\<close>

record day_row =
  dr_open_ms :: int
  dr_status :: session_status
  dr_skip_reason :: "skip_reason option"
  dr_trades :: nat
  dr_net_profit :: decimal
  dr_fees :: decimal
  dr_won :: nat
  dr_lost :: nat
  dr_even :: nat

definition day_row_of :: "session_result \<Rightarrow> (run_error, day_row) result" where
  "day_row_of sx =
     (let trades = so_trades (sx_outcome sx); (won, lost, even) = wins_losses_even trades in
      bindR (sx_pnl sx) (\<lambda>pnl. bindR (sx_fees sx) (\<lambda>fees.
        Inr \<lparr>dr_open_ms = sx_open_ms sx, dr_status = sx_status sx, dr_skip_reason = so_skip_reason (sx_outcome sx),
             dr_trades = length trades, dr_net_profit = pnl, dr_fees = fees, dr_won = won, dr_lost = lost, dr_even = even\<rparr>)))"

record equity_point =
  ep_open_ms :: "int option"
  ep_equity :: decimal

definition equity_path :: "day_row list \<Rightarrow> decimal \<Rightarrow> (run_error, equity_point list) result" where
  "equity_path days starting_cash =
     bindR (foldR (\<lambda>(points, equity) day.
              bindR (sum_x [equity, dr_net_profit day]) (\<lambda>after.
                Inr (points @ [\<lparr>ep_open_ms = Some (dr_open_ms day), ep_equity = after\<rparr>], after)))
              ([\<lparr>ep_open_ms = None, ep_equity = starting_cash\<rparr>], starting_cash) days)
       (\<lambda>(points, _). Inr points)"

record drawdown =
  dd_peak_equity :: decimal
  dd_trough_equity :: decimal
  dd_fall :: decimal
  dd_fall_ratio :: ratio
  dd_peak_open_ms :: "int option"
  dd_trough_open_ms :: int

text \<open>A worst fall so far: its measure, and the places of its peak and its trough.\<close>

type_synonym worst = "rat \<times> nat \<times> nat"

definition worse :: "rat \<Rightarrow> nat \<Rightarrow> nat \<Rightarrow> worst option \<Rightarrow> worst option" where
  "worse m peak_at pos w =
     (case w of None \<Rightarrow> Some (m, peak_at, pos) | Some (m0, _) \<Rightarrow> if m0 < m then Some (m, peak_at, pos) else w)"

definition look_at_point ::
  "nat \<times> decimal \<times> worst option \<times> worst option \<Rightarrow> nat \<times> equity_point
    \<Rightarrow> (run_error, nat \<times> decimal \<times> worst option \<times> worst option) result" where
  "look_at_point = (\<lambda>(peak_at, peak, by_fraction, by_dollars) (pos, point).
     let after = ep_equity point in
     if dval peak < dval after then Inr (pos, after, by_fraction, by_dollars)
     else bindR (exactR (sub_x peak after)) (\<lambda>fall.
       if dval fall \<le> 0 then Inr (peak_at, peak, by_fraction, by_dollars)
       else if dval peak = 0 then Inl Run_Value_Error
       else Inr (peak_at, peak, worse (dval fall / dval peak) peak_at pos by_fraction,
                 worse (dval fall) peak_at pos by_dollars)))"

definition describe_fall :: "equity_point list \<Rightarrow> worst option \<Rightarrow> (run_error, drawdown option) result" where
  "describe_fall points w =
     (case w of
        None \<Rightarrow> Inr None
      | Some (_, peak_at, trough_at) \<Rightarrow>
          let peak = points ! peak_at; trough = points ! trough_at in
          case ep_open_ms trough of
            None \<Rightarrow> Inl Run_Value_Error
          | Some trough_open \<Rightarrow>
              bindR (exactR (sub_x (ep_equity peak) (ep_equity trough))) (\<lambda>fall.
              bindR (make_ratio fall (ep_equity peak)) (\<lambda>r.
                Inr (Some \<lparr>dd_peak_equity = ep_equity peak, dd_trough_equity = ep_equity trough, dd_fall = fall,
                  dd_fall_ratio = r, dd_peak_open_ms = ep_open_ms peak, dd_trough_open_ms = trough_open\<rparr>))))"

definition drawdowns :: "day_row list \<Rightarrow> decimal \<Rightarrow> (run_error, drawdown option \<times> drawdown option) result" where
  "drawdowns days starting_cash =
     bindR (equity_path days starting_cash) (\<lambda>points.
     bindR (foldR look_at_point (0, starting_cash, None, None) (enumerate 0 points)) (\<lambda>(_, _, by_fraction, by_dollars).
     bindR (describe_fall points by_fraction) (\<lambda>f.
     bindR (describe_fall points by_dollars) (\<lambda>d. Inr (f, d)))))"

subsection \<open>Months and the summary\<close>

record month_row =
  mo_year :: nat
  mo_month :: nat
  mo_sessions :: nat
  mo_sessions_traded :: nat
  mo_trades :: nat
  mo_net_profit :: decimal
  mo_fees :: decimal
  mo_won :: nat
  mo_lost :: nat
  mo_even :: nat
  mo_by_status :: "(session_status \<times> nat) list"

definition all_statuses :: "session_status list" where "all_statuses = [Traded, No_Trade, Skipped, Incomplete]"
definition all_skip_reasons :: "skip_reason list" where "all_skip_reasons = [Window_Does_Not_Fit, Underlying_Did_Not_Trade]"
definition all_exit_reasons :: "exit_reason list" where
  "all_exit_reasons = [Ex_Stop, Ex_Square_Off, Ex_Closed_With_Its_Protection, Ex_Exit_Time, Ex_Marked_Not_Sold, Ex_Marked_Not_Bought_Back]"
definition all_pick_refusals :: "pick_refusal list" where
  "all_pick_refusals = [Chain_Incomplete, Expiry_Not_Listed, Expiry_Not_A_Session, Strike_Not_Listed, Not_Standard]"
definition all_entry_refusals :: "entry_refusal list" where
  "all_entry_refusals = [Ref_Cash_Short, Ref_Other_Side, Ref_Second_Expiry, Ref_Cover_Did_Not_Trade, Ref_Cover_Not_Yet_Held, Ref_Sale_At_Zero]"

definition entry_refusals_by_reason :: "entry_refusal list" where
  "entry_refusals_by_reason = filter (\<lambda>r. r \<noteq> Ref_Cash_Short) all_entry_refusals"

definition entry_refusal_event_kinds :: "timeline_kind list" where
  "entry_refusal_event_kinds = remdups (map entry_refusal_event entry_refusals_by_reason)"

definition month_rows ::
  "(int \<Rightarrow> date) \<Rightarrow> session_result list \<Rightarrow> day_row list \<Rightarrow> (run_error, month_row list) result" where
  "month_rows et_date sessions days =
     (let months = fold (\<lambda>(sx, day) months. case sx_trading_date et_date sx of (y, m, _) \<Rightarrow>
            AList.map_default (y, m) [day] (\<lambda>rows. rows @ [day]) months) (zip sessions days) [] in
      if length sessions \<noteq> length days then Inl Run_Value_Error
      else traverseR (\<lambda>((y, m), rows).
        bindR (sum_x (map dr_net_profit rows)) (\<lambda>net. bindR (sum_x (map dr_fees rows)) (\<lambda>fees.
          Inr \<lparr>mo_year = y, mo_month = m, mo_sessions = length rows,
               mo_sessions_traded = length (filter (\<lambda>row. dr_trades row \<noteq> 0) rows), mo_trades = sum_list (map dr_trades rows),
               mo_net_profit = net, mo_fees = fees, mo_won = sum_list (map dr_won rows), mo_lost = sum_list (map dr_lost rows),
               mo_even = sum_list (map dr_even rows), mo_by_status = counts all_statuses (map dr_status rows)\<rparr>))) months)"

record run_stamps =
  rt_replay_rules_version :: nat
  rt_requirement_rule :: string
  rt_requirement_rule_read_at_ms :: int

definition current_stamps :: "(date \<Rightarrow> int) \<Rightarrow> run_stamps" where
  "current_stamps midnight = \<lparr>rt_replay_rules_version = 2, rt_requirement_rule = ''alpaca_covered_positions'',
     rt_requirement_rule_read_at_ms = midnight (2026, 10, 12)\<rparr>"

record run_summary =
  sm_sessions_tested :: nat
  sm_sessions_traded :: nat
  sm_sessions_no_trade :: nat
  sm_sessions_skipped :: nat
  sm_skipped_by_reason :: "(skip_reason \<times> nat) list"
  sm_sessions_incomplete :: nat
  sm_sessions_profitable :: nat
  sm_sessions_losing :: nat
  sm_sessions_break_even :: nat
  sm_daily_win_rate :: "ratio option"
  sm_trades :: nat
  sm_trades_won :: nat
  sm_trades_lost :: nat
  sm_trades_break_even :: nat
  sm_trade_win_rate :: "ratio option"
  sm_exits_by_reason :: "(exit_reason \<times> nat) list"
  sm_starting_cash :: decimal
  sm_net_profit :: decimal
  sm_gross_profit :: decimal
  sm_gross_loss :: decimal
  sm_profit_factor :: "ratio option"
  sm_total_fees :: decimal
  sm_slippage_paid :: decimal
  sm_ending_cash :: decimal
  sm_drawdown_by_fraction :: "drawdown option"
  sm_drawdown_by_dollars :: "drawdown option"
  sm_sessions_without_momentum :: nat
  sm_entries_refused_for_cash :: nat
  sm_re_entries_blocked_by_cutoff :: nat
  sm_entries_dropped :: nat
  sm_picks_refused_by_reason :: "(pick_refusal \<times> nat) list"
  sm_legs_without_a_starting_price :: nat
  sm_re_entries_lost :: nat
  sm_by_day :: "day_row list"
  sm_by_month :: "month_row list"
  sm_capital_evidence :: "capital_evidence option"
  sm_cash_ladder :: "cash_level list option"
  sm_stamps :: "run_stamps option"
  sm_entries_refused_by_reason :: "(entry_refusal \<times> nat) list option"

definition never_reached_its_momentum :: "session_result \<Rightarrow> bool" where
  "never_reached_its_momentum sx =
     (let kinds = map ev_kind (so_events (sx_outcome sx)) in Ev_Starting_Price_Taken \<in> set kinds \<and> Ev_Momentum_Hit \<notin> set kinds)"

definition ratio_of_counts :: "nat \<Rightarrow> nat \<Rightarrow> (run_error, ratio option) result" where
  "ratio_of_counts n d =
     (if d = 0 then Inr None else bindR (make_ratio (whole (int n)) (whole (int d))) (\<lambda>r. Inr (Some r)))"

definition how_many :: "('a \<Rightarrow> bool) \<Rightarrow> 'a list \<Rightarrow> nat" where "how_many P xs = length (filter P xs)"

definition summarize_run ::
  "(int \<Rightarrow> date) \<Rightarrow> session_result list \<Rightarrow> decimal \<Rightarrow> (run_error, run_summary) result" where
  "summarize_run et_date sessions starting_cash =
     (let traded = filter (\<lambda>sx. so_trades (sx_outcome sx) \<noteq> []) sessions;
          trades = concat (map (\<lambda>sx. so_trades (sx_outcome sx)) sessions);
          events = concat (map (\<lambda>sx. so_events (sx_outcome sx)) sessions);
          kinds = map ev_kind events;
          (won, lost, even) = wins_losses_even trades
      in
      bindR (sum_x (map lt_pnl (filter (\<lambda>tr. 0 < dval (lt_pnl tr)) trades))) (\<lambda>gross_profit.
      bindR (sum_x (map (\<lambda>tr. dneg (lt_pnl tr)) (filter (\<lambda>tr. dval (lt_pnl tr) < 0) trades))) (\<lambda>gross_loss.
      bindR (sum_x (map lt_pnl trades)) (\<lambda>net_profit.
      bindR (traverseR sx_pnl traded) (\<lambda>pnls.
      bindR (traverseR day_row_of sessions) (\<lambda>days.
      bindR (drawdowns days starting_cash) (\<lambda>(by_fraction, by_dollars).
      bindR (ratio_of_counts (how_many (\<lambda>p. 0 < dval p) pnls) (length traded)) (\<lambda>daily_win_rate.
      bindR (ratio_of_counts won (length trades)) (\<lambda>trade_win_rate.
      bindR (if 0 < dval gross_loss then bindR (make_ratio gross_profit gross_loss) (\<lambda>r. Inr (Some r)) else Inr None) (\<lambda>profit_factor.
      bindR (bindR (traverseR trade_fees trades) sum_x) (\<lambda>total_fees.
      bindR (bindR (traverseR slippage_paid trades) sum_x) (\<lambda>slipped.
      bindR (sum_x [starting_cash, net_profit]) (\<lambda>ending_cash.
      bindR (traverseR pick_reason_of (filter (\<lambda>e. ev_kind e = Ev_Pick_Refused) events)) (\<lambda>picks_refused.
      bindR (month_rows et_date sessions days) (\<lambda>by_month.
      bindR (traverseR refusal_reason_of (filter (\<lambda>e. ev_kind e \<in> set entry_refusal_event_kinds) events)) (\<lambda>refusals.
        Inr \<lparr>sm_sessions_tested = length sessions, sm_sessions_traded = length traded,
          sm_sessions_no_trade = how_many (\<lambda>sx. sx_status sx = No_Trade) sessions,
          sm_sessions_skipped = how_many (\<lambda>sx. sx_status sx = Skipped) sessions,
          sm_skipped_by_reason = counts all_skip_reasons (List.map_filter (\<lambda>sx. so_skip_reason (sx_outcome sx)) sessions),
          sm_sessions_incomplete = how_many (\<lambda>sx. sx_status sx = Incomplete) sessions,
          sm_sessions_profitable = how_many (\<lambda>p. 0 < dval p) pnls,
          sm_sessions_losing = how_many (\<lambda>p. dval p < 0) pnls,
          sm_sessions_break_even = how_many (\<lambda>p. dval p = 0) pnls,
          sm_daily_win_rate = daily_win_rate,
          sm_trades = length trades, sm_trades_won = won, sm_trades_lost = lost, sm_trades_break_even = even,
          sm_trade_win_rate = trade_win_rate,
          sm_exits_by_reason = counts all_exit_reasons (map lt_exit_reason trades),
          sm_starting_cash = starting_cash, sm_net_profit = net_profit, sm_gross_profit = gross_profit,
          sm_gross_loss = gross_loss, sm_profit_factor = profit_factor, sm_total_fees = total_fees,
          sm_slippage_paid = slipped, sm_ending_cash = ending_cash,
          sm_drawdown_by_fraction = by_fraction, sm_drawdown_by_dollars = by_dollars,
          sm_sessions_without_momentum = how_many never_reached_its_momentum sessions,
          sm_entries_refused_for_cash = count_list kinds Ev_Entry_Refused_For_Cash,
          sm_re_entries_blocked_by_cutoff = count_list kinds Ev_Re_Entry_Blocked_By_Cutoff,
          sm_entries_dropped = count_list kinds Ev_Entry_Dropped,
          sm_picks_refused_by_reason = counts all_pick_refusals picks_refused,
          sm_legs_without_a_starting_price = count_list kinds Ev_No_Starting_Price,
          sm_re_entries_lost = count_list kinds Ev_Re_Entry_Lost,
          sm_by_day = days, sm_by_month = by_month,
          sm_capital_evidence = None, sm_cash_ladder = None, sm_stamps = None,
          sm_entries_refused_by_reason = Some (counts entry_refusals_by_reason refusals)\<rparr>))))))))))))))))"

subsection \<open>The drawdowns are the worst falls\<close>

definition equity_after :: "decimal \<Rightarrow> day_row list \<Rightarrow> nat \<Rightarrow> rat" where
  "equity_after start days k = dval start + (\<Sum>d\<leftarrow>take k days. dval (dr_net_profit d))"

fun running_peak :: "decimal \<Rightarrow> day_row list \<Rightarrow> nat \<Rightarrow> rat" where
  "running_peak start days 0 = dval start"
| "running_peak start days (Suc k) = max (running_peak start days k) (equity_after start days (Suc k))"

definition fall_at :: "decimal \<Rightarrow> day_row list \<Rightarrow> nat \<Rightarrow> rat" where
  "fall_at start days k = running_peak start days k - equity_after start days k"

text \<open>
  The drawdown \<open>dd\<close> is the first of the largest falls of equity below its running peak, as \<open>gauge\<close> reads a fall and the
  peak it is below; there is none when equity never falls.
\<close>

definition worst_fall :: "(rat \<Rightarrow> rat \<Rightarrow> rat) \<Rightarrow> decimal \<Rightarrow> day_row list \<Rightarrow> drawdown option \<Rightarrow> bool" where
  "worst_fall gauge start days dd \<longleftrightarrow>
     (let read = (\<lambda>k. gauge (fall_at start days k) (running_peak start days k)) in
      case dd of
        None \<Rightarrow> (\<forall>k\<le>length days. fall_at start days k = 0)
      | Some w \<Rightarrow> (\<exists>j. 0 < j \<and> j \<le> length days
          \<and> dval (dd_peak_equity w) = running_peak start days j \<and> dval (dd_trough_equity w) = equity_after start days j
          \<and> dval (dd_fall w) = fall_at start days j \<and> 0 < dval (dd_fall w)
          \<and> dd_fall_ratio w = \<lparr>rt_numerator = dd_fall w, rt_denominator = dd_peak_equity w\<rparr>
          \<and> dd_trough_open_ms w = dr_open_ms (days ! (j - 1))
          \<and> (\<forall>k\<le>length days. read k \<le> read j) \<and> (\<forall>k<j. read k < read j)))"

lemma sum_x_Inr: "sum_x ds = Inr t \<Longrightarrow> list_all is_finite ds \<Longrightarrow> is_finite t \<and> dval t = (\<Sum>d\<leftarrow>ds. dval d)"
proof -
  have "is_finite t \<and> dval t = dval z + (\<Sum>d\<leftarrow>ds. dval d)"
    if "foldR (\<lambda>total d. exactR (add_x total d)) z ds = Inr t" "is_finite z" "list_all is_finite ds" for z
    using that
  proof (induction ds arbitrary: z)
    case (Cons d ds)
    then obtain y where y: "add_x z d = Inr y" "foldR (\<lambda>total d. exactR (add_x total d)) y ds = Inr t"
      by (auto simp: bindR_Inr_iff run_Inr)
    show ?case using Cons.IH [OF y(2)] add_x_Inr [OF y(1) Cons.prems(2)] Cons.prems(3) by simp
  qed simp
  from this [of "Finite 0 0"] show "sum_x ds = Inr t \<Longrightarrow> list_all is_finite ds \<Longrightarrow> ?thesis"
    by (simp add: sum_x_def is_finite_def)
qed

lemma equity_path_Inr:
  assumes "equity_path days start = Inr points" "is_finite start" "list_all (\<lambda>d. is_finite (dr_net_profit d)) days"
  shows "length points = Suc (length days)
    \<and> (\<forall>k\<le>length days. is_finite (ep_equity (points ! k)) \<and> dval (ep_equity (points ! k)) = equity_after start days k
        \<and> ep_open_ms (points ! k) = (if k = 0 then None else Some (dr_open_ms (days ! (k - 1)))))
    \<and> ep_equity (points ! 0) = start"
proof -
  let ?f = "\<lambda>(points, equity) day. bindR (sum_x [equity, dr_net_profit day]) (\<lambda>after.
      Inr (points @ [\<lparr>ep_open_ms = Some (dr_open_ms day), ep_equity = after\<rparr>], after))"
  have run: "\<exists>new. pts' = pts @ new \<and> length new = length ds
      \<and> (\<forall>k<length ds. is_finite (ep_equity (new ! k)) \<and> dval (ep_equity (new ! k)) = dval e + (\<Sum>d\<leftarrow>take (Suc k) ds. dval (dr_net_profit d))
          \<and> ep_open_ms (new ! k) = Some (dr_open_ms (ds ! k)))"
    if "foldR ?f (pts, e) ds = Inr (pts', e')" "is_finite e" "list_all (\<lambda>d. is_finite (dr_net_profit d)) ds" for pts e ds pts' e'
    using that
  proof (induction ds arbitrary: pts e)
    case (Cons d ds)
    then obtain y where y: "sum_x [e, dr_net_profit d] = Inr y"
      and rest: "foldR ?f (pts @ [\<lparr>ep_open_ms = Some (dr_open_ms d), ep_equity = y\<rparr>], y) ds = Inr (pts', e')"
      by (auto simp: bindR_Inr_iff)
    have y': "is_finite y" "dval y = dval e + dval (dr_net_profit d)" using sum_x_Inr [OF y] Cons.prems by simp_all
    from Cons.IH [OF rest y'(1)] Cons.prems(3) obtain new where
      new: "pts' = (pts @ [\<lparr>ep_open_ms = Some (dr_open_ms d), ep_equity = y\<rparr>]) @ new" "length new = length ds"
      "\<forall>k<length ds. is_finite (ep_equity (new ! k)) \<and> dval (ep_equity (new ! k)) = dval y + (\<Sum>d\<leftarrow>take (Suc k) ds. dval (dr_net_profit d))
          \<and> ep_open_ms (new ! k) = Some (dr_open_ms (ds ! k))" by auto
    show ?case
      by (intro exI [of _ "\<lparr>ep_open_ms = Some (dr_open_ms d), ep_equity = y\<rparr> # new"])
        (use new y' in \<open>auto simp: nth_Cons' gr0_conv_Suc less_Suc_eq_0_disj\<close>)
  qed simp
  obtain e' where f: "foldR ?f ([\<lparr>ep_open_ms = None, ep_equity = start\<rparr>], start) days = Inr (points, e')"
    using assms(1) by (auto simp: equity_path_def bindR_Inr_iff)
  from run [OF f assms(2,3)] obtain new where new: "points = \<lparr>ep_open_ms = None, ep_equity = start\<rparr> # new" "length new = length days"
    "\<forall>k<length days. is_finite (ep_equity (new ! k)) \<and> dval (ep_equity (new ! k)) = dval start + (\<Sum>d\<leftarrow>take (Suc k) days. dval (dr_net_profit d))
          \<and> ep_open_ms (new ! k) = Some (dr_open_ms (days ! k))" by auto
  have "is_finite (ep_equity (points ! k)) \<and> dval (ep_equity (points ! k)) = equity_after start days k
        \<and> ep_open_ms (points ! k) = (if k = 0 then None else Some (dr_open_ms (days ! (k - 1))))" if "k \<le> length days" for k
    using that new assms(2) by (cases k) (auto simp: equity_after_def)
  then show ?thesis using new(1,2) by simp
qed

text \<open>The largest measure among the first places, and the place it is at.\<close>

definition best :: "equity_point list \<Rightarrow> (nat \<Rightarrow> rat) \<Rightarrow> (nat \<Rightarrow> rat) \<Rightarrow> nat \<Rightarrow> worst option \<Rightarrow> bool" where
  "best points peak g k w \<longleftrightarrow>
     (case w of
        None \<Rightarrow> (\<forall>i<k. g i \<le> 0)
      | Some (m, p, j) \<Rightarrow> j < k \<and> m = g j \<and> 0 < m \<and> (\<forall>i<k. g i \<le> m) \<and> (\<forall>i<j. g i < m)
          \<and> is_finite (ep_equity (points ! p)) \<and> dval (ep_equity (points ! p)) = peak j)"

lemma best_kept: "best points peak g k w \<Longrightarrow> g k \<le> 0 \<Longrightarrow> best points peak g (Suc k) w"
  by (auto simp: best_def less_Suc_eq split: option.splits)

lemma best_worse:
  assumes "best points peak g k w" "0 < g k" "is_finite (ep_equity (points ! p))" "dval (ep_equity (points ! p)) = peak k"
  shows "best points peak g (Suc k) (worse (g k) p k w)"
proof (cases w)
  case None
  then show ?thesis using assms by (auto simp: best_def worse_def less_Suc_eq intro: order_trans le_less_trans)
next
  case (Some x)
  then show ?thesis using assms by (cases x) (auto simp: best_def worse_def less_Suc_eq intro: order_trans le_less_trans)
qed

definition loop_inv :: "equity_point list \<Rightarrow> decimal \<Rightarrow> day_row list \<Rightarrow> nat \<Rightarrow> nat \<times> decimal \<times> worst option \<times> worst option \<Rightarrow> bool" where
  "loop_inv points start days k = (\<lambda>(p, peak, by_fraction, by_dollars).
     ep_equity (points ! p) = peak \<and> is_finite peak \<and> dval peak = running_peak start days (k - 1) \<and> 0 < dval peak
     \<and> best points (running_peak start days) (\<lambda>i. fall_at start days i / running_peak start days i) k by_fraction
     \<and> best points (running_peak start days) (fall_at start days) k by_dollars)"

lemma running_peak_pos: "0 < dval start \<Longrightarrow> 0 < running_peak start days k"
  by (induction k) auto

lemma loop_step:
  assumes "look_at_point st (k, points ! k) = Inr st'" "loop_inv points start days k st" "0 < dval start"
    and point: "is_finite (ep_equity (points ! k))" "dval (ep_equity (points ! k)) = equity_after start days k"
  shows "loop_inv points start days (Suc k) st'"
proof -
  obtain p peak f d where st: "st = (p, peak, f, d)" by (cases st)
  have inv: "ep_equity (points ! p) = peak" "is_finite peak" "dval peak = running_peak start days (k - 1)" "0 < dval peak"
    and best: "best points (running_peak start days) (\<lambda>i. fall_at start days i / running_peak start days i) k f"
      "best points (running_peak start days) (fall_at start days) k d"
    using assms(2) by (auto simp: loop_inv_def st)
  have peak: "running_peak start days k = max (dval peak) (equity_after start days k)"
    using inv(3) by (cases k) (auto simp: equity_after_def)
  have pos: "0 < running_peak start days k" by (rule running_peak_pos [OF assms(3)])
  show ?thesis
  proof (cases "dval peak < equity_after start days k")
    case True
    then have "st' = (k, ep_equity (points ! k), f, d)" using assms(1) point(2) by (simp add: look_at_point_def st Let_def)
    moreover have "fall_at start days k = 0" using True peak by (simp add: fall_at_def)
    ultimately show ?thesis using best_kept [OF best(1)] best_kept [OF best(2)] point True peak pos by (simp add: loop_inv_def)
  next
    case False
    then obtain fall where sub: "sub_x peak (ep_equity (points ! k)) = Inr fall"
      and st': "st' = (if dval fall \<le> 0 then (p, peak, f, d)
        else (p, peak, worse (dval fall / dval peak) p k f, worse (dval fall) p k d))"
      using assms(1) point(2) inv(4) by (auto simp: look_at_point_def st Let_def bindR_Inr_iff run_Inr split: if_splits)
    have fall: "dval fall = fall_at start days k" "running_peak start days k = dval peak"
      using exact_values(3) [OF sub inv(2) point(1)] point(2) False peak by (simp_all add: fall_at_def)
    show ?thesis
    proof (cases "dval fall \<le> 0")
      case True
      then have "fall_at start days k / running_peak start days k \<le> 0" using fall pos by (simp add: divide_le_0_iff)
      then show ?thesis using best_kept [OF best(1)] best_kept [OF best(2)] True st' fall inv by (simp add: loop_inv_def)
    next
      case lower: False
      have at_peak: "is_finite (ep_equity (points ! p))" "dval (ep_equity (points ! p)) = running_peak start days k"
        using inv fall by simp_all
      have "0 < fall_at start days k" "0 < fall_at start days k / running_peak start days k" using lower fall pos by simp_all
      then show ?thesis using best_worse [OF best(1) _ at_peak] best_worse [OF best(2) _ at_peak] lower st' fall inv
        by (simp add: loop_inv_def)
    qed
  qed
qed

lemma loop_runs:
  assumes "foldR look_at_point st (enumerate k (drop k points)) = Inr st'" "loop_inv points start days k st" "0 < dval start" "k \<le> length points"
    and "\<forall>i<length points. is_finite (ep_equity (points ! i)) \<and> dval (ep_equity (points ! i)) = equity_after start days i"
  shows "loop_inv points start days (length points) st'"
  using assms(1,2,4)
proof (induction "length points - k" arbitrary: k st)
  case (Suc n)
  then have k: "k < length points" by simp
  then have "drop k points = points ! k # drop (Suc k) points" by (simp add: Cons_nth_drop_Suc)
  then obtain st1 where st1: "look_at_point st (k, points ! k) = Inr st1"
    and rest: "foldR look_at_point st1 (enumerate (Suc k) (drop (Suc k) points)) = Inr st'"
    using Suc.prems(1) by (auto simp: bindR_Inr_iff)
  have "n = length points - Suc k" using Suc.hyps(2) by simp
  from Suc.hyps(1) [OF this rest] loop_step [OF st1 Suc.prems(2) assms(3)] assms(5) k show ?case by simp
qed simp

lemma describe_worst:
  assumes "describe_fall points w = Inr dd" "best points (running_peak start days) (\<lambda>k. gauge (fall_at start days k) (running_peak start days k)) (length points) w"
    and "length points = Suc (length days)"
    and points: "\<forall>k\<le>length days. is_finite (ep_equity (points ! k)) \<and> dval (ep_equity (points ! k)) = equity_after start days k
        \<and> ep_open_ms (points ! k) = (if k = 0 then None else Some (dr_open_ms (days ! (k - 1))))"
    and gauge: "\<And>k. gauge (fall_at start days k) (running_peak start days k) \<le> 0 \<longleftrightarrow> fall_at start days k \<le> 0"
  shows "worst_fall gauge start days dd"
proof -
  have never: "0 \<le> fall_at start days k" for k by (cases k) (auto simp: fall_at_def equity_after_def)
  show ?thesis
  proof (cases w)
    case None
    then have "fall_at start days k = 0" if "k \<le> length days" for k
      using that assms(2,3) gauge [of k] never [of k] by (auto simp: best_def less_Suc_eq_le)
    then show ?thesis using None assms(1) by (simp add: worst_fall_def describe_fall_def)
  next
    case (Some x)
    obtain m p j where x: "x = (m, p, j)" by (cases x)
    have b: "j \<le> length days" "0 < m" "m = gauge (fall_at start days j) (running_peak start days j)"
      "\<forall>i\<le>length days. gauge (fall_at start days i) (running_peak start days i) \<le> m"
      "\<forall>i<j. gauge (fall_at start days i) (running_peak start days i) < m"
      "is_finite (ep_equity (points ! p))" "dval (ep_equity (points ! p)) = running_peak start days j"
      using assms(2,3) Some x by (auto simp: best_def less_Suc_eq_le)
    have pos: "0 < fall_at start days j" using b(2,3) gauge [of j] by (simp add: not_le [symmetric])
    have "j \<noteq> 0" using pos by (cases j) (auto simp: fall_at_def equity_after_def)
    then have opened: "ep_open_ms (points ! j) = Some (dr_open_ms (days ! (j - 1)))" using points b(1) by simp
    obtain fall r where sub: "sub_x (ep_equity (points ! p)) (ep_equity (points ! j)) = Inr fall"
      and r: "make_ratio fall (ep_equity (points ! p)) = Inr r"
      and dd: "dd = Some \<lparr>dd_peak_equity = ep_equity (points ! p), dd_trough_equity = ep_equity (points ! j), dd_fall = fall,
                  dd_fall_ratio = r, dd_peak_open_ms = ep_open_ms (points ! p), dd_trough_open_ms = dr_open_ms (days ! (j - 1))\<rparr>"
      using assms(1) Some x opened by (auto simp: describe_fall_def Let_def bindR_Inr_iff run_Inr)
    have trough: "is_finite (ep_equity (points ! j))" "dval (ep_equity (points ! j)) = equity_after start days j"
      using points b(1) by auto
    have fall: "dval fall = fall_at start days j"
      using exact_values(3) [OF sub b(6) trough(1)] trough(2) b(7) by (simp add: fall_at_def)
    have "r = \<lparr>rt_numerator = fall, rt_denominator = ep_equity (points ! p)\<rparr>" using r by (simp add: make_ratio_def split: if_splits)
    then show ?thesis using b fall trough pos \<open>j \<noteq> 0\<close> by (auto simp: worst_fall_def dd intro!: exI [of _ j])
  qed
qed

text \<open>
  C15: the two drawdowns a run reports are the worst falls of its session-end equity. Each is the first of the largest
  falls below the running peak, whose start is the starting cash, one as a fraction of that peak and one in dollars, with
  the peak, the trough, the fall and the session of the trough as they are; and none is reported exactly when equity is
  never below an earlier peak.
\<close>

theorem drawdowns_exact:
  assumes "drawdowns days start = Inr (by_fraction, by_dollars)" "is_finite start" "0 < dval start"
    and "list_all (\<lambda>d. is_finite (dr_net_profit d)) days"
  shows "worst_fall (\<lambda>fall peak. fall / peak) start days by_fraction \<and> worst_fall (\<lambda>fall peak. fall) start days by_dollars"
proof -
  obtain points st f d where path: "equity_path days start = Inr points"
    and loop: "foldR look_at_point (0, start, None, None) (enumerate 0 points) = Inr st" "\<exists>p peak. st = (p, peak, f, d)"
    and told: "describe_fall points f = Inr by_fraction" "describe_fall points d = Inr by_dollars"
    using assms(1) by (auto simp: drawdowns_def bindR_Inr_iff)
  note P = equity_path_Inr [OF path assms(2,4)]
  have "loop_inv points start days 0 (0, start, None, None)"
    using P assms(2,3) by (simp add: loop_inv_def best_def)
  with loop_runs [of "(0, start, None, None)" 0 points st start days] loop(1) assms(3) P
  have "loop_inv points start days (length points) st" by (simp add: less_Suc_eq_le)
  then have best: "best points (running_peak start days) (\<lambda>i. fall_at start days i / running_peak start days i) (length points) f"
    "best points (running_peak start days) (fall_at start days) (length points) d"
    using loop(2) by (auto simp: loop_inv_def)
  have sign: "fall_at start days k / running_peak start days k \<le> 0 \<longleftrightarrow> fall_at start days k \<le> 0" for k
    using running_peak_pos [OF assms(3), of days k] by (simp add: divide_le_0_iff)
  show ?thesis
    using describe_worst [OF told(1), where gauge = "\<lambda>fall peak. fall / peak"] describe_worst [OF told(2), where gauge = "\<lambda>fall peak. fall"]
      best sign P by blast
qed

definition sample_row :: "int \<Rightarrow> int \<Rightarrow> day_row" where
  "sample_row t profit = \<lparr>dr_open_ms = t, dr_status = Traded, dr_skip_reason = None, dr_trades = 1,
     dr_net_profit = Finite profit 0, dr_fees = Finite 0 0, dr_won = 0, dr_lost = 0, dr_even = 0\<rparr>"

definition sample_rows :: "day_row list" where
  "sample_rows = [sample_row 1 2, sample_row 2 (- 3), sample_row 3 1, sample_row 4 (- 4)]"

lemma sample_drawdowns:
  "(case drawdowns sample_rows (Finite 10 0) of
      Inr (Some f, Some d) \<Rightarrow> dd_fall d = Finite 6 0 \<and> dd_trough_open_ms d = 4 \<and> dd_peak_open_ms d = Some 1
    | _ \<Rightarrow> False)"
  by code_simp

theorem drawdowns_exact_witness:
  "\<exists>f d. drawdowns sample_rows (Finite 10 0) = Inr (Some f, Some d) \<and> dd_fall d = Finite 6 0
     \<and> worst_fall (\<lambda>fall peak. fall / peak) (Finite 10 0) sample_rows (Some f)
     \<and> worst_fall (\<lambda>fall peak. fall) (Finite 10 0) sample_rows (Some d)"
proof -
  obtain f d where dd: "drawdowns sample_rows (Finite 10 0) = Inr (Some f, Some d)" "dd_fall d = Finite 6 0"
    using sample_drawdowns by (auto split: sum.splits prod.splits option.splits)
  have "is_finite (Finite 10 0)" "0 < dval (Finite 10 0)" "list_all (\<lambda>d. is_finite (dr_net_profit d)) sample_rows"
    by (simp_all add: is_finite_def sample_rows_def sample_row_def)
  from drawdowns_exact [OF dd(1) this] dd show ?thesis by blast
qed

subsection \<open>The figures add up\<close>

text \<open>A session as a replay leaves it: its trades have figures, and its status says whether there are any.\<close>

definition sound_session :: "session_result \<Rightarrow> bool" where
  "sound_session sx \<longleftrightarrow> list_all sound_trade (so_trades (sx_outcome sx))
     \<and> (so_trades (sx_outcome sx) \<noteq> [] \<longleftrightarrow> sx_status sx = Traded \<or> sx_status sx = Incomplete)"

lemma wins_losses_even_counts:
  "wins_losses_even trades = (w, l, e) \<Longrightarrow>
     w = how_many (\<lambda>tr. 0 < dval (lt_pnl tr)) trades \<and> l = how_many (\<lambda>tr. dval (lt_pnl tr) < 0) trades
     \<and> e = how_many (\<lambda>tr. dval (lt_pnl tr) = 0) trades"
proof -
  let ?f = "\<lambda>tr (won, lost, even). if 0 < dval (lt_pnl tr) then (won + 1, lost, even)
        else if dval (lt_pnl tr) < 0 then (won, lost + 1, even) else (won, lost, even + (1::nat))"
  have "fold ?f trades (a, b, c) = (a + how_many (\<lambda>tr. 0 < dval (lt_pnl tr)) trades,
      b + how_many (\<lambda>tr. dval (lt_pnl tr) < 0) trades, c + how_many (\<lambda>tr. dval (lt_pnl tr) = 0) trades)" for a b c :: nat
    by (induction trades arbitrary: a b c) (auto simp: how_many_def)
  from this [of 0 0 0] show "wins_losses_even trades = (w, l, e) \<Longrightarrow> ?thesis" by (simp add: wins_losses_even_def)
qed

lemma three_ways:
  fixes f :: "'a \<Rightarrow> rat"
  shows "length xs = how_many (\<lambda>x. 0 < f x) xs + how_many (\<lambda>x. f x < 0) xs + how_many (\<lambda>x. f x = 0) xs"
  by (induction xs) (auto simp: how_many_def)

lemma traverse_length: "traverseR f xs = Inr ys \<Longrightarrow> length ys = length xs"
  by (induction xs arbitrary: ys) (auto simp: bindR_Inr_iff)

lemma profit_and_loss:
  fixes f :: "'a \<Rightarrow> rat"
  shows "(\<Sum>x\<leftarrow>xs. f x) = (\<Sum>x\<leftarrow>filter (\<lambda>x. 0 < f x) xs. f x) - (\<Sum>x\<leftarrow>filter (\<lambda>x. f x < 0) xs. - f x)
    \<and> 0 \<le> (\<Sum>x\<leftarrow>filter (\<lambda>x. 0 < f x) xs. f x) \<and> 0 \<le> (\<Sum>x\<leftarrow>filter (\<lambda>x. f x < 0) xs. - f x)"
  by (induction xs) auto

lemma sum_over_sessions:
  fixes f :: "'b \<Rightarrow> rat"
  shows "(\<Sum>x\<leftarrow>concat (map g ss). f x) = (\<Sum>s\<leftarrow>ss. \<Sum>x\<leftarrow>g s. f x)"
  by (induction ss) simp_all

lemma day_profits:
  assumes "traverseR day_row_of sessions = Inr days" "list_all sound_session sessions"
  shows "list_all (\<lambda>d. is_finite (dr_net_profit d)) days
    \<and> map (\<lambda>d. dval (dr_net_profit d)) days = map (\<lambda>sx. \<Sum>tr\<leftarrow>so_trades (sx_outcome sx). dval (lt_pnl tr)) sessions
    \<and> map dr_open_ms days = map sx_open_ms sessions"
  using assms
proof (induction sessions arbitrary: days)
  case (Cons sx sessions)
  then obtain day rest where d: "day_row_of sx = Inr day" "traverseR day_row_of sessions = Inr rest" "days = day # rest"
    by (auto simp: bindR_Inr_iff)
  obtain p where p: "pnl_usd (sx_outcome sx) = Inr p" "dr_net_profit day = p" "dr_open_ms day = sx_open_ms sx"
    using d(1) by (auto simp: day_row_of_def Let_def bindR_Inr_iff sx_pnl_def run_Inr case_prod_unfold)
  have sound: "list_all sound_trade (so_trades (sx_outcome sx))" using Cons.prems(2) by (simp add: sound_session_def)
  have "is_finite p" using sum_add_x [OF p(1) [unfolded pnl_usd_def]] sound
    by (auto simp: is_finite_def list_all_iff sound_trade_def split: decimal.splits)
  with Cons.IH [OF d(2)] Cons.prems(2) p pnl_usd_sum [OF p(1) sound] d(3) show ?case by simp
qed simp

text \<open>
  C27: the figures of a summary add up. Every session tested is traded, without a trade or skipped; a traded one is
  profitable, losing or even, and a trade is won, lost or even. The net profit is the gross profit less the gross loss,
  neither below zero, and is the sum of the days' profits; the ending cash is the starting cash with it, which is the
  equity the last session ends at.
\<close>

theorem summary_adds_up:
  assumes "summarize_run et_date sessions start = Inr s" "is_finite start" "list_all sound_session sessions"
  shows "sm_sessions_tested s = sm_sessions_traded s + sm_sessions_no_trade s + sm_sessions_skipped s
    \<and> sm_sessions_traded s = sm_sessions_profitable s + sm_sessions_losing s + sm_sessions_break_even s
    \<and> sm_trades s = sm_trades_won s + sm_trades_lost s + sm_trades_break_even s
    \<and> dval (sm_net_profit s) = dval (sm_gross_profit s) - dval (sm_gross_loss s)
    \<and> 0 \<le> dval (sm_gross_profit s) \<and> 0 \<le> dval (sm_gross_loss s)
    \<and> dval (sm_net_profit s) = (\<Sum>d\<leftarrow>sm_by_day s. dval (dr_net_profit d))
    \<and> dval (sm_ending_cash s) = dval start + dval (sm_net_profit s)
    \<and> dval (sm_ending_cash s) = equity_after start (sm_by_day s) (length (sm_by_day s))"
proof -
  let ?traded = "filter (\<lambda>sx. so_trades (sx_outcome sx) \<noteq> []) sessions"
  let ?trades = "concat (map (\<lambda>sx. so_trades (sx_outcome sx)) sessions)"
  obtain won lost evens where w: "wins_losses_even ?trades = (won, lost, evens)" by (cases "wins_losses_even ?trades")
  obtain profit loss net pnls days ending where
    sums: "sum_x (map lt_pnl (filter (\<lambda>tr. 0 < dval (lt_pnl tr)) ?trades)) = Inr profit"
      "sum_x (map (\<lambda>tr. dneg (lt_pnl tr)) (filter (\<lambda>tr. dval (lt_pnl tr) < 0) ?trades)) = Inr loss"
      "sum_x (map lt_pnl ?trades) = Inr net" "sum_x [start, net] = Inr ending"
    and pnls: "traverseR sx_pnl ?traded = Inr pnls" and days: "traverseR day_row_of sessions = Inr days"
    and s: "sm_sessions_tested s = length sessions" "sm_sessions_traded s = length ?traded"
      "sm_sessions_no_trade s = how_many (\<lambda>sx. sx_status sx = No_Trade) sessions"
      "sm_sessions_skipped s = how_many (\<lambda>sx. sx_status sx = Skipped) sessions"
      "sm_sessions_profitable s = how_many (\<lambda>p. 0 < dval p) pnls" "sm_sessions_losing s = how_many (\<lambda>p. dval p < 0) pnls"
      "sm_sessions_break_even s = how_many (\<lambda>p. dval p = 0) pnls" "sm_trades s = length ?trades" "sm_trades_won s = won"
      "sm_trades_lost s = lost" "sm_trades_break_even s = evens" "sm_net_profit s = net" "sm_gross_profit s = profit"
      "sm_gross_loss s = loss" "sm_ending_cash s = ending" "sm_by_day s = days"
    using assms(1) w by (auto simp: summarize_run_def Let_def bindR_Inr_iff)
  have sound: "list_all sound_trade ?trades" using assms(3) by (auto simp: list_all_iff sound_session_def)
  have negated: "dval (dneg d) = - dval d" for d by (cases d) (simp_all add: dneg_def)
  from sound have fin: "list_all is_finite (map lt_pnl (filter P ?trades))" "list_all is_finite (map (\<lambda>tr. dneg (lt_pnl tr)) (filter P ?trades))"
    "list_all is_finite (map lt_pnl ?trades)" for P by (auto simp: list_all_iff sound_trade_def)
  note figures = sum_x_Inr [OF sums(1) fin(1)] sum_x_Inr [OF sums(2) fin(2)] sum_x_Inr [OF sums(3) fin(3)]
  have ending: "dval ending = dval start + dval net" using sum_x_Inr [OF sums(4)] figures(3) assms(2) by simp
  note D = day_profits [OF days assms(3)]
  have by_day: "dval net = (\<Sum>d\<leftarrow>days. dval (dr_net_profit d))"
    using figures(3) D sum_over_sessions [of "\<lambda>tr. dval (lt_pnl tr)" "\<lambda>sx. so_trades (sx_outcome sx)" sessions]
    by (simp add: comp_def)
  have "length sessions = length ?traded + how_many (\<lambda>sx. sx_status sx = No_Trade) sessions + how_many (\<lambda>sx. sx_status sx = Skipped) sessions"
    using assms(3)
  proof (induction sessions)
    case (Cons sx sessions)
    then show ?case by (cases "sx_status sx") (auto simp: how_many_def sound_session_def)
  qed (simp add: how_many_def)
  moreover have "length ?traded = how_many (\<lambda>p. 0 < dval p) pnls + how_many (\<lambda>p. dval p < 0) pnls + how_many (\<lambda>p. dval p = 0) pnls"
    using three_ways [of pnls dval] traverse_length [OF pnls] by simp
  moreover have "length ?trades = won + lost + evens"
    using three_ways [of ?trades "\<lambda>tr. dval (lt_pnl tr)"] wins_losses_even_counts [OF w] by simp
  ultimately show ?thesis
    using figures profit_and_loss [of "\<lambda>tr. dval (lt_pnl tr)" ?trades] ending by_day
    by (simp add: s equity_after_def comp_def negated)
qed

definition sample_fill :: "leg_side \<Rightarrow> decimal \<Rightarrow> fill" where
  "sample_fill side price =
     \<lparr>fl_leg_id = ''a'', fl_contract = book_call 475000, fl_side = side, fl_contracts = 1, fl_multiplier = 1,
      fl_bar_close_ms = 1, fl_seen = price, fl_filled = price\<rparr>"

definition sample_trade :: "int \<Rightarrow> int \<Rightarrow> leg_trade" where
  "sample_trade paid got =
     \<lparr>lt_leg_id = ''a'', lt_entry_number = 0, lt_contract = book_call 475000, lt_contracts = 1, lt_multiplier = 1,
      lt_starting_price = None, lt_momentum_level = None, lt_stop_level = None, lt_entry_decided_at_ms = 1,
      lt_entry = sample_fill Buy (Finite paid 0), lt_exit_reason = Ex_Exit_Time, lt_exit_group = 1, lt_exit_decided_at_ms = 2,
      lt_exit = Left_By_Fill (sample_fill Sell (Finite got 0)), lt_entry_fee = Finite 0 0, lt_exit_fee = Finite 0 0,
      lt_pnl = Finite (got - paid) 0\<rparr>"

definition sample_session :: "int \<Rightarrow> session_outcome \<Rightarrow> session_result" where
  "sample_session t so = \<lparr>sx_open_ms = t, sx_close_ms = t + 1, sx_cash_before = Finite 10 0, sx_outcome = so,
     sx_cash_after = Finite 10 0, sx_pins = \<lparr>pn_underlying_sha256 = None, pn_listing_sha256 = None, pn_option_days = []\<rparr>\<rparr>"

definition sample_sessions :: "session_result list" where
  "sample_sessions = [sample_session 1 (skipped_outcome Underlying_Did_Not_Trade),
     sample_session 3 \<lparr>so_status = Traded, so_skip_reason = None, so_trades = [sample_trade 2 5, sample_trade 3 2],
       so_events = [], so_cash_change = Finite 2 0, so_money_steps = []\<rparr>]"

lemma sample_summary:
  "(case summarize_run (\<lambda>_. (2024, 1, 19)) sample_sessions (Finite 10 0) of
      Inr s \<Rightarrow> sm_net_profit s = Finite 2 0 \<and> sm_sessions_tested s = 2 \<and> sm_trades_won s = 1 | Inl _ \<Rightarrow> False)"
  by code_simp

theorem summary_adds_up_witness:
  "\<exists>s. summarize_run (\<lambda>_. (2024, 1, 19)) sample_sessions (Finite 10 0) = Inr s \<and> sm_sessions_tested s = 2
     \<and> sm_sessions_tested s = sm_sessions_traded s + sm_sessions_no_trade s + sm_sessions_skipped s
     \<and> dval (sm_net_profit s) = dval (sm_gross_profit s) - dval (sm_gross_loss s)
     \<and> dval (sm_ending_cash s) = 12"
proof -
  obtain s where s: "summarize_run (\<lambda>_. (2024, 1, 19)) sample_sessions (Finite 10 0) = Inr s" "sm_net_profit s = Finite 2 0"
    "sm_sessions_tested s = 2" using sample_summary by (auto split: sum.splits)
  have "is_finite (Finite 10 0)" "list_all sound_session sample_sessions"
    by (simp_all add: is_finite_def sample_sessions_def sample_session_def sound_session_def skipped_outcome_def sx_status_def
        sample_trade_def sound_trade_def marked_def)
  from summary_adds_up [OF s(1) this] s show ?thesis by auto
qed

end
