(* ===== verification/Run.thy ===== *)
theory Run
  imports Statistics
begin

text \<open>
  \<open>app/options_backtest/run.py\<close>: a setup replayed over many sessions, carrying cash from one to the next, at each
  slippage and each starting cash of its ladders.

  \<open>surrounded\<close> is what a run is given beside its setup and its data: the calendar and its windows, New York time, the
  digest of an execution outcome, and what would be answered in the place of a market that raises. The answer to the
  k-th \<open>should_stop()\<close> is \<open>should_stop k\<close>; \<open>on_session\<close> is told and answers nothing, so it is left out. The dictionaries
  of chains are association lists in the order of the plan, whose figures are distinct.
\<close>

subsection \<open>What can go wrong\<close>

datatype run_failure =
    Run_Refused run_error
  | Run_Fees fee_error
  | Run_Needs pick_error
  | Run_Market market_error
  | Session_Data_Missing date bool bool "option_contract list"
  | Run_Was_Stopped nat

definition runR :: "(run_error, 'a) result \<Rightarrow> (run_failure, 'a) result" where
  "runR m = (case m of Inl e \<Rightarrow> Inl (Run_Refused e) | Inr x \<Rightarrow> Inr x)"
definition feesR :: "(fee_error, 'a) result \<Rightarrow> (run_failure, 'a) result" where
  "feesR m = (case m of Inl e \<Rightarrow> Inl (Run_Fees e) | Inr x \<Rightarrow> Inr x)"
definition needsR :: "(pick_error, 'a) result \<Rightarrow> (run_failure, 'a) result" where
  "needsR m = (case m of Inl e \<Rightarrow> Inl (Run_Needs e) | Inr x \<Rightarrow> Inr x)"
definition marketR :: "(market_error, 'a) result \<Rightarrow> (run_failure, 'a) result" where
  "marketR m = (case m of Inl e \<Rightarrow> Inl (Run_Market e) | Inr x \<Rightarrow> Inr x)"
definition refused :: "(run_failure, 'a) result" where "refused = Inl (Run_Refused Run_Value_Error)"

lemma failure_Inr [result_simps]:
  "runR m = Inr x \<longleftrightarrow> m = Inr x" "feesR m1 = Inr x1 \<longleftrightarrow> m1 = Inr x1" "needsR m2 = Inr x2 \<longleftrightarrow> m2 = Inr x2"
  "marketR m3 = Inr x3 \<longleftrightarrow> m3 = Inr x3" "refused \<noteq> Inr y"
  by (auto simp: runR_def feesR_def needsR_def marketR_def refused_def split: sum.splits)

record surrounded =
  re_window :: "date \<Rightarrow> int \<times> int"
  re_calendar :: calendar
  re_anchor :: "date \<Rightarrow> int"
  re_midnight :: "date \<Rightarrow> int"
  re_et_date :: "int \<Rightarrow> date"
  re_words :: "pick_refusal \<Rightarrow> string"
  re_digest :: "execution_outcome \<Rightarrow> string"
  re_unanswered :: unanswered

subsection \<open>The slippage a result survives\<close>

record slippage_point =
  sp_slippage :: decimal
  sp_is_setups_own :: bool
  sp_net_profit :: decimal
  sp_trades :: nat
  sp_traded_sessions :: nat
  sp_winning_sessions :: nat

record slippage_tolerance =
  to_highest_profitable :: "decimal option"
  to_first_unprofitable :: "decimal option"
  to_nothing_traded :: bool

definition default_slippage_ladder :: "decimal list" where
  "default_slippage_ladder =
     [Finite 0 0, Finite 1 (- 1), Finite 2 (- 1), Finite 3 (- 1), Finite 5 (- 1), Finite 75 (- 2), Finite 1 0,
      Finite 15 (- 1), Finite 2 0, Finite 3 0, Finite 5 0]"

fun walk_up :: "decimal option \<Rightarrow> slippage_point list \<Rightarrow> slippage_tolerance" where
  "walk_up highest [] = \<lparr>to_highest_profitable = highest, to_first_unprofitable = None, to_nothing_traded = False\<rparr>"
| "walk_up highest (p # ps) =
     (if dval (sp_net_profit p) \<le> 0
      then \<lparr>to_highest_profitable = highest, to_first_unprofitable = Some (sp_slippage p), to_nothing_traded = False\<rparr>
      else walk_up (Some (sp_slippage p)) ps)"

definition tolerance_of :: "slippage_point list \<Rightarrow> slippage_tolerance" where
  "tolerance_of points =
     (if list_all (\<lambda>p. sp_trades p = 0) points
      then \<lparr>to_highest_profitable = None, to_first_unprofitable = None, to_nothing_traded = True\<rparr>
      else walk_up None (sort_key (\<lambda>p. dval (sp_slippage p)) points))"

subsection \<open>One chain so far\<close>

record carried =
  ca_setup :: backtest_setup
  ca_cash :: decimal
  ca_net_profit :: decimal
  ca_trades :: nat
  ca_traded_sessions :: nat
  ca_winning_sessions :: nat

definition new_carried :: "backtest_setup \<Rightarrow> decimal \<Rightarrow> carried" where
  "new_carried su cash = \<lparr>ca_setup = su, ca_cash = cash, ca_net_profit = Finite 0 0, ca_trades = 0, ca_traded_sessions = 0,
     ca_winning_sessions = 0\<rparr>"

definition take_outcome :: "session_outcome \<Rightarrow> carried \<Rightarrow> (run_error, carried) result" where
  "take_outcome so ca =
     bindR (replayR (pnl_usd so)) (\<lambda>pnl.
     bindR (exactR (add_x (ca_cash ca) (so_cash_change so))) (\<lambda>moved.
     bindR (replayR (marked_value_usd so)) (\<lambda>marks.
     bindR (exactR (add_x moved marks)) (\<lambda>cash.
     bindR (exactR (add_x (ca_net_profit ca) pnl)) (\<lambda>net.
       let traded = so_trades so \<noteq> [] in
       Inr (ca\<lparr>ca_cash := cash, ca_net_profit := net, ca_trades := ca_trades ca + length (so_trades so),
         ca_traded_sessions := ca_traded_sessions ca + of_bool traded,
         ca_winning_sessions := ca_winning_sessions ca + of_bool (traded \<and> 0 < dval pnl)\<rparr>))))))"

record level_so_far =
  lv_multiple :: decimal
  lv_starting_cash :: decimal
  lv_is_setups_own :: bool
  lv_carried :: carried
  lv_sessions :: "capital_session list"

definition level_take :: "int \<Rightarrow> session_outcome \<Rightarrow> level_so_far \<Rightarrow> (run_error, level_so_far) result" where
  "level_take session_open so lv =
     bindR (take_outcome so (lv_carried lv)) (\<lambda>ca.
     bindR (of_outcome session_open so) (\<lambda>cs.
       Inr (lv\<lparr>lv_carried := ca, lv_sessions := lv_sessions lv @ [cs]\<rparr>)))"

definition level_result :: "level_so_far \<Rightarrow> (run_error, cash_level) result" where
  "level_result lv =
     bindR (evidence_of (lv_sessions lv) (lv_starting_cash lv)) (\<lambda>evidence.
       Inr \<lparr>cl_multiple = lv_multiple lv, cl_starting_cash = lv_starting_cash lv, cl_is_setups_own = lv_is_setups_own lv,
         cl_entries_filled = ca_trades (lv_carried lv),
         cl_entries_refused_for_cash = sum_list (map (\<lambda>cs. length (cs_refused_for_cash_at_ms cs)) (lv_sessions lv)),
         cl_net_profit = ca_net_profit (lv_carried lv), cl_capital_evidence = evidence\<rparr>)"

subsection \<open>The plan of a run\<close>

datatype chain_kind = Slippage_Chain | Cash_Chain

record replay_chain =
  rc_kind :: chain_kind
  rc_slippage :: decimal
  rc_starting_cash :: decimal
  rc_multiple :: decimal

text \<open>The key of a chain: its kind and its figure, as it is spelled.\<close>

definition chain_key :: "replay_chain \<Rightarrow> chain_kind \<times> decimal" where
  "chain_key rc = (rc_kind rc, if rc_kind rc = Slippage_Chain then rc_slippage rc else rc_starting_cash rc)"

definition repeats_the_own_chain :: "backtest_setup \<Rightarrow> replay_chain \<Rightarrow> bool" where
  "repeats_the_own_chain su rc \<longleftrightarrow> rc_kind rc = Cash_Chain \<and> dval (rc_starting_cash rc) = dval (bs_starting_cash su)"

lemma pred_option_code [code]: "pred_option P None = True" "pred_option P (Some x) = P x"
  by simp_all

definition setup_for :: "replay_chain \<Rightarrow> backtest_setup \<Rightarrow> (run_failure, backtest_setup) result" where
  "setup_for rc su =
     (if dval (rc_slippage rc) = dval (bs_slippage_percent su) \<and> dval (rc_starting_cash rc) = dval (bs_starting_cash su)
      then Inr su
      else let su' = su\<lparr>bs_slippage_percent := rc_slippage rc, bs_starting_cash := rc_starting_cash rc\<rparr>
           in if setup_ok su' then Inr su' else refused)"

definition plan_run :: "backtest_setup \<Rightarrow> decimal list \<Rightarrow> decimal list \<Rightarrow> (run_failure, replay_chain list) result" where
  "plan_run su slippage_ladder cash_ladder =
     bindR (runR (ladder_levels (bs_starting_cash su) cash_ladder)) (\<lambda>levels.
       Inr (map (\<lambda>v. \<lparr>rc_kind = Slippage_Chain, rc_slippage = v, rc_starting_cash = bs_starting_cash su, rc_multiple = Finite 1 0\<rparr>)
              (sort_key dval (value_set (slippage_ladder @ [bs_slippage_percent su])))
          @ map (\<lambda>(cash, multiple). \<lparr>rc_kind = Cash_Chain, rc_slippage = bs_slippage_percent su, rc_starting_cash = cash,
              rc_multiple = multiple\<rparr>) levels))"

definition validate_run_sessions :: "surrounded \<Rightarrow> backtest_setup \<Rightarrow> date list \<Rightarrow> (run_failure, unit) result" where
  "validate_run_sessions env su days =
     (if days = [] then refused
      else if list_ex (\<lambda>(earlier, later). later \<le> earlier) (zip days (tl days)) then refused
      else let real = re_calendar env (hd days) (last days) in
        if list_ex (\<lambda>day. day \<notin> set real) days then refused
        else if bs_fees su \<noteq> Estimated then Inr ()
        else bindR (traverseR (\<lambda>day. bindR (feesR (unpublished_fee_types (re_midnight env) day)) (\<lambda>missing.
               if missing \<noteq> [] then Inl (Run_Fees (Fee_Rate_Not_Published day missing)) else Inr ())) days) (\<lambda>_. Inr ()))"

subsection \<open>A run so far\<close>

record run_state =
  ru_setup :: backtest_setup
  ru_ladder :: "(decimal \<times> carried) list"
  ru_levels :: "(decimal \<times> level_so_far) list"

definition by_value :: "decimal \<Rightarrow> (decimal \<times> 'a) list \<Rightarrow> (run_failure, 'a) result" where
  "by_value d al = (case find (\<lambda>(k, _). dval k = dval d) al of None \<Rightarrow> refused | Some (_, x) \<Rightarrow> Inr x)"

definition own_chain :: "run_state \<Rightarrow> (run_failure, carried) result" where
  "own_chain ru = by_value (bs_slippage_percent (ru_setup ru)) (ru_ladder ru)"

definition begin_run :: "backtest_setup \<Rightarrow> replay_chain list \<Rightarrow> (run_failure, run_state) result" where
  "begin_run su plan =
     bindR (traverseR (\<lambda>rc. bindR (setup_for rc su) (\<lambda>su'. Inr (rc_slippage rc, new_carried su' (rc_starting_cash rc))))
              (filter (\<lambda>rc. rc_kind rc = Slippage_Chain) plan)) (\<lambda>ladder.
     let ru = \<lparr>ru_setup = su, ru_ladder = ladder,
           ru_levels = map (\<lambda>rc. (rc_starting_cash rc, \<lparr>lv_multiple = rc_multiple rc, lv_starting_cash = rc_starting_cash rc,
               lv_is_setups_own = repeats_the_own_chain su rc, lv_carried = new_carried su (rc_starting_cash rc),
               lv_sessions = []\<rparr>)) (filter (\<lambda>rc. rc_kind rc = Cash_Chain) plan)\<rparr>
     in bindR (own_chain ru) (\<lambda>_. Inr ru))"

subsection \<open>One session\<close>

definition replay_fee :: "surrounded \<Rightarrow> backtest_setup \<Rightarrow> fill \<Rightarrow> (session_error, decimal) result" where
  "replay_fee env su f =
     (case fee_for_policy (re_midnight env) (re_et_date env) (bs_fees su) f of
        Inr fee \<Rightarrow> Inr fee
      | Inl Fee_Trapped \<Rightarrow> Inl (Session_Trap (Trapped Inexact_Raised))
      | Inl Fee_Missing \<Rightarrow> Inl Session_Assertion
      | Inl _ \<Rightarrow> Inl Session_Value_Error)"

definition run_world :: "surrounded \<Rightarrow> backtest_setup \<Rightarrow> market \<Rightarrow> replay_world" where
  "run_world env su mk =
     \<lparr>rw_around = \<lparr>sr_market = mk, sr_digest = re_digest env, sr_et_date = re_et_date env\<rparr>, rw_fee_for = replay_fee env su,
      rw_observing = False\<rparr>"

text \<open>One replay of a run: a setup of one of its chains, at that chain's cash; the fees are those of the run's own setup.\<close>

definition replay_at ::
  "surrounded \<Rightarrow> backtest_setup \<Rightarrow> market \<Rightarrow> backtest_setup \<Rightarrow> decimal \<Rightarrow> (run_failure, session_outcome) result" where
  "replay_at env su mk chains_own cash =
     bindR (runR (replayR (replay_session chains_own (run_world env su mk) cash))) (\<lambda>(so, _). Inr so)"

definition no_pins :: session_pins where
  "no_pins = \<lparr>pn_underlying_sha256 = None, pn_listing_sha256 = None, pn_option_days = []\<rparr>"

definition load_session_market ::
  "surrounded \<Rightarrow> backtest_setup \<Rightarrow> date \<Rightarrow> run_data \<Rightarrow> (run_failure, market \<times> session_pins) result" where
  "load_session_market env su day data =
     (let (session_open, session_close) = re_window env day in
      if \<not> window_fits su session_open session_close
      then Inr (window_only_market (re_window env) (re_unanswered env) day, no_pins)
      else case (rd_underlying_day data day, rd_listing data day) of
        (Some underlying, Some shown) \<Rightarrow>
          let bars = cp_value underlying; listed = cp_value shown in
          if ln_underlying listed \<noteq> bs_underlying su then refused
          else bindR (marketR (bars_by_close (re_et_date env) day bars)) (\<lambda>_.
            bindR (needsR (session_needs_of (re_calendar env) (re_anchor env) (re_et_date env) (re_words env) su day
                     session_open session_close bars listed)) (\<lambda>needs.
              let needed = sort_key (occ_symbol (re_et_date env)) (sn_contracts needs);
                  captured = map (\<lambda>c. (c, rd_option_day data c day)) needed;
                  absent = map fst (filter (\<lambda>(_, found). found = None) captured)
              in if absent \<noteq> [] then Inl (Session_Data_Missing day False False absent)
                 else let days = List.map_filter (\<lambda>(c, found). map_option (\<lambda>k. (c, k)) found) captured in
                   bindR (marketR (make_day (re_window env) (re_et_date env) day bars listed
                            (map (\<lambda>(c, k). (c, cp_value k)) days))) (\<lambda>d.
                     Inr (as_market (re_calendar env) (re_anchor env) (re_et_date env) (re_words env) (re_unanswered env) d,
                       \<lparr>pn_underlying_sha256 = Some (cp_sha256 underlying), pn_listing_sha256 = Some (cp_sha256 shown),
                        pn_option_days = map (\<lambda>(c, k). \<lparr>pd_contract = c, pd_sha256 = cp_sha256 k, pd_reference = cp_reference k\<rparr>) days\<rparr>))))
      | (underlying, shown) \<Rightarrow> Inl (Session_Data_Missing day (underlying = None) (shown = None) []))"

definition replay_with_data ::
  "surrounded \<Rightarrow> run_data \<Rightarrow> date \<Rightarrow> run_state
    \<Rightarrow> (run_failure, (decimal \<times> session_outcome) list \<times> (decimal \<times> session_outcome) list \<times> session_pins) result" where
  "replay_with_data env data day ru =
     (let su = ru_setup ru in
      bindR (load_session_market env su day data) (\<lambda>(mk, pins).
      bindR (own_chain ru) (\<lambda>own.
      bindR (replay_at env su mk su (ca_cash own)) (\<lambda>replayed.
      bindR (traverseR (\<lambda>(v, ca).
               if dval v = dval (bs_slippage_percent su) \<or> so_status replayed = Skipped then Inr (v, replayed)
               else bindR (replay_at env su mk (ca_setup ca) (ca_cash ca)) (\<lambda>so. Inr (v, so))) (ru_ladder ru)) (\<lambda>outcomes.
      bindR (traverseR (\<lambda>(cash, lv).
               if lv_is_setups_own lv \<or> so_status replayed = Skipped then Inr (cash, replayed)
               else bindR (replay_at env su mk su (ca_cash (lv_carried lv))) (\<lambda>so. Inr (cash, so))) (ru_levels ru)) (\<lambda>at_cash.
        Inr (outcomes, at_cash, pins)))))))"

definition replay_day :: "surrounded \<Rightarrow> run_data \<Rightarrow> date \<Rightarrow> run_state \<Rightarrow> (run_failure, session_result \<times> run_state) result" where
  "replay_day env data day ru =
     (let su = ru_setup ru; (session_open, session_close) = re_window env day in
      bindR (if window_fits su session_open session_close then replay_with_data env data day ru
             else bindR (own_chain ru) (\<lambda>own.
               bindR (replay_at env su (window_only_market (re_window env) (re_unanswered env) day) su (ca_cash own)) (\<lambda>skipped.
                 Inr (map (\<lambda>(v, _). (v, skipped)) (ru_ladder ru), map (\<lambda>(c, _). (c, skipped)) (ru_levels ru), no_pins))))
        (\<lambda>(outcomes, at_cash, pins).
      bindR (own_chain ru) (\<lambda>own.
      bindR (traverseR (\<lambda>(v, ca). bindR (by_value v outcomes) (\<lambda>so. bindR (runR (take_outcome so ca)) (\<lambda>ca'. Inr (v, ca')))) (ru_ladder ru)) (\<lambda>ladder.
      bindR (traverseR (\<lambda>(c, lv). bindR (by_value c at_cash) (\<lambda>so. bindR (runR (level_take session_open so lv)) (\<lambda>lv'. Inr (c, lv')))) (ru_levels ru)) (\<lambda>levels.
      let ru' = ru\<lparr>ru_ladder := ladder, ru_levels := levels\<rparr> in
      bindR (by_value (bs_slippage_percent su) outcomes) (\<lambda>so.
      bindR (own_chain ru') (\<lambda>after.
        Inr (\<lparr>sx_open_ms = session_open, sx_close_ms = session_close, sx_cash_before = ca_cash own, sx_outcome = so,
              sx_cash_after = ca_cash after, sx_pins = pins\<rparr>, ru'))))))))"

subsection \<open>A whole run\<close>

record run_result =
  rn_setup :: backtest_setup
  rn_sessions :: "session_result list"
  rn_summary :: run_summary
  rn_slippage :: "slippage_point list"
  rn_tolerance :: slippage_tolerance

definition assemble_run_result ::
  "surrounded \<Rightarrow> backtest_setup \<Rightarrow> session_result list \<Rightarrow> slippage_point list \<Rightarrow> cash_level list \<Rightarrow> (run_failure, run_result) result" where
  "assemble_run_result env su sessions points levels =
     (case find cl_is_setups_own levels of
        None \<Rightarrow> refused
      | Some own_level \<Rightarrow>
          bindR (runR (summarize_run (re_et_date env) sessions (bs_starting_cash su))) (\<lambda>s.
            Inr \<lparr>rn_setup = su, rn_sessions = sessions,
              rn_summary = s\<lparr>sm_capital_evidence := Some (cl_capital_evidence own_level), sm_cash_ladder := Some levels,
                sm_stamps := Some (current_stamps (re_midnight env))\<rparr>,
              rn_slippage = points, rn_tolerance = tolerance_of points\<rparr>))"

fun replay_days ::
  "surrounded \<Rightarrow> run_data \<Rightarrow> (nat \<Rightarrow> bool) \<Rightarrow> nat \<Rightarrow> date list \<Rightarrow> run_state \<Rightarrow> (run_failure, session_result list \<times> run_state) result" where
  "replay_days env data should_stop n [] ru = Inr ([], ru)"
| "replay_days env data should_stop n (day # days) ru =
     (if should_stop n then Inl (Run_Was_Stopped n)
      else bindR (replay_day env data day ru) (\<lambda>(sx, ru').
           bindR (replay_days env data should_stop (Suc n) days ru') (\<lambda>(kept, ru''). Inr (sx # kept, ru''))))"

definition point_of :: "backtest_setup \<Rightarrow> decimal \<Rightarrow> carried \<Rightarrow> slippage_point" where
  "point_of su v ca = \<lparr>sp_slippage = v, sp_is_setups_own = (dval v = dval (bs_slippage_percent su)),
     sp_net_profit = ca_net_profit ca, sp_trades = ca_trades ca, sp_traded_sessions = ca_traded_sessions ca,
     sp_winning_sessions = ca_winning_sessions ca\<rparr>"

definition run_sessions ::
  "surrounded \<Rightarrow> backtest_setup \<Rightarrow> date list \<Rightarrow> run_data \<Rightarrow> decimal list \<Rightarrow> decimal list \<Rightarrow> (nat \<Rightarrow> bool)
    \<Rightarrow> (run_failure, run_result) result" where
  "run_sessions env su days data slippage_ladder cash_ladder should_stop =
     bindR (validate_run_sessions env su days) (\<lambda>_.
     bindR (plan_run su slippage_ladder cash_ladder) (\<lambda>plan.
     bindR (begin_run su plan) (\<lambda>ru.
     bindR (replay_days env data should_stop 0 days ru) (\<lambda>(kept, ru').
     bindR (traverseR (\<lambda>(_, lv). runR (level_result lv)) (ru_levels ru')) (\<lambda>levels.
       assemble_run_result env su kept (map (\<lambda>(v, ca). point_of su v ca) (ru_ladder ru')) levels)))))"

subsection \<open>What the walk up the ladder stops at\<close>








subsection \<open>Looking up by value\<close>

lemma by_value_Inr: "by_value d al = Inr x \<Longrightarrow> \<exists>k. (k, x) \<in> set al \<and> dval k = dval d"
  by (auto simp: by_value_def refused_def find_Some_iff split: option.splits) (metis nth_mem)

lemma by_value_traverse:
  assumes "traverseR g al = Inr bl" "\<And>k x p. g (k, x) = Inr p \<Longrightarrow> fst p = k" "by_value d al = Inr x"
  obtains k y where "dval k = dval d" "g (k, x) = Inr (k, y)" "by_value d bl = Inr y"
  using assms(1,3)
proof (induction al arbitrary: bl thesis)
  case (Cons a al)
  obtain k x1 where a: "a = (k, x1)" by (cases a)
  then obtain p rest where p: "g (k, x1) = Inr p" "traverseR g al = Inr rest" "bl = p # rest"
    using Cons.prems(2) by (auto simp: bindR_Inr_iff)
  then obtain y where y: "p = (k, y)" using assms(2) [OF p(1)] by (cases p) auto
  show ?case
  proof (cases "dval k = dval d")
    case True
    then have "x1 = x" using Cons.prems(3) a by (simp add: by_value_def)
    then show ?thesis using Cons.prems(1) [of k y] True p y by (simp add: by_value_def)
  next
    case False
    then have "by_value d al = Inr x" using Cons.prems(3) a by (simp add: by_value_def)
    then show ?thesis using Cons.IH [OF _ p(2)] Cons.prems(1) False p y by (auto simp: by_value_def)
  qed
qed (simp add: by_value_def refused_def)

subsection \<open>What a replay of a run is given\<close>

text \<open>What is answered in the place of a raise is made of numbers.\<close>

definition unanswered_finite :: "unanswered \<Rightarrow> bool" where
  "unanswered_finite ua \<longleftrightarrow> (\<forall>c t bar. ua_bar ua c t = Some bar \<longrightarrow> is_finite (mb_open bar) \<and> is_finite (mb_close bar))"

definition bars_finite :: "market \<Rightarrow> bool" where
  "bars_finite mk \<longleftrightarrow> (\<forall>c t bar. mk_option_bar mk c t = Some bar \<longrightarrow> is_finite (mb_open bar) \<and> is_finite (mb_close bar))"

lemma made_day_finite:
  assumes "make_day window et_date day bars listed option_days = Inr d" "unanswered_finite ua"
  shows "bars_finite (as_market cal anchor et words ua d)"
proof -
  have days: "\<forall>(c, ks)\<in>set options. \<forall>(t, bar)\<in>set ks. is_finite (mb_open bar) \<and> is_finite (mb_close bar)"
    if "traverseR (\<lambda>(c, days). bindR (bars_by_close et_date day days) (\<lambda>k. Inr (c, k))) option_days = Inr options" for options
    using that
  proof (induction option_days arbitrary: options)
    case (Cons x xs)
    then obtain ks rest where ks: "bars_from et_date day None (snd x) = Inr ks"
      and rest: "traverseR (\<lambda>(c, days). bindR (bars_by_close et_date day days) (\<lambda>k. Inr (c, k))) xs = Inr rest"
      and o': "options = (fst x, ks) # rest" by (cases x) (auto simp: bindR_Inr_iff bars_by_close_def)
    have "\<forall>(t, bar)\<in>set ks. is_finite (mb_open bar) \<and> is_finite (mb_close bar)"
      using bars_from_facts [OF ks] by (auto simp: list_all_iff price_above_zero_def)
    with Cons.IH [OF rest] show ?case by (simp add: o')
  qed simp
  obtain options where options: "traverseR (\<lambda>(c, days). bindR (bars_by_close et_date day days) (\<lambda>k. Inr (c, k))) option_days = Inr options"
    and d: "dm_options d = options"
    using assms(1) by (auto simp: make_day_def bindR_Inr_iff split: if_splits)
  have "is_finite (mb_open bar) \<and> is_finite (mb_close bar)"
    if "map_of (dm_options d) c = Some ks" "map_of ks t = Some bar" for c ks t bar
    using days [OF options] map_of_SomeD [OF that(1)] map_of_SomeD [OF that(2)] unfolding d by fastforce
  then show ?thesis
    using assms(2) by (auto simp: bars_finite_def as_market_def day_option_bar_def answered_def unanswered_finite_def
        split: option.splits)
qed

lemma loaded_market_finite:
  "load_session_market env su day data = Inr (mk, pins) \<Longrightarrow> unanswered_finite (re_unanswered env) \<Longrightarrow> bars_finite mk"
  by (auto simp: load_session_market_def Let_def bindR_Inr_iff failure_Inr made_day_finite case_prod_unfold
      split: if_splits option.splits)
    (auto simp: bars_finite_def window_only_market_def answered_def unanswered_finite_def)

lemma policy_fee_finite:
  assumes "fee_for_policy midnight et_date policy f = Inr fee" "fee_policy_ok policy" shows "is_finite fee"
proof (cases policy)
  case Estimated
  then obtain a where "foldR (\<lambda>total c. case accrual c a of None \<Rightarrow> Inl Fee_Missing
      | Some d \<Rightarrow> bindR (ceil_cents exact_digits d) (\<lambda>x. Inr (round_digits exact_digits (dadd total x)))) (Finite 0 0) option_components = Inr fee"
    using assms(1) by (auto simp: fee_for_policy_def estimated_fee_def bindR_Inr_iff split: if_splits)
  moreover have "is_finite (Finite 0 0)" by (simp add: is_finite_def)
  ultimately show ?thesis
  proof (rule foldR_invariant)
    fix total c total' assume t: "is_finite total" "(case accrual c a of None \<Rightarrow> Inl Fee_Missing
      | Some d \<Rightarrow> bindR (ceil_cents exact_digits d) (\<lambda>x. Inr (round_digits exact_digits (dadd total x)))) = Inr total'"
    then obtain x where "is_finite x" "total' = round_digits exact_digits (dadd total x)"
      by (auto simp: bindR_Inr_iff split: option.splits dest: ceil_cents_finite)
    then show "is_finite total'" using t(1) finite_dadd [of total x]
      by (cases "dadd total x") (auto simp: round_digits_def is_finite_def Let_def)
  qed
next
  case (Per_Contract each)
  then have "mul_x each (whole (fl_contracts f)) = Inr fee" using assms(1) by (auto simp: fee_for_policy_def split: sum.splits)
  moreover have "is_finite each" using assms(2) Per_Contract by (auto simp: field_figure_def dest: setup_figure_finite)
  ultimately show ?thesis using mul_x_Inr [of each "whole (fl_contracts f)" fee] by (auto simp: is_finite_def whole_def)
qed (use assms(1) in \<open>auto simp: fee_for_policy_def is_finite_def\<close>)

lemma run_world_finite:
  assumes "bars_finite mk" "setup_ok su" shows "world_finite (run_world env su mk)"
proof -
  have "fee_policy_ok (bs_fees su)" using assms(2) by (simp add: setup_ok_def setup_fields_ok_def)
  then show ?thesis using assms(1) policy_fee_finite
    by (auto simp: world_finite_def run_world_def bars_finite_def replay_fee_def split: sum.splits fee_error.splits)
qed

subsection \<open>Cash carried over sessions\<close>

definition session_profit :: "session_outcome \<Rightarrow> rat" where
  "session_profit so = (\<Sum>tr\<leftarrow>so_trades so. dval (lt_pnl tr))"

text \<open>An outcome whose books balance: its profit is the cash that moved and what its marks are worth.\<close>

definition balanced :: "session_outcome \<Rightarrow> bool" where
  "balanced so \<longleftrightarrow> list_all sound_trade (so_trades so) \<and> is_finite (so_cash_change so)
     \<and> session_profit so = dval (so_cash_change so) + (\<Sum>tr\<leftarrow>so_trades so. marked_worth tr)
     \<and> (so_trades so \<noteq> [] \<longleftrightarrow> so_status so = Traded \<or> so_status so = Incomplete)"

lemma replay_at_balanced:
  assumes "replay_at env su mk su' cash = Inr so" "setup_ok su" "setup_ok su'" "bars_finite mk" "is_finite cash"
  shows "balanced so"
proof -
  obtain seen where run: "replay_session su' (run_world env su mk) cash = Inr (so, seen)"
    using assms(1) by (auto simp: replay_at_def bindR_Inr_iff failure_Inr run_Inr)
  have w: "world_finite (run_world env su mk)" by (rule run_world_finite [OF assms(4,2)])
  have "so_trades so \<noteq> [] \<longleftrightarrow> so_status so = Traded \<or> so_status so = Incomplete"
    using run assms(3) w assms(5)
  proof (cases rule: replay_session_cases)
    case (ran T r r')
    then have "so_status so = (if list_ex marked (so_trades so) then Incomplete else if so_trades so \<noteq> [] then Traded else No_Trade)"
      by (auto simp: outcome_of_def Let_def bindR_Inr_iff)
    then show ?thesis by (cases "so_trades so") auto
  qed (simp add: skipped_outcome_def)
  with replayed_trades [OF run assms(3) w assms(5)] show ?thesis by (simp add: balanced_def session_profit_def)
qed

lemma marked_value_finite:
  assumes "marked_value_usd so = Inr marks" "list_all sound_trade (so_trades so)" shows "is_finite marks"
proof (rule foldR_invariant [OF assms(1) [unfolded marked_value_usd_def], of is_finite])
  fix z tr z' assume tr: "tr \<in> set (so_trades so)" "is_finite z"
    and st: "(if marked tr
     then bindR (trapR (order_value (exit_price tr) (lt_multiplier tr) (lt_contracts tr))) (\<lambda>value.
            trapR (add_x z (if is_sold_leg tr then dneg value else value)))
     else Inr z) = Inr z'"
  show "is_finite z'"
  proof (cases "marked tr")
    case True
    then obtain v where v: "order_value (exit_price tr) (lt_multiplier tr) (lt_contracts tr) = Inr v"
      and a: "add_x z (if is_sold_leg tr then dneg v else v) = Inr z'"
      using st by (auto simp: bindR_Inr_iff liftR_Inr)
    have "is_finite (exit_price tr)" using tr(1) assms(2) True by (auto simp: list_all_iff sound_trade_def)
    then have "is_finite v" using order_value_Inr [OF v] by simp
    then show ?thesis using add_x_Inr [OF a tr(2)] by (simp split: if_splits)
  qed (use tr st in simp)
qed (simp add: is_finite_def)

lemma take_outcome_Inr:
  assumes "take_outcome so ca = Inr ca'" "balanced so" "is_finite (ca_cash ca)" "is_finite (ca_net_profit ca)"
  shows "ca_setup ca' = ca_setup ca \<and> is_finite (ca_cash ca') \<and> is_finite (ca_net_profit ca')
    \<and> dval (ca_cash ca') = dval (ca_cash ca) + session_profit so
    \<and> dval (ca_net_profit ca') = dval (ca_net_profit ca) + session_profit so"
proof -
  obtain pnl moved marks cash net where
    p: "pnl_usd so = Inr pnl" "add_x (ca_cash ca) (so_cash_change so) = Inr moved" "marked_value_usd so = Inr marks"
      "add_x moved marks = Inr cash" "add_x (ca_net_profit ca) pnl = Inr net"
    and ca': "ca_setup ca' = ca_setup ca" "ca_cash ca' = cash" "ca_net_profit ca' = net"
    using assms(1) by (auto simp: take_outcome_def Let_def bindR_Inr_iff run_Inr)
  have so: "list_all sound_trade (so_trades so)" "is_finite (so_cash_change so)"
    "session_profit so = dval (so_cash_change so) + (\<Sum>tr\<leftarrow>so_trades so. marked_worth tr)"
    using assms(2) by (simp_all add: balanced_def)
  have "is_finite pnl" using sum_add_x [OF p(1) [unfolded pnl_usd_def]] so(1)
    by (auto simp: is_finite_def list_all_iff sound_trade_def split: decimal.splits)
  moreover have "is_finite marks" by (rule marked_value_finite [OF p(3) so(1)])
  ultimately show ?thesis
    using add_x_Inr [OF p(2) assms(3) so(2)] add_x_Inr [OF p(4)] add_x_Inr [OF p(5) assms(4)] so(3)
      pnl_usd_sum [OF p(1) so(1)] marked_value_sum [OF p(3) so(1)]
    by (simp add: ca' session_profit_def)
qed

lemma by_value_cong: "dval k = dval d \<Longrightarrow> by_value k al = by_value d al"
  by (simp add: by_value_def)

lemma traverse_keys:
  "traverseR g al = Inr bl \<Longrightarrow> (\<And>k x p. g (k, x) = Inr p \<Longrightarrow> fst p = k) \<Longrightarrow> map fst bl = map fst al"
  by (induction al arbitrary: bl) (auto simp: bindR_Inr_iff)

text \<open>The outcome a day keeps as its own is the replay of the run's setup at the cash its own chain carries.\<close>

lemma own_outcome:
  assumes "(if window_fits su session_open session_close then replay_with_data env data day ru
             else bindR (own_chain ru) (\<lambda>own.
               bindR (replay_at env su (window_only_market (re_window env) (re_unanswered env) day) su (ca_cash own)) (\<lambda>skipped.
                 Inr (map (\<lambda>(v, _). (v, skipped)) (ru_ladder ru), map (\<lambda>(c, _). (c, skipped)) (ru_levels ru), no_pins))))
      = Inr (outcomes, at_cash, pins)"
    and "su = ru_setup ru" "own_chain ru = Inr own" "by_value (bs_slippage_percent su) outcomes = Inr so"
    and "unanswered_finite (re_unanswered env)"
  obtains mk where "replay_at env su mk su (ca_cash own) = Inr so" "bars_finite mk"
proof (cases "window_fits su session_open session_close")
  case True
  then have "replay_with_data env data day ru = Inr (outcomes, at_cash, pins)" using assms(1) by simp
  then obtain mk replayed where mk: "load_session_market env su day data = Inr (mk, pins)"
    and r: "replay_at env su mk su (ca_cash own) = Inr replayed"
    and t: "traverseR (\<lambda>(v, ca). if dval v = dval (bs_slippage_percent su) \<or> so_status replayed = Skipped then Inr (v, replayed)
               else bindR (replay_at env su mk (ca_setup ca) (ca_cash ca)) (\<lambda>so. Inr (v, so))) (ru_ladder ru) = Inr outcomes"
    using assms(2,3) by (auto simp: replay_with_data_def Let_def bindR_Inr_iff)
  have own: "by_value (bs_slippage_percent su) (ru_ladder ru) = Inr own" using assms(2,3) by (simp add: own_chain_def)
  obtain k y where "dval k = dval (bs_slippage_percent su)" "by_value (bs_slippage_percent su) outcomes = Inr y"
    "(if dval k = dval (bs_slippage_percent su) \<or> so_status replayed = Skipped then Inr (k, replayed)
      else bindR (replay_at env su mk (ca_setup own) (ca_cash own)) (\<lambda>so. Inr (k, so))) = Inr (k, y)"
    by (rule by_value_traverse [OF t _ own]) (auto simp: bindR_Inr_iff split: if_splits)
  then have "so = replayed" using assms(4) by simp
  then show thesis using that [OF _ loaded_market_finite [OF mk assms(5)]] r by simp
next
  case False
  let ?mk = "window_only_market (re_window env) (re_unanswered env) day"
  obtain skipped where r: "replay_at env su ?mk su (ca_cash own) = Inr skipped"
    and o': "outcomes = map (\<lambda>(v, _). (v, skipped)) (ru_ladder ru)"
    using assms(1,3) False by (auto simp: bindR_Inr_iff)
  have "so = skipped" using by_value_Inr [OF assms(4)] by (auto simp: o')
  moreover have "bars_finite ?mk" using assms(5)
    by (auto simp: bars_finite_def window_only_market_def answered_def unanswered_finite_def)
  ultimately show thesis using that r by simp
qed

lemma replay_day_own:
  assumes day: "replay_day env data day ru = Inr (sx, ru')" and own: "own_chain ru = Inr own"
    and ok: "setup_ok (ru_setup ru)" "unanswered_finite (re_unanswered env)" "is_finite (ca_cash own)" "is_finite (ca_net_profit own)"
  obtains own' where "own_chain ru' = Inr own'" "ru_setup ru' = ru_setup ru" "balanced (sx_outcome sx)"
    "sx_cash_before sx = ca_cash own" "sx_cash_after sx = ca_cash own'" "is_finite (ca_cash own')" "is_finite (ca_net_profit own')"
    "dval (ca_cash own') = dval (ca_cash own) + session_profit (sx_outcome sx)"
    "dval (ca_net_profit own') = dval (ca_net_profit own) + session_profit (sx_outcome sx)"
    "sx_open_ms sx = fst (re_window env day)" "map fst (ru_ladder ru') = map fst (ru_ladder ru)"
proof -
  define su where "su = ru_setup ru"
  obtain session_open session_close where win: "re_window env day = (session_open, session_close)" by (cases "re_window env day")
  obtain outcomes at_cash pins ladder levels so own' where
    part: "(if window_fits su session_open session_close then replay_with_data env data day ru
             else bindR (own_chain ru) (\<lambda>own.
               bindR (replay_at env su (window_only_market (re_window env) (re_unanswered env) day) su (ca_cash own)) (\<lambda>skipped.
                 Inr (map (\<lambda>(v, _). (v, skipped)) (ru_ladder ru), map (\<lambda>(c, _). (c, skipped)) (ru_levels ru), no_pins))))
      = Inr (outcomes, at_cash, pins)"
    and t: "traverseR (\<lambda>(v, ca). bindR (by_value v outcomes) (\<lambda>so. bindR (runR (take_outcome so ca)) (\<lambda>ca'. Inr (v, ca')))) (ru_ladder ru) = Inr ladder"
    and so: "by_value (bs_slippage_percent su) outcomes = Inr so"
    and ru': "ru' = ru\<lparr>ru_ladder := ladder, ru_levels := levels\<rparr>" and own': "own_chain ru' = Inr own'"
    and sx: "sx = \<lparr>sx_open_ms = session_open, sx_close_ms = session_close, sx_cash_before = ca_cash own, sx_outcome = so,
              sx_cash_after = ca_cash own', sx_pins = pins\<rparr>"
    using day own by (auto simp: replay_day_def win Let_def bindR_Inr_iff simp flip: su_def)
  obtain mk where mk: "replay_at env su mk su (ca_cash own) = Inr so" "bars_finite mk"
    by (rule own_outcome [OF part su_def own so ok(2)])
  have "setup_ok su" using ok(1) by (simp add: su_def)
  then have bal: "balanced so" using replay_at_balanced [OF mk(1) _ _ mk(2) ok(3)] by simp
  have mine: "by_value (bs_slippage_percent su) (ru_ladder ru) = Inr own" using own by (simp add: own_chain_def su_def)
  obtain k y where k: "dval k = dval (bs_slippage_percent su)" "by_value (bs_slippage_percent su) ladder = Inr y"
    "bindR (by_value k outcomes) (\<lambda>so. bindR (runR (take_outcome so own)) (\<lambda>ca'. Inr (k, ca'))) = Inr (k, y)"
    by (rule by_value_traverse [OF t _ mine]) (auto simp: bindR_Inr_iff)
  have y: "y = own'" using own' k(2) by (simp add: own_chain_def ru' su_def)
  have "take_outcome so own = Inr own'"
    using k(3) so by_value_cong [OF k(1), of outcomes] y by (auto simp: bindR_Inr_iff failure_Inr)
  note T = take_outcome_Inr [OF this bal ok(3,4)]
  have "map fst ladder = map fst (ru_ladder ru)" by (rule traverse_keys [OF t]) (auto simp: bindR_Inr_iff)
  with T own' bal show thesis by (intro that [of own']) (simp_all add: ru' sx win)
qed

fun cash_chained :: "decimal \<Rightarrow> session_result list \<Rightarrow> decimal \<Rightarrow> bool" where
  "cash_chained cash [] after \<longleftrightarrow> after = cash"
| "cash_chained cash (sx # sxs) after \<longleftrightarrow>
     sx_cash_before sx = cash \<and> dval (sx_cash_after sx) = dval cash + session_profit (sx_outcome sx)
     \<and> cash_chained (sx_cash_after sx) sxs after"

definition sessions_profit :: "session_result list \<Rightarrow> rat" where
  "sessions_profit sxs = (\<Sum>sx\<leftarrow>sxs. session_profit (sx_outcome sx))"

lemma replay_days_own:
  assumes "replay_days env data should_stop n days ru = Inr (kept, ru')" "own_chain ru = Inr own" "setup_ok (ru_setup ru)"
    "unanswered_finite (re_unanswered env)" "is_finite (ca_cash own)" "is_finite (ca_net_profit own)"
  obtains own' where "own_chain ru' = Inr own'" "ru_setup ru' = ru_setup ru" "list_all (\<lambda>sx. balanced (sx_outcome sx)) kept"
    "map sx_open_ms kept = map (\<lambda>day. fst (re_window env day)) days" "cash_chained (ca_cash own) kept (ca_cash own')"
    "dval (ca_cash own') = dval (ca_cash own) + sessions_profit kept"
    "dval (ca_net_profit own') = dval (ca_net_profit own) + sessions_profit kept"
    "map fst (ru_ladder ru') = map fst (ru_ladder ru)"
  using assms
proof (induction days arbitrary: n ru own kept thesis)
  case (Cons day days)
  obtain sx ru1 rest where day: "replay_day env data day ru = Inr (sx, ru1)"
    and rest: "replay_days env data should_stop (Suc n) days ru1 = Inr (rest, ru')" and kept: "kept = sx # rest"
    using Cons.prems(2) by (auto simp: bindR_Inr_iff split: if_splits)
  obtain own1 where own1: "own_chain ru1 = Inr own1" "ru_setup ru1 = ru_setup ru" "balanced (sx_outcome sx)"
    "sx_cash_before sx = ca_cash own" "sx_cash_after sx = ca_cash own1" "is_finite (ca_cash own1)" "is_finite (ca_net_profit own1)"
    "dval (ca_cash own1) = dval (ca_cash own) + session_profit (sx_outcome sx)"
    "dval (ca_net_profit own1) = dval (ca_net_profit own) + session_profit (sx_outcome sx)"
    "sx_open_ms sx = fst (re_window env day)" "map fst (ru_ladder ru1) = map fst (ru_ladder ru)"
    by (rule replay_day_own [OF day Cons.prems(3-7)])
  have "setup_ok (ru_setup ru1)" using Cons.prems(4) own1(2) by simp
  then obtain own' where "own_chain ru' = Inr own'" "ru_setup ru' = ru_setup ru1" "list_all (\<lambda>sx. balanced (sx_outcome sx)) rest"
    "map sx_open_ms rest = map (\<lambda>day. fst (re_window env day)) days" "cash_chained (ca_cash own1) rest (ca_cash own')"
    "dval (ca_cash own') = dval (ca_cash own1) + sessions_profit rest"
    "dval (ca_net_profit own') = dval (ca_net_profit own1) + sessions_profit rest"
    "map fst (ru_ladder ru') = map fst (ru_ladder ru1)"
    using Cons.IH [OF _ rest own1(1) _ Cons.prems(5) own1(6,7)] by blast
  then show ?case using own1 by (intro Cons.prems(1) [of own']) (simp_all add: kept sessions_profit_def)
qed (simp add: sessions_profit_def)

lemma begin_run_own:
  assumes "plan_run su sl cl = Inr plan" "begin_run su plan = Inr ru"
  obtains su' where "own_chain ru = Inr (new_carried su' (bs_starting_cash su))" "ru_setup ru = su"
    "map fst (ru_ladder ru) = sort_key dval (value_set (sl @ [bs_slippage_percent su]))"
proof -
  let ?slips = "sort_key dval (value_set (sl @ [bs_slippage_percent su]))"
  let ?chain = "\<lambda>v. \<lparr>rc_kind = Slippage_Chain, rc_slippage = v, rc_starting_cash = bs_starting_cash su, rc_multiple = Finite 1 0\<rparr>"
  have chains: "filter (\<lambda>rc. rc_kind rc = Slippage_Chain) plan = map ?chain ?slips"
    using assms(1) by (auto simp: plan_run_def bindR_Inr_iff failure_Inr filter_empty_conv o_def)
  obtain ladder own where t: "traverseR (\<lambda>rc. bindR (setup_for rc su) (\<lambda>su'. Inr (rc_slippage rc, new_carried su' (rc_starting_cash rc))))
      (map ?chain ?slips) = Inr ladder"
    and ru: "ru_setup ru = su" "ru_ladder ru = ladder" "own_chain ru = Inr own"
    using assms(2) unfolding begin_run_def chains by (auto simp: bindR_Inr_iff Let_def)
  have ladder: "map fst ladder = vs \<and> (\<forall>(v, ca)\<in>set ladder. \<exists>su'. ca = new_carried su' (bs_starting_cash su))"
    if "traverseR (\<lambda>rc. bindR (setup_for rc su) (\<lambda>su'. Inr (rc_slippage rc, new_carried su' (rc_starting_cash rc)))) (map ?chain vs) = Inr ladder"
    for vs ladder using that
    by (induction vs arbitrary: ladder) (auto simp: bindR_Inr_iff)
  obtain k where "(k, own) \<in> set ladder" using ru by (auto simp: own_chain_def dest!: by_value_Inr)
  with ladder [OF t] obtain su' where "own = new_carried su' (bs_starting_cash su)" by auto
  then show thesis using that ru ladder [OF t] by simp
qed

lemma summary_totals:
  assumes "summarize_run et_date sessions start = Inr s" "is_finite start" "list_all (\<lambda>sx. balanced (sx_outcome sx)) sessions"
  shows "dval (sm_net_profit s) = sessions_profit sessions \<and> dval (sm_ending_cash s) = dval start + sessions_profit sessions"
proof -
  let ?trades = "concat (map (\<lambda>sx. so_trades (sx_outcome sx)) sessions)"
  obtain net ending where n: "sum_x (map lt_pnl ?trades) = Inr net" "sum_x [start, net] = Inr ending"
    "sm_net_profit s = net" "sm_ending_cash s = ending"
    using assms(1) by (auto simp: summarize_run_def Let_def bindR_Inr_iff case_prod_unfold)
  have "list_all is_finite (map lt_pnl ?trades)"
    using assms(3) by (auto simp: list_all_iff balanced_def sound_trade_def)
  note net = sum_x_Inr [OF n(1) this]
  have "(\<Sum>d\<leftarrow>map lt_pnl ?trades. dval d) = sessions_profit sessions"
    using sum_over_sessions [of "\<lambda>tr. dval (lt_pnl tr)" "\<lambda>sx. so_trades (sx_outcome sx)" sessions]
    by (simp add: sessions_profit_def session_profit_def comp_def)
  then show ?thesis using net sum_x_Inr [OF n(2)] assms(2) n(3,4) by simp
qed

subsection \<open>A concrete run: a day the window skips and a day that trades\<close>

definition run_setup :: backtest_setup where "run_setup = day_setup\<lparr>bs_legs := [day_leg ''a''], bs_starting_cash := Finite 1 4\<rparr>"

definition run_date :: "int \<Rightarrow> date" where "run_date t = (if t < 0 then (2024, 1, 18) else (2024, 1, 19))"

definition run_around :: surrounded where
  "run_around = \<lparr>re_window = (\<lambda>day. if day = (2024, 1, 19) then (0, 240000) else (- 86400000, - 86340000)), re_calendar = needs_calendar,
     re_anchor = (\<lambda>_. oc_expiry_ms (book_call 1)), re_midnight = (\<lambda>_. 0), re_et_date = run_date, re_words = (\<lambda>_. []),
     re_digest = eo_outcome_id, re_unanswered = \<lparr>ua_underlying = (\<lambda>_. None), ua_pick = (\<lambda>_ _ _. Pick_Refused Not_Standard []),
       ua_bar = (\<lambda>_ _. None)\<rparr>\<rparr>"

definition run_bar :: minute_bar where
  "run_bar = \<lparr>mb_close_ms = 120000, mb_open = Finite 2 0, mb_high = Finite 4 0, mb_low = Finite 1 0, mb_close = Finite 3 0\<rparr>"

definition run_history :: run_data where
  "run_history = \<lparr>rd_underlying_day = (\<lambda>_. Some \<lparr>cp_value = map needs_bar [60000, 120000], cp_sha256 = [], cp_reference = None\<rparr>),
     rd_listing = (\<lambda>_. Some \<lparr>cp_value = needs_listing, cp_sha256 = [], cp_reference = None\<rparr>),
     rd_option_day = (\<lambda>c _. if c = book_call 475000 then Some \<lparr>cp_value = [run_bar], cp_sha256 = [], cp_reference = None\<rparr> else None)\<rparr>"


definition run_plan :: "replay_chain list" where
  "run_plan = [\<lparr>rc_kind = Slippage_Chain, rc_slippage = Finite 0 0, rc_starting_cash = Finite 1 4, rc_multiple = Finite 1 0\<rparr>,
  \<lparr>rc_kind = Cash_Chain, rc_slippage = Finite 0 0, rc_starting_cash = Finite 1 4, rc_multiple = Finite 1 0\<rparr>]"

definition run_at :: "decimal \<Rightarrow> decimal \<Rightarrow> nat \<Rightarrow> capital_session list \<Rightarrow> run_state" where
  "run_at cash net n kept =
     (let ca = \<lparr>ca_setup = run_setup, ca_cash = cash, ca_net_profit = net, ca_trades = n, ca_traded_sessions = n, ca_winning_sessions = n\<rparr>
      in \<lparr>ru_setup = run_setup, ru_ladder = [(Finite 0 0, ca)],
           ru_levels = [(Finite 1 4, \<lparr>lv_multiple = Finite 1 0, lv_starting_cash = Finite 1 4, lv_is_setups_own = True,
             lv_carried = ca, lv_sessions = kept\<rparr>)]\<rparr>)"

definition run_step :: money_step where
  "run_step = \<lparr>ms_at = 120000, ms_group = Opening, ms_cash_before = Finite 10000 0, ms_cash_after = Finite 9600 0,
     ms_collateral_before = Finite 0 0, ms_collateral_after = Finite 0 0, ms_obligation_after = Finite 0 0,
     ms_bought_back_with_cover_held = False\<rparr>"

definition run_outcome :: session_outcome where
  "run_outcome = (let c = book_call 475000; ev = (\<lambda>k t p. \<lparr>ev_kind = k, ev_at_ms = t, ev_leg_id = ''a'', ev_entry_number = 0,
        ev_contract = Some c, ev_price = p, ev_reason = None, ev_detail = None\<rparr>) in
     \<lparr>so_status = Incomplete, so_skip_reason = None,
      so_trades = [\<lparr>lt_leg_id = ''a'', lt_entry_number = 0, lt_contract = c, lt_contracts = 2, lt_multiplier = 100,
        lt_starting_price = None, lt_momentum_level = None, lt_stop_level = None, lt_entry_decided_at_ms = 60000,
        lt_entry = \<lparr>fl_leg_id = ''a'', fl_contract = c, fl_side = Buy, fl_contracts = 2, fl_multiplier = 100,
          fl_bar_close_ms = 120000, fl_seen = Finite 2 0, fl_filled = Finite 2 0\<rparr>,
        lt_exit_reason = Ex_Marked_Not_Sold, lt_exit_group = 1, lt_exit_decided_at_ms = 180000,
        lt_exit = Left_By_Mark \<lparr>ma_bar_close_ms = 120000, ma_price = Finite 3 0\<rparr>,
        lt_entry_fee = Finite 0 0, lt_exit_fee = Finite 0 0, lt_pnl = Finite 200 0\<rparr>],
      so_events = [ev Ev_Picked 60000 None, ev Ev_Entry_Filled 120000 (Some (Finite 2 0)), ev Ev_Exit_Time 180000 None,
        ev Ev_Marked_Not_Sold 240000 (Some (Finite 3 0))],
      so_cash_change = Finite (- 400) 0, so_money_steps = [run_step]\<rparr>)"

definition run_skip :: session_outcome where
  "run_skip = \<lparr>so_status = Skipped, so_skip_reason = Some Window_Does_Not_Fit, so_trades = [], so_events = [],
     so_cash_change = Finite 0 0, so_money_steps = []\<rparr>"

definition run_pins :: session_pins where
  "run_pins = \<lparr>pn_underlying_sha256 = Some [], pn_listing_sha256 = Some [],
     pn_option_days = [\<lparr>pd_contract = book_call 475000, pd_sha256 = [], pd_reference = None\<rparr>]\<rparr>"

definition run_kept :: "session_result list" where
  "run_kept = [\<lparr>sx_open_ms = - 86400000, sx_close_ms = - 86340000, sx_cash_before = Finite 1 4, sx_outcome = run_skip,
       sx_cash_after = Finite 10000 0, sx_pins = no_pins\<rparr>,
     \<lparr>sx_open_ms = 0, sx_close_ms = 240000, sx_cash_before = Finite 10000 0, sx_outcome = run_outcome,
       sx_cash_after = Finite 10200 0, sx_pins = run_pins\<rparr>]"

definition run_cash_kept :: "capital_session list" where
  "run_cash_kept = [\<lparr>cs_session_open_ms = - 86400000, cs_status = Skipped, cs_money_steps = [], cs_refused_for_cash_at_ms = []\<rparr>,
     \<lparr>cs_session_open_ms = 0, cs_status = Incomplete, cs_money_steps = [run_step], cs_refused_for_cash_at_ms = []\<rparr>]"

lemma run_began: "begin_run run_setup run_plan = Inr (run_at (Finite 1 4) (Finite 0 0) 0 [])"
  by code_simp

lemma run_skips:
  "replay_day run_around run_history (2024, 1, 18) (run_at (Finite 1 4) (Finite 0 0) 0 [])
     = Inr (hd run_kept, run_at (Finite 10000 0) (Finite 0 0) 0 (take 1 run_cash_kept))"
  by code_simp

abbreviation run_needs :: "(pick_error, session_needs) result" where
  "run_needs \<equiv> session_needs_of needs_calendar (\<lambda>_. oc_expiry_ms (book_call 1)) run_date (\<lambda>_. [])
     run_setup (2024, 1, 19) 0 240000 [needs_bar 60000, needs_bar 120000] needs_listing"

abbreviation run_day :: "(market_error, loaded_day) result" where
  "run_day \<equiv> make_day (re_window run_around) run_date (2024, 1, 19) [needs_bar 60000, needs_bar 120000]
     needs_listing [(book_call 475000, [run_bar])]"

abbreviation run_market :: "loaded_day \<Rightarrow> market" where
  "run_market \<equiv> as_market needs_calendar (\<lambda>_. oc_expiry_ms (book_call 1)) run_date (\<lambda>_. []) (re_unanswered run_around)"

lemma run_needs_evaluated: "(case run_needs of Inr needs \<Rightarrow> sn_contracts needs = [book_call 475000] | Inl _ \<Rightarrow> False)"
  by code_simp

lemma run_bars_evaluated:
  "(case bars_by_close run_date (2024, 1, 19) [needs_bar 60000, needs_bar 120000] of Inr _ \<Rightarrow> True | Inl _ \<Rightarrow> False)"
  by code_simp

lemma run_day_evaluated:
  "(case run_day of Inr d \<Rightarrow> replay_at run_around run_setup (run_market d) run_setup (Finite 10000 0) = Inr run_outcome
    | Inl _ \<Rightarrow> False)"
  by code_simp

lemma run_takes:
  "take_outcome run_outcome (snd (hd (ru_ladder (run_at (Finite 10000 0) (Finite 0 0) 0 []))))
     = Inr (snd (hd (ru_ladder (run_at (Finite 10200 0) (Finite 200 0) 1 []))))"
  "level_take 0 run_outcome (snd (hd (ru_levels (run_at (Finite 10000 0) (Finite 0 0) 0 (take 1 run_cash_kept)))))
     = Inr (snd (hd (ru_levels (run_at (Finite 10200 0) (Finite 200 0) 1 run_cash_kept))))"
  by code_simp+

abbreviation run_ends :: run_state where
  "run_ends \<equiv> run_at (Finite 10200 0) (Finite 200 0) 1 run_cash_kept"

abbreviation run_points :: "slippage_point list" where
  "run_points \<equiv> map (\<lambda>(v, ca). point_of run_setup v ca) (ru_ladder run_ends)"

lemma run_levels:
  "(case level_result (snd (hd (ru_levels run_ends))) of
     Inr lv \<Rightarrow> cl_is_setups_own lv \<and> cl_multiple lv = Finite 1 0
       \<and> (case assemble_run_result run_around run_setup run_kept run_points [lv] of
           Inr R \<Rightarrow> rn_setup R = run_setup \<and> sm_cash_ladder (rn_summary R) = Some [lv]
             \<and> sm_net_profit (rn_summary R) = Finite 200 0 \<and> sm_ending_cash (rn_summary R) = Finite 10200 0
         | Inl _ \<Rightarrow> False)
   | Inl _ \<Rightarrow> False)"
  by code_simp

lemma run_loads:
  "\<exists>d. run_day = Inr d \<and> load_session_market run_around run_setup (2024, 1, 19) run_history = Inr (run_market d, run_pins)"
proof -
  obtain needs where needs: "run_needs = Inr needs" "sn_contracts needs = [book_call 475000]"
    using run_needs_evaluated by (cases run_needs) auto
  obtain bars where bars: "bars_by_close run_date (2024, 1, 19) [needs_bar 60000, needs_bar 120000] = Inr bars"
    using run_bars_evaluated by (auto split: sum.splits)
  obtain d where d: "run_day = Inr d" using run_day_evaluated by (cases run_day) auto
  have fits: "window_fits run_setup 0 240000" by code_simp
  show ?thesis
    by (rule exI [of _ d], rule conjI [OF d])
      (use needs bars d fits in \<open>simp add: load_session_market_def run_around_def run_history_def needs_listing_def run_setup_def
        day_setup_def marketR_def needsR_def Let_def List.map_filter_def run_pins_def\<close>)
qed

lemma run_day_replayed:
  "replay_day run_around run_history (2024, 1, 19) (run_at (Finite 10000 0) (Finite 0 0) 0 (take 1 run_cash_kept))
     = Inr (last run_kept, run_at (Finite 10200 0) (Finite 200 0) 1 run_cash_kept)"
proof -
  obtain d where d: "run_day = Inr d" "load_session_market run_around run_setup (2024, 1, 19) run_history = Inr (run_market d, run_pins)"
    using run_loads by blast
  have once: "replay_at run_around run_setup (run_market d) run_setup (Finite 10000 0) = Inr run_outcome"
    using run_day_evaluated d(1) by simp
  have fits: "window_fits run_setup 0 240000" by code_simp
  have window: "re_window run_around (2024, 1, 19) = (0, 240000)" "bs_slippage_percent run_setup = Finite 0 0"
    by (simp_all add: run_around_def run_setup_def day_setup_def)
  show ?thesis using d once fits window run_takes
    by (simp add: replay_day_def replay_with_data_def run_at_def own_chain_def by_value_def runR_def Let_def run_kept_def)
qed

lemma run_accepted: "validate_run_sessions run_around run_setup [(2024, 1, 18), (2024, 1, 19)] = Inr ()"
  by code_simp

lemma run_planned: "plan_run run_setup [] [] = Inr run_plan"
  by code_simp

text \<open>The run returns: a result whose one point and one level are assembled as they stand.\<close>

lemma run_returns:
  "\<exists>R lv. run_sessions run_around run_setup [(2024, 1, 18), (2024, 1, 19)] run_history [] [] (\<lambda>_. False) = Inr R
     \<and> assemble_run_result run_around run_setup run_kept run_points [lv] = Inr R
     \<and> rn_setup R = run_setup \<and> rn_sessions R = run_kept \<and> rn_slippage R = run_points
     \<and> sm_cash_ladder (rn_summary R) = Some [lv] \<and> cl_is_setups_own lv \<and> cl_multiple lv = Finite 1 0
     \<and> sm_net_profit (rn_summary R) = Finite 200 0 \<and> sm_ending_cash (rn_summary R) = Finite 10200 0"
proof -
  have kept: "replay_days run_around run_history (\<lambda>_. False) 0 [(2024, 1, 18), (2024, 1, 19)] (run_at (Finite 1 4) (Finite 0 0) 0 [])
      = Inr (run_kept, run_ends)"
    by (simp only: replay_days.simps run_skips run_day_replayed bindR_def if_False prod.case sum.case) (simp add: run_kept_def)
  obtain lv where lv: "level_result (snd (hd (ru_levels run_ends))) = Inr lv" "cl_is_setups_own lv" "cl_multiple lv = Finite 1 0"
    using run_levels by (cases "level_result (snd (hd (ru_levels run_ends)))") simp_all
  obtain R where R: "assemble_run_result run_around run_setup run_kept run_points [lv] = Inr R" "rn_setup R = run_setup"
    "sm_cash_ladder (rn_summary R) = Some [lv]"
    "sm_net_profit (rn_summary R) = Finite 200 0" "sm_ending_cash (rn_summary R) = Finite 10200 0"
    using run_levels lv(1) by (cases "assemble_run_result run_around run_setup run_kept run_points [lv]") simp_all
  have "rn_sessions R = run_kept" "rn_slippage R = run_points"
    using R(1) by (auto simp: assemble_run_result_def bindR_Inr_iff failure_Inr split: option.splits)
  moreover obtain c lv0 where "ru_levels run_ends = [(c, lv0)]" by (simp add: run_at_def Let_def)
  then have "traverseR (\<lambda>(_, lv). runR (level_result lv)) (ru_levels run_ends) = Inr [lv]"
    using lv(1) by (simp add: runR_def)
  then have "run_sessions run_around run_setup [(2024, 1, 18), (2024, 1, 19)] run_history [] [] (\<lambda>_. False) = Inr R"
    unfolding run_sessions_def run_accepted run_planned run_began kept bindR_simps prod.case using R(1) by simp
  ultimately show ?thesis using R lv(2,3) by blast
qed

lemma run_setup_ok: "setup_ok run_setup"
  by code_simp

subsection \<open>The cash of a run\<close>

text \<open>
  C7: cash is carried exactly. A run keeps one result for each session, in order. The first starts with the setup's cash,
  each later one with the cash the one before ended with, and a session ends with the cash it started with and its
  profit, marks paid back at their marks. So the run ends with the starting cash and the sum of its sessions' profits,
  which is the ending cash of its summary; and the slippage point of the setup's own slippage reports that same profit.
\<close>

theorem run_carries_cash:
  assumes "run_sessions env su days data slippage_ladder cash_ladder should_stop = Inr R" "setup_ok su"
    and "unanswered_finite (re_unanswered env)"
  shows "map sx_open_ms (rn_sessions R) = map (\<lambda>day. fst (re_window env day)) days
    \<and> (\<exists>after. cash_chained (bs_starting_cash su) (rn_sessions R) after \<and> dval after = dval (sm_ending_cash (rn_summary R)))
    \<and> dval (sm_ending_cash (rn_summary R)) = dval (bs_starting_cash su) + sessions_profit (rn_sessions R)
    \<and> dval (sm_net_profit (rn_summary R)) = sessions_profit (rn_sessions R)
    \<and> (\<exists>p\<in>set (rn_slippage R). sp_is_setups_own p \<and> dval (sp_net_profit p) = sessions_profit (rn_sessions R))"
proof -
  obtain plan ru kept ru' levels where plan: "plan_run su slippage_ladder cash_ladder = Inr plan" and ru: "begin_run su plan = Inr ru"
    and days: "replay_days env data should_stop 0 days ru = Inr (kept, ru')"
    and R: "assemble_run_result env su kept (map (\<lambda>(v, ca). point_of su v ca) (ru_ladder ru')) levels = Inr R"
    using assms(1) by (auto simp: run_sessions_def bindR_Inr_iff)
  obtain su' where own: "own_chain ru = Inr (new_carried su' (bs_starting_cash su))" "ru_setup ru = su"
    by (rule begin_run_own [OF plan ru])
  have start: "is_finite (bs_starting_cash su)" using assms(2)
    by (auto simp: setup_ok_def setup_fields_ok_def field_figure_def dest: setup_figure_finite)
  obtain own' where o': "own_chain ru' = Inr own'" "ru_setup ru' = su" "list_all (\<lambda>sx. balanced (sx_outcome sx)) kept"
    "map sx_open_ms kept = map (\<lambda>day. fst (re_window env day)) days" "cash_chained (bs_starting_cash su) kept (ca_cash own')"
    "dval (ca_cash own') = dval (bs_starting_cash su) + sessions_profit kept" "dval (ca_net_profit own') = sessions_profit kept"
    by (rule replay_days_own [OF days own(1)]) (use own(2) assms(2,3) start in \<open>simp_all add: new_carried_def is_finite_def\<close>)
  obtain s where s: "summarize_run (re_et_date env) kept (bs_starting_cash su) = Inr s"
    and R': "rn_sessions R = kept" "rn_slippage R = map (\<lambda>(v, ca). point_of su v ca) (ru_ladder ru')"
      "sm_net_profit (rn_summary R) = sm_net_profit s" "sm_ending_cash (rn_summary R) = sm_ending_cash s"
    using R by (auto simp: assemble_run_result_def bindR_Inr_iff failure_Inr refused_def split: option.splits)
  note totals = summary_totals [OF s start o'(3)]
  obtain k where k: "(k, own') \<in> set (ru_ladder ru')" "dval k = dval (bs_slippage_percent su)"
    using o'(1,2) by (auto simp: own_chain_def dest!: by_value_Inr)
  then have "point_of su k own' \<in> set (rn_slippage R)" by (force simp: R')
  moreover have "sp_is_setups_own (point_of su k own')" "sp_net_profit (point_of su k own') = ca_net_profit own'"
    using k(2) by (simp_all add: point_of_def)
  ultimately have point: "\<exists>p\<in>set (rn_slippage R). sp_is_setups_own p \<and> dval (sp_net_profit p) = sessions_profit kept"
    using o'(7) by (intro bexI [of _ "point_of su k own'"]) simp_all
  have "\<exists>after. cash_chained (bs_starting_cash su) kept after \<and> dval after = dval (sm_ending_cash (rn_summary R))"
    using o'(5,6) totals R'(4) by (intro exI [of _ "ca_cash own'"]) simp
  with point o'(4) totals R'(3,4) show ?thesis unfolding R'(1) by simp
qed

theorem run_carries_cash_witness:
  "\<exists>R. run_sessions run_around run_setup [(2024, 1, 18), (2024, 1, 19)] run_history [] [] (\<lambda>_. False) = Inr R
     \<and> map sx_open_ms (rn_sessions R) = [- 86400000, 0] \<and> sessions_profit (rn_sessions R) = 200
     \<and> dval (sm_ending_cash (rn_summary R)) = 10200 \<and> (\<exists>after. cash_chained (Finite 1 4) (rn_sessions R) after)
     \<and> (\<exists>p\<in>set (rn_slippage R). sp_is_setups_own p \<and> dval (sp_net_profit p) = 200)"
proof -
  obtain R where R: "run_sessions run_around run_setup [(2024, 1, 18), (2024, 1, 19)] run_history [] [] (\<lambda>_. False) = Inr R"
    "sm_net_profit (rn_summary R) = Finite 200 0" "sm_ending_cash (rn_summary R) = Finite 10200 0"
    using run_returns by blast
  have "unanswered_finite (re_unanswered run_around)" by (simp add: unanswered_finite_def run_around_def)
  from run_carries_cash [OF R(1) run_setup_ok this] R show ?thesis
    by (auto simp: run_around_def run_setup_def)
qed

end
