(* ===== verification/Chains.thy ===== *)
theory Chains
  imports Run
begin

text \<open>
  \<open>app/options_backtest/chains.py\<close>: the chains of a run replayed one apiece, and merged into the run's result.

  A mapping from keys to results is an association list. Two setups are compared as the code compares them, field by
  field and figures by value (\<open>same_setup\<close>). \<open>Merge_Key_Error\<close> and \<open>Merge_Index_Error\<close> are what reading a result
  that is not there raises.

  Shown: a session is skipped or not whatever its slippage and its cash, the day loaded for it is the same at every
  slippage, and so the merged result has the sessions, the points, the tolerance and the totals of the serial run.
\<close>

datatype merge_failure =
    Merge_Run run_failure
  | Merge_Key_Error
  | Merge_Index_Error

definition mergeR :: "(run_failure, 'a) result \<Rightarrow> (merge_failure, 'a) result" where
  "mergeR m = (case m of Inl e \<Rightarrow> Inl (Merge_Run e) | Inr x \<Rightarrow> Inr x)"

lemma mergeR_Inr [result_simps]: "mergeR m = Inr x \<longleftrightarrow> m = Inr x"
  by (cases m) (simp_all add: mergeR_def)

subsection \<open>Setups compared\<close>

fun same_figure :: "decimal \<Rightarrow> decimal \<Rightarrow> bool" where
  "same_figure (Finite c e) (Finite c' e') \<longleftrightarrow> dval (Finite c e) = dval (Finite c' e')"
| "same_figure Infinite Infinite \<longleftrightarrow> True"
| "same_figure _ _ \<longleftrightarrow> False"

definition same_leg :: "leg_setup \<Rightarrow> leg_setup \<Rightarrow> bool" where
  "same_leg l l' \<longleftrightarrow> ls_leg_id l = ls_leg_id l' \<and> ls_side l = ls_side l' \<and> ls_right l = ls_right l'
     \<and> ls_contracts l = ls_contracts l' \<and> ls_expiry l = ls_expiry l' \<and> ls_strike l = ls_strike l'
     \<and> rel_option (\<lambda>r r'. sl_kind r = sl_kind r' \<and> same_figure (sl_value r) (sl_value r')) (ls_stop_loss l) (ls_stop_loss l')
     \<and> rel_option (\<lambda>m m'. mo_kind m = mo_kind m' \<and> same_figure (mo_value m) (mo_value m')) (ls_momentum l) (ls_momentum l')
     \<and> ls_reentry l = ls_reentry l'"

fun same_policy :: "fee_policy \<Rightarrow> fee_policy \<Rightarrow> bool" where
  "same_policy (Per_Contract d) (Per_Contract d') \<longleftrightarrow> same_figure d d'"
| "same_policy p p' \<longleftrightarrow> p = p'"

definition same_setup :: "backtest_setup \<Rightarrow> backtest_setup \<Rightarrow> bool" where
  "same_setup su su' \<longleftrightarrow> bs_underlying su = bs_underlying su' \<and> bs_entry su = bs_entry su' \<and> bs_exit su = bs_exit su'
     \<and> bs_no_reentry_after su = bs_no_reentry_after su' \<and> bs_square_off su = bs_square_off su'
     \<and> list_all2 same_leg (bs_legs su) (bs_legs su') \<and> same_figure (bs_slippage_percent su) (bs_slippage_percent su')
     \<and> same_figure (bs_price_step su) (bs_price_step su') \<and> same_policy (bs_fees su) (bs_fees su')
     \<and> same_figure (bs_starting_cash su) (bs_starting_cash su')"

subsection \<open>Planning, replaying and merging\<close>

definition plan_chains :: "backtest_setup \<Rightarrow> decimal list \<Rightarrow> decimal list \<Rightarrow> (run_failure, replay_chain list) result" where
  "plan_chains su slippage_ladder cash_ladder =
     bindR (plan_run su slippage_ladder cash_ladder) (\<lambda>plan. Inr (filter (\<lambda>rc. \<not> repeats_the_own_chain su rc) plan))"

definition replay_one_chain ::
  "surrounded \<Rightarrow> backtest_setup \<Rightarrow> date list \<Rightarrow> replay_chain \<Rightarrow> run_data \<Rightarrow> (nat \<Rightarrow> bool) \<Rightarrow> (run_failure, run_result) result" where
  "replay_one_chain env su days rc data should_stop =
     bindR (setup_for rc su) (\<lambda>chains_own. run_sessions env chains_own days data [] [] should_stop)"

type_synonym chain_results = "((chain_kind \<times> decimal) \<times> run_result) list"

definition result_of :: "chain_results \<Rightarrow> chain_kind \<times> decimal \<Rightarrow> (merge_failure, run_result) result" where
  "result_of results k = (case map_of results k of None \<Rightarrow> Inl Merge_Key_Error | Some R \<Rightarrow> Inr R)"

definition check_chain ::
  "surrounded \<Rightarrow> backtest_setup \<Rightarrow> date list \<Rightarrow> chain_results \<Rightarrow> replay_chain \<Rightarrow> (merge_failure, unit) result" where
  "check_chain env su days results rc =
     bindR (result_of results (chain_key rc)) (\<lambda>R.
     bindR (mergeR (setup_for rc su)) (\<lambda>chains_own.
       if \<not> same_setup (rn_setup R) chains_own \<or> map (\<lambda>sx. re_et_date env (sx_open_ms sx)) (rn_sessions R) \<noteq> days
       then Inl (Merge_Run (Run_Refused Run_Value_Error)) else Inr ()))"

definition replayed_by ::
  "backtest_setup \<Rightarrow> chain_results \<Rightarrow> run_result \<Rightarrow> replay_chain \<Rightarrow> (merge_failure, run_result) result" where
  "replayed_by su results own rc = (if repeats_the_own_chain su rc then Inr own else result_of results (chain_key rc))"

definition merged_point ::
  "backtest_setup \<Rightarrow> chain_results \<Rightarrow> run_result \<Rightarrow> replay_chain \<Rightarrow> (merge_failure, slippage_point) result" where
  "merged_point su results own rc =
     bindR (replayed_by su results own rc) (\<lambda>R.
       case rn_slippage R of
         [] \<Rightarrow> Inl Merge_Index_Error
       | p # _ \<Rightarrow> Inr (p\<lparr>sp_is_setups_own := (dval (rc_slippage rc) = dval (bs_slippage_percent su))\<rparr>))"

definition merged_level ::
  "backtest_setup \<Rightarrow> chain_results \<Rightarrow> run_result \<Rightarrow> replay_chain \<Rightarrow> (merge_failure, cash_level) result" where
  "merged_level su results own rc =
     bindR (replayed_by su results own rc) (\<lambda>R.
       case sm_cash_ladder (rn_summary R) of
         Some (lv # _) \<Rightarrow> Inr (lv\<lparr>cl_multiple := rc_multiple rc, cl_is_setups_own := repeats_the_own_chain su rc\<rparr>)
       | _ \<Rightarrow> Inl Merge_Index_Error)"

definition merge_chains ::
  "surrounded \<Rightarrow> backtest_setup \<Rightarrow> date list \<Rightarrow> chain_results \<Rightarrow> decimal list \<Rightarrow> decimal list \<Rightarrow> (merge_failure, run_result) result" where
  "merge_chains env su days results slippage_ladder cash_ladder =
     bindR (mergeR (validate_run_sessions env su days)) (\<lambda>_.
     bindR (mergeR (plan_run su slippage_ladder cash_ladder)) (\<lambda>plan.
     let replayed = filter (\<lambda>rc. \<not> repeats_the_own_chain su rc) plan in
     if set (map fst results) \<noteq> set (map chain_key replayed) then Inl (Merge_Run (Run_Refused Run_Value_Error))
     else bindR (traverseR (check_chain env su days results) replayed) (\<lambda>_.
     bindR (result_of results (Slippage_Chain, bs_slippage_percent su)) (\<lambda>own.
     bindR (traverseR (merged_point su results own) (filter (\<lambda>rc. rc_kind rc = Slippage_Chain) plan)) (\<lambda>points.
     bindR (traverseR (merged_level su results own) (filter (\<lambda>rc. rc_kind rc = Cash_Chain) plan)) (\<lambda>levels.
       mergeR (assemble_run_result env su (rn_sessions own) points levels)))))))"

subsection \<open>What does not depend on slippage\<close>

definition alike :: "backtest_setup \<Rightarrow> backtest_setup \<Rightarrow> bool" where
  "alike su su' \<longleftrightarrow> su' = su\<lparr>bs_slippage_percent := bs_slippage_percent su'\<rparr>"

abbreviation slippage_chain :: "backtest_setup \<Rightarrow> decimal \<Rightarrow> replay_chain" where
  "slippage_chain su v \<equiv> \<lparr>rc_kind = Slippage_Chain, rc_slippage = v, rc_starting_cash = bs_starting_cash su, rc_multiple = Finite 1 0\<rparr>"

lemma setup_for_alike:
  assumes "setup_for (slippage_chain su v) su = Inr su'"
  shows "alike su su'" "dval (bs_slippage_percent su') = dval v" "bs_starting_cash su' = bs_starting_cash su"
    "dval v = dval (bs_slippage_percent su) \<Longrightarrow> su' = su"
    "dval v \<noteq> dval (bs_slippage_percent su) \<Longrightarrow> bs_slippage_percent su' = v"
  using assms by (auto simp: setup_for_def alike_def refused_def Let_def split: if_splits)

lemma alikeE: assumes "alike su su'" obtains v where "su' = su\<lparr>bs_slippage_percent := v\<rparr>"
  using assms that unfolding alike_def by blast

lemma alike_fields:
  "alike su su' \<Longrightarrow> bs_entry su' = bs_entry su \<and> bs_exit su' = bs_exit su \<and> bs_legs su' = bs_legs su
     \<and> bs_underlying su' = bs_underlying su \<and> bs_square_off su' = bs_square_off su \<and> bs_fees su' = bs_fees su"
  by (erule alikeE) simp

definition skip_of :: "backtest_setup \<Rightarrow> market \<Rightarrow> skip_reason option" where
  "skip_of su mk =
     (if \<not> window_fits su (mk_open_ms mk) (mk_close_ms mk) then Some Window_Does_Not_Fit
      else if mk_underlying_close mk (time_at (bs_entry su) (mk_open_ms mk) (mk_close_ms mk)) = None
      then Some Underlying_Did_Not_Trade else None)"

lemma window_alike: "alike su su' \<Longrightarrow> window_fits su' a b = window_fits su a b"
  by (erule alikeE) (simp add: window_fits_def Let_def)

lemma skip_alike: "alike su su' \<Longrightarrow> skip_of su' mk = skip_of su mk"
  using window_alike [of su su'] by (auto simp: skip_of_def elim!: alikeE)

lemma world_alike: "alike su su' \<Longrightarrow> run_world env su' mk = run_world env su mk"
  by (erule alikeE) (auto simp: run_world_def replay_fee_def fun_eq_iff)

lemma load_alike: "alike su su' \<Longrightarrow> load_session_market env su' day data = load_session_market env su day data"
proof -
  assume su: "alike su su'"
  have fields: "bs_entry su' = bs_entry su" "bs_exit su' = bs_exit su" "bs_legs su' = bs_legs su"
    "bs_underlying su' = bs_underlying su" using alike_fields [OF su] by simp_all
  have needs: "session_needs_of cal anchor et words su' td a b bars shown = session_needs_of cal anchor et words su td a b bars shown"
    for cal anchor et words td a b bars shown
  proof -
    have returns: "can_come_back su' = can_come_back su"
      using su by (auto simp: can_come_back_def stop_can_close_def Let_def fun_eq_iff elim!: alikeE)
    show ?thesis unfolding session_needs_of_def window_alike [OF su] fields returns ..
  qed
  show ?thesis unfolding load_session_market_def window_alike [OF su] fields needs ..
qed

lemma over_legs_skipped: "over_legs f s = Inr s' \<Longrightarrow> ss_skipped s' = ss_skipped s"
  by (auto simp: over_legs_def bindR_Inr_iff)

lemma replay_skips:
  assumes "replay_session su w cash = Inr (so, seen)" "\<not> rw_observing w"
  shows "case skip_of su (world_market w) of Some reason \<Rightarrow> so = skipped_outcome reason | None \<Rightarrow> so_status so \<noteq> Skipped"
proof -
  obtain s where s: "options_session su (world_market w) None = Inr s"
    and rr: "run_replay w cash \<lparr>rp_session = s, rp_cash = cash, rp_trades = [], rp_steps = [], rp_observed = []\<rparr> = Inr (so, seen)"
    using assms(1) by (auto simp: replay_session_def Let_def bindR_Inr_iff split: if_splits)
  have s': "s = fresh_session su (world_market w)"
    using s by (auto simp: options_session_def fresh_session_def split: if_splits)
  have "so_status so \<noteq> Skipped" if "outcome_of c x = Inr so" for c x
    using that by (auto simp: outcome_of_def Let_def bindR_Inr_iff split: if_splits)
  then show ?thesis
    using rr assms(2)
    by (auto simp: run_replay_def skip_of_def s' fresh_session_def start_session_def entry_ms_def observe_flat_session_def
        observe_minutes_def Let_def bindR_Inr_iff dest!: over_legs_skipped
        split: if_splits option.splits)
qed

lemma replay_at_skips:
  assumes "replay_at env su mk su' cash = Inr so"
  shows "case skip_of su' mk of Some reason \<Rightarrow> so = skipped_outcome reason | None \<Rightarrow> so_status so \<noteq> Skipped"
proof -
  obtain seen where "replay_session su' (run_world env su mk) cash = Inr (so, seen)"
    using assms by (auto simp: replay_at_def bindR_Inr_iff failure_Inr run_Inr)
  from replay_skips [OF this] show ?thesis by (simp add: run_world_def)
qed

subsection \<open>One day of one chain\<close>

text \<open>What a day gives a chain: the market loaded for the run's setup, and the replay of the chain's own on it.\<close>

definition day_market_of :: "surrounded \<Rightarrow> backtest_setup \<Rightarrow> date \<Rightarrow> run_data \<Rightarrow> market \<times> session_pins \<Rightarrow> bool" where
  "day_market_of env su day data mp \<longleftrightarrow>
     (if window_fits su (fst (re_window env day)) (snd (re_window env day))
      then load_session_market env su day data = Inr mp
      else mp = (window_only_market (re_window env) (re_unanswered env) day, no_pins))"

definition day_outcome ::
  "surrounded \<Rightarrow> backtest_setup \<Rightarrow> date \<Rightarrow> run_data \<Rightarrow> backtest_setup \<Rightarrow> decimal \<Rightarrow> session_outcome \<times> session_pins \<Rightarrow> bool" where
  "day_outcome env su day data su' cash sp \<longleftrightarrow>
     (\<exists>mk. day_market_of env su day data (mk, snd sp)
        \<and> (case skip_of su mk of Some reason \<Rightarrow> fst sp = skipped_outcome reason
           | None \<Rightarrow> replay_at env su mk su' cash = Inr (fst sp)))"

lemma day_outcome_unique:
  "day_outcome env su day data su' cash sp \<Longrightarrow> day_outcome env su day data su' cash sp' \<Longrightarrow> sp = sp'"
  by (cases sp; cases sp') (auto simp: day_outcome_def day_market_of_def split: if_splits option.splits)

lemma day_outcome_alike:
  assumes "alike su su'" shows "day_outcome env su' day data su' cash sp = day_outcome env su day data su' cash sp"
  unfolding day_outcome_def day_market_of_def replay_at_def
    window_alike [OF assms] load_alike [OF assms] skip_alike [OF assms] world_alike [OF assms] ..

lemma replay_day_chain:
  assumes day: "replay_day env data day ru = Inr (sx, ru')" and ca: "by_value v (ru_ladder ru) = Inr ca" "ru_setup ru = su"
    and chain: "alike su (ca_setup ca)" "dval v = dval (bs_slippage_percent su) \<Longrightarrow> ca_setup ca = su"
  obtains so pins ca' where "day_outcome env su day data (ca_setup ca) (ca_cash ca) (so, pins)" "take_outcome so ca = Inr ca'"
    "by_value v (ru_ladder ru') = Inr ca'" "ru_setup ru' = su"
    "dval v = dval (bs_slippage_percent su) \<Longrightarrow>
       sx = \<lparr>sx_open_ms = fst (re_window env day), sx_close_ms = snd (re_window env day), sx_cash_before = ca_cash ca,
             sx_outcome = so, sx_cash_after = ca_cash ca', sx_pins = pins\<rparr>"
proof -
  obtain a b where win: "re_window env day = (a, b)" by (cases "re_window env day")
  let ?closed = "window_only_market (re_window env) (re_unanswered env) day"
  obtain outcomes at_cash pins own ladder levels so0 own' where
    part: "(if window_fits su a b then replay_with_data env data day ru
             else bindR (own_chain ru) (\<lambda>own. bindR (replay_at env su ?closed su (ca_cash own)) (\<lambda>skipped.
                 Inr (map (\<lambda>(v, _). (v, skipped)) (ru_ladder ru), map (\<lambda>(c, _). (c, skipped)) (ru_levels ru), no_pins))))
      = Inr (outcomes, at_cash, pins)"
    and own: "own_chain ru = Inr own"
    and t: "traverseR (\<lambda>(v, ca). bindR (by_value v outcomes) (\<lambda>so. bindR (runR (take_outcome so ca)) (\<lambda>ca'. Inr (v, ca')))) (ru_ladder ru) = Inr ladder"
    and so0: "by_value (bs_slippage_percent su) outcomes = Inr so0"
    and ru': "ru' = ru\<lparr>ru_ladder := ladder, ru_levels := levels\<rparr>" and own': "own_chain ru' = Inr own'"
    and sx: "sx = \<lparr>sx_open_ms = a, sx_close_ms = b, sx_cash_before = ca_cash own, sx_outcome = so0,
              sx_cash_after = ca_cash own', sx_pins = pins\<rparr>"
    using day ca(2) by (auto simp: replay_day_def win Let_def bindR_Inr_iff)
  obtain k ca' where k: "dval k = dval v" "by_value v ladder = Inr ca'"
    "bindR (by_value k outcomes) (\<lambda>so. bindR (runR (take_outcome so ca)) (\<lambda>ca'. Inr (k, ca'))) = Inr (k, ca')"
    by (rule by_value_traverse [OF t _ ca(1)]) (auto simp: bindR_Inr_iff)
  obtain so where so: "by_value v outcomes = Inr so" "take_outcome so ca = Inr ca'"
    using k(3) by_value_cong [OF k(1), of outcomes] by (auto simp: bindR_Inr_iff failure_Inr)
  have mine: "own = ca" if "dval v = dval (bs_slippage_percent su)"
    using own ca by_value_cong [OF that, of "ru_ladder ru"] by (simp add: own_chain_def)
  have "day_outcome env su day data (ca_setup ca) (ca_cash ca) (so, pins)"
  proof (cases "window_fits su a b")
    case True
    then have "replay_with_data env data day ru = Inr (outcomes, at_cash, pins)" using part by simp
    then obtain mk replayed where mk: "load_session_market env su day data = Inr (mk, pins)"
      and r: "replay_at env su mk su (ca_cash own) = Inr replayed"
      and o': "traverseR (\<lambda>(v, ca). if dval v = dval (bs_slippage_percent su) \<or> so_status replayed = Skipped then Inr (v, replayed)
               else bindR (replay_at env su mk (ca_setup ca) (ca_cash ca)) (\<lambda>so. Inr (v, so))) (ru_ladder ru) = Inr outcomes"
      using own ca(2) by (auto simp: replay_with_data_def Let_def bindR_Inr_iff)
    obtain j y where j: "dval j = dval v" "by_value v outcomes = Inr y"
      "(if dval j = dval (bs_slippage_percent su) \<or> so_status replayed = Skipped then Inr (j, replayed)
        else bindR (replay_at env su mk (ca_setup ca) (ca_cash ca)) (\<lambda>so. Inr (j, so))) = Inr (j, y)"
      by (rule by_value_traverse [OF o' _ ca(1)]) (auto simp: bindR_Inr_iff split: if_splits)
    have y: "y = so" using j(2) so(1) by simp
    have "case skip_of su mk of Some reason \<Rightarrow> so = skipped_outcome reason
        | None \<Rightarrow> replay_at env su mk (ca_setup ca) (ca_cash ca) = Inr so"
    proof (cases "dval v = dval (bs_slippage_percent su)")
      case True
      then show ?thesis using j(1,3) y r replay_at_skips [OF r] mine [OF True] chain(2) [OF True]
        by (auto split: option.splits)
    next
      case False
      then show ?thesis using j(1,3) y replay_at_skips [OF r]
        by (auto simp: bindR_Inr_iff skipped_outcome_def split: option.splits if_splits)
    qed
    then show ?thesis unfolding day_outcome_def day_market_of_def win fst_conv snd_conv
      using True mk by (intro exI [of _ mk]) simp
  next
    case False
    obtain skipped where r: "replay_at env su ?closed su (ca_cash own) = Inr skipped"
      and o': "outcomes = map (\<lambda>(v, _). (v, skipped)) (ru_ladder ru)" "pins = no_pins"
      using part own False by (auto simp: bindR_Inr_iff)
    have "skip_of su ?closed = Some Window_Does_Not_Fit" using False by (simp add: skip_of_def window_only_market_def win)
    moreover have "so = skipped" using by_value_Inr [OF so(1)] by (auto simp: o'(1))
    ultimately show ?thesis using False replay_at_skips [OF r] o'(2) by (auto simp: day_outcome_def day_market_of_def win)
  qed
  moreover have "sx = \<lparr>sx_open_ms = fst (re_window env day), sx_close_ms = snd (re_window env day), sx_cash_before = ca_cash ca,
       sx_outcome = so, sx_cash_after = ca_cash ca', sx_pins = pins\<rparr>" if v: "dval v = dval (bs_slippage_percent su)"
    using sx mine [OF v] so0 so(1) own' k(2) by_value_cong [OF v, of outcomes] by_value_cong [OF v, of ladder] ca(2)
    by (simp add: win own_chain_def ru')
  ultimately show thesis using that so(2) k(2) ca(2) by (simp add: ru')
qed

subsection \<open>Every day of a chain\<close>

lemma take_keeps_setup: "take_outcome so ca = Inr ca' \<Longrightarrow> ca_setup ca' = ca_setup ca"
  by (auto simp: take_outcome_def Let_def bindR_Inr_iff)

lemma replay_days_chain:
  assumes "replay_days env data stop n days ru = Inr (kept, ru')" "by_value v (ru_ladder ru) = Inr ca" "ru_setup ru = su"
    and "replay_days env data stop' n' days ru1 = Inr (kept1, ru1')" "by_value v1 (ru_ladder ru1) = Inr ca" "ru_setup ru1 = ca_setup ca"
    and "alike su (ca_setup ca)" "dval v = dval (bs_slippage_percent su) \<Longrightarrow> ca_setup ca = su"
    and "dval v1 = dval (bs_slippage_percent (ca_setup ca))"
  obtains ca' where "by_value v (ru_ladder ru') = Inr ca'" "by_value v1 (ru_ladder ru1') = Inr ca'"
    "dval v = dval (bs_slippage_percent su) \<Longrightarrow> kept = kept1"
  using assms
proof (induction days arbitrary: n n' ru ru1 kept kept1 ca thesis)
  case (Cons day days)
  obtain sx ru2 rest where day: "replay_day env data day ru = Inr (sx, ru2)"
    and rest: "replay_days env data stop (Suc n) days ru2 = Inr (rest, ru')" and kept: "kept = sx # rest"
    using Cons.prems(2) by (auto simp: bindR_Inr_iff split: if_splits)
  obtain sx1 ru3 rest1 where day1: "replay_day env data day ru1 = Inr (sx1, ru3)"
    and rest1: "replay_days env data stop' (Suc n') days ru3 = Inr (rest1, ru1')" and kept1: "kept1 = sx1 # rest1"
    using Cons.prems(5) by (auto simp: bindR_Inr_iff split: if_splits)
  obtain so pins ca2 where d: "day_outcome env su day data (ca_setup ca) (ca_cash ca) (so, pins)" "take_outcome so ca = Inr ca2"
    "by_value v (ru_ladder ru2) = Inr ca2" "ru_setup ru2 = su"
    "dval v = dval (bs_slippage_percent su) \<Longrightarrow>
       sx = \<lparr>sx_open_ms = fst (re_window env day), sx_close_ms = snd (re_window env day), sx_cash_before = ca_cash ca,
             sx_outcome = so, sx_cash_after = ca_cash ca2, sx_pins = pins\<rparr>"
    by (rule replay_day_chain [OF day Cons.prems(3,4,8,9)]) blast+
  have "alike (ca_setup ca) (ca_setup ca)" by (simp add: alike_def)
  then obtain so1 pins1 ca3 where d1: "day_outcome env (ca_setup ca) day data (ca_setup ca) (ca_cash ca) (so1, pins1)"
    "take_outcome so1 ca = Inr ca3" "by_value v1 (ru_ladder ru3) = Inr ca3" "ru_setup ru3 = ca_setup ca"
    "sx1 = \<lparr>sx_open_ms = fst (re_window env day), sx_close_ms = snd (re_window env day), sx_cash_before = ca_cash ca,
             sx_outcome = so1, sx_cash_after = ca_cash ca3, sx_pins = pins1\<rparr>"
    using replay_day_chain [OF day1 Cons.prems(6,7)] Cons.prems(10) by blast
  have same: "so1 = so" "pins1 = pins"
    using day_outcome_unique [OF d(1)] d1(1) day_outcome_alike [OF Cons.prems(8)] by auto
  then have ca3: "ca3 = ca2" using d(2) d1(2) by simp
  note kept_setup = take_keeps_setup [OF d(2)]
  obtain ca' where "by_value v (ru_ladder ru') = Inr ca'" "by_value v1 (ru_ladder ru1') = Inr ca'"
    "dval v = dval (bs_slippage_percent su) \<Longrightarrow> rest = rest1"
    using Cons.IH [OF _ rest d(3,4) rest1] d1(3,4) Cons.prems(8-10) unfolding ca3 kept_setup by blast
  then show ?case using d(5) d1(5) same ca3 by (intro Cons.prems(1) [of ca']) (auto simp: kept kept1)
qed simp

subsection \<open>The run, chain by chain\<close>

lemma replay_days_keys:
  "replay_days env data stop n days ru = Inr (kept, ru') \<Longrightarrow> map fst (ru_ladder ru') = map fst (ru_ladder ru)"
proof (induction days arbitrary: n ru kept)
  case (Cons day days)
  obtain sx ru2 rest where day: "replay_day env data day ru = Inr (sx, ru2)"
    and rest: "replay_days env data stop (Suc n) days ru2 = Inr (rest, ru')"
    using Cons.prems by (auto simp: bindR_Inr_iff split: if_splits)
  obtain outcomes ladder levels where "ru2 = ru\<lparr>ru_ladder := ladder, ru_levels := levels\<rparr>"
    and t: "traverseR (\<lambda>(v, ca). bindR (by_value v outcomes) (\<lambda>so. bindR (runR (take_outcome so ca)) (\<lambda>ca'. Inr (v, ca')))) (ru_ladder ru) = Inr ladder"
    using day by (auto simp: replay_day_def Let_def bindR_Inr_iff case_prod_unfold)
  moreover have "map fst ladder = map fst (ru_ladder ru)" by (rule traverse_keys [OF t]) (auto simp: bindR_Inr_iff)
  ultimately show ?case using Cons.IH [OF rest] by simp
qed simp

lemma plan_of_run:
  assumes "plan_run su sl cl = Inr plan"
  shows "filter (\<lambda>rc. rc_kind rc = Slippage_Chain) plan
    = map (slippage_chain su) (sort_key dval (value_set (sl @ [bs_slippage_percent su])))"
  using assms by (auto simp: plan_run_def bindR_Inr_iff failure_Inr filter_empty_conv o_def)

lemma ladder_begun:
  assumes "traverseR (\<lambda>rc. bindR (setup_for rc su) (\<lambda>su'. Inr (rc_slippage rc, new_carried su' (rc_starting_cash rc))))
      (map (slippage_chain su) vs) = Inr ladder" "v \<in> set vs" "distinct (map dval vs)"
  shows "\<exists>su'. setup_for (slippage_chain su v) su = Inr su' \<and> by_value v ladder = Inr (new_carried su' (bs_starting_cash su))"
  using assms
proof (induction vs arbitrary: ladder)
  case (Cons w vs)
  obtain su' rest where w: "setup_for (slippage_chain su w) su = Inr su'"
    and rest: "traverseR (\<lambda>rc. bindR (setup_for rc su) (\<lambda>su'. Inr (rc_slippage rc, new_carried su' (rc_starting_cash rc))))
      (map (slippage_chain su) vs) = Inr rest"
    and ladder: "ladder = (w, new_carried su' (bs_starting_cash su)) # rest"
    using Cons.prems(1) by (auto simp: bindR_Inr_iff)
  show ?case
  proof (cases "v = w")
    case True
    then show ?thesis using w by (simp add: ladder by_value_def)
  next
    case False
    then have "v \<in> set vs" "dval w \<noteq> dval v" using Cons.prems(2,3) by force+
    then show ?thesis using Cons.IH [OF rest] Cons.prems(3) by (auto simp: ladder by_value_def)
  qed
qed simp

lemma run_parts:
  assumes "run_sessions env su days data sl cl stop = Inr R"
  obtains ru kept ru' s where "replay_days env data stop 0 days ru = Inr (kept, ru')" "ru_setup ru = su"
    "map fst (ru_ladder ru') = sort_key dval (value_set (sl @ [bs_slippage_percent su]))"
    "\<And>v. v \<in> set (value_set (sl @ [bs_slippage_percent su])) \<Longrightarrow>
       \<exists>su'. setup_for (slippage_chain su v) su = Inr su' \<and> by_value v (ru_ladder ru) = Inr (new_carried su' (bs_starting_cash su))"
    "summarize_run (re_et_date env) kept (bs_starting_cash su) = Inr s"
    "rn_sessions R = kept" "rn_slippage R = map (\<lambda>(v, ca). point_of su v ca) (ru_ladder ru')"
    "rn_tolerance R = tolerance_of (rn_slippage R)"
    "(rn_summary R)\<lparr>sm_capital_evidence := None, sm_cash_ladder := None\<rparr>
      = s\<lparr>sm_capital_evidence := None, sm_cash_ladder := None, sm_stamps := Some (current_stamps (re_midnight env))\<rparr>"
proof -
  let ?vs = "sort_key dval (value_set (sl @ [bs_slippage_percent su]))"
  obtain plan ru kept ru' levels where plan: "plan_run su sl cl = Inr plan" and ru: "begin_run su plan = Inr ru"
    and days: "replay_days env data stop 0 days ru = Inr (kept, ru')"
    and R: "assemble_run_result env su kept (map (\<lambda>(v, ca). point_of su v ca) (ru_ladder ru')) levels = Inr R"
    using assms by (auto simp: run_sessions_def bindR_Inr_iff)
  have t: "traverseR (\<lambda>rc. bindR (setup_for rc su) (\<lambda>su'. Inr (rc_slippage rc, new_carried su' (rc_starting_cash rc))))
      (map (slippage_chain su) ?vs) = Inr (ru_ladder ru)" and su: "ru_setup ru = su"
    using ru unfolding begin_run_def plan_of_run [OF plan] by (auto simp: bindR_Inr_iff Let_def)
  have d: "distinct (map dval ?vs)" using value_set_facts [of "sl @ [bs_slippage_percent su]"]
    by (simp add: distinct_map inj_on_def)
  have "map fst ladder = vs" if "traverseR (\<lambda>rc. bindR (setup_for rc su) (\<lambda>su'. Inr (rc_slippage rc, new_carried su' (rc_starting_cash rc))))
      (map (slippage_chain su) vs) = Inr ladder" for vs ladder
    using that by (induction vs arbitrary: ladder) (auto simp: bindR_Inr_iff)
  from this [OF t] have keys: "map fst (ru_ladder ru') = ?vs" using replay_days_keys [OF days] by simp
  obtain s where s: "summarize_run (re_et_date env) kept (bs_starting_cash su) = Inr s"
    and R': "rn_sessions R = kept" "rn_slippage R = map (\<lambda>(v, ca). point_of su v ca) (ru_ladder ru')"
      "rn_tolerance R = tolerance_of (rn_slippage R)"
      "(rn_summary R)\<lparr>sm_capital_evidence := None, sm_cash_ladder := None\<rparr>
        = s\<lparr>sm_capital_evidence := None, sm_cash_ladder := None, sm_stamps := Some (current_stamps (re_midnight env))\<rparr>"
    using R by (auto simp: assemble_run_result_def bindR_Inr_iff failure_Inr refused_def split: option.splits)
  show thesis by (rule that [OF days su keys _ s R']) (rule ladder_begun [OF t], simp_all add: d)
qed

lemma chain_point:
  assumes run: "run_sessions env su days data sl cl stop = Inr R"
    and v: "v \<in> set (value_set (sl @ [bs_slippage_percent su]))"
    and chain: "replay_one_chain env su days (slippage_chain su v) data stop' = Inr R'"
  obtains su' p where "setup_for (slippage_chain su v) su = Inr su'" "p \<in> set (rn_slippage R)" "sp_slippage p = v"
    "sp_is_setups_own p = (dval v = dval (bs_slippage_percent su))"
    "rn_slippage R' = [p\<lparr>sp_slippage := bs_slippage_percent su', sp_is_setups_own := True\<rparr>]"
    "dval v = dval (bs_slippage_percent su) \<Longrightarrow> rn_sessions R' = rn_sessions R"
proof -
  obtain su' where su': "setup_for (slippage_chain su v) su = Inr su'" and run': "run_sessions env su' days data [] [] stop' = Inr R'"
    using chain by (auto simp: replay_one_chain_def bindR_Inr_iff)
  note like = setup_for_alike [OF su']
  have keys': "sort_key dval (value_set ([] @ [bs_slippage_percent su'])) = [bs_slippage_percent su']" by (simp add: value_set_def)
  have its: "bs_slippage_percent su' \<in> set (value_set ([] @ [bs_slippage_percent su']))" by (simp add: value_set_def)
  obtain ru kept ru2 s where serial: "replay_days env data stop 0 days ru = Inr (kept, ru2)" "ru_setup ru = su"
    "map fst (ru_ladder ru2) = sort_key dval (value_set (sl @ [bs_slippage_percent su]))"
    "\<exists>su'. setup_for (slippage_chain su v) su = Inr su' \<and> by_value v (ru_ladder ru) = Inr (new_carried su' (bs_starting_cash su))"
    "rn_sessions R = kept" "rn_slippage R = map (\<lambda>(v, ca). point_of su v ca) (ru_ladder ru2)"
    using run_parts [OF run] v by metis
  obtain ru1 kept1 ru3 s1 where own: "replay_days env data stop' 0 days ru1 = Inr (kept1, ru3)" "ru_setup ru1 = su'"
    "map fst (ru_ladder ru3) = [bs_slippage_percent su']"
    "\<exists>su''. setup_for (slippage_chain su' (bs_slippage_percent su')) su' = Inr su''
       \<and> by_value (bs_slippage_percent su') (ru_ladder ru1) = Inr (new_carried su'' (bs_starting_cash su'))"
    "rn_sessions R' = kept1" "rn_slippage R' = map (\<lambda>(v, ca). point_of su' v ca) (ru_ladder ru3)"
    using run_parts [OF run'] its keys' by metis
  let ?ca = "new_carried su' (bs_starting_cash su)"
  have start: "by_value v (ru_ladder ru) = Inr ?ca" using serial(4) su' by simp
  have start': "by_value (bs_slippage_percent su') (ru_ladder ru1) = Inr ?ca" using own(4) like(3) by (auto simp: setup_for_def)
  obtain ca where ca: "by_value v (ru_ladder ru2) = Inr ca" "by_value (bs_slippage_percent su') (ru_ladder ru3) = Inr ca"
    "dval v = dval (bs_slippage_percent su) \<Longrightarrow> kept = kept1"
    by (rule replay_days_chain [OF serial(1) start serial(2) own(1) start'])
      (use own(2) like in \<open>simp_all add: new_carried_def\<close>)
  obtain k where k: "(k, ca) \<in> set (ru_ladder ru2)" "dval k = dval v" using by_value_Inr [OF ca(1)] by blast
  have "k \<in> set (value_set (sl @ [bs_slippage_percent su]))"
    using k(1) arg_cong [OF serial(3), of set] by force
  then have kv: "k = v" using v k(2) value_set_facts [of "sl @ [bs_slippage_percent su]"] by (auto simp: distinct_map dest: inj_onD)
  have "ru_ladder ru3 = [(bs_slippage_percent su', ca)]"
    using own(3) by_value_Inr [OF ca(2)] by (auto simp: Cons_eq_map_conv)
  then show thesis using that [OF su', of "point_of su v ca"] k(1) kv own(5,6) serial(5,6) ca(3)
    by (force simp: point_of_def)
qed

lemma points_in_order:
  "run_sessions env su days data sl cl stop = Inr R \<Longrightarrow>
     map sp_slippage (rn_slippage R) = sort_key dval (value_set (sl @ [bs_slippage_percent su]))"
proof (erule run_parts)
  have firsts: "map sp_slippage (map (\<lambda>(v, ca). point_of su v ca) al) = map fst al" for al
    by (simp add: point_of_def case_prod_unfold o_def)
  fix ru' assume "rn_slippage R = map (\<lambda>(v, ca). point_of su v ca) (ru_ladder ru')"
    "map fst (ru_ladder ru') = sort_key dval (value_set (sl @ [bs_slippage_percent su]))"
  then show "map sp_slippage (rn_slippage R) = sort_key dval (value_set (sl @ [bs_slippage_percent su]))"
    by (simp only: firsts)
qed

text \<open>What a merge reads: the own chain by the setup's spelling of its slippage, and each point from its own chain.\<close>

lemma merge_parts:
  assumes "merge_chains env su days results sl cl = Inr M" "plan_chains su sl cl = Inr planned"
    "\<forall>(k, R')\<in>set results. \<exists>rc\<in>set planned. k = chain_key rc \<and> replay_one_chain env su days rc data stop' = Inr R'"
  obtains own points levels where "bs_slippage_percent su \<in> set (value_set (sl @ [bs_slippage_percent su]))"
    "replay_one_chain env su days (slippage_chain su (bs_slippage_percent su)) data stop' = Inr own"
    "list_all2 (\<lambda>v p. \<exists>R'. replay_one_chain env su days (slippage_chain su v) data stop' = Inr R' \<and> rn_slippage R' \<noteq> []
        \<and> p = (hd (rn_slippage R'))\<lparr>sp_is_setups_own := (dval v = dval (bs_slippage_percent su))\<rparr>)
      (sort_key dval (value_set (sl @ [bs_slippage_percent su]))) points"
    "assemble_run_result env su (rn_sessions own) points levels = Inr M"
proof -
  let ?vs = "sort_key dval (value_set (sl @ [bs_slippage_percent su]))"
  obtain plan own points levels where plan: "plan_run su sl cl = Inr plan"
    and own: "result_of results (Slippage_Chain, bs_slippage_percent su) = Inr own"
    and points: "traverseR (merged_point su results own) (filter (\<lambda>rc. rc_kind rc = Slippage_Chain) plan) = Inr points"
    and M: "assemble_run_result env su (rn_sessions own) points levels = Inr M"
    using assms(1) by (auto simp: merge_chains_def Let_def bindR_Inr_iff mergeR_Inr split: if_splits)
  have planned: "planned = filter (\<lambda>rc. \<not> repeats_the_own_chain su rc) plan"
    using assms(2) plan by (simp add: plan_chains_def)
  have read: "v \<in> set ?vs \<and> replay_one_chain env su days (slippage_chain su v) data stop' = Inr R'"
    if "result_of results (Slippage_Chain, v) = Inr R'" for v R'
  proof -
    have "((Slippage_Chain, v), R') \<in> set results" using that by (auto simp: result_of_def split: option.splits dest: map_of_SomeD)
    then obtain rc where rc: "rc \<in> set planned" "(Slippage_Chain, v) = chain_key rc" "replay_one_chain env su days rc data stop' = Inr R'"
      using assms(3) by blast
    then have "rc \<in> set (map (slippage_chain su) ?vs)" unfolding plan_of_run [OF plan, symmetric]
      by (auto simp: planned chain_key_def)
    then show ?thesis using rc(2,3) by (auto simp: chain_key_def)
  qed
  have "list_all2 (\<lambda>v p. merged_point su results own (slippage_chain su v) = Inr p) ?vs points"
    using points unfolding plan_of_run [OF plan] traverseR_conv by (simp add: list_all2_map1)
  then have "list_all2 (\<lambda>v p. \<exists>R'. replay_one_chain env su days (slippage_chain su v) data stop' = Inr R' \<and> rn_slippage R' \<noteq> []
        \<and> p = (hd (rn_slippage R'))\<lparr>sp_is_setups_own := (dval v = dval (bs_slippage_percent su))\<rparr>) ?vs points"
  proof (rule list_all2_mono)
    fix v p assume "merged_point su results own (slippage_chain su v) = Inr p"
    then obtain R' where R': "result_of results (Slippage_Chain, v) = Inr R'"
      "(case rn_slippage R' of [] \<Rightarrow> Inl Merge_Index_Error
        | p # _ \<Rightarrow> Inr (p\<lparr>sp_is_setups_own := (dval (rc_slippage (slippage_chain su v)) = dval (bs_slippage_percent su))\<rparr>)) = Inr p"
      by (auto simp: merged_point_def replayed_by_def repeats_the_own_chain_def chain_key_def bindR_Inr_iff)
    then show "\<exists>R'. replay_one_chain env su days (slippage_chain su v) data stop' = Inr R' \<and> rn_slippage R' \<noteq> []
        \<and> p = (hd (rn_slippage R'))\<lparr>sp_is_setups_own := (dval v = dval (bs_slippage_percent su))\<rparr>"
      using read [OF R'(1)] by (cases "rn_slippage R'") auto
  qed
  with read [OF own] M show thesis by (intro that) (auto simp: set_sort)
qed

subsection \<open>A concrete merge\<close>

abbreviation run_days :: "date list" where "run_days \<equiv> [(2024, 1, 18), (2024, 1, 19)]"

lemma run_chain_setup: "setup_for (slippage_chain run_setup (Finite 0 0)) run_setup = Inr run_setup"
  by (simp add: setup_for_def run_setup_def day_setup_def)

lemma run_chains_planned: "plan_chains run_setup [] [] = Inr [slippage_chain run_setup (Finite 0 0)]"
  by (simp add: plan_chains_def run_planned run_plan_def repeats_the_own_chain_def) (simp add: run_setup_def day_setup_def)

lemma run_merges:
  assumes "assemble_run_result run_around run_setup run_kept run_points [lv] = Inr R" "rn_setup R = run_setup"
    "rn_sessions R = run_kept" "rn_slippage R = run_points" "sm_cash_ladder (rn_summary R) = Some [lv]"
    "cl_is_setups_own lv" "cl_multiple lv = Finite 1 0"
  shows "merge_chains run_around run_setup run_days [((Slippage_Chain, Finite 0 0), R)] [] [] = Inr R"
proof -
  let ?results = "[((Slippage_Chain, Finite 0 0), R)]"
  have own: "bs_slippage_percent run_setup = Finite 0 0" "bs_starting_cash run_setup = Finite 1 4"
    by (simp_all add: run_setup_def day_setup_def)
  have "same_setup run_setup run_setup" by code_simp
  moreover have "map (\<lambda>sx. re_et_date run_around (sx_open_ms sx)) run_kept = run_days"
    by (simp add: run_around_def run_kept_def run_date_def)
  ultimately have "check_chain run_around run_setup run_days ?results (slippage_chain run_setup (Finite 0 0)) = Inr ()"
    using assms(2,3) by (simp add: check_chain_def result_of_def chain_key_def mergeR_def run_chain_setup)
  moreover have "merged_point run_setup ?results R (slippage_chain run_setup (Finite 0 0)) = Inr (hd run_points)"
    using assms(4) own by (simp add: merged_point_def replayed_by_def repeats_the_own_chain_def result_of_def chain_key_def
        run_at_def point_of_def Let_def)
  moreover obtain rc where rc: "run_plan = [slippage_chain run_setup (Finite 0 0), rc]" "rc_kind rc = Cash_Chain"
    "repeats_the_own_chain run_setup rc" "rc_multiple rc = Finite 1 0"
    "\<not> repeats_the_own_chain run_setup (slippage_chain run_setup (Finite 0 0))"
    using own by (simp add: run_plan_def repeats_the_own_chain_def)
  moreover have "merged_level run_setup ?results R rc = Inr lv"
    using assms(5-7) rc(3,4) by (simp add: merged_level_def replayed_by_def)
  moreover have "run_points = [hd run_points]" by (simp add: run_at_def Let_def)
  moreover have "set (map fst ?results) = set (map chain_key [slippage_chain run_setup (Finite 0 0)])" by (simp add: chain_key_def)
  moreover have "result_of ?results (Slippage_Chain, bs_slippage_percent run_setup) = Inr R" by (simp add: result_of_def own)
  ultimately show ?thesis using assms(1,3)
    unfolding merge_chains_def run_accepted run_planned rc(1) Let_def
    by (simp add: mergeR_def del: One_nat_def) auto
qed

subsection \<open>The merge is the run\<close>

text \<open>
  C3: replaying the chains of a run apart and merging them gives the serial run. When the serial run returns, every
  planned chain has been replayed on its own to the result it is filed under, and the merge accepts them, the merged
  result has the same sessions, cash and outcomes and pins included, the same slippage points in the same order, so the
  same tolerance, and the same summary apart from the capital evidence and the cash ladder, which come from the cash
  chains.
\<close>

theorem merged_is_serial:
  assumes "run_sessions env su days data slippage_ladder cash_ladder should_stop = Inr R"
    and "plan_chains su slippage_ladder cash_ladder = Inr planned"
    and "\<forall>(k, R')\<in>set results. \<exists>rc\<in>set planned. k = chain_key rc \<and> replay_one_chain env su days rc data should_stop' = Inr R'"
    and "merge_chains env su days results slippage_ladder cash_ladder = Inr M"
  shows "rn_sessions M = rn_sessions R \<and> rn_slippage M = rn_slippage R \<and> rn_tolerance M = rn_tolerance R
    \<and> (rn_summary M)\<lparr>sm_capital_evidence := None, sm_cash_ladder := None\<rparr>
      = (rn_summary R)\<lparr>sm_capital_evidence := None, sm_cash_ladder := None\<rparr>"
proof -
  let ?vs = "sort_key dval (value_set (slippage_ladder @ [bs_slippage_percent su]))"
  obtain own points levels where its: "bs_slippage_percent su \<in> set (value_set (slippage_ladder @ [bs_slippage_percent su]))"
    and own: "replay_one_chain env su days (slippage_chain su (bs_slippage_percent su)) data should_stop' = Inr own"
    and points: "list_all2 (\<lambda>v p. \<exists>R'. replay_one_chain env su days (slippage_chain su v) data should_stop' = Inr R' \<and> rn_slippage R' \<noteq> []
        \<and> p = (hd (rn_slippage R'))\<lparr>sp_is_setups_own := (dval v = dval (bs_slippage_percent su))\<rparr>) ?vs points"
    and M: "assemble_run_result env su (rn_sessions own) points levels = Inr M"
    by (rule merge_parts [OF assms(4,2,3)])
  have sessions: "rn_sessions own = rn_sessions R" by (rule chain_point [OF assms(1) its own]) simp
  have order: "map sp_slippage (rn_slippage R) = ?vs" by (rule points_in_order [OF assms(1)])
  have keyed: "distinct (map dval ?vs)" "set ?vs = set (value_set (slippage_ladder @ [bs_slippage_percent su]))"
    using value_set_facts [of "slippage_ladder @ [bs_slippage_percent su]"] by (simp_all add: distinct_map inj_on_def)
  have spelled: "v = bs_slippage_percent su" if "v \<in> set ?vs" "dval v = dval (bs_slippage_percent su)" for v
    using that its keyed by (auto simp: distinct_map dest: inj_onD)
  have "points ! i = rn_slippage R ! i" if i: "i < length ?vs" for i
  proof -
    define v where "v = ?vs ! i"
    have v: "v \<in> set ?vs" using i by (simp add: v_def del: set_sort)
    obtain R' where R': "replay_one_chain env su days (slippage_chain su v) data should_stop' = Inr R'"
      "points ! i = (hd (rn_slippage R'))\<lparr>sp_is_setups_own := (dval v = dval (bs_slippage_percent su))\<rparr>"
      using list_all2_nthD [OF points i] by (auto simp: v_def)
    obtain su' p where p: "setup_for (slippage_chain su v) su = Inr su'" "p \<in> set (rn_slippage R)" "sp_slippage p = v"
      "sp_is_setups_own p = (dval v = dval (bs_slippage_percent su))"
      "rn_slippage R' = [p\<lparr>sp_slippage := bs_slippage_percent su', sp_is_setups_own := True\<rparr>]"
      by (rule chain_point [OF assms(1) _ R'(1)]) (use v keyed(2) in simp)
    have "bs_slippage_percent su' = v" using setup_for_alike [OF p(1)] spelled [OF v] by auto
    then have "points ! i = p" using R'(2) p(3-5) by simp
    moreover obtain j where j: "j < length (rn_slippage R)" "rn_slippage R ! j = p" using p(2) by (auto simp: in_set_conv_nth)
    have "j = i"
      using j p(3) i order keyed(1) by (metis distinct_map length_map nth_eq_iff_index_eq nth_map v_def)
    ultimately show ?thesis using j(2) by simp
  qed
  then have same: "points = rn_slippage R"
    using list_all2_lengthD [OF points] arg_cong [OF order, of length] by (intro nth_equalityI) simp_all
  obtain kept s where R: "summarize_run (re_et_date env) kept (bs_starting_cash su) = Inr s" "rn_sessions R = kept"
    "rn_tolerance R = tolerance_of (rn_slippage R)"
    "(rn_summary R)\<lparr>sm_capital_evidence := None, sm_cash_ladder := None\<rparr>
      = s\<lparr>sm_capital_evidence := None, sm_cash_ladder := None, sm_stamps := Some (current_stamps (re_midnight env))\<rparr>"
    by (rule run_parts [OF assms(1)])
  show ?thesis using M R(1,2) unfolding same sessions R(3,4)
    by (auto simp: assemble_run_result_def bindR_Inr_iff failure_Inr refused_def split: option.splits)
qed

theorem merged_is_serial_witness:
  "\<exists>R M. run_sessions run_around run_setup run_days run_history [] [] (\<lambda>_. False) = Inr R
     \<and> replay_one_chain run_around run_setup run_days (slippage_chain run_setup (Finite 0 0)) run_history (\<lambda>_. False) = Inr R
     \<and> merge_chains run_around run_setup run_days [((Slippage_Chain, Finite 0 0), R)] [] [] = Inr M
     \<and> rn_sessions M = run_kept \<and> rn_slippage M = rn_slippage R \<and> rn_tolerance M = rn_tolerance R"
proof -
  obtain R lv where R: "run_sessions run_around run_setup run_days run_history [] [] (\<lambda>_. False) = Inr R"
    "assemble_run_result run_around run_setup run_kept run_points [lv] = Inr R" "rn_setup R = run_setup"
    "rn_sessions R = run_kept" "rn_slippage R = run_points" "sm_cash_ladder (rn_summary R) = Some [lv]"
    "cl_is_setups_own lv" "cl_multiple lv = Finite 1 0"
    using run_returns by blast
  note merged = run_merges [OF R(2-8)]
  have chain: "replay_one_chain run_around run_setup run_days (slippage_chain run_setup (Finite 0 0)) run_history (\<lambda>_. False) = Inr R"
    using R(1) by (simp add: replay_one_chain_def run_chain_setup)
  have "\<forall>(k, R')\<in>set [((Slippage_Chain, Finite 0 0), R)]. \<exists>rc\<in>set [slippage_chain run_setup (Finite 0 0)]. k = chain_key rc
      \<and> replay_one_chain run_around run_setup run_days rc run_history (\<lambda>_. False) = Inr R'"
    using chain by (simp add: chain_key_def)
  from merged_is_serial [OF R(1) run_chains_planned this merged] R(1,4) chain merged show ?thesis by blast
qed

end
