(* ===== verification/Spec2Isabelle.thy ===== *)
theory Spec2Isabelle
  imports Money Whole_Units At_Expiry Event_Allocation Structure_Check Cover_Admission Session_Delivery
    Session_Protection Chains
begin

text \<open>
  A model of the exact options core of the Python data service (\<open>src/PythonDataService/app\<close>; the paths below are under
  it): the money and option rules every order rests on, and the options backtest built over them, from the setup an owner
  writes to the figures of a run. Everything here is what that code does in whole units and \<open>Decimal\<close>; floating point is
  nowhere in it.

  \<^bold>\<open>The parts and how they meet.\<close> An options setup (\<open>options_backtest/setup.py\<close>) names legs, an entry and an exit time,
  stops, re-entries, slippage, fees and cash. For a session, \<open>needs.py\<close> asks \<open>picking.py\<close> which contracts the legs could
  come to, and \<open>session_market.py\<close> makes a market of their bars. \<open>replay.py\<close> then drives the bot's own session rules
  (\<open>options_bots/session.py\<close>) minute by minute over that market: the rules decide, the replay fills at prices and costs
  from \<open>fills.py\<close>, asks the cover book (\<open>cover_book.py\<close>, over \<open>options/requirement.py\<close>) whether an opening group may
  be taken and what collateral it pledges, charges the fee of \<open>fees.py\<close> (over the broker's fee tables), and tells each
  execution back to the session. What is left at the close is marked. The outcome's money steps are what
  \<open>capital_evidence.py\<close> reads; \<open>statistics.py\<close> adds the kept sessions up; \<open>cash_ladder.py\<close> says at which other amounts of
  cash a run is replayed. \<open>run.py\<close> composes all of these over the sessions of a run, carrying the cash of each slippage
  and of each starting cash from one session to the next, and \<open>chains.py\<close> replays the same paths one apiece and merges
  them. Beside them stand the boundary where recorded values become exact money
  (\<open>broker/alpaca/clerk/money.py\<close>), the naming of contracts, the shapes a structure may have, what one comes to at
  expiry, and the matching of assignments, exercises and expiries to the lots that hold the contracts.

  \<^bold>\<open>Theories.\<close>
  \<^item> \<open>Prelude\<close>: the result type of code that raises (\<open>Inl\<close> the error), its bind and loops, association lists as dictionaries
    in order of insertion, decimal numerals, generic list facts; \<open>result_simps\<close> opens a chain of raising statements.
  \<^item> \<open>Decimal\<close>, \<open>Exact\<close>, \<open>Money\<close>: \<open>decimal.Decimal\<close> as coefficient and exponent with \<open>dval\<close> its value; contexts that trap
    \<open>Inexact\<close>; \<open>options/exact.py\<close>; \<open>clerk/money.py\<close>.
  \<^item> \<open>Option_Contract\<close>, \<open>Whole_Units\<close>, \<open>Requirement\<close>, \<open>At_Expiry\<close>, \<open>Event_Allocation\<close>, \<open>Structure_Check\<close>: the modules of
    \<open>options/\<close> of those names (with \<open>structure.py\<close>, \<open>expiry.py\<close>, \<open>named_structures.py\<close>). \<open>Requirement\<close> has the locale
    \<open>held_requirement\<close>, the contract of a rule that prices what is held, interpreted by the portfolio rule.
  \<^item> \<open>Cover_Book\<close>, \<open>Cover_Rules\<close>, \<open>Cover_Admission\<close>: \<open>cover_book.py\<close>: its data and operations; the plan of sold legs
    that leave with bought ones, over the locale \<open>closing_rule\<close> (a loop that closes until a test holds), interpreted by
    the book's own test; the judgment of an opening group and the books that can be reached.
  \<^item> \<open>Backtest_Setup\<close>, \<open>Replay_Fills\<close>, \<open>Option_Fees\<close>: \<open>setup.py\<close>; \<open>fills.py\<close>; \<open>regulatory_fees.py\<close>, \<open>option_fees.py\<close> and
    \<open>fees.py\<close>.
  \<^item> \<open>Session_State\<close>, \<open>Session_Rules\<close>: the state and every rule of \<open>session.py\<close>, the record \<open>session\<close> being
    \<open>SessionState\<close> and \<open>advance\<close> the one entry point. \<open>Session_Invariant\<close>, \<open>Session_Runs\<close>: the validator of a saved state
    holds along every run (the inductive \<open>session_run\<close>: fresh, advanced, saved and restored). \<open>Session_Exit\<close>,
    \<open>Session_Delivery\<close>, \<open>Session_Protection\<close>: the exit time, a minute delivered twice, and the protection loop.
  \<^item> \<open>Replay\<close>: \<open>replay.py\<close>, \<open>observation.py\<close> and the outcome of \<open>results.py\<close>. \<open>Replay_Accounts\<close>, \<open>Replay_Books\<close>,
    \<open>Replay_Outcome\<close>: the books of a replay as an invariant of its minutes, and what an outcome then says.
    \<open>Replay_Reads\<close>: which answers of its market a replay can depend on.
  \<^item> \<open>Picking\<close>, \<open>Session_Needs\<close>: \<open>picking.py\<close>, \<open>sessions.py\<close>, \<open>needs.py\<close>, \<open>session_market.py\<close>.
  \<^item> \<open>Capital_Evidence\<close>, \<open>Run_Results\<close>, \<open>Statistics\<close>: \<open>capital_evidence.py\<close>; \<open>data.py\<close>, \<open>session_result.py\<close> and
    \<open>cash_ladder.py\<close>; \<open>statistics.py\<close> and \<open>run_stamps.py\<close>.
  \<^item> \<open>Run\<close>, \<open>Chains\<close>: \<open>run.py\<close>, whose \<open>_Run\<close> is the record \<open>run_state\<close> and \<open>run_sessions\<close> the entry point; \<open>chains.py\<close>.
\<close>

text \<open>
  \<^bold>\<open>How code is read.\<close> A dataclass is a \<open>record\<close> and an enum a \<open>datatype\<close>. A function that raises is one into
  \<open>error + 'a\<close>, each raise an \<open>Inl\<close> and a loop a \<open>foldR\<close>, so the first statement that raises ends it; where the code
  asserts, the model has an error of its own. A method that changes its object returns the changed record. Python's
  integers are \<open>int\<close>, dates are triples, instants are integers of milliseconds. Wording is left out: an error says which
  refusal it is, not its sentence. What the code reads from outside is a parameter: New York time (\<open>anchor\<close>, \<open>et_date\<close>,
  \<open>midnight\<close>), the NYSE calendar (\<open>sessions_between\<close>, \<open>window\<close>), the market of a session, the fee of a fill for the replay,
  the digest of an execution outcome. Nothing is assumed of these unless a theorem says so; the hypotheses it then states
  are of their documented behaviour (prices and fees are numbers, a listed contract's expiry is an anchor instant).

  \<^bold>\<open>What is shown.\<close>
  \<^item> Money: amounts keep their value through every boundary, cents round as each boundary promises, apportionment gives out
    exactly the units, exact sums never trap.
  \<^item> Options: symbols round-trip; the payoff read at finitely many prices is the true minimum, maximum and zero set over
    every price; an entry's commitment covers its worst result; an accepted event is matched whole, and in an order that
    does not depend on which of an assignment and an expiry is settled first.
  \<^item> Cover: every book reached by judged openings, allowed sales, leaving plans and buy-backs is covered, and the plans and
    judgments that keep it so always exist and are least.
  \<^item> Session: every reached state restores; a minute delivered twice does nothing; no entry is ordered at or past the exit;
    the exit winds every leg down and nothing comes back.
  \<^item> Replay: a session's profit is the cash that moved and what its marks are worth; trades are the numbered entries; fills
    are against the trader by less than one step; the contracts named as needed are enough.
  \<^item> Fees and run: estimated fees are never below the settled ones and above by at most four cents a fill after the first;
    capital evidence is the least cash the path proves; the cash levels are floors; drawdowns are the worst falls; the
    figures of a summary add up; a run carries each session's profit into the next and its totals are those sums; the
    slippage it is said to survive is exactly where its profit first ends; and the chains of a run replayed apart and
    merged give the sessions, points and totals of the run.

  \<^bold>\<open>Bounds and fuel.\<close> The protection loop is given one round for each holding and one more, and \<open>protection_plan_ends\<close>
  shows this is enough: each round before the last closes a holding. Every other loop is structural or has a measure. A
  run may be stopped before any session (\<open>should_stop k\<close> is the k-th answer), and is then an error with no result. The money
  context has 1400 digits and the context of the fills 100; the theorems that say nothing traps do so for figures a setup
  or the money boundary accepts. \<open>estimate_leans_high\<close> is for at most 1000 fills of fewer than ten million contracts, so that
  1400 digits hold every sum of the day. Examples are evaluated by the simplifier, never by generated code.

  \<^bold>\<open>Not modelled.\<close> The Clerk's SQLite event store, its admission and recovery; the adapters of brokers and their streams;
  the fleet of processes, HTTP, schemas and settings; storage, download and checks of market data; the engine for stocks,
  research, volatility and machine learning, which are floating-point numerics; the parts of \<open>options/\<close> that price with
  floats or call services (quotes, previews, American exercise, decay, bounds, the catalogue and the resolver); the runtime,
  journal and golden traces around a bot's session; and the services, saved runs, JSON and displays of the backtest. They are
  I/O, orchestration or float arithmetic, and none of them decides what is modelled here. Within the modelled modules what is
  left out is the text of messages, pydantic's reading and writing of JSON, and \<open>Ratio.exact\<close>.
\<close>

end
